(* ===== verification/TSM_Prelude.thy ===== *)
theory TSM_Prelude
  imports Main "HOL-Library.Word" "HOL-Library.FSet" "HOL-Library.Finite_Map"
    "HOL-Library.Char_ord" "HOL-Library.List_Lexorder"
begin

text \<open>
  Shared vocabulary of the development: machine integers as words, byte strings and their
  little- and big-endian integer encodings, files as byte lists with the operations the Rust
  code applies to them (resize, positional write, positional read), decimal printing and
  parsing of counters, and the result type of fallible operations with the rules that
  automation uses on it.
\<close>

section \<open>Types\<close>

type_synonym u8 = "8 word"
type_synonym u32 = "32 word"
type_synonym u64 = "64 word"
type_synonym bytes = "u8 list"

named_theorems result_iff \<open>rules that invert a successful fallible operation\<close>
named_theorems file_simps \<open>rules about files as byte lists\<close>

text \<open>
  The errors of \<open>turbomemory_core::TurboError\<close> and \<open>turbomemory_storage::StorageError\<close>.
  \<open>Panicked\<close> stands for a Rust panic (an out-of-range slice or a failed assertion).
\<close>

datatype turbo_error =
    CoreDimensionMismatch nat nat
  | ZeroNorm
  | NonFinite
  | CoreInvalidArgument string
  | QuantizationError string

datatype storage_error =
    Core turbo_error
  | Redb
  | Io
  | Serialize
  | DuplicateId string
  | NotFound string
  | DimensionMismatch
  | InvalidArgument string
  | IndexError string
  | Corrupted string
  | Panicked

type_synonym 'a result = "storage_error + 'a"

definition rbind :: "'e + 'a \<Rightarrow> ('a \<Rightarrow> 'e + 'b) \<Rightarrow> 'e + 'b" where
  "rbind m f = (case m of Inl e \<Rightarrow> Inl e | Inr x \<Rightarrow> f x)"

definition ok_or :: "'a option \<Rightarrow> 'e \<Rightarrow> 'e + 'a" where
  "ok_or m e = (case m of None \<Rightarrow> Inl e | Some x \<Rightarrow> Inr x)"

lemma rbind_simps [simp]: "rbind (Inl e) f = Inl e" "rbind (Inr x) f = f x"
  by (simp_all add: rbind_def)

lemma rbind_Inr_iff [result_iff]: "rbind m f = Inr y \<longleftrightarrow> (\<exists>x. m = Inr x \<and> f x = Inr y)"
  by (cases m) auto

lemma ok_or_simps [simp]: "ok_or None e = Inl e" "ok_or (Some x) e = Inr x"
  by (simp_all add: ok_or_def)

lemma ok_or_Inr_iff [result_iff]: "ok_or m e = Inr x \<longleftrightarrow> m = Some x"
  by (cases m) auto

section \<open>Machine arithmetic\<close>

text \<open>\<open>usize\<close> values are natural numbers below \<open>2 ^ 64\<close>; the checked operations of the
  source return \<open>None\<close> when the exact result does not fit.\<close>

definition usize_max :: nat where
  "usize_max = 2 ^ 64 - 1"

definition checked_mul :: "nat \<Rightarrow> nat \<Rightarrow> nat option" where
  "checked_mul a b = (if a * b \<le> usize_max then Some (a * b) else None)"

definition checked_add :: "nat \<Rightarrow> nat \<Rightarrow> nat option" where
  "checked_add a b = (if a + b \<le> usize_max then Some (a + b) else None)"

definition saturating_mul :: "nat \<Rightarrow> nat \<Rightarrow> nat" where
  "saturating_mul a b = min (a * b) usize_max"

definition saturating_add :: "nat \<Rightarrow> nat \<Rightarrow> nat" where
  "saturating_add a b = min (a + b) usize_max"

definition sat_sub64 :: "u64 \<Rightarrow> u64 \<Rightarrow> u64" where
  "sat_sub64 a b = (if b \<le> a then a - b else 0)"

lemma checked_mul_Some [simp]: "checked_mul a b = Some c \<longleftrightarrow> c = a * b \<and> a * b \<le> usize_max"
  by (auto simp: checked_mul_def)

lemma checked_add_Some [simp]: "checked_add a b = Some c \<longleftrightarrow> c = a + b \<and> a + b \<le> usize_max"
  by (auto simp: checked_add_def)

lemma checked_None [simp]:
  "checked_mul a b = None \<longleftrightarrow> usize_max < a * b" "checked_add a b = None \<longleftrightarrow> usize_max < a + b"
  by (auto simp: checked_mul_def checked_add_def)

lemma unat_u8_bound: "unat (w :: u8) < 256"
  by (rule order_less_le_trans [OF unsigned_less]) simp

lemma unat_u32_bound: "unat (w :: u32) < 2 ^ 32"
  by (rule order_less_le_trans [OF unsigned_less]) simp

lemma unat_u64_bound: "unat (w :: u64) < 2 ^ 64"
  by (rule order_less_le_trans [OF unsigned_less]) simp

lemma unat_le_usize_max [simp]: "unat (w :: u64) \<le> usize_max"
  using unat_u64_bound [of w] by (simp add: usize_max_def)

lemma unat_of_nat_usize [simp]: "n \<le> usize_max \<Longrightarrow> unat (word_of_nat n :: u64) = n"
  by (simp add: usize_max_def unat_of_nat)

section \<open>Integers as byte strings\<close>

fun le_bytes :: "nat \<Rightarrow> nat \<Rightarrow> bytes" where
  "le_bytes 0 x = []"
| "le_bytes (Suc n) x = word_of_nat (x mod 256) # le_bytes n (x div 256)"

fun of_le_bytes :: "bytes \<Rightarrow> nat" where
  "of_le_bytes [] = 0"
| "of_le_bytes (b # bs) = unat b + 256 * of_le_bytes bs"

lemma length_le_bytes [simp]: "length (le_bytes n x) = n"
  by (induction n arbitrary: x) auto

lemma of_le_le_bytes: "of_le_bytes (le_bytes n x) = x mod 256 ^ n"
proof (induction n arbitrary: x)
  case 0
  then show ?case by simp
next
  case (Suc n)
  have "unat (word_of_nat (x mod 256) :: u8) = x mod 256"
    by (simp add: unat_of_nat)
  moreover have "x mod 256 + 256 * (x div 256 mod 256 ^ n) = x mod 256 ^ Suc n"
    by (simp add: mod_mult2_eq)
  ultimately show ?case using Suc by simp
qed

lemma of_le_bytes_bound: "of_le_bytes bs < 256 ^ length bs"
proof (induction bs)
  case (Cons b bs)
  have "unat b < 256" by (rule unat_u8_bound)
  then show ?case using Cons by (simp add: algebra_simps)
qed simp

lemma le_of_le_bytes: "le_bytes (length bs) (of_le_bytes bs) = bs"
proof (induction bs)
  case (Cons b bs)
  have "unat b < 256" by (rule unat_u8_bound)
  then show ?case using Cons by simp
qed simp

definition u32_to_be_bytes :: "u32 \<Rightarrow> bytes" where
  "u32_to_be_bytes w = rev (le_bytes 4 (unat w))"

definition u32_from_be_bytes :: "bytes \<Rightarrow> u32" where
  "u32_from_be_bytes bs = word_of_nat (of_le_bytes (rev bs))"

definition u32_to_le_bytes :: "u32 \<Rightarrow> bytes" where
  "u32_to_le_bytes w = le_bytes 4 (unat w)"

definition u32_from_le_bytes :: "bytes \<Rightarrow> u32" where
  "u32_from_le_bytes bs = word_of_nat (of_le_bytes bs)"

definition u64_to_le_bytes :: "u64 \<Rightarrow> bytes" where
  "u64_to_le_bytes w = le_bytes 8 (unat w)"

definition u64_from_le_bytes :: "bytes \<Rightarrow> u64" where
  "u64_from_le_bytes bs = word_of_nat (of_le_bytes bs)"

lemma length_int_bytes [simp]:
  "length (u32_to_be_bytes w) = 4" "length (u32_to_le_bytes w) = 4" "length (u64_to_le_bytes v) = 8"
  by (simp_all add: u32_to_be_bytes_def u32_to_le_bytes_def u64_to_le_bytes_def)

lemma unat_mod_u32: "unat (w :: u32) mod 256 ^ 4 = unat w"
  using unat_u32_bound [of w] by simp

lemma unat_mod_u64: "unat (w :: u64) mod 256 ^ 8 = unat w"
  using unat_u64_bound [of w] by simp

lemma u32_be_roundtrip [simp]: "u32_from_be_bytes (u32_to_be_bytes w) = w"
  by (simp add: u32_from_be_bytes_def u32_to_be_bytes_def of_le_le_bytes unat_mod_u32 [simplified])

lemma u32_le_roundtrip [simp]: "u32_from_le_bytes (u32_to_le_bytes w) = w"
  by (simp add: u32_from_le_bytes_def u32_to_le_bytes_def of_le_le_bytes unat_mod_u32 [simplified])

lemma u64_le_roundtrip [simp]: "u64_from_le_bytes (u64_to_le_bytes w) = w"
  by (simp add: u64_from_le_bytes_def u64_to_le_bytes_def of_le_le_bytes unat_mod_u64 [simplified])

lemma u32_le_bytes_inverse: "length bs = 4 \<Longrightarrow> u32_to_le_bytes (u32_from_le_bytes bs) = bs"
  using of_le_bytes_bound [of bs] le_of_le_bytes [of bs]
  by (simp add: u32_from_le_bytes_def u32_to_le_bytes_def unat_of_nat)

section \<open>Finite sets in order\<close>

lemma sorted_list_of_fset_props [simp]:
  "distinct (sorted_list_of_fset A)" "sorted (sorted_list_of_fset A)" "set (sorted_list_of_fset A) = fset A"
  by (simp_all add: sorted_list_of_fset.rep_eq)

lemma sorted_list_of_fset_small [simp]: "sorted_list_of_fset {||} = []" "sorted_list_of_fset {|x|} = [x]"
  by (simp_all add: sorted_list_of_fset.rep_eq)

lemma fcard_small [simp]: "fcard {||} = 0"
  by (simp add: fcard.rep_eq)

lemma sorted_list_of_fset_empty_iff [simp]: "sorted_list_of_fset A = [] \<longleftrightarrow> A = {||}"
proof -
  have "sorted_list_of_fset A = [] \<longleftrightarrow> fset A = {}"
    by (simp add: sorted_list_of_fset.rep_eq)
  then show ?thesis by (metis bot_fset.rep_eq fset_inject)
qed

lemma ffUnion_iff: "x |\<in>| ffUnion A \<longleftrightarrow> (\<exists>B. B |\<in>| A \<and> x |\<in>| B)"
  by (simp add: ffUnion.rep_eq Bex_def)

lemma distinct_singleton_list: "set xs = {a} \<Longrightarrow> distinct xs \<Longrightarrow> xs = [a]"
  by (cases xs; cases "tl xs"; force)

section \<open>Files\<close>

text \<open>\<open>File::set_len\<close> truncates or extends with zero bytes; \<open>write_at\<close> overwrites a range that
  lies inside the file; \<open>read_at\<close> is a checked slice.\<close>

definition set_len :: "nat \<Rightarrow> bytes \<Rightarrow> bytes" where
  "set_len n f = take n f @ replicate (n - length f) 0"

definition write_at :: "nat \<Rightarrow> bytes \<Rightarrow> bytes \<Rightarrow> bytes" where
  "write_at p bs f = take p f @ bs @ drop (p + length bs) f"

definition read_at :: "nat \<Rightarrow> nat \<Rightarrow> bytes \<Rightarrow> bytes option" where
  "read_at p n f = (if p + n \<le> length f then Some (take n (drop p f)) else None)"

lemma length_set_len [file_simps]: "length (set_len n f) = n"
  by (simp add: set_len_def)

lemma length_write_at [file_simps]:
  "p + length bs \<le> length f \<Longrightarrow> length (write_at p bs f) = length f"
  by (simp add: write_at_def)

lemma read_write_same [file_simps]:
  "p + length bs \<le> length f \<Longrightarrow> n = length bs \<Longrightarrow> read_at p n (write_at p bs f) = Some bs"
  by (simp add: read_at_def write_at_def)

lemma read_write_before [file_simps]:
  "p + length bs \<le> length f \<Longrightarrow> q + n \<le> p \<Longrightarrow> read_at q n (write_at p bs f) = read_at q n f"
  by (simp add: read_at_def write_at_def drop_take min_absorb2)

lemma read_write_after [file_simps]:
  assumes "p + length bs \<le> length f" and "p + length bs \<le> q"
  shows "read_at q n (write_at p bs f) = read_at q n f"
proof -
  have "drop q (write_at p bs f) = drop q f"
    using assms by (simp add: write_at_def)
  then show ?thesis using assms by (simp add: read_at_def length_write_at)
qed

lemma read_set_len [file_simps]:
  assumes "length f \<le> m" and "q + n \<le> length f"
  shows "read_at q n (set_len m f) = read_at q n f"
  using assms by (simp add: read_at_def set_len_def)

section \<open>Decimal counters\<close>

text \<open>\<open>u64::to_string\<close> and \<open>str::parse::<u64>\<close> of the standard library: at least one digit,
  no leading zeros when printing; parsing accepts one leading plus sign, rejects the empty
  string, any other character, and a value that does not fit.\<close>

definition digit_char :: "nat \<Rightarrow> char" where
  "digit_char d = char_of (48 + d)"

fun dec_digits :: "nat \<Rightarrow> string" where
  "dec_digits n = (if n < 10 then [digit_char n] else dec_digits (n div 10) @ [digit_char (n mod 10)])"

declare dec_digits.simps [simp del]

definition u64_to_string :: "u64 \<Rightarrow> string" where
  "u64_to_string w = dec_digits (unat w)"

definition char_digit :: "char \<Rightarrow> nat option" where
  "char_digit c = (let n = of_char c :: nat in if 48 \<le> n \<and> n \<le> 57 then Some (n - 48) else None)"

fun dec_value :: "nat \<Rightarrow> string \<Rightarrow> nat option" where
  "dec_value acc [] = Some acc"
| "dec_value acc (c # cs) =
     (case char_digit c of None \<Rightarrow> None | Some d \<Rightarrow> dec_value (10 * acc + d) cs)"

definition parse_u64 :: "string \<Rightarrow> u64 option" where
  "parse_u64 s =
     (let t = (case s of c # cs \<Rightarrow> if c = CHR ''+'' then cs else s | [] \<Rightarrow> s) in
      if t = [] then None
      else case dec_value 0 t of
        None \<Rightarrow> None
      | Some n \<Rightarrow> if n \<le> usize_max then Some (word_of_nat n) else None)"

lemma char_digit_digit [simp]: "d < 10 \<Longrightarrow> char_digit (digit_char d) = Some d"
  by (simp add: char_digit_def digit_char_def)

lemma dec_value_append:
  "dec_value a (xs @ ys) = (case dec_value a xs of None \<Rightarrow> None | Some b \<Rightarrow> dec_value b ys)"
  by (induction xs arbitrary: a) (auto split: option.splits)

lemma dec_value_digits: "dec_value 0 (dec_digits n) = Some n"
proof (induction n rule: dec_digits.induct)
  case (1 n)
  then show ?case
    by (cases "n < 10") (simp_all add: dec_digits.simps [of n] dec_value_append)
qed

lemma dec_digits_nonempty [simp]: "dec_digits n \<noteq> []"
  by (subst dec_digits.simps) simp

lemma hd_dec_digits: "\<exists>d < 10. hd (dec_digits n) = digit_char d"
proof (induction n rule: dec_digits.induct)
  case (1 n)
  then show ?case
    by (cases "n < 10") (auto simp: dec_digits.simps [of n])
qed

lemma digit_char_not_plus: "d < 10 \<Longrightarrow> digit_char d \<noteq> CHR ''+''"
  using char_digit_digit [of d] by (auto simp: char_digit_def)

lemma parse_u64_to_string [simp]: "parse_u64 (u64_to_string w) = Some w"
proof -
  obtain c cs where s: "dec_digits (unat w) = c # cs"
    by (meson dec_digits_nonempty neq_Nil_conv)
  then have "c \<noteq> CHR ''+''"
    using hd_dec_digits [of "unat w"] digit_char_not_plus by auto
  then show ?thesis
    using s dec_value_digits [of "unat w"] by (simp add: parse_u64_def u64_to_string_def)
qed

end
