(* ===== verification/Floats.thy ===== *)
theory Floats
  imports Complex_Main TSM_Prelude
begin

text \<open>
  The floating-point values of the program, bit for bit. An \<open>f32\<close> is its 32-bit pattern and an
  \<open>f64\<close> its 64-bit pattern; classification and comparison are the ones of Rust's standard
  library, and arithmetic is IEEE 754 with one rounding to nearest, ties to even, of the exact
  rational result. A NaN result is the canonical quiet NaN (the language leaves its payload
  open). The second half models \<open>turbomemory_core/src/lib.rs\<close>: validation, normalization and
  the score comparator every ranking uses.
\<close>

section \<open>Formats\<close>

record float_fmt =
  mant_bits :: nat
  exp_bits :: nat

type_synonym f32 = u32
type_synonym f64 = u64

definition fmt32 :: float_fmt where
  "fmt32 = \<lparr>mant_bits = 23, exp_bits = 8\<rparr>"

definition fmt64 :: float_fmt where
  "fmt64 = \<lparr>mant_bits = 52, exp_bits = 11\<rparr>"

definition sign_pos :: "float_fmt \<Rightarrow> nat" where
  "sign_pos F = mant_bits F + exp_bits F"

text \<open>The magnitude of a pattern (everything but the sign) of infinity and of the least normal
  number, and the exponent of the last place of subnormal numbers.\<close>

definition inf_mag :: "float_fmt \<Rightarrow> nat" where
  "inf_mag F = (2 ^ exp_bits F - 1) * 2 ^ mant_bits F"

definition min_quantum :: "float_fmt \<Rightarrow> int" where
  "min_quantum F = 2 - 2 ^ (exp_bits F - 1) - int (mant_bits F)"

definition mag_of :: "float_fmt \<Rightarrow> nat \<Rightarrow> nat" where
  "mag_of F n = n mod 2 ^ sign_pos F"

definition neg_of :: "float_fmt \<Rightarrow> nat \<Rightarrow> bool" where
  "neg_of F n \<longleftrightarrow> 2 ^ sign_pos F \<le> n"

definition nan_pat :: "float_fmt \<Rightarrow> nat \<Rightarrow> bool" where
  "nan_pat F n \<longleftrightarrow> inf_mag F < mag_of F n"

definition finite_pat :: "float_fmt \<Rightarrow> nat \<Rightarrow> bool" where
  "finite_pat F n \<longleftrightarrow> mag_of F n < inf_mag F"

definition normal_pat :: "float_fmt \<Rightarrow> nat \<Rightarrow> bool" where
  "normal_pat F n \<longleftrightarrow> 2 ^ mant_bits F \<le> mag_of F n \<and> mag_of F n < inf_mag F"

text \<open>Order keys: \<open>num_key\<close> orders the values (both zeros equal), \<open>total_key\<close> is the order of
  \<open>total_cmp\<close>, in which every pattern has its own place.\<close>

definition num_key :: "float_fmt \<Rightarrow> nat \<Rightarrow> int" where
  "num_key F n = (if neg_of F n then - int (mag_of F n) else int (mag_of F n))"

definition total_key :: "float_fmt \<Rightarrow> nat \<Rightarrow> int" where
  "total_key F n = (if neg_of F n then - int (mag_of F n) - 1 else int (mag_of F n))"

section \<open>Values and rounding\<close>

definition pow2 :: "int \<Rightarrow> rat" where
  "pow2 e = (if 0 \<le> e then 2 ^ nat e else 1 / 2 ^ nat (- e))"

text \<open>The exact value of a finite pattern.\<close>

definition float_val :: "float_fmt \<Rightarrow> nat \<Rightarrow> rat" where
  "float_val F n =
     (let m = mag_of F n; e = m div 2 ^ mant_bits F; f = m mod 2 ^ mant_bits F;
          v = (if e = 0 then of_nat f * pow2 (min_quantum F)
               else of_nat (2 ^ mant_bits F + f) * pow2 (min_quantum F + int e - 1))
      in if neg_of F n then - v else v)"

fun bit_len :: "nat \<Rightarrow> nat" where
  "bit_len n = (if n = 0 then 0 else Suc (bit_len (n div 2)))"

declare bit_len.simps [simp del]

text \<open>The floor of the binary logarithm of a positive rational.\<close>

definition rat_log2 :: "rat \<Rightarrow> int" where
  "rat_log2 q =
     (let (a, b) = quotient_of q; k = int (bit_len (nat a)) - int (bit_len (nat b))
      in if q < pow2 k then k - 1 else k)"

definition round_half_even :: "rat \<Rightarrow> nat" where
  "round_half_even q =
     (let n = nat \<lfloor>q\<rfloor>; r = q - of_nat n
      in if r < 1 / 2 then n else if 1 / 2 < r then Suc n else if even n then n else Suc n)"

text \<open>Rounding a non-negative exact result: choose the last place, round to an integral multiple
  of it, and encode; a magnitude past the largest finite number is infinity.\<close>

definition quantum_of :: "float_fmt \<Rightarrow> int \<Rightarrow> int" where
  "quantum_of F l = max (l - int (mant_bits F)) (min_quantum F)"

definition encode_mag :: "float_fmt \<Rightarrow> int \<Rightarrow> nat \<Rightarrow> nat" where
  "encode_mag F qe n = min (nat (qe - min_quantum F) * 2 ^ mant_bits F + n) (inf_mag F)"

definition round_mag :: "float_fmt \<Rightarrow> rat \<Rightarrow> nat" where
  "round_mag F q =
     (if q = 0 then 0
      else let qe = quantum_of F (rat_log2 q) in encode_mag F qe (round_half_even (q / pow2 qe)))"

definition with_sign :: "float_fmt \<Rightarrow> bool \<Rightarrow> nat \<Rightarrow> nat" where
  "with_sign F s m = (if s then 2 ^ sign_pos F + m else m)"

definition round_pat :: "float_fmt \<Rightarrow> rat \<Rightarrow> nat" where
  "round_pat F q = with_sign F (q < 0) (round_mag F \<bar>q\<bar>)"

definition nan_canon :: "float_fmt \<Rightarrow> nat" where
  "nan_canon F = inf_mag F + 2 ^ (mant_bits F - 1)"

section \<open>Arithmetic on patterns\<close>

definition pat_add :: "float_fmt \<Rightarrow> nat \<Rightarrow> nat \<Rightarrow> nat" where
  "pat_add F a b =
     (if nan_pat F a \<or> nan_pat F b then nan_canon F
      else if \<not> finite_pat F a then
        (if \<not> finite_pat F b \<and> neg_of F a \<noteq> neg_of F b then nan_canon F else a)
      else if \<not> finite_pat F b then b
      else let v = float_val F a + float_val F b in
        if v = 0 then with_sign F (neg_of F a \<and> neg_of F b) 0 else round_pat F v)"

definition pat_neg :: "float_fmt \<Rightarrow> nat \<Rightarrow> nat" where
  "pat_neg F a = with_sign F (\<not> neg_of F a) (mag_of F a)"

definition pat_sub :: "float_fmt \<Rightarrow> nat \<Rightarrow> nat \<Rightarrow> nat" where
  "pat_sub F a b = pat_add F a (pat_neg F b)"

definition pat_mul :: "float_fmt \<Rightarrow> nat \<Rightarrow> nat \<Rightarrow> nat" where
  "pat_mul F a b =
     (let s = (neg_of F a \<noteq> neg_of F b) in
      if nan_pat F a \<or> nan_pat F b then nan_canon F
      else if \<not> finite_pat F a \<or> \<not> finite_pat F b then
        (if mag_of F a = 0 \<or> mag_of F b = 0 then nan_canon F else with_sign F s (inf_mag F))
      else with_sign F s (round_mag F \<bar>float_val F a * float_val F b\<bar>))"

definition pat_div :: "float_fmt \<Rightarrow> nat \<Rightarrow> nat \<Rightarrow> nat" where
  "pat_div F a b =
     (let s = (neg_of F a \<noteq> neg_of F b) in
      if nan_pat F a \<or> nan_pat F b then nan_canon F
      else if \<not> finite_pat F a then
        (if \<not> finite_pat F b then nan_canon F else with_sign F s (inf_mag F))
      else if \<not> finite_pat F b then with_sign F s 0
      else if mag_of F b = 0 then
        (if mag_of F a = 0 then nan_canon F else with_sign F s (inf_mag F))
      else with_sign F s (round_mag F \<bar>float_val F a / float_val F b\<bar>))"

fun isqrt :: "nat \<Rightarrow> nat" where
  "isqrt n = (if n = 0 then 0
     else let r = 2 * isqrt (n div 4) in if (r + 1) * (r + 1) \<le> n then r + 1 else r)"

declare isqrt.simps [simp del]

text \<open>Rounding the square root of an exact value to an integer, ties to even.\<close>

definition sqrt_half_even :: "rat \<Rightarrow> nat" where
  "sqrt_half_even q =
     (let n = isqrt (nat \<lfloor>q\<rfloor>); h = (of_nat n + 1 / 2) * (of_nat n + 1 / 2)
      in if q < h then n else if h < q then Suc n else if even n then n else Suc n)"

definition pat_sqrt :: "float_fmt \<Rightarrow> nat \<Rightarrow> nat" where
  "pat_sqrt F a =
     (if nan_pat F a then nan_canon F
      else if mag_of F a = 0 then a
      else if neg_of F a then nan_canon F
      else if \<not> finite_pat F a then a
      else let v = float_val F a; qe = quantum_of F (rat_log2 v div 2)
           in encode_mag F qe (sqrt_half_even (v / (pow2 qe * pow2 qe))))"

section \<open>Single precision\<close>

definition f32_is_nan :: "f32 \<Rightarrow> bool" where
  "f32_is_nan a \<longleftrightarrow> nan_pat fmt32 (unat a)"

definition f32_is_finite :: "f32 \<Rightarrow> bool" where
  "f32_is_finite a \<longleftrightarrow> finite_pat fmt32 (unat a)"

definition f32_is_normal :: "f32 \<Rightarrow> bool" where
  "f32_is_normal a \<longleftrightarrow> normal_pat fmt32 (unat a)"

definition f32_abs :: "f32 \<Rightarrow> f32" where
  "f32_abs a = word_of_nat (mag_of fmt32 (unat a))"

definition f32_eq :: "f32 \<Rightarrow> f32 \<Rightarrow> bool" where
  "f32_eq a b \<longleftrightarrow> \<not> f32_is_nan a \<and> \<not> f32_is_nan b \<and> num_key fmt32 (unat a) = num_key fmt32 (unat b)"

definition f32_lt :: "f32 \<Rightarrow> f32 \<Rightarrow> bool" where
  "f32_lt a b \<longleftrightarrow> \<not> f32_is_nan a \<and> \<not> f32_is_nan b \<and> num_key fmt32 (unat a) < num_key fmt32 (unat b)"

definition f32_le :: "f32 \<Rightarrow> f32 \<Rightarrow> bool" where
  "f32_le a b \<longleftrightarrow> \<not> f32_is_nan a \<and> \<not> f32_is_nan b \<and> num_key fmt32 (unat a) \<le> num_key fmt32 (unat b)"

definition f32_max :: "f32 \<Rightarrow> f32 \<Rightarrow> f32" where
  "f32_max a b = (if f32_is_nan a then b else if f32_is_nan b then a else if f32_lt a b then b else a)"

text \<open>\<open>f32::clamp\<close> for bounds that are not NaN and in order (it panics otherwise).\<close>

definition f32_clamp :: "f32 \<Rightarrow> f32 \<Rightarrow> f32 \<Rightarrow> f32" where
  "f32_clamp x lo hi = (if f32_lt x lo then lo else if f32_lt hi x then hi else x)"

definition f32_add :: "f32 \<Rightarrow> f32 \<Rightarrow> f32" where
  "f32_add a b = word_of_nat (pat_add fmt32 (unat a) (unat b))"

definition f32_mul :: "f32 \<Rightarrow> f32 \<Rightarrow> f32" where
  "f32_mul a b = word_of_nat (pat_mul fmt32 (unat a) (unat b))"

definition f32_div :: "f32 \<Rightarrow> f32 \<Rightarrow> f32" where
  "f32_div a b = word_of_nat (pat_div fmt32 (unat a) (unat b))"

definition f32_sqrt :: "f32 \<Rightarrow> f32" where
  "f32_sqrt a = word_of_nat (pat_sqrt fmt32 (unat a))"

definition f32_of_rat :: "rat \<Rightarrow> f32" where
  "f32_of_rat q = word_of_nat (round_pat fmt32 q)"

definition f32_zero :: f32 where
  "f32_zero = 0"

definition f32_one :: f32 where
  "f32_one = 0x3F800000"

definition f64_is_nan :: "f64 \<Rightarrow> bool" where
  "f64_is_nan a \<longleftrightarrow> nan_pat fmt64 (unat a)"

section \<open>Ordering of scores\<close>

datatype ordering = Less | Equal | Greater

definition cmp_int :: "int \<Rightarrow> int \<Rightarrow> ordering" where
  "cmp_int a b = (if a < b then Less else if a = b then Equal else Greater)"

definition f32_total_cmp :: "f32 \<Rightarrow> f32 \<Rightarrow> ordering" where
  "f32_total_cmp a b = cmp_int (total_key fmt32 (unat a)) (total_key fmt32 (unat b))"

definition f64_total_cmp :: "f64 \<Rightarrow> f64 \<Rightarrow> ordering" where
  "f64_total_cmp a b = cmp_int (total_key fmt64 (unat a)) (total_key fmt64 (unat b))"

definition cmp_score_desc :: "f32 \<Rightarrow> f32 \<Rightarrow> ordering" where
  "cmp_score_desc a b =
     (case (f32_is_nan a, f32_is_nan b) of
        (False, False) \<Rightarrow> f32_total_cmp b a
      | (True, True) \<Rightarrow> Equal
      | (True, False) \<Rightarrow> Greater
      | (False, True) \<Rightarrow> Less)"

section \<open>Validation and normalization\<close>

definition validate_dimension :: "f32 list \<Rightarrow> nat \<Rightarrow> turbo_error + unit" where
  "validate_dimension v d =
     (if length v \<noteq> d then Inl (CoreDimensionMismatch d (length v)) else Inr ())"

definition validate_finite :: "f32 list \<Rightarrow> turbo_error + unit" where
  "validate_finite v = (if list_all f32_is_finite v then Inr () else Inl NonFinite)"

definition validate_query :: "f32 list \<Rightarrow> nat \<Rightarrow> turbo_error + unit" where
  "validate_query v d = rbind (validate_dimension v d) (\<lambda>_. validate_finite v)"

text \<open>The first loop of \<open>normalize\<close>: the largest magnitude, or the early return on a component
  that is not finite.\<close>

fun max_abs_loop :: "f32 list \<Rightarrow> f32 \<Rightarrow> turbo_error + f32" where
  "max_abs_loop [] acc = Inr acc"
| "max_abs_loop (x # xs) acc =
     (if \<not> f32_is_finite x then Inl NonFinite else max_abs_loop xs (f32_max acc (f32_abs x)))"

definition f32_sum :: "f32 list \<Rightarrow> f32" where
  "f32_sum xs = foldl f32_add 0x80000000 xs"

definition normalize :: "f32 list \<Rightarrow> turbo_error + f32 list" where
  "normalize v = rbind (max_abs_loop v f32_zero) (\<lambda>max_abs.
     if f32_eq max_abs f32_zero then Inl ZeroNorm
     else let norm = f32_sqrt (f32_sum (map (\<lambda>x. f32_mul x x) v)) in
       if f32_is_normal norm then Inr (map (\<lambda>x. f32_div x norm) v)
       else let norm2 = f32_sqrt (f32_sum (map (\<lambda>x. let s = f32_div x max_abs in f32_mul s s) v))
            in Inr (map (\<lambda>x. f32_div (f32_div x max_abs) norm2) v))"

section \<open>Stable sorting by a comparator\<close>

text \<open>\<open>slice::sort_by\<close> is a stable sort, so its result is determined by the comparator; it is
  computed here by insertion.\<close>

fun insert_by :: "('a \<Rightarrow> 'a \<Rightarrow> ordering) \<Rightarrow> 'a \<Rightarrow> 'a list \<Rightarrow> 'a list" where
  "insert_by c x [] = [x]"
| "insert_by c x (y # ys) = (if c x y = Greater then y # insert_by c x ys else x # y # ys)"

definition sort_by :: "('a \<Rightarrow> 'a \<Rightarrow> ordering) \<Rightarrow> 'a list \<Rightarrow> 'a list" where
  "sort_by c xs = foldr (insert_by c) xs []"

lemma cmp_int_Greater [simp]: "cmp_int a b = Greater \<longleftrightarrow> b < a"
  by (simp add: cmp_int_def)

lemma cmp_int_Equal [simp]: "cmp_int a b = Equal \<longleftrightarrow> a = b"
  by (simp add: cmp_int_def)

lemma cmp_int_Less [simp]: "cmp_int a b = Less \<longleftrightarrow> a < b"
  by (simp add: cmp_int_def)

lemma insert_by_key: "(\<And>x y. c x y = Greater \<longleftrightarrow> k y < k x) \<Longrightarrow> insert_by c x ys = insort_key k x ys"
  for k :: "'a \<Rightarrow> 'b::linorder"
  by (induction ys) (auto simp: not_less)

lemma sort_by_key: "(\<And>x y. c x y = Greater \<longleftrightarrow> k y < k x) \<Longrightarrow> sort_by c xs = sort_key k xs"
  for k :: "'a \<Rightarrow> 'b::linorder"
  by (simp add: sort_by_def sort_key_def insert_by_key cong: foldr_cong)

section \<open>The score comparator is a total preorder with NaN last\<close>

definition score_rank :: "f32 \<Rightarrow> int" where
  "score_rank a = (if f32_is_nan a then 2 ^ 32 else - total_key fmt32 (unat a))"

lemma fmt_sizes [simp]:
  "sign_pos fmt32 = 31" "inf_mag fmt32 = 0x7F800000" "mant_bits fmt32 = 23"
  "sign_pos fmt64 = 63" "mant_bits fmt64 = 52"
  by (simp_all add: sign_pos_def inf_mag_def fmt32_def fmt64_def)

lemma mag_of_bound32 [simp]: "mag_of fmt32 n < 2 ^ 31"
  by (simp add: mag_of_def)

lemma cmp_score_desc_rank: "cmp_score_desc a b = cmp_int (score_rank a) (score_rank b)"
proof -
  have "- total_key fmt32 n < 2 ^ 32" for n
    using mag_of_bound32 [of n] by (auto simp: total_key_def)
  from this [of "unat a"] this [of "unat b"] show ?thesis
    by (auto simp: cmp_score_desc_def score_rank_def f32_total_cmp_def cmp_int_def
        split: bool.splits)
qed

lemma total_key_inj:
  assumes "n < 2 ^ 32" "m < 2 ^ 32" "total_key fmt32 n = total_key fmt32 m"
  shows "n = m"
proof -
  have split: "x = 2 ^ 31 * (x div 2 ^ 31) + x mod 2 ^ 31" for x :: nat
    by simp
  have "n div 2 ^ 31 = (if 2 ^ 31 \<le> n then 1 else 0)" "m div 2 ^ 31 = (if 2 ^ 31 \<le> m then 1 else 0)"
    using assms(1,2) by auto
  moreover have "(2 ^ 31 \<le> n) = (2 ^ 31 \<le> m)" and "n mod 2 ^ 31 = m mod 2 ^ 31"
    using assms(3) by (auto simp: total_key_def neg_of_def mag_of_def split: if_splits)
  ultimately show ?thesis using split [of n] split [of m] by auto
qed

text \<open>Two scores compare equal only when they are the same pattern or both NaN.\<close>

lemma cmp_score_desc_Equal_iff:
  "cmp_score_desc a b = Equal \<longleftrightarrow> a = b \<or> f32_is_nan a \<and> f32_is_nan b"
proof -
  have "total_key fmt32 (unat a) = total_key fmt32 (unat b) \<longleftrightarrow> a = b"
    using total_key_inj [OF unat_u32_bound unat_u32_bound, of a b] by (auto simp: word_unat_eq_iff)
  then show ?thesis
    by (auto simp: cmp_score_desc_def f32_total_cmp_def split: bool.splits)
qed

section \<open>What normalization accepts\<close>

lemma max_abs_loop_finite:
  "max_abs_loop xs acc = Inr m \<Longrightarrow> list_all f32_is_finite xs"
  by (induction xs acc rule: max_abs_loop.induct) (auto split: if_splits)

lemma max_abs_loop_error: "\<not> list_all f32_is_finite xs \<Longrightarrow> max_abs_loop xs acc = Inl NonFinite"
  by (induction xs acc rule: max_abs_loop.induct) auto

lemma max_abs_loop_total: "list_all f32_is_finite xs \<Longrightarrow> \<exists>m. max_abs_loop xs acc = Inr m"
  by (induction xs acc rule: max_abs_loop.induct) auto

definition is_zero32 :: "f32 \<Rightarrow> bool" where
  "is_zero32 x \<longleftrightarrow> mag_of fmt32 (unat x) = 0"

definition nonneg_finite :: "f32 \<Rightarrow> bool" where
  "nonneg_finite x \<longleftrightarrow> \<not> neg_of fmt32 (unat x) \<and> f32_is_finite x"

lemma unat_f32_abs: "unat (f32_abs x) = mag_of fmt32 (unat x)"
  using mag_of_bound32 [of "unat x"] by (simp add: f32_abs_def unat_of_nat)

lemma mag_of_idem [simp]: "mag_of F (mag_of F n) = mag_of F n"
  by (simp add: mag_of_def)

lemma nonneg_finite_abs: "f32_is_finite x \<Longrightarrow> nonneg_finite (f32_abs x)"
  using mag_of_bound32 [of "unat x"]
  by (simp add: nonneg_finite_def f32_is_finite_def finite_pat_def unat_f32_abs neg_of_def not_le)

lemma is_zero32_abs [simp]: "is_zero32 (f32_abs x) = is_zero32 x"
  by (simp add: is_zero32_def unat_f32_abs)

lemma finite_not_nan: "f32_is_finite x \<Longrightarrow> \<not> f32_is_nan x"
  by (simp add: f32_is_finite_def f32_is_nan_def finite_pat_def nan_pat_def)

lemma f32_max_nonneg:
  assumes "nonneg_finite a" "nonneg_finite b"
  shows "nonneg_finite (f32_max a b)" "is_zero32 (f32_max a b) \<longleftrightarrow> is_zero32 a \<and> is_zero32 b"
  using assms finite_not_nan [of a] finite_not_nan [of b]
  by (auto simp: f32_max_def f32_lt_def num_key_def is_zero32_def nonneg_finite_def)

lemma max_abs_loop_zero:
  "max_abs_loop xs acc = Inr m \<Longrightarrow> nonneg_finite acc \<Longrightarrow>
   nonneg_finite m \<and> (is_zero32 m \<longleftrightarrow> is_zero32 acc \<and> list_all is_zero32 xs)"
proof (induction xs acc rule: max_abs_loop.induct)
  case (2 x xs acc)
  then have x: "f32_is_finite x" and rest: "max_abs_loop xs (f32_max acc (f32_abs x)) = Inr m"
    by (auto split: if_splits)
  note mx = f32_max_nonneg [OF "2.prems"(2) nonneg_finite_abs [OF x]]
  from "2.IH" x rest mx(1) show ?case by (auto simp: mx(2))
qed simp

lemma num_key_zero: "num_key fmt32 (unat f32_zero) = 0" "\<not> f32_is_nan f32_zero"
  by (simp_all add: num_key_def f32_zero_def mag_of_def f32_is_nan_def nan_pat_def)

lemma f32_eq_zero: "nonneg_finite m \<Longrightarrow> f32_eq m f32_zero \<longleftrightarrow> is_zero32 m"
  using finite_not_nan [of m] num_key_zero
  by (simp add: f32_eq_def is_zero32_def nonneg_finite_def num_key_def [of _ "unat m"])

lemma nonneg_finite_zero: "nonneg_finite f32_zero" "is_zero32 f32_zero"
  by (simp_all add: nonneg_finite_def f32_zero_def f32_is_finite_def finite_pat_def mag_of_def
      neg_of_def is_zero32_def)

text \<open>Normalization fails on exactly two kinds of input: a component that is not finite, and a
  vector whose every component is a zero. Every other input gives a vector of its length.\<close>

lemma normalize_finite_cases:
  assumes "list_all f32_is_finite v"
  shows "list_all is_zero32 v \<and> normalize v = Inl ZeroNorm \<or>
    \<not> list_all is_zero32 v \<and> (\<exists>w. normalize v = Inr w)"
proof -
  obtain m where m: "max_abs_loop v f32_zero = Inr m"
    using max_abs_loop_total [OF assms] by blast
  from max_abs_loop_zero [OF m nonneg_finite_zero(1)] have
    "nonneg_finite m" "is_zero32 m \<longleftrightarrow> list_all is_zero32 v"
    by (simp_all add: nonneg_finite_zero)
  then show ?thesis using m by (simp add: normalize_def f32_eq_zero Let_def)
qed

lemma normalize_NonFinite: "normalize v = Inl NonFinite \<longleftrightarrow> \<not> list_all f32_is_finite v"
  using normalize_finite_cases [of v] max_abs_loop_error [of v f32_zero]
  by (auto simp: normalize_def)

lemma normalize_ZeroNorm:
  "normalize v = Inl ZeroNorm \<longleftrightarrow> list_all f32_is_finite v \<and> list_all is_zero32 v"
  using normalize_finite_cases [of v] normalize_NonFinite [of v] by auto

lemma length_normalize: "normalize v = Inr w \<Longrightarrow> length w = length v"
  by (auto simp: normalize_def Let_def result_iff split: if_splits)

lemma normalize_error: "normalize v = Inl e \<Longrightarrow> e = NonFinite \<or> e = ZeroNorm"
  using normalize_finite_cases [of v] normalize_NonFinite [of v] by auto

section \<open>Claims\<close>

text \<open>The score comparator is safe to sort with: it is comparison of integer ranks, hence total
  and transitive for every input including NaN; two scores compare equal only when they are the
  same bit pattern or both NaN; and every score that is not NaN comes before every NaN.\<close>

theorem cmp_score_desc_total:
  "(\<exists>rank. \<forall>a b. cmp_score_desc a b = cmp_int (rank a) (rank b)) \<and>
   (\<forall>a b. cmp_score_desc a b = Equal \<longleftrightarrow> a = b \<or> f32_is_nan a \<and> f32_is_nan b) \<and>
   (\<forall>a b. f32_is_nan b \<and> \<not> f32_is_nan a \<longrightarrow> cmp_score_desc a b = Less)"
  using cmp_score_desc_rank cmp_score_desc_Equal_iff by (auto simp: cmp_score_desc_def split: bool.splits)

theorem cmp_score_desc_total_witness: "cmp_score_desc f32_one 0x7FC00000 = Less"
proof -
  have "f32_is_nan 0x7FC00000 \<and> \<not> f32_is_nan f32_one"
    by (simp add: f32_is_nan_def nan_pat_def mag_of_def f32_one_def)
  then show ?thesis using cmp_score_desc_total by blast
qed

text \<open>C28. Normalization rejects exactly the vectors it says it rejects: \<open>NonFinite\<close> iff some
  component is NaN or infinite, \<open>ZeroNorm\<close> iff all components are finite and zero (of either
  sign); every other vector, also one whose sum of squares overflows or underflows, is accepted
  and keeps its length.\<close>

theorem normalize_outcome:
  "(normalize v = Inl NonFinite \<longleftrightarrow> \<not> list_all f32_is_finite v) \<and>
   (normalize v = Inl ZeroNorm \<longleftrightarrow> list_all f32_is_finite v \<and> list_all (\<lambda>x. f32_eq x f32_zero) v) \<and>
   ((\<exists>w. normalize v = Inr w \<and> length w = length v) \<longleftrightarrow>
      list_all f32_is_finite v \<and> \<not> list_all (\<lambda>x. f32_eq x f32_zero) v)"
proof -
  have z: "list_all (\<lambda>x. f32_eq x f32_zero) v = list_all is_zero32 v" if "list_all f32_is_finite v"
  proof -
    have "f32_eq x f32_zero = is_zero32 x" if "f32_is_finite x" for x
      using finite_not_nan [OF that] num_key_zero by (simp add: f32_eq_def is_zero32_def num_key_def [of _ "unat x"])
    then show ?thesis using that by (induction v) auto
  qed
  show ?thesis
    using normalize_NonFinite [of v] normalize_ZeroNorm [of v] normalize_finite_cases [of v] z length_normalize [of v]
    by (cases "list_all f32_is_finite v") auto
qed

end
