(* ===== verification/Records.thy ===== *)
theory Records
  imports Floats
begin

text \<open>
  The record types of \<open>turbomemory_storage/src/record.rs\<close> and the tier tag of
  \<open>config.rs\<close>: a durable memory record with its embedding, its metadata-only view, and the
  conversions between the two. A \<open>PointOffset\<close> is a 64-bit slot number.
\<close>

type_synonym point_offset = u64

datatype tier = Hot | Warm | Cold

fun tier_name :: "tier \<Rightarrow> string" where
  "tier_name Hot = ''hot''"
| "tier_name Warm = ''warm''"
| "tier_name Cold = ''cold''"

record mem_record =
  r_id :: string
  r_text :: string
  r_embedding :: "f32 list"
  r_importance :: f32
  r_concepts :: "string list"
  r_created_at :: u64
  r_insert_seq :: u64
  r_access_count :: u64
  r_last_accessed :: u64
  r_tier :: tier
  r_payload :: "string option"
  r_scope :: "string option"
  r_source_role :: "string option"

record meta_record =
  m_id :: string
  m_text :: string
  m_importance :: f32
  m_concepts :: "string list"
  m_created_at :: u64
  m_insert_seq :: u64
  m_access_count :: u64
  m_last_accessed :: u64
  m_tier :: tier
  m_payload :: "string option"
  m_scope :: "string option"
  m_source_role :: "string option"

definition with_tier :: "mem_record \<Rightarrow> tier \<Rightarrow> mem_record" where
  "with_tier r t = r\<lparr>r_tier := t\<rparr>"

definition with_embedding :: "meta_record \<Rightarrow> f32 list \<Rightarrow> mem_record" where
  "with_embedding m e =
     \<lparr>r_id = m_id m, r_text = m_text m, r_embedding = e, r_importance = m_importance m,
      r_concepts = m_concepts m, r_created_at = m_created_at m, r_insert_seq = m_insert_seq m,
      r_access_count = m_access_count m, r_last_accessed = m_last_accessed m, r_tier = m_tier m,
      r_payload = m_payload m, r_scope = m_scope m, r_source_role = m_source_role m\<rparr>"

definition meta_of_record :: "mem_record \<Rightarrow> meta_record" where
  "meta_of_record r =
     \<lparr>m_id = r_id r, m_text = r_text r, m_importance = r_importance r,
      m_concepts = r_concepts r, m_created_at = r_created_at r, m_insert_seq = r_insert_seq r,
      m_access_count = r_access_count r, m_last_accessed = r_last_accessed r, m_tier = r_tier r,
      m_payload = r_payload r, m_scope = r_scope r, m_source_role = r_source_role r\<rparr>"

lemma meta_of_with_embedding [simp]: "meta_of_record (with_embedding m e) = m"
  by (cases m) (simp add: meta_of_record_def with_embedding_def)

lemma with_embedding_meta_of [simp]: "with_embedding (meta_of_record r) (r_embedding r) = r"
  by (cases r) (simp add: meta_of_record_def with_embedding_def)

lemma meta_of_record_fields [simp]:
  "m_id (meta_of_record r) = r_id r" "m_insert_seq (meta_of_record r) = r_insert_seq r"
  "m_scope (meta_of_record r) = r_scope r" "m_payload (meta_of_record r) = r_payload r"
  "m_text (meta_of_record r) = r_text r"
  by (simp_all add: meta_of_record_def)

lemma with_embedding_fields [simp]:
  "r_id (with_embedding m e) = m_id m" "r_embedding (with_embedding m e) = e"
  "r_insert_seq (with_embedding m e) = m_insert_seq m" "r_scope (with_embedding m e) = m_scope m"
  by (simp_all add: with_embedding_def)

end
