(* ===== verification/Wal.thy ===== *)
theory Wal
  imports Records
begin

text \<open>
  The write-ahead log of \<open>turbomemory_storage/src/wal.rs\<close>. The file is a byte list: an 8-byte
  header, then frames of a big-endian length, a payload and a big-endian checksum of the
  payload. The checksum (\<open>crc32fast\<close>) and the payload codec (\<open>bincode\<close>) are parameters,
  bundled in \<open>wal_lib\<close>; \<open>bincode_ok\<close> states what the log relies on. The header version is
  written in the byte order of the machine, which is little-endian on the supported targets.
\<close>

section \<open>Data\<close>

datatype wal_op =
    Insert point_offset u64 meta_record "u32 option"
  | Delete point_offset
  | Flush point_offset
  | Replace point_offset point_offset u64 meta_record u32

datatype wal_op_v1 =
    InsertV1 point_offset u64 meta_record
  | DeleteV1 point_offset
  | FlushV1 point_offset

fun wal_op_of_v1 :: "wal_op_v1 \<Rightarrow> wal_op" where
  "wal_op_of_v1 (InsertV1 off sq m) = Insert off sq m None"
| "wal_op_of_v1 (DeleteV1 off) = Delete off"
| "wal_op_of_v1 (FlushV1 off) = Flush off"

record wal_lib =
  crc32 :: "bytes \<Rightarrow> u32"
  ser_op :: "wal_op \<Rightarrow> bytes option"
  de_op :: "bytes \<Rightarrow> wal_op option"
  de_op_v1 :: "bytes \<Rightarrow> wal_op_v1 option"

definition WAL_MAGIC :: bytes where
  "WAL_MAGIC = [0x54, 0x4D, 0x53, 0x57]"

definition WAL_VERSION_1 :: u32 where
  "WAL_VERSION_1 = 1"

definition WAL_VERSION :: u32 where
  "WAL_VERSION = 2"

definition WAL_HEADER_SIZE :: nat where
  "WAL_HEADER_SIZE = 8"

definition FRAME_OVERHEAD :: nat where
  "FRAME_OVERHEAD = 8"

text \<open>The open log: the file, the write cursor and the version of the frames in the file.\<close>

record wal =
  w_file :: bytes
  w_pos :: nat
  w_version :: u32

definition header_bytes :: "u32 \<Rightarrow> bytes" where
  "header_bytes v = WAL_MAGIC @ u32_to_le_bytes v"

section \<open>Opening\<close>

text \<open>\<open>Wal::open\<close> on the bytes the file holds (\<open>[]\<close> when it was just created).\<close>

definition wal_open :: "bytes \<Rightarrow> wal result" where
  "wal_open f =
     (if length f < WAL_HEADER_SIZE then
        Inr \<lparr>w_file = header_bytes WAL_VERSION, w_pos = WAL_HEADER_SIZE, w_version = WAL_VERSION\<rparr>
      else if take 4 f \<noteq> WAL_MAGIC then Inl (InvalidArgument ''WAL has invalid magic'')
      else let v = u32_from_le_bytes (take 4 (drop 4 f)) in
        if v \<noteq> WAL_VERSION \<and> v \<noteq> WAL_VERSION_1 then
          Inl (InvalidArgument (''WAL version '' @ dec_digits (unat v) @ '' not supported''))
        else Inr \<lparr>w_file = f, w_pos = length f, w_version = v\<rparr>)"

definition needs_upgrade :: "wal \<Rightarrow> bool" where
  "needs_upgrade w \<longleftrightarrow> w_version w \<noteq> WAL_VERSION"

section \<open>Appending\<close>

definition write_op_to_buffer :: "wal_lib \<Rightarrow> bytes \<Rightarrow> wal_op \<Rightarrow> bytes result" where
  "write_op_to_buffer L buf op =
     rbind (ok_or (ser_op L op) Serialize) (\<lambda>payload.
       if 2 ^ 32 \<le> length payload then Inl (InvalidArgument ''WAL record exceeds 4 GiB'')
       else Inr (buf @ u32_to_be_bytes (word_of_nat (length payload)) @ payload
                 @ u32_to_be_bytes (crc32 L payload)))"

fun write_ops_to_buffer :: "wal_lib \<Rightarrow> bytes \<Rightarrow> wal_op list \<Rightarrow> bytes result" where
  "write_ops_to_buffer L buf [] = Inr buf"
| "write_ops_to_buffer L buf (op # ops) =
     rbind (write_op_to_buffer L buf op) (\<lambda>buf'. write_ops_to_buffer L buf' ops)"

text \<open>A write at the cursor: the operating system either stores the whole buffer or stops after a
  prefix of it and reports an error (\<open>WriteFails n\<close>: \<open>n\<close> bytes reached the file).\<close>

datatype write_outcome = WriteOk | WriteFails nat

definition file_write :: "nat \<Rightarrow> bytes \<Rightarrow> bytes \<Rightarrow> bytes" where
  "file_write p bs f = take p f @ bs @ drop (p + length bs) f"

text \<open>\<open>append_batch\<close> returns its error together with the log it leaves behind: after a failed
  write the partial frames are cut off again. The source ignores errors of that cut and of the
  seek behind it; here both take effect.\<close>

definition append_batch :: "wal_lib \<Rightarrow> write_outcome \<Rightarrow> wal_op list \<Rightarrow> wal \<Rightarrow> unit result \<times> wal" where
  "append_batch L out ops w =
     (if ops = [] then (Inr (), w)
      else if needs_upgrade w then
        (Inl (InvalidArgument ''WAL holds frames from an older format; replay and clear it first''), w)
      else case write_ops_to_buffer L [] ops of
        Inl e \<Rightarrow> (Inl e, w)
      | Inr buf \<Rightarrow>
          (let start = w_pos w in
           case out of
             WriteOk \<Rightarrow>
               (Inr (), w\<lparr>w_file := file_write start buf (w_file w), w_pos := start + length buf\<rparr>)
           | WriteFails n \<Rightarrow>
               (let g = file_write start (take n buf) (w_file w)
                in (Inl Io, w\<lparr>w_file := set_len start g, w_pos := start\<rparr>))))"

definition wal_append :: "wal_lib \<Rightarrow> write_outcome \<Rightarrow> wal_op \<Rightarrow> wal \<Rightarrow> unit result \<times> wal" where
  "wal_append L out op w = append_batch L out [op] w"

section \<open>Reading\<close>

record wal_iter =
  it_version :: u32
  it_valid_end :: nat
  it_file_len :: nat
  it_done :: bool

definition wal_iter_new :: "wal \<Rightarrow> wal_iter" where
  "wal_iter_new w =
     \<lparr>it_version = w_version w, it_valid_end = WAL_HEADER_SIZE, it_file_len = length (w_file w),
      it_done = False\<rparr>"

definition discarded_bytes :: "wal_iter \<Rightarrow> nat" where
  "discarded_bytes it = it_file_len it - it_valid_end it"

definition decode_op :: "wal_lib \<Rightarrow> u32 \<Rightarrow> bytes \<Rightarrow> wal_op option" where
  "decode_op L v payload =
     (if v = WAL_VERSION_1 then map_option wal_op_of_v1 (de_op_v1 L payload) else de_op L payload)"

text \<open>\<open>read_frame\<close>: the reader stands at \<open>valid_end\<close>, since every successful frame moves both by
  the same amount. \<open>None\<close> is a torn, corrupt or undecodable frame, or the end of the log.\<close>

definition read_frame :: "wal_lib \<Rightarrow> bytes \<Rightarrow> wal_iter \<Rightarrow> (wal_op \<times> wal_iter) option" where
  "read_frame L f it =
     (let remaining = it_file_len it - it_valid_end it; p = it_valid_end it in
      if remaining < FRAME_OVERHEAD then None
      else case read_at p 4 f of
        None \<Rightarrow> None
      | Some lenb \<Rightarrow>
          (let len = unat (u32_from_be_bytes lenb) in
           if len = 0 \<or> remaining - FRAME_OVERHEAD < len then None
           else case read_at (p + 4) len f of
             None \<Rightarrow> None
           | Some payload \<Rightarrow>
               (case read_at (p + 4 + len) 4 f of
                  None \<Rightarrow> None
                | Some crcb \<Rightarrow>
                    if u32_from_be_bytes crcb \<noteq> crc32 L payload then None
                    else case decode_op L (it_version it) payload of
                      None \<Rightarrow> None
                    | Some op \<Rightarrow> Some (op, it\<lparr>it_valid_end := p + FRAME_OVERHEAD + len\<rparr>))))"

definition iter_next :: "wal_lib \<Rightarrow> bytes \<Rightarrow> wal_iter \<Rightarrow> wal_op option \<times> wal_iter" where
  "iter_next L f it =
     (if it_done it then (None, it)
      else case read_frame L f it of
        None \<Rightarrow> (None, it\<lparr>it_done := True\<rparr>)
      | Some (op, it') \<Rightarrow> (Some op, it'))"

lemma read_frame_progress:
  "read_frame L f it = Some (op, it') \<Longrightarrow>
   it_valid_end it < it_valid_end it' \<and> it_valid_end it' \<le> it_file_len it \<and>
   it_file_len it' = it_file_len it \<and> it_version it' = it_version it \<and> it_done it' = it_done it"
  by (auto simp: read_frame_def Let_def FRAME_OVERHEAD_def split: if_splits option.splits)

text \<open>The loop that drains the iterator (\<open>for op in wal_iter.by_ref()\<close>).\<close>

function read_all :: "wal_lib \<Rightarrow> bytes \<Rightarrow> wal_iter \<Rightarrow> wal_op list \<times> wal_iter" where
  "read_all L f it =
     (case iter_next L f it of
        (None, it') \<Rightarrow> ([], it')
      | (Some op, it') \<Rightarrow> (case read_all L f it' of (ops, it'') \<Rightarrow> (op # ops, it'')))"
  by pat_completeness auto
termination
  by (relation "measure (\<lambda>(L, f, it). it_file_len it - it_valid_end it)")
    (auto simp: iter_next_def dest!: read_frame_progress split: if_splits option.splits)

declare read_all.simps [simp del]

definition wal_ops :: "wal_lib \<Rightarrow> wal \<Rightarrow> wal_op list" where
  "wal_ops L w = fst (read_all L (w_file w) (wal_iter_new w))"

definition wal_valid_end :: "wal_lib \<Rightarrow> wal \<Rightarrow> nat" where
  "wal_valid_end L w = it_valid_end (snd (read_all L (w_file w) (wal_iter_new w)))"

section \<open>Truncating and clearing\<close>

definition truncate_to :: "nat \<Rightarrow> wal \<Rightarrow> wal" where
  "truncate_to valid_end w =
     (let e = max valid_end WAL_HEADER_SIZE in w\<lparr>w_file := set_len e (w_file w), w_pos := e\<rparr>)"

definition wal_clear :: "wal \<Rightarrow> wal" where
  "wal_clear w =
     w\<lparr>w_file := header_bytes WAL_VERSION, w_pos := WAL_HEADER_SIZE, w_version := WAL_VERSION\<rparr>"

section \<open>Frames\<close>

text \<open>What the log relies on in the payload codec: a serialized operation is never empty (it
  starts with its variant tag) and deserializes to itself.\<close>

definition bincode_ok :: "wal_lib \<Rightarrow> bool" where
  "bincode_ok L \<longleftrightarrow> (\<forall>op p. ser_op L op = Some p \<longrightarrow> p \<noteq> [] \<and> de_op L p = Some op)"

lemma bincode_okD: "bincode_ok L \<Longrightarrow> ser_op L op = Some p \<Longrightarrow> p \<noteq> [] \<and> de_op L p = Some op"
  by (simp add: bincode_ok_def)

definition frame_of :: "wal_lib \<Rightarrow> bytes \<Rightarrow> bytes" where
  "frame_of L p = u32_to_be_bytes (word_of_nat (length p)) @ p @ u32_to_be_bytes (crc32 L p)"

lemma length_frame_of [simp]: "length (frame_of L p) = FRAME_OVERHEAD + length p"
  by (simp add: frame_of_def FRAME_OVERHEAD_def)

fun framed :: "wal_lib \<Rightarrow> wal_op list \<Rightarrow> bytes \<Rightarrow> bool" where
  "framed L [] buf \<longleftrightarrow> buf = []"
| "framed L (op # ops) buf \<longleftrightarrow>
     (\<exists>p rest. ser_op L op = Some p \<and> length p < 2 ^ 32 \<and> buf = frame_of L p @ rest \<and> framed L ops rest)"

lemma write_ops_framed:
  "write_ops_to_buffer L buf ops = Inr buf' \<Longrightarrow> \<exists>fr. buf' = buf @ fr \<and> framed L ops fr"
proof (induction ops arbitrary: buf)
  case (Cons op ops)
  then obtain p where p: "ser_op L op = Some p" "length p < 2 ^ 32"
    and rest: "write_ops_to_buffer L (buf @ frame_of L p) ops = Inr buf'"
    by (auto simp: write_op_to_buffer_def frame_of_def result_iff split: if_splits)
  from Cons.IH [OF rest] p show ?case by auto
qed simp

lemma read_at_append: "p + n \<le> length f \<Longrightarrow> read_at p n (f @ g) = read_at p n f"
  by (simp add: read_at_def)

lemma read_at_middle: "length pre = p \<Longrightarrow> length mid = n \<Longrightarrow> read_at p n (pre @ mid @ post) = Some mid"
  by (auto simp: read_at_def)

lemma read_frame_framed:
  assumes "bincode_ok L" "ser_op L op = Some p" "length p < 2 ^ 32"
    and "f = pre @ frame_of L p @ rest" "it_valid_end it = length pre" "it_file_len it = length f"
    and "it_version it = WAL_VERSION"
  shows "read_frame L f it = Some (op, it\<lparr>it_valid_end := length pre + FRAME_OVERHEAD + length p\<rparr>)"
proof -
  have p: "p \<noteq> []" "de_op L p = Some op" using bincode_okD [OF assms(1,2)] by auto
  have len: "unat (word_of_nat (length p) :: u32) = length p"
    using assms(3) by (simp add: unat_of_nat)
  let ?lb = "u32_to_be_bytes (word_of_nat (length p))" and ?cb = "u32_to_be_bytes (crc32 L p)"
  have "read_at (length pre) 4 f = Some ?lb"
    unfolding assms(4) frame_of_def by (simp add: read_at_middle)
  moreover have "read_at (length pre + 4) (length p) f = Some p"
    using read_at_middle [of "pre @ ?lb" "length pre + 4" p "length p" "?cb @ rest"]
    by (simp add: assms(4) frame_of_def)
  moreover have "read_at (length pre + 4 + length p) 4 f = Some ?cb"
    using read_at_middle [of "pre @ ?lb @ p" "length pre + 4 + length p" ?cb 4 rest]
    by (simp add: assms(4) frame_of_def)
  moreover have "it_file_len it - length pre = FRAME_OVERHEAD + length p + length rest"
    by (simp add: assms(4,6))
  ultimately show ?thesis
    using assms(5,7) p len
    by (simp add: read_frame_def decode_op_def WAL_VERSION_def WAL_VERSION_1_def)
qed

text \<open>A frame that reads in a file reads the same in every extension of the file.\<close>

lemma read_frame_extend:
  assumes "read_frame L f it = Some (op, it')" "it_file_len it = length f"
  shows "read_frame L (f @ g) (it\<lparr>it_file_len := length f + length g\<rparr>) =
    Some (op, it'\<lparr>it_file_len := length f + length g\<rparr>)"
  using assms
  by (auto simp: read_frame_def Let_def read_at_append FRAME_OVERHEAD_def split: if_splits option.splits)

lemma read_all_done: "it_done it \<Longrightarrow> read_all L f it = ([], it)"
  by (simp add: read_all.simps iter_next_def)

lemma read_all_stop: "read_frame L f it = None \<Longrightarrow> \<not> it_done it \<Longrightarrow> read_all L f it = ([], it\<lparr>it_done := True\<rparr>)"
  by (simp add: read_all.simps iter_next_def)

lemma read_all_step:
  "read_frame L f it = Some (op, it') \<Longrightarrow> \<not> it_done it \<Longrightarrow>
   read_all L f it = (op # fst (read_all L f it'), snd (read_all L f it'))"
  by (subst read_all.simps) (simp add: iter_next_def split: prod.split)

lemma read_all_end_mono:
  "read_all L f it = (ops, it') \<Longrightarrow> it_valid_end it \<le> it_file_len it \<Longrightarrow>
   it_valid_end it \<le> it_valid_end it' \<and> it_valid_end it' \<le> it_file_len it' \<and>
   it_file_len it' = it_file_len it \<and> it_version it' = it_version it \<and> it_done it'"
proof (induction L f it arbitrary: ops rule: read_all.induct)
  case (1 L f it)
  show ?case
  proof (cases "\<not> it_done it \<and> read_frame L f it \<noteq> None")
    case True
    then obtain op jt where fr: "read_frame L f it = Some (op, jt)" and nd: "\<not> it_done it" by auto
    have next_eq: "iter_next L f it = (Some op, jt)" using fr nd by (simp add: iter_next_def)
    from read_all_step [OF fr nd] "1.prems"(1) have rest: "read_all L f jt = (fst (read_all L f jt), it')"
      by (auto simp: prod_eq_iff)
    from "1.IH" [OF next_eq [symmetric] refl rest] read_frame_progress [OF fr] show ?thesis by auto
  next
    case False
    then consider "it_done it" | "\<not> it_done it" "read_frame L f it = None" by blast
    then show ?thesis
      using "1.prems" read_all_done [of it L f] read_all_stop [of L f it] by cases auto
  qed
qed

text \<open>Reading an extension: the same operations, then whatever follows the last good frame.\<close>

lemma read_all_extend:
  "read_all L f it = (ops, it') \<Longrightarrow> it_file_len it = length f \<Longrightarrow> \<not> it_done it \<Longrightarrow>
   read_all L (f @ g) (it\<lparr>it_file_len := length f + length g\<rparr>) =
     (let r = read_all L (f @ g) (it'\<lparr>it_file_len := length f + length g, it_done := False\<rparr>)
      in (ops @ fst r, snd r))"
proof (induction L f it arbitrary: ops rule: read_all.induct)
  case (1 L f it)
  show ?case
  proof (cases "read_frame L f it")
    case None
    then have "ops = []" "it' = it\<lparr>it_done := True\<rparr>"
      using "1.prems" read_all_stop [of L f it] by auto
    moreover have "it\<lparr>it_file_len := n, it_done := False\<rparr> = it\<lparr>it_file_len := n\<rparr>" for n
      using "1.prems"(3) by (cases it) simp
    ultimately show ?thesis by (simp add: Let_def)
  next
    case (Some a)
    then obtain op jt where fr: "read_frame L f it = Some (op, jt)" by (cases a) auto
    have next_eq: "iter_next L f it = (Some op, jt)" using fr "1.prems"(3) by (simp add: iter_next_def)
    let ?ext = "\<lambda>it. it\<lparr>it_file_len := length f + length g\<rparr>"
    from read_all_step [OF fr "1.prems"(3)] "1.prems"(1)
    obtain ops' where ops: "ops = op # ops'" and rest: "read_all L f jt = (ops', it')"
      by (cases "read_all L f jt") auto
    note pr = read_frame_progress [OF fr]
    have "read_all L (f @ g) (?ext it) = (op # fst (read_all L (f @ g) (?ext jt)), snd (read_all L (f @ g) (?ext jt)))"
      using read_all_step [OF read_frame_extend [OF fr "1.prems"(2)]] "1.prems"(3) by simp
    with "1.IH" [OF next_eq [symmetric] refl rest] pr "1.prems"(2,3) show ?thesis
      by (simp add: ops Let_def)
  qed
qed

section \<open>What a reader gets\<close>

text \<open>A clean log: current version, cursor at the end, and every byte belongs to a good frame.\<close>

definition wal_clean :: "wal_lib \<Rightarrow> wal \<Rightarrow> bool" where
  "wal_clean L w \<longleftrightarrow> w_version w = WAL_VERSION \<and> w_pos w = length (w_file w) \<and>
     WAL_HEADER_SIZE \<le> length (w_file w) \<and> wal_valid_end L w = length (w_file w)"

lemma wal_read_extend:
  assumes "WAL_HEADER_SIZE \<le> length (w_file w)"
  shows "read_all L (w_file w @ g) (wal_iter_new (w\<lparr>w_file := w_file w @ g\<rparr>)) =
    (let r = read_all L (w_file w @ g)
       ((wal_iter_new (w\<lparr>w_file := w_file w @ g\<rparr>))\<lparr>it_valid_end := wal_valid_end L w\<rparr>)
     in (wal_ops L w @ fst r, snd r))"
proof -
  let ?it = "wal_iter_new w"
  obtain ops it' where r: "read_all L (w_file w) ?it = (ops, it')" by fastforce
  have it': "it_file_len it' = length (w_file w)" "it_version it' = w_version w"
    using read_all_end_mono [OF r] assms by (simp_all add: wal_iter_new_def)
  have "it'\<lparr>it_file_len := length (w_file w) + length g, it_done := False\<rparr> =
      (wal_iter_new (w\<lparr>w_file := w_file w @ g\<rparr>))\<lparr>it_valid_end := it_valid_end it'\<rparr>"
    using it' by (cases it') (simp add: wal_iter_new_def)
  with read_all_extend [OF r, of g] r show ?thesis
    by (simp add: wal_iter_new_def wal_ops_def wal_valid_end_def)
qed

lemma wal_ops_extend:
  "WAL_HEADER_SIZE \<le> length (w_file w) \<Longrightarrow>
   \<exists>more. wal_ops L (w\<lparr>w_file := w_file w @ g\<rparr>) = wal_ops L w @ more"
  using wal_read_extend [of w L g] by (simp add: wal_ops_def Let_def)

lemma wal_ops_take_prefix:
  assumes "WAL_HEADER_SIZE \<le> n"
  shows "\<exists>more. wal_ops L w = wal_ops L (w\<lparr>w_file := take n (w_file w)\<rparr>) @ more"
proof (cases "n \<le> length (w_file w)")
  case True
  let ?w = "w\<lparr>w_file := take n (w_file w)\<rparr>"
  have "?w\<lparr>w_file := w_file ?w @ drop n (w_file w)\<rparr> = w" by simp
  with wal_ops_extend [of ?w L "drop n (w_file w)"] assms True show ?thesis by (simp del: append_take_drop_id)
next
  case False
  then show ?thesis by simp
qed

text \<open>A frame that reads does not look past its own end, so cutting the file there keeps it.\<close>

lemma read_at_take: "p + n \<le> e \<Longrightarrow> e \<le> length f \<Longrightarrow> read_at p n (take e f) = read_at p n f"
  by (simp add: read_at_def drop_take min_absorb1)

lemma read_frame_cut:
  assumes "read_frame L f it = Some (op, it')" "it_file_len it = length f"
    and "it_valid_end it' \<le> e" "e \<le> length f"
  shows "read_frame L (take e f) (it\<lparr>it_file_len := e\<rparr>) = Some (op, it'\<lparr>it_file_len := e\<rparr>)"
  using assms
  by (auto simp: read_frame_def Let_def read_at_take FRAME_OVERHEAD_def split: if_splits option.splits)

lemma read_frame_at_end: "it_file_len it \<le> it_valid_end it \<Longrightarrow> read_frame L f it = None"
  by (simp add: read_frame_def FRAME_OVERHEAD_def)

lemma read_all_cut:
  "read_all L f it = (ops, it') \<Longrightarrow> it_file_len it = length f \<Longrightarrow> \<not> it_done it \<Longrightarrow>
   it_valid_end it \<le> length f \<Longrightarrow> e = it_valid_end it' \<Longrightarrow>
   read_all L (take e f) (it\<lparr>it_file_len := e\<rparr>) = (ops, it'\<lparr>it_file_len := e\<rparr>)"
proof (induction L f it arbitrary: ops rule: read_all.induct)
  case (1 L f it)
  show ?case
  proof (cases "read_frame L f it")
    case None
    then have "ops = []" "it' = it\<lparr>it_done := True\<rparr>"
      using "1.prems" read_all_stop [of L f it] by auto
    then show ?thesis
      using "1.prems" read_all_stop [OF read_frame_at_end, of "it\<lparr>it_file_len := e\<rparr>" L "take e f"]
      by simp
  next
    case (Some a)
    then obtain op jt where fr: "read_frame L f it = Some (op, jt)" by (cases a) auto
    have next_eq: "iter_next L f it = (Some op, jt)" using fr "1.prems"(3) by (simp add: iter_next_def)
    from read_all_step [OF fr "1.prems"(3)] "1.prems"(1)
    obtain ops' where ops: "ops = op # ops'" and rest: "read_all L f jt = (ops', it')"
      by (cases "read_all L f jt") auto
    note pr = read_frame_progress [OF fr]
    have jt: "it_valid_end jt \<le> e" "e \<le> length f"
      using read_all_end_mono [OF rest] pr "1.prems"(2,5) by auto
    have ih: "read_all L (take e f) (jt\<lparr>it_file_len := e\<rparr>) = (ops', it'\<lparr>it_file_len := e\<rparr>)"
      using "1.IH" [OF next_eq [symmetric] refl rest] pr "1.prems" by simp
    show ?thesis
      using read_all_step [OF read_frame_cut [OF fr "1.prems"(2) jt]] "1.prems"(3) ih by (simp add: ops)
  qed
qed

lemma wal_valid_end_bounds:
  assumes "WAL_HEADER_SIZE \<le> length (w_file w)"
  shows "WAL_HEADER_SIZE \<le> wal_valid_end L w \<and> wal_valid_end L w \<le> length (w_file w)"
  using read_all_end_mono [of L "w_file w" "wal_iter_new w" "wal_ops L w"
      "snd (read_all L (w_file w) (wal_iter_new w))"] assms
  by (simp add: wal_ops_def wal_valid_end_def wal_iter_new_def)

lemma wal_read_end:
  assumes "WAL_HEADER_SIZE \<le> length (w_file w)"
  shows "it_file_len (snd (read_all L (w_file w) (wal_iter_new w))) = length (w_file w)"
  using read_all_end_mono [of L "w_file w" "wal_iter_new w" "wal_ops L w"
      "snd (read_all L (w_file w) (wal_iter_new w))"] assms
  by (simp add: wal_ops_def wal_iter_new_def)

section \<open>Properties of the log\<close>

lemma wal_cut_read:
  assumes "WAL_HEADER_SIZE \<le> length (w_file w)" and w'_def: "w' = truncate_to (wal_valid_end L w) w"
  shows "wal_ops L w' = wal_ops L w" "wal_valid_end L w' = length (w_file w')"
    "w_pos w' = length (w_file w')" "w_version w' = w_version w"
    "WAL_HEADER_SIZE \<le> length (w_file w')"
proof -
  let ?e = "wal_valid_end L w"
  note b = wal_valid_end_bounds [OF assms(1), of L]
  have w': "w_file w' = take ?e (w_file w)" "w_pos w' = ?e" "w_version w' = w_version w"
    using b by (simp_all add: w'_def truncate_to_def set_len_def max_absorb1 Let_def)
  obtain ops it' where r: "read_all L (w_file w) (wal_iter_new w) = (ops, it')" by fastforce
  then have e: "it_valid_end it' = ?e" "wal_ops L w = ops" by (simp_all add: wal_valid_end_def wal_ops_def)
  have "wal_iter_new w' = (wal_iter_new w)\<lparr>it_file_len := ?e\<rparr>"
    using b w' by (simp add: wal_iter_new_def)
  with read_all_cut [OF r, of ?e] e assms(1) w'
  have "read_all L (w_file w') (wal_iter_new w') = (ops, it'\<lparr>it_file_len := ?e\<rparr>)"
    by (simp add: wal_iter_new_def)
  then show "wal_ops L w' = wal_ops L w" "wal_valid_end L w' = length (w_file w')"
    using e b w' by (simp_all add: wal_ops_def wal_valid_end_def)
  show "w_pos w' = length (w_file w')" "w_version w' = w_version w"
    "WAL_HEADER_SIZE \<le> length (w_file w')"
    using b w' by simp_all
qed

lemma framed_read:
  assumes "bincode_ok L" "framed L ops buf" "f = pre @ buf" "it_valid_end it = length pre"
    "it_file_len it = length f" "it_version it = WAL_VERSION" "\<not> it_done it"
  shows "fst (read_all L f it) = ops \<and> it_valid_end (snd (read_all L f it)) = length f"
  using assms(2-)
proof (induction ops arbitrary: pre buf it)
  case Nil
  then have "read_frame L f it = None" by (simp add: read_frame_at_end)
  then show ?case using Nil read_all_stop [of L f it] by simp
next
  case (Cons op ops)
  then obtain p rest where p: "ser_op L op = Some p" "length p < 2 ^ 32"
    and buf: "buf = frame_of L p @ rest" and fr: "framed L ops rest" by auto
  let ?it = "it\<lparr>it_valid_end := length pre + FRAME_OVERHEAD + length p\<rparr>"
  have rf: "read_frame L f it = Some (op, ?it)"
    using read_frame_framed [OF assms(1) p, of f pre rest it] Cons.prems buf by simp
  have "fst (read_all L f ?it) = ops \<and> it_valid_end (snd (read_all L f ?it)) = length f"
    using Cons.IH [OF fr, of "pre @ frame_of L p" ?it] Cons.prems buf by simp
  then show ?case using read_all_step [OF rf] Cons.prems(6) by simp
qed

lemma append_batch_ok:
  assumes "bincode_ok L" "wal_clean L w" "append_batch L out ops w = (Inr (), w')"
  shows "wal_clean L w' \<and> wal_ops L w' = wal_ops L w @ ops \<and> (\<exists>buf. w_file w' = w_file w @ buf)"
proof (cases "ops = []")
  case True
  then show ?thesis using assms by (simp add: append_batch_def)
next
  case False
  have c: "w_version w = WAL_VERSION" "w_pos w = length (w_file w)"
    "WAL_HEADER_SIZE \<le> length (w_file w)" "wal_valid_end L w = length (w_file w)"
    using assms(2) by (simp_all add: wal_clean_def)
  from assms(3) False c obtain buf where b: "write_ops_to_buffer L [] ops = Inr buf"
    and w': "w' = w\<lparr>w_file := w_file w @ buf, w_pos := length (w_file w) + length buf\<rparr>"
    by (auto simp: append_batch_def needs_upgrade_def file_write_def Let_def
        split: sum.splits write_outcome.splits)
  have fr: "framed L ops buf" using write_ops_framed [OF b] by simp
  let ?it = "(wal_iter_new (w\<lparr>w_file := w_file w @ buf\<rparr>))\<lparr>it_valid_end := wal_valid_end L w\<rparr>"
  have it: "wal_iter_new w' = wal_iter_new (w\<lparr>w_file := w_file w @ buf\<rparr>)"
    by (simp add: w' wal_iter_new_def)
  have rd: "fst (read_all L (w_file w @ buf) ?it) = ops \<and>
      it_valid_end (snd (read_all L (w_file w @ buf) ?it)) = length (w_file w @ buf)"
    by (rule framed_read [OF assms(1) fr refl]) (simp_all add: c wal_iter_new_def)
  have "WAL_HEADER_SIZE \<le> length (w_file w) + length buf" using c(3) by simp
  with rd wal_read_extend [OF c(3), of L buf] it show ?thesis
    by (simp add: wal_ops_def wal_valid_end_def wal_clean_def w' Let_def c)
qed

lemma append_batch_error_unchanged:
  "w_pos w = length (w_file w) \<Longrightarrow> append_batch L out ops w = (Inl e, w') \<Longrightarrow> w' = w"
  by (auto simp: append_batch_def Let_def file_write_def set_len_def
      split: if_splits sum.splits write_outcome.splits)

lemma wal_clear_clean: "wal_clean L (wal_clear w) \<and> wal_ops L (wal_clear w) = []"
proof -
  let ?w = "wal_clear w"
  have len: "length (w_file ?w) = WAL_HEADER_SIZE"
    by (simp add: wal_clear_def header_bytes_def WAL_MAGIC_def WAL_HEADER_SIZE_def)
  have "read_frame L (w_file ?w) (wal_iter_new ?w) = None"
    by (rule read_frame_at_end) (simp add: len wal_iter_new_def)
  then have "read_all L (w_file ?w) (wal_iter_new ?w) = ([], (wal_iter_new ?w)\<lparr>it_done := True\<rparr>)"
    by (rule read_all_stop) (simp add: wal_iter_new_def)
  then show ?thesis using len
    by (simp add: wal_clean_def wal_ops_def wal_valid_end_def wal_iter_new_def wal_clear_def)
qed

lemma wal_open_new: "length f < WAL_HEADER_SIZE \<Longrightarrow> wal_open f = Inr (wal_clear w)"
  by (cases w) (simp add: wal_open_def wal_clear_def)

lemma wal_open_Inr_iff:
  "wal_open f = Inr w \<longleftrightarrow>
     (if length f < WAL_HEADER_SIZE then w = \<lparr>w_file = header_bytes WAL_VERSION,
        w_pos = WAL_HEADER_SIZE, w_version = WAL_VERSION\<rparr>
      else take 4 f = WAL_MAGIC \<and> w_file w = f \<and> w_pos w = length f \<and>
        w_version w = u32_from_le_bytes (take 4 (drop 4 f)) \<and>
        (w_version w = WAL_VERSION \<or> w_version w = WAL_VERSION_1))"
  by (cases w) (auto simp: wal_open_def Let_def)

lemma header_bytes_parts:
  "length (header_bytes v) = WAL_HEADER_SIZE" "take 4 (header_bytes v @ r) = WAL_MAGIC"
  "u32_from_le_bytes (take 4 (drop 4 (header_bytes v @ r))) = v"
  by (simp_all add: header_bytes_def WAL_MAGIC_def WAL_HEADER_SIZE_def)

text \<open>Cutting the file inside an append leaves a prefix of the new operations.\<close>

lemma torn_append_reads:
  assumes "bincode_ok L" "wal_clean L w" "append_batch L out ops w = (Inr (), w')"
    and "length (w_file w) \<le> n"
  shows "\<exists>k. wal_ops L (w'\<lparr>w_file := take n (w_file w')\<rparr>) = wal_ops L w @ take k ops"
proof -
  let ?v = "w'\<lparr>w_file := take n (w_file w')\<rparr>"
  have hd: "WAL_HEADER_SIZE \<le> length (w_file w)" using assms(2) by (simp add: wal_clean_def)
  obtain buf where buf: "w_file w' = w_file w @ buf" and ops: "wal_ops L w' = wal_ops L w @ ops"
    and v': "w_version w' = w_version w"
    using append_batch_ok [OF assms(1-3)] assms(2) by (auto simp: wal_clean_def)
  have same: "wal_ops L x = wal_ops L y" if "w_file x = w_file y" "w_version x = w_version y" for x y
    using that by (simp add: wal_ops_def wal_iter_new_def)
  obtain more where "wal_ops L ?v = wal_ops L w @ more"
    using wal_ops_extend [OF hd, of L "take (n - length (w_file w)) buf"]
      same [of ?v "w\<lparr>w_file := w_file w @ take (n - length (w_file w)) buf\<rparr>"] buf v' assms(4) by auto
  moreover obtain rest where "wal_ops L w' = wal_ops L ?v @ rest"
    using wal_ops_take_prefix [of n L w'] hd assms(4) by auto
  ultimately have "ops = more @ rest" and "wal_ops L ?v = wal_ops L w @ more" using ops by auto
  then have "wal_ops L ?v = wal_ops L w @ take (length more) ops" by simp
  then show ?thesis by blast
qed

text \<open>Reopening a file that starts with a good header gives the log back as it was.\<close>

lemma wal_reopen:
  "take WAL_HEADER_SIZE f = header_bytes WAL_VERSION \<Longrightarrow>
   wal_open f = Inr \<lparr>w_file = f, w_pos = length f, w_version = WAL_VERSION\<rparr>"
proof -
  assume h: "take WAL_HEADER_SIZE f = header_bytes WAL_VERSION"
  then have f: "f = header_bytes WAL_VERSION @ drop WAL_HEADER_SIZE f"
    by (metis append_take_drop_id)
  have "WAL_HEADER_SIZE \<le> length f" using arg_cong [OF f, of length] by (simp add: header_bytes_parts)
  with f header_bytes_parts(2,3) [of WAL_VERSION "drop WAL_HEADER_SIZE f"] show ?thesis
    by (simp add: wal_open_Inr_iff)
qed

section \<open>The log as an interface\<close>

text \<open>
  What the engine needs of a log: a successful append adds exactly its operations, a failed one
  changes nothing, and clearing empties it. A history of batches then reads back as the
  concatenation of the batches that were acknowledged, in order.
\<close>

locale durable_log =
  fixes inv :: "'w \<Rightarrow> bool" and entries :: "'w \<Rightarrow> 'op list"
    and app :: "'e \<Rightarrow> 'op list \<Rightarrow> 'w \<Rightarrow> unit result \<times> 'w" and clr :: "'w \<Rightarrow> 'w"
  assumes app_ok: "inv w \<Longrightarrow> app e ops w = (Inr (), w') \<Longrightarrow> inv w' \<and> entries w' = entries w @ ops"
    and app_err: "inv w \<Longrightarrow> app e ops w = (Inl err, w') \<Longrightarrow> w' = w"
    and clr_ok: "inv w \<Longrightarrow> inv (clr w) \<and> entries (clr w) = []"
begin

text \<open>Running a list of batches, each with the environment's outcome; the acknowledged ones are
  collected.\<close>

fun run :: "('e \<times> 'op list) list \<Rightarrow> 'w \<Rightarrow> 'op list list \<times> 'w" where
  "run [] w = ([], w)"
| "run ((e, b) # bs) w =
     (case app e b w of
        (Inr _, w') \<Rightarrow> (case run bs w' of (acks, w'') \<Rightarrow> (b # acks, w''))
      | (Inl _, w') \<Rightarrow> run bs w')"

lemma run_entries: "inv w \<Longrightarrow> run bs w = (acks, w') \<Longrightarrow> inv w' \<and> entries w' = entries w @ concat acks"
proof (induction bs arbitrary: w acks w')
  case (Cons eb bs)
  obtain e b where eb: "eb = (e, b)" by fastforce
  obtain r w1 where a: "app e b w = (r, w1)" by fastforce
  show ?case
  proof (cases r)
    case (Inl err)
    then have "w1 = w" using app_err Cons.prems(1) a by blast
    then show ?thesis using Cons a Inl eb by simp
  next
    case (Inr u)
    then have w1: "inv w1 \<and> entries w1 = entries w @ b" using app_ok Cons.prems(1) a by simp
    obtain as w2 where rest: "run bs w1 = (as, w2)" by fastforce
    show ?thesis using Cons.IH [OF _ rest] Cons.prems(2) a Inr rest w1 eb by auto
  qed
qed simp

lemma run_after_clear: "inv w \<Longrightarrow> run bs (clr w) = (acks, w') \<Longrightarrow> entries w' = concat acks"
  using clr_ok run_entries by fastforce

end

definition wal_inv :: "wal_lib \<Rightarrow> wal \<Rightarrow> bool" where
  "wal_inv L w \<longleftrightarrow> bincode_ok L \<and> wal_clean L w"

interpretation wal_log: durable_log "wal_inv L" "wal_ops L" "append_batch L" wal_clear
  for L :: wal_lib
proof unfold_locales
  fix w out ops w'
  assume "wal_inv L w" "append_batch L out ops w = (Inr (), w')"
  then show "wal_inv L w' \<and> wal_ops L w' = wal_ops L w @ ops"
    using append_batch_ok [of L w out ops w'] by (simp add: wal_inv_def)
next
  fix w out ops e w'
  assume "wal_inv L w" "append_batch L out ops w = (Inl e, w')"
  then show "w' = w"
    using append_batch_error_unchanged [of w L out ops e w'] by (simp add: wal_inv_def wal_clean_def)
next
  fix w
  assume "wal_inv L w"
  then show "wal_inv L (wal_clear w) \<and> wal_ops L (wal_clear w) = []"
    using wal_clear_clean [of L w] by (simp add: wal_inv_def)
qed

section \<open>Claims\<close>

text \<open>A concrete codec for the witnesses: deletes and flush markers as a tag and the offset.\<close>

definition demo_lib :: wal_lib where
  "demo_lib =
     \<lparr>crc32 = (\<lambda>bs. word_of_nat (length bs)),
      ser_op = (\<lambda>op. case op of Delete off \<Rightarrow> Some (1 # u64_to_le_bytes off)
                            | Flush off \<Rightarrow> Some (2 # u64_to_le_bytes off)
                            | _ \<Rightarrow> None),
      de_op = (\<lambda>bs. case bs of [] \<Rightarrow> None
                           | t # r \<Rightarrow> if t = 1 then Some (Delete (u64_from_le_bytes r))
                                      else if t = 2 then Some (Flush (u64_from_le_bytes r)) else None),
      de_op_v1 = (\<lambda>bs. None)\<rparr>"

definition demo_wal :: wal where
  "demo_wal = \<lparr>w_file = header_bytes WAL_VERSION, w_pos = WAL_HEADER_SIZE, w_version = WAL_VERSION\<rparr>"

definition demo_wal1 :: wal where
  "demo_wal1 = snd (append_batch demo_lib WriteOk [Delete 3] demo_wal)"

lemma demo_lib_ok: "bincode_ok demo_lib"
  by (auto simp: bincode_ok_def demo_lib_def split: wal_op.splits)

lemma demo_wal_clean: "wal_clean demo_lib demo_wal" "wal_ops demo_lib demo_wal = []"
  using wal_clear_clean [of demo_lib demo_wal] by (simp_all add: demo_wal_def wal_clear_def)

lemma demo_append: "append_batch demo_lib WriteOk [Delete 3] demo_wal = (Inr (), demo_wal1)"
  by (simp add: demo_wal1_def append_batch_def needs_upgrade_def demo_wal_def
      write_op_to_buffer_def demo_lib_def Let_def)

text \<open>C16. Appending is exact: after a successful \<open>append_batch\<close> on a clean log, reading the file
  from the start yields the operations that were there followed by the new ones, in order, with
  no byte discarded, and the log is clean again.\<close>

theorem wal_append_then_read:
  assumes "bincode_ok L" "wal_clean L w" "append_batch L out ops w = (Inr (), w')"
  shows "wal_ops L w' = wal_ops L w @ ops \<and> wal_clean L w' \<and>
    discarded_bytes (snd (read_all L (w_file w') (wal_iter_new w'))) = 0"
proof -
  have ok: "wal_clean L w'" "wal_ops L w' = wal_ops L w @ ops"
    using append_batch_ok [OF assms] by simp_all
  have "it_file_len (snd (read_all L (w_file w') (wal_iter_new w'))) = wal_valid_end L w'"
    using wal_read_end [of w' L] ok(1) by (simp add: wal_clean_def)
  then show ?thesis using ok by (simp add: discarded_bytes_def wal_valid_end_def)
qed

theorem wal_append_then_read_witness: "wal_ops demo_lib demo_wal1 = [Delete 3]"
  using wal_append_then_read [OF demo_lib_ok demo_wal_clean(1) demo_append] demo_wal_clean(2) by simp

text \<open>C18. A crash during an append: if the file is cut anywhere after the bytes that were there
  before, a reader gets all earlier operations and a prefix of the new batch, never a partial or
  invented operation.\<close>

theorem wal_torn_append:
  assumes "bincode_ok L" "wal_clean L w" "append_batch L out ops w = (Inr (), w')"
    and "length (w_file w) \<le> n"
  shows "\<exists>k. wal_ops L (w'\<lparr>w_file := take n (w_file w')\<rparr>) = wal_ops L w @ take k ops"
  by (rule torn_append_reads [OF assms])

theorem wal_torn_append_witness:
  "\<exists>k. wal_ops demo_lib (demo_wal1\<lparr>w_file := take 20 (w_file demo_wal1)\<rparr>) = take k [Delete 3]"
  using wal_torn_append [OF demo_lib_ok demo_wal_clean(1) demo_append, of 20] demo_wal_clean(2)
  by (simp add: demo_wal_def header_bytes_parts WAL_HEADER_SIZE_def)

text \<open>C19. Repair: cutting any log that has a header at the end of its last good frame keeps every
  readable operation, leaves nothing to discard, and puts the cursor at the end of the file.\<close>

theorem wal_repair:
  assumes "WAL_HEADER_SIZE \<le> length (w_file w)"
  shows "wal_ops L (truncate_to (wal_valid_end L w) w) = wal_ops L w \<and>
    wal_valid_end L (truncate_to (wal_valid_end L w) w) = length (w_file (truncate_to (wal_valid_end L w) w)) \<and>
    (w_version w = WAL_VERSION \<longrightarrow> wal_clean L (truncate_to (wal_valid_end L w) w))"
  using wal_cut_read [OF assms refl, of L] by (simp add: wal_clean_def)

theorem wal_repair_witness:
  "wal_ops demo_lib (truncate_to (wal_valid_end demo_lib (demo_wal\<lparr>w_file := w_file demo_wal @ [9, 9]\<rparr>))
      (demo_wal\<lparr>w_file := w_file demo_wal @ [9, 9]\<rparr>)) =
   wal_ops demo_lib (demo_wal\<lparr>w_file := w_file demo_wal @ [9, 9]\<rparr>)"
  using wal_repair [of "demo_wal\<lparr>w_file := w_file demo_wal @ [9, 9]\<rparr>" demo_lib]
  by (simp add: demo_wal_def header_bytes_parts)

text \<open>A damaged tail never stops the log from opening: whatever follows a current-version
  header, the log opens, and every file it accepted earlier is a prefix whose operations are
  still the first ones read.\<close>

theorem wal_open_damaged_tail:
  assumes "wal_clean L w" "take WAL_HEADER_SIZE (w_file w) = header_bytes WAL_VERSION"
  shows "\<exists>v more. wal_open (w_file w @ tail) = Inr v \<and> wal_ops L v = wal_ops L w @ more"
proof -
  have hd: "WAL_HEADER_SIZE \<le> length (w_file w)" using assms(1) by (simp add: wal_clean_def)
  let ?v = "\<lparr>w_file = w_file w @ tail, w_pos = length (w_file w @ tail), w_version = WAL_VERSION\<rparr>"
  have "wal_open (w_file w @ tail) = Inr ?v" using hd assms(2) by (intro wal_reopen) simp
  moreover have "wal_ops L ?v = wal_ops L (w\<lparr>w_file := w_file w @ tail\<rparr>)"
    using assms(1) by (simp add: wal_ops_def wal_iter_new_def wal_clean_def)
  ultimately show ?thesis using wal_ops_extend [OF hd, of L tail] by simp
qed

theorem wal_open_damaged_tail_witness:
  "\<exists>v more. wal_open (w_file demo_wal1 @ [0xAB, 0xAB]) = Inr v \<and> wal_ops demo_lib v = Delete 3 # more"
proof -
  note ok = append_batch_ok [OF demo_lib_ok demo_wal_clean(1) demo_append]
  have ops: "wal_ops demo_lib demo_wal1 = [Delete 3]" using ok demo_wal_clean(2) by simp
  have hd: "take WAL_HEADER_SIZE (w_file demo_wal1) = header_bytes WAL_VERSION"
    by (simp add: demo_wal1_def demo_wal_def append_batch_def needs_upgrade_def write_op_to_buffer_def demo_lib_def
        Let_def file_write_def header_bytes_parts)
  show ?thesis using wal_open_damaged_tail [OF _ hd, of demo_lib "[0xAB, 0xAB]"] ok ops by auto
qed

text \<open>C17. A history of batches on a clean log, some of which fail (a full disk, after which the
  partial frames are cut off, or an operation that cannot be serialized), reads back as exactly the
  acknowledged batches in order, after what the log held.\<close>

theorem wal_history:
  assumes "bincode_ok L" "wal_clean L w"
    and "durable_log.run (append_batch L) bs w = (acks, w')"
  shows "wal_ops L w' = wal_ops L w @ concat acks"
  using wal_log.run_entries [of L w bs acks w'] assms by (simp add: wal_inv_def)

theorem wal_history_witness:
  "wal_ops demo_lib (snd (durable_log.run (append_batch demo_lib)
      [(WriteFails 5, [Delete 7]), (WriteOk, [Delete 3])] demo_wal)) = [Delete 3]"
proof -
  obtain r w where f: "append_batch demo_lib (WriteFails 5) [Delete 7] demo_wal = (r, w)" by fastforce
  then have r: "r = Inl Io"
    by (auto simp: append_batch_def needs_upgrade_def demo_wal_def write_op_to_buffer_def demo_lib_def Let_def)
  have "w = demo_wal"
    using append_batch_error_unchanged [of demo_wal demo_lib "WriteFails 5" "[Delete 7]" Io w] f r demo_wal_clean(1)
    by (simp add: wal_clean_def)
  then have run: "durable_log.run (append_batch demo_lib) [(WriteFails 5, [Delete 7]), (WriteOk, [Delete 3])] demo_wal
      = ([[Delete 3]], demo_wal1)"
    using f r by (simp add: wal_log.run.simps demo_append)
  show ?thesis using wal_history [OF demo_lib_ok demo_wal_clean(1) run] run demo_wal_clean(2) by simp
qed

end
