(* ===== verification/Vector_Store.thy ===== *)
theory Vector_Store
  imports Records
begin

text \<open>
  The memory-mapped vector file of \<open>turbomemory_storage/src/vector_store.rs\<close>. The mapping is
  shared with the file, so both are one byte list; \<open>vs_mapped\<close> says whether the mapping is
  live (a failed resize can leave the store unmapped). A file is a 40-byte header followed by
  slots of \<open>4 * dim\<close> bytes. The checksum (\<open>crc32fast\<close>) is a parameter. Floats are cast to
  bytes in the byte order of the machine, little-endian on the supported targets.
\<close>

section \<open>Header\<close>

record vs_header =
  h_magic :: bytes
  h_version :: u32
  h_dimension :: u32
  h_pad0 :: u32
  h_count :: u64
  h_crc :: u32
  h_reserved0 :: u32
  h_reserved1 :: u32
  h_reserved2 :: u32

definition VS_MAGIC :: bytes where
  "VS_MAGIC = [0x54, 0x4D, 0x44, 0x56]"

definition VS_VERSION :: u32 where
  "VS_VERSION = 2"

definition HEADER_SIZE :: nat where
  "HEADER_SIZE = 40"

definition bytes_of_header :: "vs_header \<Rightarrow> bytes" where
  "bytes_of_header h = h_magic h @ u32_to_le_bytes (h_version h) @ u32_to_le_bytes (h_dimension h)
     @ u32_to_le_bytes (h_pad0 h) @ u64_to_le_bytes (h_count h) @ u32_to_le_bytes (h_crc h)
     @ u32_to_le_bytes (h_reserved0 h) @ u32_to_le_bytes (h_reserved1 h) @ u32_to_le_bytes (h_reserved2 h)"

definition header_of_bytes :: "bytes \<Rightarrow> vs_header" where
  "header_of_bytes bs =
     \<lparr>h_magic = take 4 bs, h_version = u32_from_le_bytes (take 4 (drop 4 bs)),
      h_dimension = u32_from_le_bytes (take 4 (drop 8 bs)), h_pad0 = u32_from_le_bytes (take 4 (drop 12 bs)),
      h_count = u64_from_le_bytes (take 8 (drop 16 bs)), h_crc = u32_from_le_bytes (take 4 (drop 24 bs)),
      h_reserved0 = u32_from_le_bytes (take 4 (drop 28 bs)), h_reserved1 = u32_from_le_bytes (take 4 (drop 32 bs)),
      h_reserved2 = u32_from_le_bytes (take 4 (drop 36 bs))\<rparr>"

definition compute_header_crc :: "(bytes \<Rightarrow> u32) \<Rightarrow> vs_header \<Rightarrow> u32" where
  "compute_header_crc crc h = crc (bytes_of_header (h\<lparr>h_crc := 0\<rparr>))"

definition validate_header :: "(bytes \<Rightarrow> u32) \<Rightarrow> vs_header \<Rightarrow> nat \<Rightarrow> unit result" where
  "validate_header crc h expected_dim =
     (if h_magic h \<noteq> VS_MAGIC then Inl (InvalidArgument ''vector store has invalid magic'')
      else if h_version h \<noteq> VS_VERSION then
        Inl (InvalidArgument (''vector store version '' @ dec_digits (unat (h_version h)) @ '' not supported''))
      else if unat (h_dimension h) \<noteq> expected_dim then Inl DimensionMismatch
      else if compute_header_crc crc h \<noteq> h_crc h then
        Inl (InvalidArgument ''vector store header CRC mismatch'')
      else Inr ())"

text \<open>The header the store writes for a dimension and a count, with its checksum filled in.\<close>

definition make_header :: "(bytes \<Rightarrow> u32) \<Rightarrow> nat \<Rightarrow> nat \<Rightarrow> vs_header" where
  "make_header crc d n =
     (let h = \<lparr>h_magic = VS_MAGIC, h_version = VS_VERSION, h_dimension = word_of_nat d, h_pad0 = 0,
               h_count = word_of_nat n, h_crc = 0, h_reserved0 = 0, h_reserved1 = 0, h_reserved2 = 0\<rparr>
      in h\<lparr>h_crc := compute_header_crc crc h\<rparr>)"

section \<open>Vectors as bytes\<close>

definition vec_bytes :: "f32 list \<Rightarrow> bytes" where
  "vec_bytes v = concat (map u32_to_le_bytes v)"

fun bytes_vec :: "bytes \<Rightarrow> f32 list" where
  "bytes_vec (a # b # c # d # bs) = u32_from_le_bytes [a, b, c, d] # bytes_vec bs"
| "bytes_vec _ = []"

definition vector_crc :: "(bytes \<Rightarrow> u32) \<Rightarrow> f32 list \<Rightarrow> u32" where
  "vector_crc crc v = crc (vec_bytes v)"

section \<open>The store\<close>

record vstore =
  vs_file :: bytes
  vs_mapped :: bool
  vs_dim :: nat
  vs_count :: nat
  vs_slots :: nat

definition slot_start :: "nat \<Rightarrow> nat \<Rightarrow> nat" where
  "slot_start d idx = (HEADER_SIZE + idx * d * 4) mod 2 ^ 64"

text \<open>Creating the file is one step: its creation, its length and its header.\<close>

definition new_with_capacity :: "(bytes \<Rightarrow> u32) \<Rightarrow> nat \<Rightarrow> nat \<Rightarrow> vstore result" where
  "new_with_capacity crc d initial_slots =
     (if d = 0 then Inl (InvalidArgument ''vector dimension must be > 0'')
      else let slots = max initial_slots 1024 in
        rbind (ok_or (Option.bind (checked_mul slots d) (\<lambda>n. checked_mul n 4))
                 (InvalidArgument ''vector store size overflow'')) (\<lambda>data_bytes.
        rbind (ok_or (checked_add HEADER_SIZE data_bytes)
                 (InvalidArgument ''vector store size overflow'')) (\<lambda>len.
        Inr \<lparr>vs_file = write_at 0 (bytes_of_header (make_header crc d 0)) (set_len len []),
             vs_mapped = True, vs_dim = d, vs_count = 0, vs_slots = slots\<rparr>)))"

text \<open>\<open>VectorStore::open\<close> on the file's bytes, \<open>None\<close> when there is no file.\<close>

definition vs_open :: "(bytes \<Rightarrow> u32) \<Rightarrow> bytes option \<Rightarrow> nat \<Rightarrow> nat \<Rightarrow> vstore result" where
  "vs_open crc file d initial_slots =
     (case file of
        None \<Rightarrow> new_with_capacity crc d initial_slots
      | Some f \<Rightarrow>
          if length f < HEADER_SIZE then Inl (InvalidArgument ''vector store file is too small'')
          else let h = header_of_bytes (take HEADER_SIZE f) in
            rbind (validate_header crc h d) (\<lambda>_.
              if d = 0 then Inl Panicked
              else let slots = (length f - HEADER_SIZE) div (d * 4) in
                Inr \<lparr>vs_file = f, vs_mapped = True, vs_dim = d,
                     vs_count = min (unat (h_count h)) slots, vs_slots = slots\<rparr>))"

text \<open>Growing unmaps, resizes and maps again. The outcome of the resize is an argument: when it
  fails the file keeps its size and is mapped again, unless that fails too.\<close>

datatype grow_outcome = GrowOk | GrowFails bool | RemapFails

definition grow_inner :: "(bytes \<Rightarrow> u32) \<Rightarrow> grow_outcome \<Rightarrow> vstore \<Rightarrow> nat \<Rightarrow> unit result \<times> vstore" where
  "grow_inner crc out s min_idx =
     (let new_slots = max (max ((min_idx + 1) mod 2 ^ 64) (saturating_mul (vs_slots s) 2)) 1024 in
      case Option.bind (checked_mul new_slots (vs_dim s)) (\<lambda>n. checked_mul n 4) of
        None \<Rightarrow> (Inl (InvalidArgument ''vector store grow overflow''), s)
      | Some data_bytes \<Rightarrow>
          (case checked_add HEADER_SIZE data_bytes of
             None \<Rightarrow> (Inl (InvalidArgument ''vector store grow overflow''), s)
           | Some len \<Rightarrow>
               (case out of
                  GrowFails remapped \<Rightarrow> (Inl Io, s\<lparr>vs_mapped := remapped\<rparr>)
                | RemapFails \<Rightarrow> (Inl Io, s\<lparr>vs_file := set_len len (vs_file s), vs_mapped := False\<rparr>)
                | GrowOk \<Rightarrow>
                    (Inr (), s\<lparr>vs_file := write_at 0 (bytes_of_header (make_header crc (vs_dim s) (vs_count s)))
                                  (set_len len (vs_file s)),
                        vs_mapped := True, vs_slots := new_slots\<rparr>))))"

definition write_vector :: "bytes \<Rightarrow> nat \<Rightarrow> nat \<Rightarrow> f32 list \<Rightarrow> bytes" where
  "write_vector f d idx v = write_at (slot_start d idx) (vec_bytes v) f"

definition vs_put :: "(bytes \<Rightarrow> u32) \<Rightarrow> grow_outcome \<Rightarrow> vstore \<Rightarrow> point_offset \<Rightarrow> f32 list \<Rightarrow> unit result \<times> vstore" where
  "vs_put crc out s offset v =
     (if length v \<noteq> vs_dim s then (Inl DimensionMismatch, s)
      else let idx = unat offset in
        case (if vs_slots s \<le> idx then grow_inner crc out s idx else (Inr (), s)) of
          (Inl e, s') \<Rightarrow> (Inl e, s')
        | (Inr _, s') \<Rightarrow>
            if \<not> vs_mapped s' then (Inl Io, s')
            else if length (vs_file s') < slot_start (vs_dim s') idx + vs_dim s' * 4 then (Inl Panicked, s')
            else (Inr (), s'\<lparr>vs_file := write_vector (vs_file s') (vs_dim s') idx v,
                            vs_count := max (vs_count s') ((idx + 1) mod 2 ^ 64)\<rparr>))"

text \<open>\<open>recover\<close>: accept a slot that lies in the file and matches the logged checksum; without a
  checksum, accept a finite vector with a component that is not zero.\<close>

definition vs_recover :: "(bytes \<Rightarrow> u32) \<Rightarrow> vstore \<Rightarrow> point_offset \<Rightarrow> u32 option \<Rightarrow> f32 list option \<times> vstore" where
  "vs_recover crc s offset expected_crc =
     (let idx = unat offset in
      if vs_slots s \<le> idx then (None, s)
      else if \<not> vs_mapped s then (None, s)
      else case read_at (slot_start (vs_dim s) idx) (vs_dim s * 4) (vs_file s) of
        None \<Rightarrow> (None, s)
      | Some bs \<Rightarrow>
          (let ok = (case expected_crc of
                       Some c \<Rightarrow> crc bs = c
                     | None \<Rightarrow> list_all f32_is_finite (bytes_vec bs) \<and>
                               list_ex (\<lambda>x. \<not> f32_eq x f32_zero) (bytes_vec bs))
           in if \<not> ok then (None, s)
              else (Some (bytes_vec bs), s\<lparr>vs_count := max (vs_count s) (idx + 1)\<rparr>)))"

definition vs_get :: "vstore \<Rightarrow> point_offset \<Rightarrow> f32 list option" where
  "vs_get s offset =
     (let idx = unat offset in
      if vs_count s \<le> idx then None
      else if \<not> vs_mapped s then None
      else map_option bytes_vec (read_at (slot_start (vs_dim s) idx) (vs_dim s * 4) (vs_file s)))"

text \<open>\<open>rows\<close>: the vectors of a range of offsets as one slice.\<close>

definition vs_rows :: "vstore \<Rightarrow> nat \<Rightarrow> nat \<Rightarrow> f32 list option" where
  "vs_rows s start stop =
     (if stop < start \<or> vs_count s < stop then None
      else if \<not> vs_mapped s then None
      else map_option bytes_vec
             (read_at (slot_start (vs_dim s) start) ((stop - start) * (vs_dim s * 4)) (vs_file s)))"

text \<open>\<open>sync_range\<close> changes no byte; its result is the byte range it asks the mapping to flush.\<close>

definition vs_sync_range :: "vstore \<Rightarrow> point_offset \<Rightarrow> point_offset \<Rightarrow> (nat \<times> nat) option result" where
  "vs_sync_range s first lst =
     (if \<not> vs_mapped s then Inl Io
      else let a = unat (min first lst); b = unat (max first lst); row = vs_dim s * 4;
               start = HEADER_SIZE + min a (vs_slots s) * row;
               stop = HEADER_SIZE + min ((b + 1) mod 2 ^ 64) (vs_slots s) * row
           in Inr (if start < stop then Some (start, stop - start) else None))"

definition vs_flush :: "(bytes \<Rightarrow> u32) \<Rightarrow> vstore \<Rightarrow> unit result \<times> vstore" where
  "vs_flush crc s =
     (if \<not> vs_mapped s then (Inl Io, s)
      else if length (vs_file s) < HEADER_SIZE then (Inl Panicked, s)
      else let h = header_of_bytes (take HEADER_SIZE (vs_file s));
               h1 = h\<lparr>h_count := word_of_nat (vs_count s)\<rparr>;
               h2 = h1\<lparr>h_crc := compute_header_crc crc h1\<rparr>
           in (Inr (), s\<lparr>vs_file := write_at 0 (bytes_of_header h2) (vs_file s)\<rparr>))"

section \<open>Byte-level lemmas\<close>

lemma length_bytes_of_header: "length (h_magic h) = 4 \<Longrightarrow> length (bytes_of_header h) = HEADER_SIZE"
  by (simp add: bytes_of_header_def HEADER_SIZE_def)

lemma header_roundtrip: "length (h_magic h) = 4 \<Longrightarrow> header_of_bytes (bytes_of_header h) = h"
  by (cases h) (simp add: bytes_of_header_def header_of_bytes_def)

lemma length_vec_bytes [simp]: "length (vec_bytes v) = 4 * length v"
  by (induction v) (simp_all add: vec_bytes_def)

lemma bytes_vec_append4: "length q = 4 \<Longrightarrow> bytes_vec (q @ bs) = u32_from_le_bytes q # bytes_vec bs"
  by (cases q rule: bytes_vec.cases) auto

lemma bytes_vec_bytes [simp]: "bytes_vec (vec_bytes v) = v"
  by (induction v) (simp_all add: vec_bytes_def bytes_vec_append4)

lemma vec_bytes_inverse: "length bs = 4 * n \<Longrightarrow> vec_bytes (bytes_vec bs) = bs"
proof (induction n arbitrary: bs)
  case (Suc n)
  have split: "bs = take 4 bs @ drop 4 bs" by simp
  have "bytes_vec bs = u32_from_le_bytes (take 4 bs) # bytes_vec (drop 4 bs)"
    using Suc.prems bytes_vec_append4 [of "take 4 bs" "drop 4 bs"] by simp
  then show ?case
    using Suc.prems Suc.IH [of "drop 4 bs"] u32_le_bytes_inverse [of "take 4 bs"] split
    by (simp add: vec_bytes_def)
qed (simp add: vec_bytes_def)

lemma make_header_fields [simp]:
  "h_magic (make_header crc d n) = VS_MAGIC" "h_version (make_header crc d n) = VS_VERSION"
  "h_dimension (make_header crc d n) = word_of_nat d" "h_count (make_header crc d n) = word_of_nat n"
  by (simp_all add: make_header_def Let_def)

lemma compute_header_crc_ignores [simp]: "compute_header_crc crc (h\<lparr>h_crc := c\<rparr>) = compute_header_crc crc h"
  by (simp add: compute_header_crc_def)

lemma make_header_crc [simp]: "h_crc (make_header crc d n) = compute_header_crc crc (make_header crc d n)"
  by (simp add: make_header_def Let_def compute_header_crc_def)

lemma VS_MAGIC_length [simp]: "length VS_MAGIC = 4"
  by (simp add: VS_MAGIC_def)

lemma validate_make_header: "d < 2 ^ 32 \<Longrightarrow> validate_header crc (make_header crc d n) d = Inr ()"
  by (simp add: validate_header_def unat_of_nat)

lemma validate_header_Inr_iff [result_iff]:
  "validate_header crc h d = Inr () \<longleftrightarrow>
     h_magic h = VS_MAGIC \<and> h_version h = VS_VERSION \<and> unat (h_dimension h) = d \<and>
     compute_header_crc crc h = h_crc h"
  by (simp add: validate_header_def)

section \<open>The invariant\<close>

definition file_header :: "vstore \<Rightarrow> vs_header" where
  "file_header s = header_of_bytes (take HEADER_SIZE (vs_file s))"

text \<open>A usable store: mapped, a valid header for its dimension, room for all its slots, and no
  more populated slots than slots.\<close>

definition vs_ok :: "(bytes \<Rightarrow> u32) \<Rightarrow> vstore \<Rightarrow> bool" where
  "vs_ok crc s \<longleftrightarrow> vs_mapped s \<and> 0 < vs_dim s \<and> vs_dim s < 2 ^ 32 \<and>
     HEADER_SIZE + vs_slots s * vs_dim s * 4 \<le> length (vs_file s) \<and> length (vs_file s) \<le> usize_max \<and>
     vs_count s \<le> vs_slots s \<and> validate_header crc (file_header s) (vs_dim s) = Inr ()"

lemma slot_fits:
  "idx < n \<Longrightarrow> HEADER_SIZE + n * d * 4 \<le> len \<Longrightarrow> HEADER_SIZE + idx * d * 4 + d * 4 \<le> len"
proof -
  assume "idx < n" and len: "HEADER_SIZE + n * d * 4 \<le> len"
  then have "Suc idx * d \<le> n * d" by (intro mult_le_mono1) simp
  then show ?thesis using len by simp
qed

lemma slot_start_exact:
  "HEADER_SIZE + idx * d * 4 \<le> usize_max \<Longrightarrow> slot_start d idx = HEADER_SIZE + idx * d * 4"
  by (simp add: slot_start_def usize_max_def)

lemma vs_slot_bounds:
  assumes "vs_ok crc s" "idx < vs_slots s"
  shows "slot_start (vs_dim s) idx = HEADER_SIZE + idx * vs_dim s * 4"
    "slot_start (vs_dim s) idx + vs_dim s * 4 \<le> length (vs_file s)"
proof -
  have f: "HEADER_SIZE + idx * vs_dim s * 4 + vs_dim s * 4 \<le> length (vs_file s)"
    and l: "length (vs_file s) \<le> usize_max"
    using assms slot_fits [of idx "vs_slots s" "vs_dim s" "length (vs_file s)"] by (auto simp: vs_ok_def)
  then show "slot_start (vs_dim s) idx = HEADER_SIZE + idx * vs_dim s * 4"
    by (intro slot_start_exact) simp
  with f show "slot_start (vs_dim s) idx + vs_dim s * 4 \<le> length (vs_file s)" by simp
qed

lemma vs_slots_bound: "vs_ok crc s \<Longrightarrow> vs_slots s \<le> usize_max"
proof -
  assume ok: "vs_ok crc s"
  then have "vs_slots s * 1 \<le> vs_slots s * (vs_dim s * 4)"
    by (intro mult_le_mono2) (simp add: vs_ok_def)
  moreover have "HEADER_SIZE + vs_slots s * (vs_dim s * 4) \<le> usize_max"
    using ok by (simp add: vs_ok_def mult.assoc)
  ultimately show ?thesis by linarith
qed

lemma take_write_at_after: "n \<le> p \<Longrightarrow> p \<le> length f \<Longrightarrow> take n (write_at p bs f) = take n f"
  by (simp add: write_at_def)

lemma take_write_at_0: "n = length bs \<Longrightarrow> take n (write_at 0 bs f) = bs"
  by (simp add: write_at_def)

text \<open>Two different slots do not overlap.\<close>

lemma slots_disjoint:
  "i \<noteq> j \<Longrightarrow> HEADER_SIZE + i * d * 4 + d * 4 \<le> HEADER_SIZE + j * d * 4 \<or>
             HEADER_SIZE + j * d * 4 + d * 4 \<le> HEADER_SIZE + i * d * 4" for d :: nat
proof -
  assume "i \<noteq> j"
  then consider "Suc i \<le> j" | "Suc j \<le> i" by linarith
  then show ?thesis
  proof cases
    case 1
    then have "Suc i * d \<le> j * d" by (rule mult_le_mono1)
    then show ?thesis by simp
  next
    case 2
    then have "Suc j * d \<le> i * d" by (rule mult_le_mono1)
    then show ?thesis by simp
  qed
qed

text \<open>The bytes of a slot; every operation is described by what it does to them.\<close>

definition slot_bytes :: "vstore \<Rightarrow> nat \<Rightarrow> bytes option" where
  "slot_bytes s idx = read_at (slot_start (vs_dim s) idx) (vs_dim s * 4) (vs_file s)"

lemma slot_bytes_Some: "vs_ok crc s \<Longrightarrow> idx < vs_slots s \<Longrightarrow> \<exists>bs. slot_bytes s idx = Some bs \<and> length bs = 4 * vs_dim s"
  using vs_slot_bounds(2) [of crc s idx] by (auto simp: slot_bytes_def read_at_def)

lemma vs_get_slot:
  "vs_ok crc s \<Longrightarrow> vs_get s off = (if unat off < vs_count s then map_option bytes_vec (slot_bytes s (unat off)) else None)"
  by (simp add: vs_get_def slot_bytes_def vs_ok_def Let_def)


section \<open>What the operations do\<close>

text \<open>Overwriting the header with a valid one keeps the invariant and every slot.\<close>

definition set_header :: "vs_header \<Rightarrow> vstore \<Rightarrow> vstore" where
  "set_header h s = s\<lparr>vs_file := write_at 0 (bytes_of_header h) (vs_file s)\<rparr>"

lemma set_header_ok:
  assumes "vs_ok crc s" "validate_header crc h (vs_dim s) = Inr ()"
  shows "vs_ok crc (set_header h s)" "file_header (set_header h s) = h"
proof -
  have m: "length (h_magic h) = 4" using assms(2) by (simp add: result_iff)
  have l: "HEADER_SIZE \<le> length (vs_file s)" using assms(1) by (simp add: vs_ok_def)
  show fh: "file_header (set_header h s) = h"
    using m by (simp add: file_header_def set_header_def take_write_at_0 length_bytes_of_header header_roundtrip)
  have "length (vs_file (set_header h s)) = length (vs_file s)"
    using m l by (simp add: set_header_def length_write_at length_bytes_of_header)
  then show "vs_ok crc (set_header h s)"
    using assms fh by (simp add: vs_ok_def) (simp add: set_header_def)
qed

lemma set_header_slot_bytes:
  assumes "vs_ok crc s" "length (h_magic h) = 4" "idx < vs_slots s"
  shows "slot_bytes (set_header h s) idx = slot_bytes s idx"
proof -
  have "HEADER_SIZE \<le> slot_start (vs_dim s) idx"
    using vs_slot_bounds(1) [OF assms(1,3)] by simp
  moreover have "HEADER_SIZE \<le> length (vs_file s)" using assms(1) by (simp add: vs_ok_def)
  ultimately show ?thesis
    using assms(2) by (simp add: slot_bytes_def set_header_def read_write_after length_bytes_of_header)
qed

lemma set_header_simps [simp]:
  "vs_dim (set_header h s) = vs_dim s" "vs_count (set_header h s) = vs_count s"
  "vs_slots (set_header h s) = vs_slots s" "vs_mapped (set_header h s) = vs_mapped s"
  by (simp_all add: set_header_def)

text \<open>A resize to more slots keeps every old slot.\<close>

definition resized :: "nat \<Rightarrow> nat \<Rightarrow> vstore \<Rightarrow> vstore" where
  "resized len n s = s\<lparr>vs_file := set_len len (vs_file s), vs_mapped := True, vs_slots := n\<rparr>"

lemma read_at_set_len:
  "q + n \<le> m \<Longrightarrow> q + n \<le> length f \<Longrightarrow> read_at q n (set_len m f) = read_at q n f"
  by (cases "length f \<le> m") (simp_all add: read_set_len, simp add: read_at_def set_len_def drop_take min_def)

lemma grow_inner_ok:
  assumes "vs_ok crc s" "grow_inner crc out s i = (Inr (), s')" "i < usize_max"
  shows "vs_ok crc s'" "i < vs_slots s'" "vs_slots s \<le> vs_slots s'" "vs_dim s' = vs_dim s"
    "vs_count s' = vs_count s" "j < vs_slots s \<Longrightarrow> slot_bytes s' j = slot_bytes s j"
    "file_header s' = make_header crc (vs_dim s) (vs_count s)"
proof -
  let ?n = "max (max (i + 1) (saturating_mul (vs_slots s) 2)) 1024"
  let ?len = "HEADER_SIZE + ?n * vs_dim s * 4"
  let ?h = "make_header crc (vs_dim s) (vs_count s)"
  let ?r = "resized ?len ?n s"
  have i: "(i + 1) mod 2 ^ 64 = i + 1" using assms(3) by (simp add: usize_max_def)
  have len: "?len \<le> usize_max" and s': "s' = set_header ?h ?r"
    using assms(2) i by (auto simp: grow_inner_def set_header_def resized_def Let_def
        split: option.splits grow_outcome.splits bind_splits)
  have d: "vs_dim s < 2 ^ 32" "0 < vs_dim s" using assms(1) by (simp_all add: vs_ok_def)
  note slots = vs_slots_bound [OF assms(1)]
  have n: "vs_slots s \<le> ?n" using slots by (simp add: saturating_mul_def)
  then have fit: "HEADER_SIZE + vs_slots s * vs_dim s * 4 \<le> ?len"
    by (intro add_left_mono mult_le_mono1)
  have valid: "validate_header crc ?h (vs_dim s) = Inr ()" using d by (simp add: validate_make_header)
  have hl: "HEADER_SIZE \<le> length (vs_file ?r)" by (simp add: resized_def length_set_len)
  have mag: "length (h_magic ?h) = 4" by simp
  show fh: "file_header s' = ?h"
    by (simp add: s' file_header_def set_header_def take_write_at_0 length_bytes_of_header header_roundtrip)
  have flen: "length (vs_file s') = ?len"
    using hl by (simp add: s' set_header_def length_write_at length_bytes_of_header)
      (simp add: resized_def length_set_len)
  show ok: "vs_ok crc s'"
    unfolding vs_ok_def fh flen using assms(1) d len n valid by (simp add: s' resized_def vs_ok_def)
  show "i < vs_slots s'" "vs_slots s \<le> vs_slots s'" "vs_dim s' = vs_dim s" "vs_count s' = vs_count s"
    using n by (simp_all add: s' resized_def)
  assume j: "j < vs_slots s"
  have bnd: "slot_start (vs_dim s) j + vs_dim s * 4 \<le> length (vs_file s)"
    "slot_start (vs_dim s) j = HEADER_SIZE + j * vs_dim s * 4"
    using vs_slot_bounds [OF assms(1) j] by simp_all
  have "slot_start (vs_dim s) j + vs_dim s * 4 \<le> ?len"
    using bnd(2) slot_fits [OF j fit] by simp
  then show "slot_bytes s' j = slot_bytes s j"
    using bnd hl
    by (simp add: s' slot_bytes_def set_header_def resized_def read_write_after length_bytes_of_header
        length_set_len read_at_set_len)
qed


lemma write_vector_ok:
  assumes "vs_ok crc s" "idx < vs_slots s" "length v = vs_dim s" "n \<le> vs_slots s"
  defines "s' \<equiv> s\<lparr>vs_file := write_vector (vs_file s) (vs_dim s) idx v, vs_count := n\<rparr>"
  shows "vs_ok crc s'" "slot_bytes s' idx = Some (vec_bytes v)"
    "j < vs_slots s \<Longrightarrow> j \<noteq> idx \<Longrightarrow> slot_bytes s' j = slot_bytes s j" "file_header s' = file_header s"
proof -
  note b = vs_slot_bounds [OF assms(1,2)]
  have len: "length (vec_bytes v) = vs_dim s * 4" using assms(3) by simp
  have fl: "length (vs_file s') = length (vs_file s)"
    using b(2) len by (simp add: s'_def write_vector_def length_write_at)
  show fh: "file_header s' = file_header s"
    using b by (simp add: file_header_def s'_def write_vector_def take_write_at_after)
  show "vs_ok crc s'"
    using assms(1,4) fl fh by (simp add: vs_ok_def) (simp add: s'_def)
  show "slot_bytes s' idx = Some (vec_bytes v)"
    using b(2) len by (simp add: slot_bytes_def s'_def write_vector_def read_write_same)
  assume j: "j < vs_slots s" "j \<noteq> idx"
  show "slot_bytes s' j = slot_bytes s j"
    using slots_disjoint [OF j(2), of "vs_dim s"] b len vs_slot_bounds [OF assms(1) j(1)]
    by (auto simp: slot_bytes_def s'_def write_vector_def read_write_before read_write_after)
qed

lemma offset_below_max: "off \<noteq> - 1 \<Longrightarrow> unat (off :: u64) < usize_max"
proof -
  assume "off \<noteq> - 1"
  then have "unat off \<noteq> unat (- 1 :: u64)" by (simp add: word_unat_eq_iff)
  moreover have "unat (- 1 :: u64) = usize_max"
    by (simp add: usize_max_def unsigned_minus_1_eq_mask mask_eq_exp_minus_1)
  ultimately show ?thesis using unat_le_usize_max [of off] by linarith
qed

text \<open>One description of \<open>put\<close>: the slot it writes, the slots it leaves, and the count.\<close>

lemma vs_put_ok:
  assumes "vs_ok crc s" "vs_put crc out s off v = (Inr (), s')" "off \<noteq> - 1"
  shows "vs_ok crc s'" "slot_bytes s' (unat off) = Some (vec_bytes v)" "length v = vs_dim s"
    "j < vs_slots s \<Longrightarrow> j \<noteq> unat off \<Longrightarrow> slot_bytes s' j = slot_bytes s j"
    "vs_count s' = max (vs_count s) (unat off + 1)" "vs_slots s \<le> vs_slots s'" "vs_dim s' = vs_dim s"
    "unat off < vs_slots s'"
proof -
  have lt: "unat off < usize_max" using assms(3) by (rule offset_below_max)
  have w64: "(unat off + 1) mod 2 ^ 64 = unat off + 1" using lt by (simp add: usize_max_def)
  show len: "length v = vs_dim s" using assms(2) by (simp add: vs_put_def split: if_splits)
  obtain s1 where s1: "vs_ok crc s1" "unat off < vs_slots s1" "vs_slots s \<le> vs_slots s1"
    "vs_dim s1 = vs_dim s" "vs_count s1 = vs_count s" "\<And>j. j < vs_slots s \<Longrightarrow> slot_bytes s1 j = slot_bytes s j"
    and s': "s' = s1\<lparr>vs_file := write_vector (vs_file s1) (vs_dim s1) (unat off) v,
                      vs_count := max (vs_count s) (unat off + 1)\<rparr>"
  proof (cases "vs_slots s \<le> unat off")
    case True
    obtain s1 where g: "grow_inner crc out s (unat off) = (Inr (), s1)"
      and e: "s' = s1\<lparr>vs_file := write_vector (vs_file s1) (vs_dim s1) (unat off) v,
                       vs_count := max (vs_count s1) (unat off + 1)\<rparr>"
      using True assms(2) len w64 by (auto simp: vs_put_def Let_def split: prod.splits sum.splits if_splits)
    note gi = grow_inner_ok [OF assms(1) g lt]
    show thesis by (rule that [OF gi(1,2,3,4,5) gi(6)]) (use e gi(5) in auto)
  next
    case False
    then show thesis using assms(1,2) len w64
      by (intro that [of s]) (auto simp: vs_put_def Let_def split: if_splits)
  qed
  have n: "max (vs_count s) (unat off + 1) \<le> vs_slots s1"
    using s1(1,2,5) by (auto simp: vs_ok_def)
  have l1: "length v = vs_dim s1" using len s1(4) by simp
  note w = write_vector_ok [OF s1(1,2) l1 n, folded s']
  show "vs_ok crc s'" "slot_bytes s' (unat off) = Some (vec_bytes v)" by (rule w(1,2))+
  show "vs_count s' = max (vs_count s) (unat off + 1)" "vs_slots s \<le> vs_slots s'" "vs_dim s' = vs_dim s"
    "unat off < vs_slots s'"
    using s1 by (simp_all add: s')
  show "j < vs_slots s \<Longrightarrow> j \<noteq> unat off \<Longrightarrow> slot_bytes s' j = slot_bytes s j"
    using w(3) [of j] s1(3,6) by simp
qed


text \<open>Flushing stamps the count in the header; reopening reads it back.\<close>

lemma vs_flush_ok:
  assumes "vs_ok crc s" "vs_flush crc s = (r, s')"
  shows "r = Inr ()" "vs_ok crc s'" "unat (h_count (file_header s')) = vs_count s"
    "j < vs_slots s \<Longrightarrow> slot_bytes s' j = slot_bytes s j"
    "vs_dim s' = vs_dim s" "vs_count s' = vs_count s" "vs_slots s' = vs_slots s"
proof -
  let ?h1 = "(file_header s)\<lparr>h_count := word_of_nat (vs_count s)\<rparr>"
  let ?h = "?h1\<lparr>h_crc := compute_header_crc crc ?h1\<rparr>"
  have s': "r = Inr ()" "s' = set_header ?h s"
    using assms by (auto simp: vs_flush_def set_header_def file_header_def Let_def vs_ok_def)
  have valid: "validate_header crc ?h (vs_dim s) = Inr ()"
    using assms(1) by (simp add: vs_ok_def result_iff compute_header_crc_def)
  show "r = Inr ()" by (fact s')
  show "vs_ok crc s'" using set_header_ok(1) [OF assms(1) valid] s' by simp
  note slots = vs_slots_bound [OF assms(1)]
  have cnt: "vs_count s \<le> usize_max" using assms(1) slots by (simp add: vs_ok_def)
  have "file_header s' = ?h" using set_header_ok(2) [OF assms(1) valid] s' by simp
  with cnt show "unat (h_count (file_header s')) = vs_count s" by simp
  show "vs_dim s' = vs_dim s" "vs_count s' = vs_count s" "vs_slots s' = vs_slots s"
    by (simp_all add: s')
  have "length (h_magic ?h) = 4" using valid by (simp add: result_iff)
  then show "j < vs_slots s \<Longrightarrow> slot_bytes s' j = slot_bytes s j"
    using set_header_slot_bytes [OF assms(1)] s' by simp
qed

lemma vs_reopen:
  assumes "vs_ok crc s"
  shows "\<exists>s2. vs_open crc (Some (vs_file s)) (vs_dim s) n = Inr s2 \<and> vs_ok crc s2 \<and> vs_file s2 = vs_file s \<and>
    vs_dim s2 = vs_dim s \<and> vs_slots s \<le> vs_slots s2 \<and>
    vs_count s2 = min (unat (h_count (file_header s))) (vs_slots s2)"
proof -
  let ?k = "(length (vs_file s) - HEADER_SIZE) div (vs_dim s * 4)"
  have d: "0 < vs_dim s * 4" and hl: "HEADER_SIZE \<le> length (vs_file s)"
    and v: "validate_header crc (header_of_bytes (take HEADER_SIZE (vs_file s))) (vs_dim s) = Inr ()"
    using assms by (auto simp: vs_ok_def file_header_def)
  have "?k * (vs_dim s * 4) \<le> length (vs_file s) - HEADER_SIZE" by (rule div_times_less_eq_dividend)
  then have "HEADER_SIZE + ?k * vs_dim s * 4 \<le> length (vs_file s)"
    unfolding mult.assoc using hl by linarith
  moreover have "vs_slots s \<le> ?k"
  proof -
    have "HEADER_SIZE + vs_slots s * (vs_dim s * 4) \<le> length (vs_file s)"
      using assms by (simp add: vs_ok_def mult.assoc)
    then have "vs_slots s * (vs_dim s * 4) \<le> length (vs_file s) - HEADER_SIZE" by linarith
    then show ?thesis using d by (simp add: less_eq_div_iff_mult_less_eq)
  qed
  ultimately show ?thesis
    using assms d hl v by (auto simp: vs_open_def Let_def vs_ok_def file_header_def)
qed

lemma slot_bytes_file: "vs_file s = vs_file t \<Longrightarrow> vs_dim s = vs_dim t \<Longrightarrow> slot_bytes s j = slot_bytes t j"
  by (simp add: slot_bytes_def)

lemma vs_recover_slot:
  assumes "vs_ok crc s" "unat off < vs_slots s" "slot_bytes s (unat off) = Some (vec_bytes v)"
  shows "vs_recover crc s off (Some (vector_crc crc v)) =
    (Some v, s\<lparr>vs_count := max (vs_count s) (unat off + 1)\<rparr>)"
  using assms by (simp add: vs_recover_def slot_bytes_def vector_crc_def vs_ok_def)

lemma vs_recover_ok:
  assumes "vs_ok crc s" "vs_recover crc s off c = (r, s')"
  shows "vs_ok crc s'" "slot_bytes s' j = slot_bytes s j" "vs_count s \<le> vs_count s'"
    "r = Some v \<Longrightarrow> vs_get s' off = Some v"
proof -
  show "vs_ok crc s'" "slot_bytes s' j = slot_bytes s j" "vs_count s \<le> vs_count s'"
    using assms by (auto simp: vs_recover_def Let_def vs_ok_def slot_bytes_def file_header_def
        split: if_splits option.splits)
  assume "r = Some v"
  then show "vs_get s' off = Some v"
    using assms(2) by (auto simp: vs_recover_def vs_get_def Let_def split: if_splits option.splits)
qed


section \<open>The slot store as an interface\<close>

text \<open>
  A failed resize can leave the store without a mapping, so the contract speaks of what the
  file holds: \<open>vs_wf\<close> is the invariant with the mapping left out and \<open>vs_stored\<close> the vector in a
  slot, mapped or not. A successful put sets its slot, no put, failed or not, disturbs another
  populated slot.
\<close>

definition vs_wf :: "(bytes \<Rightarrow> u32) \<Rightarrow> vstore \<Rightarrow> bool" where
  "vs_wf crc s = vs_ok crc (s\<lparr>vs_mapped := True\<rparr>)"

definition vs_stored :: "vstore \<Rightarrow> point_offset \<Rightarrow> f32 list option" where
  "vs_stored s off = vs_get (s\<lparr>vs_mapped := True\<rparr>) off"

locale slot_store =
  fixes inv :: "'s \<Rightarrow> bool" and stored :: "'s \<Rightarrow> 'k \<Rightarrow> 'v option"
    and put :: "'env \<Rightarrow> 's \<Rightarrow> 'k \<Rightarrow> 'v \<Rightarrow> unit result \<times> 's" and valid :: "'k \<Rightarrow> bool"
  assumes put_inv: "inv s \<Longrightarrow> valid k \<Longrightarrow> put e s k v = (r, s') \<Longrightarrow> inv s'"
    and put_stored: "inv s \<Longrightarrow> valid k \<Longrightarrow> put e s k v = (Inr (), s') \<Longrightarrow> stored s' k = Some v"
    and put_other: "inv s \<Longrightarrow> valid k \<Longrightarrow> put e s k v = (r, s') \<Longrightarrow> j \<noteq> k \<or> r = Inl err \<Longrightarrow>
      stored s j = Some x \<Longrightarrow> stored s' j = Some x"
begin

text \<open>A history of puts, each with the environment's outcome; the acknowledged ones are kept.\<close>

fun run :: "('env \<times> 'k \<times> 'v) list \<Rightarrow> 's \<Rightarrow> ('k \<times> 'v) list \<times> 's" where
  "run [] s = ([], s)"
| "run ((e, k, v) # ps) s =
     (case put e s k v of
        (Inr _, s') \<Rightarrow> (case run ps s' of (acks, s'') \<Rightarrow> ((k, v) # acks, s''))
      | (Inl _, s') \<Rightarrow> run ps s')"

lemma run_inv: "inv s \<Longrightarrow> list_all (\<lambda>(e, k, v). valid k) ps \<Longrightarrow> run ps s = (acks, s') \<Longrightarrow> inv s'"
proof (induction ps s arbitrary: acks s' rule: run.induct)
  case (2 e k v ps s)
  then show ?case using put_inv [of s k e v]
    by (auto split: prod.splits sum.splits)
qed simp

lemma run_keeps:
  "inv s \<Longrightarrow> list_all (\<lambda>(e, k, v). valid k) ps \<Longrightarrow> run ps s = (acks, s') \<Longrightarrow>
   stored s j = Some x \<Longrightarrow> j \<notin> fst ` set acks \<Longrightarrow> stored s' j = Some x"
proof (induction ps s arbitrary: acks s' rule: run.induct)
  case (2 e k v ps s)
  obtain r s1 where p: "put e s k v = (r, s1)" by fastforce
  have v: "valid k" "list_all (\<lambda>(e, k, v). valid k) ps" using "2.prems"(2) by auto
  note i1 = put_inv [OF "2.prems"(1) v(1) p]
  show ?case
  proof (cases r)
    case (Inl err)
    then have "stored s1 j = Some x" using put_other [OF "2.prems"(1) v(1) p _ "2.prems"(4)] by blast
    then show ?thesis using "2.IH"(1) "2.prems"(3,5) p Inl i1 v(2) by fastforce
  next
    case (Inr u)
    obtain as where as: "run ps s1 = (as, s')" "acks = (k, v) # as"
      using "2.prems"(3) p Inr by (auto split: prod.splits)
    then have "j \<noteq> k" "j \<notin> fst ` set as" using "2.prems"(5) by auto
    then show ?thesis
      using "2.IH"(2) [OF p [symmetric] Inr] put_other [OF "2.prems"(1) v(1) p _ "2.prems"(4)] as i1 v(2) by blast
  qed
qed simp

text \<open>The last acknowledged vector of each slot is the one stored there.\<close>

lemma run_stored:
  "inv s \<Longrightarrow> list_all (\<lambda>(e, k, v). valid k) ps \<Longrightarrow> run ps s = (acks, s') \<Longrightarrow>
   map_of (rev acks) j = Some x \<Longrightarrow> stored s' j = Some x"
proof (induction ps s arbitrary: acks s' rule: run.induct)
  case (2 e k v ps s)
  obtain r s1 where p: "put e s k v = (r, s1)" by fastforce
  have v: "valid k" "list_all (\<lambda>(e, k, v). valid k) ps" using "2.prems"(2) by auto
  note i1 = put_inv [OF "2.prems"(1) v(1) p]
  show ?case
  proof (cases r)
    case (Inl err)
    then show ?thesis using "2.IH"(1) "2.prems"(3,4) p i1 v(2) by fastforce
  next
    case (Inr u)
    obtain as where as: "run ps s1 = (as, s')" "acks = (k, v) # as"
      using "2.prems"(3) p Inr by (auto split: prod.splits)
    show ?thesis
    proof (cases "map_of (rev as) j")
      case None
      then have "j = k" "x = v" using "2.prems"(4) as(2) by (simp_all add: map_add_def split: if_splits)
      moreover have "j \<notin> fst ` set as" using None by (simp add: map_of_eq_None_iff)
      ultimately have "j = k" "x = v" "j \<notin> fst ` set as" by simp_all
      then show ?thesis
        using run_keeps [OF i1 v(2) as(1)] put_stored [OF "2.prems"(1) v(1)] p Inr by simp
    next
      case (Some y)
      then have "x = y" using "2.prems"(4) as(2) by (simp add: map_add_def)
      then show ?thesis using "2.IH"(2) [OF p [symmetric] Inr] as(1) i1 v(2) Some by blast
    qed
  qed
qed simp

end


lemma vs_put_remap:
  assumes "vs_put crc out s off v = (Inr (), s')"
  shows "vs_put crc out (s\<lparr>vs_mapped := True\<rparr>) off v = (Inr (), s')"
proof (cases "vs_slots s \<le> unat off")
  case True
  have "grow_inner crc out (s\<lparr>vs_mapped := True\<rparr>) (unat off) = grow_inner crc out s (unat off)"
    if "grow_inner crc out s (unat off) = (Inr (), s1)" for s1
    using that by (auto simp: grow_inner_def Let_def split: option.splits grow_outcome.splits)
  with True assms show ?thesis
    by (auto simp: vs_put_def Let_def split: prod.splits sum.splits if_splits)
next
  case False
  then show ?thesis using assms by (auto simp: vs_put_def Let_def split: if_splits)
qed

lemma set_len_wf:
  assumes "vs_wf crc s" "HEADER_SIZE + vs_slots s * vs_dim s * 4 \<le> len" "len \<le> usize_max"
  shows "vs_wf crc (s\<lparr>vs_file := set_len len (vs_file s), vs_mapped := b\<rparr>)"
    "vs_stored (s\<lparr>vs_file := set_len len (vs_file s), vs_mapped := b\<rparr>) off = vs_stored s off"
proof -
  let ?t = "s\<lparr>vs_mapped := True\<rparr>"
  have ok: "vs_ok crc ?t" using assms(1) by (simp add: vs_wf_def)
  have "take HEADER_SIZE (set_len len (vs_file s)) = take HEADER_SIZE (vs_file s)"
    using ok assms(2) by (simp add: set_len_def vs_ok_def)
  then show "vs_wf crc (s\<lparr>vs_file := set_len len (vs_file s), vs_mapped := b\<rparr>)"
    using ok assms(2,3) by (simp add: vs_wf_def vs_ok_def file_header_def length_set_len)
  have "slot_start (vs_dim s) j + vs_dim s * 4 \<le> len \<and> slot_start (vs_dim s) j + vs_dim s * 4 \<le> length (vs_file s)"
    if "j < vs_count s" for j
    using vs_slot_bounds [OF ok, of j] slot_fits [OF _ assms(2), of j] that ok by (simp add: vs_ok_def)
  then show "vs_stored (s\<lparr>vs_file := set_len len (vs_file s), vs_mapped := b\<rparr>) off = vs_stored s off"
    by (simp add: vs_stored_def vs_get_def Let_def read_at_set_len)
qed

lemma vs_wf_mapped [simp]:
  "vs_wf crc (s\<lparr>vs_mapped := b\<rparr>) = vs_wf crc s" "vs_stored (s\<lparr>vs_mapped := b\<rparr>) = vs_stored s"
  by (simp_all add: vs_wf_def vs_stored_def fun_eq_iff)

lemma vs_ok_wf: "vs_ok crc s \<longleftrightarrow> vs_wf crc s \<and> vs_mapped s"
  by (auto simp: vs_wf_def vs_ok_def file_header_def)

lemma grow_inner_err:
  assumes "vs_wf crc s" "grow_inner crc out s i = (Inl e, s')" "i < usize_max" "vs_slots s \<le> i"
  shows "vs_wf crc s' \<and> vs_stored s' = vs_stored s"
proof -
  let ?n = "max (max (i + 1) (saturating_mul (vs_slots s) 2)) 1024"
  let ?len = "HEADER_SIZE + ?n * vs_dim s * 4"
  have i: "(i + 1) mod 2 ^ 64 = i + 1" using assms(3) by (simp add: usize_max_def)
  have "HEADER_SIZE + vs_slots s * vs_dim s * 4 \<le> ?len"
    using assms(4) by (intro add_left_mono mult_le_mono1) simp
  then have wf: "?len \<le> usize_max \<Longrightarrow> vs_wf crc (s\<lparr>vs_file := set_len ?len (vs_file s), vs_mapped := False\<rparr>) \<and>
      vs_stored (s\<lparr>vs_file := set_len ?len (vs_file s), vs_mapped := False\<rparr>) = vs_stored s"
    using set_len_wf [OF assms(1), of ?len] by (simp add: fun_eq_iff)
  have "s' = s \<or> (\<exists>b. s' = s\<lparr>vs_mapped := b\<rparr>) \<or>
      ?len \<le> usize_max \<and> s' = s\<lparr>vs_file := set_len ?len (vs_file s), vs_mapped := False\<rparr>"
    using assms(2) i by (auto simp: grow_inner_def Let_def split: option.splits grow_outcome.splits bind_splits)
  then show ?thesis using assms(1) wf by auto
qed

lemma vs_put_err:
  assumes "vs_wf crc s" "vs_put crc out s off v = (Inl e, s')" "off \<noteq> - 1"
  shows "vs_wf crc s' \<and> vs_stored s' = vs_stored s"
proof (cases "length v = vs_dim s \<and> vs_slots s \<le> unat off")
  case True
  obtain r s1 where g: "grow_inner crc out s (unat off) = (r, s1)" by fastforce
  show ?thesis
  proof (cases r)
    case (Inl err)
    then have "s1 = s'" using True assms(2) g by (simp add: vs_put_def Let_def)
    then show ?thesis using grow_inner_err [OF assms(1) _ offset_below_max [OF assms(3)]] g Inl True by simp
  next
    case (Inr u)
    have gm: "grow_inner crc out (s\<lparr>vs_mapped := True\<rparr>) (unat off) = (Inr (), s1)"
      using g Inr by (auto simp: grow_inner_def Let_def split: option.splits grow_outcome.splits)
    have ok1: "vs_ok crc s1" "unat off < vs_slots s1"
      using grow_inner_ok [OF _ gm offset_below_max [OF assms(3)]] assms(1) by (simp_all add: vs_wf_def)
    then have False
      using True assms(2) g Inr vs_slot_bounds(2) [OF ok1]
      by (simp add: vs_put_def Let_def vs_ok_def split: if_splits)
    then show ?thesis ..
  qed
next
  case False
  then have "s' = s" using assms(2) by (auto simp: vs_put_def Let_def split: if_splits)
  then show ?thesis using assms(1) by simp
qed

lemma vs_stored_slot:
  "vs_wf crc s \<Longrightarrow> vs_stored s off = (if unat off < vs_count s then map_option bytes_vec (slot_bytes s (unat off)) else None)"
  using vs_get_slot [of crc "s\<lparr>vs_mapped := True\<rparr>" off] by (simp add: vs_wf_def vs_stored_def slot_bytes_def)

interpretation vslots: slot_store "vs_wf crc" vs_stored "vs_put crc" "\<lambda>off. off \<noteq> - 1"
  for crc :: "bytes \<Rightarrow> u32"
proof unfold_locales
  fix s off out v r s'
  assume a: "vs_wf crc s" "off \<noteq> - 1" "vs_put crc out s off v = (r, s')"
  have ok: "vs_ok crc (s\<lparr>vs_mapped := True\<rparr>)" using a(1) by (simp add: vs_wf_def)
  note p = vs_put_ok [OF ok vs_put_remap a(2)]
  show "vs_wf crc s'"
    using p(1) vs_put_err [OF a(1) _ a(2)] a(3) by (cases r) (auto simp: vs_ok_wf)
next
  fix s off out v s'
  assume a: "vs_wf crc s" "off \<noteq> - 1" "vs_put crc out s off v = (Inr (), s')"
  have ok: "vs_ok crc (s\<lparr>vs_mapped := True\<rparr>)" using a(1) by (simp add: vs_wf_def)
  note p = vs_put_ok [OF ok vs_put_remap [OF a(3)] a(2)]
  then show "vs_stored s' off = Some v" using vs_stored_slot [of crc s' off] by (simp add: vs_ok_wf)
next
  fix s off out v r s' j err x
  assume a: "vs_wf crc s" "off \<noteq> - 1" "vs_put crc out s off v = (r, s')" "j \<noteq> off \<or> r = Inl err"
    "vs_stored s j = Some x"
  show "vs_stored s' j = Some x"
  proof (cases r)
    case (Inl e)
    then show ?thesis using vs_put_err [OF a(1) _ a(2)] a by simp
  next
    case (Inr u)
    have ok: "vs_ok crc (s\<lparr>vs_mapped := True\<rparr>)" using a(1) by (simp add: vs_wf_def)
    have "vs_put crc out s off v = (Inr (), s')" using a(3) Inr by simp
    note p = vs_put_ok [OF ok vs_put_remap [OF this] a(2)]
    have j: "unat j < vs_count s" and x: "map_option bytes_vec (slot_bytes s (unat j)) = Some x"
      using a(1,5) vs_stored_slot [of crc s j] by (auto split: if_splits)
    moreover have "unat j \<noteq> unat off" using a(4) Inr by (simp add: word_unat_eq_iff)
    moreover have "unat j < vs_slots s" using j ok by (simp add: vs_ok_def)
    ultimately show ?thesis
      using p(1,5) p(4) [of "unat j"] vs_stored_slot [of crc s' j] by (simp add: vs_ok_wf slot_bytes_def)
  qed
qed


section \<open>Claims\<close>

lemma vs_new_ok:
  assumes "new_with_capacity crc d n = Inr s" "d < 2 ^ 32"
  shows "vs_ok crc s" "vs_count s = 0" "vs_dim s = d" "1024 \<le> vs_slots s"
proof -
  let ?k = "max n 1024"
  let ?len = "HEADER_SIZE + ?k * d * 4"
  have d: "0 < d" and len: "?len \<le> usize_max"
    and s: "s = \<lparr>vs_file = write_at 0 (bytes_of_header (make_header crc d 0)) (set_len ?len []),
                 vs_mapped = True, vs_dim = d, vs_count = 0, vs_slots = ?k\<rparr>"
    using assms(1) by (auto simp: new_with_capacity_def result_iff Let_def bind_eq_Some_conv split: if_splits)
  have fl: "length (vs_file s) = ?len"
    by (simp add: s length_write_at length_set_len length_bytes_of_header)
  have "file_header s = make_header crc d 0"
    by (simp add: s file_header_def take_write_at_0 length_bytes_of_header header_roundtrip)
  with d len fl assms(2) validate_make_header [of d crc 0] show "vs_ok crc s"
    by (simp add: vs_ok_def) (simp add: s)
  show "vs_count s = 0" "vs_dim s = d" "1024 \<le> vs_slots s" by (simp_all add: s)
qed

text \<open>A concrete store for the witnesses: dimension one, a checksum that counts bytes.\<close>

definition demo_crc :: "bytes \<Rightarrow> u32" where
  "demo_crc bs = word_of_nat (sum_list (map unat bs))"

definition demo_vs :: vstore where
  "demo_vs = (case new_with_capacity demo_crc 1 0 of Inr s \<Rightarrow> s)"

lemma demo_vs: "new_with_capacity demo_crc 1 0 = Inr demo_vs"
  by (simp add: demo_vs_def new_with_capacity_def Let_def checked_mul_def checked_add_def usize_max_def HEADER_SIZE_def)

lemmas demo_vs_ok = vs_new_ok [OF demo_vs, simplified]

lemma vs_put_in_range:
  assumes "vs_ok crc s" "unat off < vs_slots s" "length v = vs_dim s"
  shows "\<exists>s'. vs_put crc out s off v = (Inr (), s')"
  using vs_slot_bounds(2) [OF assms(1,2)] assms by (auto simp: vs_put_def Let_def vs_ok_def)

lemma demo_put: "\<exists>s'. vs_put demo_crc GrowOk demo_vs 7 [f32_one] = (Inr (), s')"
  using vs_put_in_range [OF demo_vs_ok(1), of 7 "[f32_one]" GrowOk] demo_vs_ok(3,4) by simp

lemma demo_put_get:
  "\<exists>s'. vs_put demo_crc GrowOk demo_vs 7 [f32_one] = (Inr (), s') \<and> vs_ok demo_crc s' \<and>
     vs_get s' 7 = Some [f32_one] \<and> vs_count s' = 8"
proof -
  obtain s' where p: "vs_put demo_crc GrowOk demo_vs 7 [f32_one] = (Inr (), s')" using demo_put by blast
  have m: "(7 :: u64) \<noteq> - 1" by simp
  note q = vs_put_ok [OF demo_vs_ok(1) p m]
  have c: "vs_count s' = 8" using q(5) demo_vs_ok(2) by simp
  then have "vs_get s' 7 = Some [f32_one]" using vs_get_slot [OF q(1), of 7] q(2) by simp
  then show ?thesis using p q(1) c by blast
qed

text \<open>C20. A completed put survives a kill: after any history of puts, some of which failed (a
  full disk, a lost mapping), only the file is left, without a flush. Reopening it succeeds, and
  recovering an acknowledged offset with the checksum logged for its last vector returns exactly
  that vector, which is then readable.\<close>

theorem vs_kill_recover:
  assumes "vs_wf crc s" "list_all (\<lambda>(out, off, v). off \<noteq> - 1) ps"
    and "slot_store.run (vs_put crc) ps s = (acks, s')" "map_of (rev acks) off = Some v"
  shows "\<exists>s1 s2. vs_open crc (Some (vs_file s')) (vs_dim s') n = Inr s1 \<and>
    vs_recover crc s1 off (Some (vector_crc crc v)) = (Some v, s2) \<and> vs_ok crc s2 \<and> vs_get s2 off = Some v"
proof -
  let ?t = "s'\<lparr>vs_mapped := True\<rparr>"
  have wf: "vs_wf crc s'" and st: "vs_stored s' off = Some v"
    using vslots.run_inv [OF assms(1-3)] vslots.run_stored [OF assms] by simp_all
  then have ok: "vs_ok crc ?t" by (simp add: vs_ok_wf)
  obtain bs where bs: "slot_bytes s' (unat off) = Some bs" "bytes_vec bs = v" and c: "unat off < vs_count s'"
    using st vs_stored_slot [OF wf, of off] by (auto split: if_splits)
  have u: "unat off < vs_slots s'" using c ok by (simp add: vs_ok_def)
  then have "length bs = 4 * vs_dim s'"
    using slot_bytes_Some [OF ok, of "unat off"] bs(1) by (simp add: slot_bytes_def)
  then have vb: "bs = vec_bytes v" using vec_bytes_inverse bs(2) by metis
  obtain s1 where s1: "vs_open crc (Some (vs_file s')) (vs_dim s') n = Inr s1" "vs_ok crc s1"
    "vs_file s1 = vs_file s'" "vs_dim s1 = vs_dim s'" "vs_slots s' \<le> vs_slots s1"
    using vs_reopen [OF ok, of n] by auto
  then have r: "vs_recover crc s1 off (Some (vector_crc crc v)) =
      (Some v, s1\<lparr>vs_count := max (vs_count s1) (unat off + 1)\<rparr>)"
    using bs(1) u vb by (intro vs_recover_slot) (auto simp: slot_bytes_def)
  show ?thesis using s1(1) r vs_recover_ok(1,4) [OF s1(2) r] by blast
qed

theorem vs_kill_recover_witness:
  "\<exists>s' s1 s2. slot_store.run (vs_put demo_crc) [(GrowOk, 7, [f32_one])] demo_vs = ([(7, [f32_one])], s') \<and>
     vs_open demo_crc (Some (vs_file s')) (vs_dim s') 0 = Inr s1 \<and>
     vs_recover demo_crc s1 7 (Some (vector_crc demo_crc [f32_one])) = (Some [f32_one], s2) \<and>
     vs_get s2 7 = Some [f32_one]"
proof -
  obtain s' where p: "vs_put demo_crc GrowOk demo_vs 7 [f32_one] = (Inr (), s')" using demo_put by blast
  then have r: "slot_store.run (vs_put demo_crc) [(GrowOk, 7, [f32_one])] demo_vs = ([(7, [f32_one])], s')"
    by (simp add: vslots.run.simps)
  have wf: "vs_wf demo_crc demo_vs" using demo_vs_ok(1) by (simp add: vs_ok_wf)
  show ?thesis using vs_kill_recover [OF wf _ r, of 7 "[f32_one]" 0] r by auto
qed

text \<open>Put and get: on a usable store a successful put makes its vector readable, leaves every
  other readable vector as it was, and keeps the store usable, also when the file had to grow.\<close>

theorem vs_put_get:
  assumes "vs_ok crc s" "off \<noteq> - 1" "vs_put crc out s off v = (Inr (), s')"
  shows "vs_ok crc s' \<and> vs_get s' off = Some v \<and> vs_count s' = max (vs_count s) (unat off + 1) \<and>
    (\<forall>j. j \<noteq> off \<and> unat j < vs_count s \<longrightarrow> vs_get s' j = vs_get s j)"
proof -
  note p = vs_put_ok [OF assms(1,3,2)]
  have "vs_get s' j = vs_get s j" if j: "j \<noteq> off" "unat j < vs_count s" for j
  proof -
    have "unat j < vs_slots s" using j(2) assms(1) by (simp add: vs_ok_def)
    then have "slot_bytes s' (unat j) = slot_bytes s (unat j)"
      using p(4) j(1) by (simp add: word_unat_eq_iff)
    then show ?thesis using vs_get_slot [OF p(1), of j] vs_get_slot [OF assms(1), of j] j(2) p(5)
      by (simp add: less_max_iff_disj)
  qed
  then show ?thesis using p vs_get_slot [OF p(1), of off] by simp
qed

theorem vs_put_get_witness:
  "\<exists>s'. vs_put demo_crc GrowOk demo_vs 7 [f32_one] = (Inr (), s') \<and> vs_get s' 7 = Some [f32_one] \<and> vs_count s' = 8"
proof -
  obtain s' where p: "vs_put demo_crc GrowOk demo_vs 7 [f32_one] = (Inr (), s')" using demo_put by blast
  show ?thesis using vs_put_get [OF demo_vs_ok(1) _ p] p demo_vs_ok(2) by simp
qed

text \<open>C21. Flush and reopen: a flush of a usable store succeeds, and opening the flushed file gives
  a usable store with the same count and the same vector at every offset.\<close>

theorem vs_flush_reopen:
  assumes "vs_ok crc s"
  shows "\<exists>s' s2. vs_flush crc s = (Inr (), s') \<and> vs_open crc (Some (vs_file s')) (vs_dim s) n = Inr s2 \<and>
    vs_ok crc s2 \<and> vs_count s2 = vs_count s \<and> (\<forall>off. vs_get s2 off = vs_get s off)"
proof -
  obtain r s' where f: "vs_flush crc s = (r, s')" by fastforce
  note fl = vs_flush_ok [OF assms f]
  obtain s2 where s2: "vs_open crc (Some (vs_file s')) (vs_dim s) n = Inr s2" "vs_ok crc s2" "vs_file s2 = vs_file s'"
    "vs_dim s2 = vs_dim s" "vs_slots s \<le> vs_slots s2" "vs_count s2 = min (vs_count s) (vs_slots s2)"
    using vs_reopen [OF fl(2), of n] fl(3,5,7) by auto
  then have cnt: "vs_count s2 = vs_count s" using assms by (simp add: vs_ok_def)
  have "vs_get s2 off = vs_get s off" for off
  proof (cases "unat off < vs_count s")
    case True
    then have "slot_bytes s' (unat off) = slot_bytes s (unat off)"
      using fl(4) assms by (simp add: vs_ok_def)
    moreover have "slot_bytes s2 (unat off) = slot_bytes s' (unat off)"
      using s2(3,4) fl(5) by (simp add: slot_bytes_def)
    ultimately show ?thesis using vs_get_slot [OF s2(2), of off] vs_get_slot [OF assms, of off] cnt by simp
  next
    case False
    then show ?thesis using vs_get_slot [OF s2(2), of off] vs_get_slot [OF assms, of off] cnt by simp
  qed
  then show ?thesis using f fl(1) s2(1,2) cnt by blast
qed

theorem vs_flush_reopen_witness:
  "\<exists>s' s2. vs_flush demo_crc demo_vs = (Inr (), s') \<and> vs_open demo_crc (Some (vs_file s')) 1 0 = Inr s2 \<and>
     vs_count s2 = 0"
  using vs_flush_reopen [OF demo_vs_ok(1), of 0] demo_vs_ok(2,3) by auto

end
