(* ===== verification/Metadata_Store.thy ===== *)
theory Metadata_Store
  imports Records
begin

text \<open>
  The metadata store of \<open>turbomemory_storage/src/metadata_store.rs\<close>: an in-memory cache of
  metadata records, demotion factors and access histories, each with a set of offsets that
  changed since the last flush, and the \<open>redb\<close> database it is snapshotted to. The database is
  its tables (a table that was never created reads as empty). A write transaction is all or
  nothing and its outcome is an argument; the \<open>bincode\<close> encodings are parameters.
\<close>

section \<open>The database\<close>

record redb_db =
  db_records :: "(u64, bytes) fmap"
  db_meta :: "(string, string) fmap"
  db_meta_bin :: "(string, bytes) fmap"
  db_demotion :: "(u64, f32) fmap"
  db_history :: "(u64, bytes) fmap"

record meta_codec =
  ser_meta :: "meta_record \<Rightarrow> bytes option"
  de_meta :: "bytes \<Rightarrow> meta_record option"
  ser_ring :: "u64 list \<Rightarrow> bytes option"
  de_ring :: "bytes \<Rightarrow> u64 list option"

text \<open>What \<open>bincode\<close> promises: what was serialized deserializes to the same value.\<close>

definition codec_ok :: "meta_codec \<Rightarrow> bool" where
  "codec_ok C \<longleftrightarrow> (\<forall>m b. ser_meta C m = Some b \<longrightarrow> de_meta C b = Some m) \<and>
     (\<forall>r b. ser_ring C r = Some b \<longrightarrow> de_ring C b = Some r)"

datatype db_open = Opened redb_db | OpenFails | OpenPanics

datatype txn_outcome = TxnOk | BeginFails | CommitFails

section \<open>The store\<close>

record mstore =
  ms_db :: redb_db
  ms_records :: "(point_offset, meta_record) fmap"
  ms_dirty :: "point_offset fset"
  ms_demotion :: "(point_offset, f32) fmap"
  ms_demotion_dirty :: "point_offset fset"
  ms_history :: "(point_offset, u64 list) fmap"
  ms_history_dirty :: "point_offset fset"
  ms_next_offset :: u64
  ms_next_seq :: u64
  ms_record_count :: u64

definition NO_DEMOTION :: f32 where
  "NO_DEMOTION = f32_one"

text \<open>Reading a table: every value is decoded, one that cannot be decoded fails the load.\<close>

fun decode_items :: "('b \<Rightarrow> 'v option) \<Rightarrow> ('k \<times> 'b) list \<Rightarrow> ('k, 'v) fmap \<Rightarrow> ('k, 'v) fmap result" where
  "decode_items de [] m = Inr m"
| "decode_items de ((k, b) # items) m =
     (case de b of None \<Rightarrow> Inl Serialize | Some v \<Rightarrow> decode_items de items (fmupd k v m))"

definition table_items :: "('k :: linorder, 'b) fmap \<Rightarrow> ('k \<times> 'b) list" where
  "table_items t = map (\<lambda>k. (k, the (fmlookup t k))) (sorted_list_of_fset (fmdom t))"

definition load_records :: "meta_codec \<Rightarrow> redb_db \<Rightarrow> (point_offset, meta_record) fmap result" where
  "load_records C db = decode_items (de_meta C) (table_items (db_records db)) fmempty"

definition load_demotion :: "redb_db \<Rightarrow> (point_offset, f32) fmap result" where
  "load_demotion db = decode_items Some (table_items (db_demotion db)) fmempty"

definition load_access_history :: "meta_codec \<Rightarrow> redb_db \<Rightarrow> (point_offset, u64 list) fmap result" where
  "load_access_history C db = decode_items (de_ring C) (table_items (db_history db)) fmempty"

definition load_meta :: "redb_db \<Rightarrow> string \<Rightarrow> string option" where
  "load_meta db key = fmlookup (db_meta db) key"

definition ms_open :: "meta_codec \<Rightarrow> string \<Rightarrow> db_open \<Rightarrow> mstore result" where
  "ms_open C db_file opened =
     (case opened of
        OpenFails \<Rightarrow> Inl Redb
      | OpenPanics \<Rightarrow> Inl (Corrupted (db_file @ '' is damaged and cannot be opened (restore it from a backup)''))
      | Opened db \<Rightarrow>
          rbind (load_records C db) (\<lambda>records.
          rbind (load_demotion db) (\<lambda>demotion.
          rbind (load_access_history C db) (\<lambda>history.
          let keys = sorted_list_of_fset (fmdom records);
              next_offset = (case Option.bind (load_meta db ''next_offset'') parse_u64 of
                               Some n \<Rightarrow> n
                             | None \<Rightarrow> if keys = [] then 0 else foldr max keys 0 + 1);
              next_seq = (case Option.bind (load_meta db ''next_seq'') parse_u64 of
                            Some n \<Rightarrow> n
                          | None \<Rightarrow> if keys = [] then 1
                                    else foldr max (map (\<lambda>k. m_insert_seq (the (fmlookup records k)) + 1) keys) 0)
          in Inr \<lparr>ms_db = db, ms_records = records, ms_dirty = {||}, ms_demotion = demotion,
                  ms_demotion_dirty = {||}, ms_history = history, ms_history_dirty = {||},
                  ms_next_offset = next_offset, ms_next_seq = next_seq,
                  ms_record_count = word_of_nat (fcard (fmdom records))\<rparr>))))"

subsection \<open>Reads\<close>

definition ms_get :: "mstore \<Rightarrow> point_offset \<Rightarrow> meta_record option" where
  "ms_get s off = fmlookup (ms_records s) off"

definition ms_id_of :: "mstore \<Rightarrow> point_offset \<Rightarrow> string option" where
  "ms_id_of s off = map_option m_id (fmlookup (ms_records s) off)"

definition demotion_factor :: "mstore \<Rightarrow> point_offset \<Rightarrow> f32" where
  "demotion_factor s off = (case fmlookup (ms_demotion s) off of None \<Rightarrow> NO_DEMOTION | Some f \<Rightarrow> f)"

definition access_history :: "mstore \<Rightarrow> point_offset \<Rightarrow> u64 list" where
  "access_history s off = (case fmlookup (ms_history s) off of None \<Rightarrow> [] | Some r \<Rightarrow> r)"

definition last_applied_seq :: "mstore \<Rightarrow> u64 option" where
  "last_applied_seq s = Option.bind (load_meta (ms_db s) ''last_applied_seq'') parse_u64"

definition is_fresh :: "mstore \<Rightarrow> bool" where
  "is_fresh s \<longleftrightarrow> ms_record_count s = 0 \<and> last_applied_seq s = None \<and> load_meta (ms_db s) ''next_offset'' = None"

definition max_live_offset :: "mstore \<Rightarrow> point_offset option" where
  "max_live_offset s =
     (let keys = sorted_list_of_fset (fmdom (ms_records s)) in if keys = [] then None else Some (foldr max keys 0))"

definition load_meta_bytes :: "mstore \<Rightarrow> string \<Rightarrow> bytes option" where
  "load_meta_bytes s key = fmlookup (db_meta_bin (ms_db s)) key"

subsection \<open>Writes to the cache\<close>

definition set_demotion_factor :: "point_offset \<Rightarrow> f32 \<Rightarrow> mstore \<Rightarrow> mstore" where
  "set_demotion_factor off f0 s =
     (let f = f32_clamp f0 f32_zero f32_one; old = fmlookup (ms_demotion s) off;
          (changed, m) =
            (if f32_le NO_DEMOTION f then (old \<noteq> None, fmdrop off (ms_demotion s))
             else ((case old of None \<Rightarrow> True | Some g \<Rightarrow> \<not> f32_eq g f), fmupd off f (ms_demotion s)))
      in s\<lparr>ms_demotion := m,
           ms_demotion_dirty := (if changed then finsert off (ms_demotion_dirty s) else ms_demotion_dirty s)\<rparr>)"

definition append_access_history :: "point_offset \<Rightarrow> u64 list \<Rightarrow> nat \<Rightarrow> mstore \<Rightarrow> mstore" where
  "append_access_history off new_ts max_len s =
     (if new_ts = [] then s
      else let entry = sort (access_history s off @ new_ts);
               ring = (if max_len < length entry then drop (length entry - max_len) entry else entry)
           in s\<lparr>ms_history := fmupd off ring (ms_history s), ms_history_dirty := finsert off (ms_history_dirty s)\<rparr>)"

definition put_meta :: "point_offset \<Rightarrow> meta_record \<Rightarrow> mstore \<Rightarrow> mstore" where
  "put_meta off m s =
     (let is_new = (fmlookup (ms_records s) off = None)
      in s\<lparr>ms_records := fmupd off m (ms_records s), ms_dirty := finsert off (ms_dirty s),
           ms_record_count := (if is_new then ms_record_count s + 1 else ms_record_count s)\<rparr>)"

definition ms_put :: "point_offset \<Rightarrow> mem_record \<Rightarrow> mstore \<Rightarrow> mstore" where
  "ms_put off r s = put_meta off (meta_of_record r) s"

fun put_batch_loop :: "(point_offset \<times> mem_record) list \<Rightarrow> (point_offset, meta_record) fmap \<Rightarrow> point_offset fset
    \<Rightarrow> u64 \<Rightarrow> (point_offset, meta_record) fmap \<times> point_offset fset \<times> u64" where
  "put_batch_loop [] cache dirty added = (cache, dirty, added)"
| "put_batch_loop ((off, r) # rs) cache dirty added =
     put_batch_loop rs (fmupd off (meta_of_record r) cache) (finsert off dirty)
       (if fmlookup cache off = None then added + 1 else added)"

definition put_batch :: "(point_offset \<times> mem_record) list \<Rightarrow> mstore \<Rightarrow> mstore" where
  "put_batch rs s =
     (if rs = [] then s
      else case put_batch_loop rs (ms_records s) (ms_dirty s) 0 of
        (cache, dirty, added) \<Rightarrow>
          s\<lparr>ms_records := cache, ms_dirty := dirty,
            ms_record_count := (if 0 < added then ms_record_count s + added else ms_record_count s)\<rparr>)"

definition ms_remove :: "point_offset \<Rightarrow> mstore \<Rightarrow> mstore" where
  "ms_remove off s =
     (let existed = (fmlookup (ms_records s) off \<noteq> None);
          demoted = (fmlookup (ms_demotion s) off \<noteq> None);
          accessed = (fmlookup (ms_history s) off \<noteq> None)
      in s\<lparr>ms_records := fmdrop off (ms_records s), ms_dirty := finsert off (ms_dirty s),
           ms_record_count := (if existed then ms_record_count s - 1 else ms_record_count s),
           ms_demotion := fmdrop off (ms_demotion s),
           ms_demotion_dirty := (if demoted then finsert off (ms_demotion_dirty s) else ms_demotion_dirty s),
           ms_history := fmdrop off (ms_history s),
           ms_history_dirty := (if accessed then finsert off (ms_history_dirty s) else ms_history_dirty s)\<rparr>)"

definition allocate_offset :: "mstore \<Rightarrow> point_offset \<times> mstore" where
  "allocate_offset s = (ms_next_offset s, s\<lparr>ms_next_offset := ms_next_offset s + 1\<rparr>)"

definition allocate_seq :: "mstore \<Rightarrow> u64 \<times> mstore" where
  "allocate_seq s = (ms_next_seq s, s\<lparr>ms_next_seq := ms_next_seq s + 1\<rparr>)"

definition advance_offset_past :: "point_offset \<Rightarrow> mstore \<Rightarrow> mstore" where
  "advance_offset_past off s = s\<lparr>ms_next_offset := max (ms_next_offset s) (off + 1)\<rparr>"

definition advance_seq_past :: "u64 \<Rightarrow> mstore \<Rightarrow> mstore" where
  "advance_seq_past q s = s\<lparr>ms_next_seq := max (ms_next_seq s) (q + 1)\<rparr>"

subsection \<open>The snapshot\<close>

text \<open>The loop over a dirty set: a cached entry is written, an absent one is removed.\<close>

fun write_dirty :: "('v \<Rightarrow> 'b option) \<Rightarrow> ('k, 'v) fmap \<Rightarrow> 'k list \<Rightarrow> ('k, 'b) fmap \<Rightarrow> ('k, 'b) fmap result" where
  "write_dirty ser cache [] t = Inr t"
| "write_dirty ser cache (k # ks) t =
     (case fmlookup cache k of
        None \<Rightarrow> write_dirty ser cache ks (fmdrop k t)
      | Some v \<Rightarrow> (case ser v of None \<Rightarrow> Inl Serialize | Some b \<Rightarrow> write_dirty ser cache ks (fmupd k b t)))"

definition write_snapshot :: "meta_codec \<Rightarrow> txn_outcome \<Rightarrow> point_offset fset \<Rightarrow> point_offset fset \<Rightarrow> point_offset fset
    \<Rightarrow> u64 \<Rightarrow> mstore \<Rightarrow> unit result \<times> mstore" where
  "write_snapshot C out dirty demotion_dirty history_dirty last_applied s =
     (let db = ms_db s;
          written = (if out = BeginFails then Inl Redb else
            rbind (write_dirty (ser_meta C) (ms_records s) (sorted_list_of_fset dirty) (db_records db)) (\<lambda>recs.
            rbind (write_dirty Some (ms_demotion s) (sorted_list_of_fset demotion_dirty) (db_demotion db)) (\<lambda>dems.
            rbind (write_dirty (ser_ring C) (ms_history s) (sorted_list_of_fset history_dirty) (db_history db)) (\<lambda>hist.
            if out = CommitFails then Inl Redb
            else Inr (db\<lparr>db_records := recs, db_demotion := dems, db_history := hist,
                   db_meta := fmupd ''last_applied_seq'' (u64_to_string last_applied)
                     (fmupd ''next_seq'' (u64_to_string (ms_next_seq s))
                       (fmupd ''next_offset'' (u64_to_string (ms_next_offset s)) (db_meta db)))\<rparr>)))))
      in case written of Inl e \<Rightarrow> (Inl e, s) | Inr db' \<Rightarrow> (Inr (), s\<lparr>ms_db := db'\<rparr>))"

definition ms_flush :: "meta_codec \<Rightarrow> txn_outcome \<Rightarrow> u64 \<Rightarrow> mstore \<Rightarrow> unit result \<times> mstore" where
  "ms_flush C out last_applied s =
     (let dirty = ms_dirty s; demotion_dirty = ms_demotion_dirty s; history_dirty = ms_history_dirty s;
          s1 = s\<lparr>ms_dirty := {||}, ms_demotion_dirty := {||}, ms_history_dirty := {||}\<rparr>
      in if dirty = {||} \<and> demotion_dirty = {||} \<and> history_dirty = {||} \<and>
            last_applied_seq s1 = Some last_applied \<and> fmdom (ms_records s1) = {||}
         then (Inr (), s1)
         else case write_snapshot C out dirty demotion_dirty history_dirty last_applied s1 of
           (Inr u, s2) \<Rightarrow> (Inr u, s2)
         | (Inl e, s2) \<Rightarrow>
             (Inl e, s2\<lparr>ms_dirty := ms_dirty s2 |\<union>| dirty,
                        ms_demotion_dirty := ms_demotion_dirty s2 |\<union>| demotion_dirty,
                        ms_history_dirty := ms_history_dirty s2 |\<union>| history_dirty\<rparr>))"

text \<open>A codec that encodes every record and every ring.\<close>

definition encodes_all :: "meta_codec \<Rightarrow> bool" where
  "encodes_all C \<longleftrightarrow> (\<forall>m. ser_meta C m \<noteq> None) \<and> (\<forall>r. ser_ring C r \<noteq> None)"

text \<open>Single values in their own transaction.\<close>

definition save_meta :: "txn_outcome \<Rightarrow> string \<Rightarrow> string \<Rightarrow> mstore \<Rightarrow> unit result \<times> mstore" where
  "save_meta out key val s =
     (if out \<noteq> TxnOk then (Inl Redb, s)
      else (Inr (), s\<lparr>ms_db := (ms_db s)\<lparr>db_meta := fmupd key val (db_meta (ms_db s))\<rparr>\<rparr>))"

definition save_meta_bytes :: "txn_outcome \<Rightarrow> string \<Rightarrow> bytes \<Rightarrow> mstore \<Rightarrow> unit result \<times> mstore" where
  "save_meta_bytes out key val s =
     (if out \<noteq> TxnOk then (Inl Redb, s)
      else (Inr (), s\<lparr>ms_db := (ms_db s)\<lparr>db_meta_bin := fmupd key val (db_meta_bin (ms_db s))\<rparr>\<rparr>))"

definition remove_meta :: "txn_outcome \<Rightarrow> string \<Rightarrow> mstore \<Rightarrow> unit result \<times> mstore" where
  "remove_meta out key s =
     (if load_meta (ms_db s) key = None then (Inr (), s)
      else if out \<noteq> TxnOk then (Inl Redb, s)
      else (Inr (), s\<lparr>ms_db := (ms_db s)\<lparr>db_meta := fmdrop key (db_meta (ms_db s))\<rparr>\<rparr>))"

definition remove_meta_bytes :: "txn_outcome \<Rightarrow> string \<Rightarrow> mstore \<Rightarrow> unit result \<times> mstore" where
  "remove_meta_bytes out key s =
     (if load_meta_bytes s key = None then (Inr (), s)
      else if out \<noteq> TxnOk then (Inl Redb, s)
      else (Inr (), s\<lparr>ms_db := (ms_db s)\<lparr>db_meta_bin := fmdrop key (db_meta_bin (ms_db s))\<rparr>\<rparr>))"

definition save_sequences :: "txn_outcome \<Rightarrow> txn_outcome \<Rightarrow> mstore \<Rightarrow> unit result \<times> mstore" where
  "save_sequences out1 out2 s =
     (case save_meta out1 ''next_offset'' (u64_to_string (ms_next_offset s)) s of
        (Inl e, s1) \<Rightarrow> (Inl e, s1)
      | (Inr _, s1) \<Rightarrow> save_meta out2 ''next_seq'' (u64_to_string (ms_next_seq s1)) s1)"


section \<open>Tables and caches\<close>

text \<open>A table and a cache agree outside a set of dirty keys, up to the relation between a stored
  value and a cached one.\<close>

definition synced :: "('b \<Rightarrow> 'v \<Rightarrow> bool) \<Rightarrow> 'k fset \<Rightarrow> ('k, 'b) fmap \<Rightarrow> ('k, 'v) fmap \<Rightarrow> bool" where
  "synced R D t m \<longleftrightarrow> (\<forall>k. k |\<notin>| D \<longrightarrow> rel_option R (fmlookup t k) (fmlookup m k))"

lemma synced_upd [intro]: "synced R D t m \<Longrightarrow> synced R (finsert k D) t (fmupd k v m)"
  by (auto simp: synced_def)

lemma synced_drop [intro]: "synced R D t m \<Longrightarrow> synced R (finsert k D) t (fmdrop k m)"
  by (auto simp: synced_def)

lemma synced_dirty [intro]: "synced R D t m \<Longrightarrow> synced R (finsert k D) t m"
  by (auto simp: synced_def)

lemma synced_drop_absent: "synced R D t m \<Longrightarrow> fmlookup m k = None \<Longrightarrow> synced R D t (fmdrop k m)"
  by (auto simp: synced_def)

lemma map_of_table_items: "map_of (table_items t) = fmlookup t"
proof
  fix k show "map_of (table_items t) k = fmlookup t k"
    by (cases "fmlookup t k") (auto simp: table_items_def map_of_map_restrict restrict_map_def fmlookup_dom_iff)
qed

lemma distinct_table_items: "distinct (map fst (table_items t))"
  by (simp add: table_items_def comp_def)

lemma decode_items_ok:
  "decode_items de items m0 = Inr m \<Longrightarrow> distinct (map fst items) \<Longrightarrow>
   fmlookup m k = (case map_of items k of None \<Rightarrow> fmlookup m0 k | Some b \<Rightarrow> de b)"
proof (induction de items m0 rule: decode_items.induct)
  case (2 de k' b items m0)
  then show ?case by (force split: option.splits dest: map_of_SomeD)
qed simp

lemma decode_items_total:
  "(\<And>k b. (k, b) \<in> set items \<Longrightarrow> \<exists>v. de b = Some v) \<Longrightarrow> \<exists>m. decode_items de items m0 = Inr m"
proof (induction de items m0 rule: decode_items.induct)
  case (2 de k b items m0)
  from "2.prems" [of k b] obtain v where "de b = Some v" by auto
  then show ?case using "2.IH" "2.prems" by auto
qed simp

text \<open>Loading a table that is in step with a cache gives the cache back.\<close>

lemma decode_synced:
  assumes "synced (\<lambda>b v. de b = Some v) {||} t m"
  shows "decode_items de (table_items t) fmempty = Inr m"
proof -
  have rel: "rel_option (\<lambda>b v. de b = Some v) (fmlookup t k) (fmlookup m k)" for k
    using assms by (simp add: synced_def)
  have "\<exists>v. de b = Some v" if "(k, b) \<in> set (table_items t)" for k b
  proof -
    have "fmlookup t k = Some b" using that distinct_table_items map_of_table_items by (metis map_of_eq_Some_iff)
    then show ?thesis using rel [of k] by (cases "fmlookup m k") auto
  qed
  then obtain m' where m': "decode_items de (table_items t) fmempty = Inr m'"
    using decode_items_total by blast
  have "fmlookup m' k = fmlookup m k" for k
    using decode_items_ok [OF m' distinct_table_items, of k] rel [of k]
    by (cases "fmlookup t k"; cases "fmlookup m k") (auto simp: map_of_table_items)
  then show ?thesis using m' fmap_ext by metis
qed

lemma write_dirty_lookup:
  "write_dirty ser cache ks t = Inr t' \<Longrightarrow>
   fmlookup t' k = (if k \<in> set ks then Option.bind (fmlookup cache k) ser else fmlookup t k) \<and>
   (\<forall>v. k \<in> set ks \<longrightarrow> fmlookup cache k = Some v \<longrightarrow> (\<exists>b. ser v = Some b))"
  by (induction ser cache ks t rule: write_dirty.induct) (auto split: option.splits)

lemma write_dirty_synced:
  assumes "synced R D t m" "write_dirty ser m (sorted_list_of_fset D) t = Inr t'"
    and "\<And>v b. ser v = Some b \<Longrightarrow> R b v"
  shows "synced R {||} t' m"
  unfolding synced_def
proof (intro allI impI)
  fix k
  show "rel_option R (fmlookup t' k) (fmlookup m k)"
    using write_dirty_lookup [OF assms(2), of k] assms(1,3)
    by (cases "k |\<in>| D"; cases "fmlookup m k") (auto simp: synced_def)
qed

section \<open>The invariant\<close>

text \<open>Demotion factors are compared as numbers, so the sign of a zero may differ between the
  snapshot and the cache.\<close>

definition f32_same :: "f32 \<Rightarrow> f32 \<Rightarrow> bool" where
  "f32_same a b \<longleftrightarrow> a = b \<or> f32_eq a b"

lemma f32_same_refl [simp]: "f32_same a a"
  by (simp add: f32_same_def)

lemma f32_same_trans: "f32_same a b \<Longrightarrow> f32_eq b c \<Longrightarrow> f32_same a c"
  by (auto simp: f32_same_def f32_eq_def)

definition ms_inv :: "meta_codec \<Rightarrow> mstore \<Rightarrow> bool" where
  "ms_inv C s \<longleftrightarrow> codec_ok C \<and>
     synced (\<lambda>b m. de_meta C b = Some m) (ms_dirty s) (db_records (ms_db s)) (ms_records s) \<and>
     synced f32_same (ms_demotion_dirty s) (db_demotion (ms_db s)) (ms_demotion s) \<and>
     synced (\<lambda>b r. de_ring C b = Some r) (ms_history_dirty s) (db_history (ms_db s)) (ms_history s) \<and>
     ms_record_count s = word_of_nat (fcard (fmdom (ms_records s)))"

lemma put_meta_inv: "ms_inv C s \<Longrightarrow> ms_inv C (put_meta off m s)"
  by (auto simp: ms_inv_def put_meta_def Let_def fcard_finsert_if fmlookup_dom_iff)

lemma fcard_drop: "fmlookup m k \<noteq> None \<Longrightarrow> fcard (fmdom m) = Suc (fcard (fmdom (fmdrop k m)))"
  using fcard_Suc_fminus1 [of k "fmdom m"] by (auto simp: fmlookup_dom_iff)

lemma ms_remove_inv:
  assumes "ms_inv C s"
  shows "ms_inv C (ms_remove off s)"
proof (cases "fmlookup (ms_records s) off")
  case None
  then have "fmdrop off (ms_records s) = ms_records s" by (simp add: fmdrop_idle fmlookup_dom_iff)
  then show ?thesis using assms None
    by (auto simp: ms_inv_def ms_remove_def Let_def intro: synced_drop_absent)
next
  case (Some m)
  then show ?thesis using assms fcard_drop [of "ms_records s" off]
    by (auto simp: ms_inv_def ms_remove_def Let_def simp del: fmdom_drop intro: synced_drop_absent)
qed


lemma set_demotion_inv:
  assumes "ms_inv C s"
  shows "ms_inv C (set_demotion_factor off f s)"
proof -
  let ?f = "f32_clamp f f32_zero f32_one"
  have sync: "synced f32_same (ms_demotion_dirty s) (db_demotion (ms_db s)) (ms_demotion s)"
    using assms by (simp add: ms_inv_def)
  have "synced f32_same (ms_demotion_dirty s) (db_demotion (ms_db s)) (fmupd off ?f (ms_demotion s))"
    if "fmlookup (ms_demotion s) off = Some g" "f32_eq g ?f" for g
    unfolding synced_def
  proof (intro allI impI)
    fix k assume "k |\<notin>| ms_demotion_dirty s"
    then have "rel_option f32_same (fmlookup (db_demotion (ms_db s)) k) (fmlookup (ms_demotion s) k)"
      using sync by (simp add: synced_def)
    then show "rel_option f32_same (fmlookup (db_demotion (ms_db s)) k) (fmlookup (fmupd off ?f (ms_demotion s)) k)"
      using that f32_same_trans by (cases "k = off") (auto simp: option_rel_Some2)
  qed
  then show ?thesis using assms sync
    by (auto simp: ms_inv_def set_demotion_factor_def Let_def intro: synced_drop_absent split: option.splits)
qed

lemma append_access_history_inv: "ms_inv C s \<Longrightarrow> ms_inv C (append_access_history off ts n s)"
  by (auto simp: ms_inv_def append_access_history_def Let_def)

text \<open>A batch is its records put one by one.\<close>

lemma put_batch_loop_fold:
  "put_batch_loop rs cache dirty a = (c, d, a') \<Longrightarrow>
   fold (\<lambda>(off, r). ms_put off r) rs (s\<lparr>ms_records := cache, ms_dirty := dirty, ms_record_count := n + a\<rparr>) =
   s\<lparr>ms_records := c, ms_dirty := d, ms_record_count := n + a'\<rparr>"
proof (induction rs cache dirty a rule: put_batch_loop.induct)
  case (2 off r rs cache dirty a)
  then show ?case by (cases "fmlookup cache off") (simp_all add: ms_put_def put_meta_def Let_def add.assoc)
qed simp

lemma put_batch_fold: "put_batch rs s = fold (\<lambda>(off, r). ms_put off r) rs s"
proof (cases "rs = []")
  case False
  obtain c d a where l: "put_batch_loop rs (ms_records s) (ms_dirty s) 0 = (c, d, a)"
    by (cases "put_batch_loop rs (ms_records s) (ms_dirty s) 0")
  have "put_batch rs s = s\<lparr>ms_records := c, ms_dirty := d, ms_record_count := ms_record_count s + a\<rparr>"
    using False l by (auto simp: put_batch_def word_gt_0)
  then show ?thesis using put_batch_loop_fold [OF l, where s = s and n = "ms_record_count s"] by simp
qed (simp add: put_batch_def)

lemma put_batch_inv: "ms_inv C s \<Longrightarrow> ms_inv C (put_batch rs s)"
  unfolding put_batch_fold by (induction rs arbitrary: s) (auto simp: ms_put_def put_meta_inv)

subsection \<open>Flush and load\<close>

lemma write_snapshot_Inl: "write_snapshot C out a b c q s = (Inl e, s') \<Longrightarrow> s' = s"
  by (auto simp: write_snapshot_def Let_def split: sum.splits)

lemma write_dirty_succeeds: "(\<And>v. ser v \<noteq> None) \<Longrightarrow> \<exists>t'. write_dirty ser cache ks t = Inr t'"
proof (induction ks arbitrary: t)
  case (Cons k ks)
  show ?case
  proof (cases "fmlookup cache k")
    case (Some v)
    obtain b where "ser v = Some b" using Cons.prems [of v] by blast
    then show ?thesis using Cons Some by simp
  qed (use Cons in simp)
qed simp

lemma ms_flush_succeeds:
  assumes "encodes_all C"
  shows "fst (ms_flush C TxnOk q s) = Inr ()"
proof -
  have w: "\<exists>t'. write_dirty (ser_meta C) cache ks t = Inr t'" "\<exists>t'. write_dirty (ser_ring C) rings ks rt = Inr t'"
      "\<exists>t'. write_dirty Some dems ks dt = Inr t'" for cache ks t rings rt dems dt
    using assms by (auto simp: encodes_all_def intro!: write_dirty_succeeds)
  have "\<exists>s'. write_snapshot C TxnOk d dd hd q s1 = (Inr (), s')" for d dd hd s1
  proof -
    obtain recs where recs: "write_dirty (ser_meta C) (ms_records s1) (sorted_list_of_fset d) (db_records (ms_db s1)) = Inr recs" using w(1) by blast
    obtain dems where dems: "write_dirty Some (ms_demotion s1) (sorted_list_of_fset dd) (db_demotion (ms_db s1)) = Inr dems" using w(3) by blast
    obtain hist where "write_dirty (ser_ring C) (ms_history s1) (sorted_list_of_fset hd) (db_history (ms_db s1)) = Inr hist" using w(2) by blast
    with recs dems show ?thesis by (simp add: write_snapshot_def Let_def)
  qed
  then obtain s' where "write_snapshot C TxnOk (ms_dirty s) (ms_demotion_dirty s) (ms_history_dirty s) q
      (s\<lparr>ms_dirty := {||}, ms_demotion_dirty := {||}, ms_history_dirty := {||}\<rparr>) = (Inr (), s')" by blast
  then show ?thesis unfolding ms_flush_def Let_def by simp
qed

lemma ms_flush_Inl: "ms_flush C out q s = (Inl e, s') \<Longrightarrow> s' = s"
  by (auto simp: ms_flush_def Let_def split: if_splits prod.splits sum.splits dest!: write_snapshot_Inl)

text \<open>A transaction that does not commit is reported.\<close>

lemma write_snapshot_fails:
  assumes "out \<noteq> TxnOk"
  shows "\<exists>e. write_snapshot C out a b c q s = (Inl e, s)"
proof -
  obtain r s' where w: "write_snapshot C out a b c q s = (r, s')" by fastforce
  have "r \<noteq> Inr ()"
    using w assms by (cases out) (auto simp: write_snapshot_def Let_def result_iff split: sum.splits)
  then obtain e where "r = Inl e" by (cases r) auto
  then show ?thesis using w write_snapshot_Inl by blast
qed

lemma ms_flush_fails:
  assumes "out \<noteq> TxnOk" "ms_dirty s \<noteq> {||}"
  shows "\<exists>e. ms_flush C out q s = (Inl e, s)"
proof -
  obtain e where "write_snapshot C out (ms_dirty s) (ms_demotion_dirty s) (ms_history_dirty s) q
      (s\<lparr>ms_dirty := {||}, ms_demotion_dirty := {||}, ms_history_dirty := {||}\<rparr>) =
      (Inl e, s\<lparr>ms_dirty := {||}, ms_demotion_dirty := {||}, ms_history_dirty := {||}\<rparr>)"
    using write_snapshot_fails [OF assms(1)] by blast
  then show ?thesis using assms(2) by (simp add: ms_flush_def Let_def)
qed

definition ms_clean :: "mstore \<Rightarrow> bool" where
  "ms_clean s \<longleftrightarrow> ms_dirty s = {||} \<and> ms_demotion_dirty s = {||} \<and> ms_history_dirty s = {||}"

lemma write_snapshot_Inr:
  assumes "ms_inv C s" "write_snapshot C out (ms_dirty s) (ms_demotion_dirty s) (ms_history_dirty s) q
      (s\<lparr>ms_dirty := {||}, ms_demotion_dirty := {||}, ms_history_dirty := {||}\<rparr>) = (Inr (), s')"
  shows "ms_inv C s' \<and> ms_clean s' \<and> ms_records s' = ms_records s \<and> ms_demotion s' = ms_demotion s \<and>
    ms_history s' = ms_history s \<and> ms_next_offset s' = ms_next_offset s \<and> ms_next_seq s' = ms_next_seq s \<and>
    last_applied_seq s' = Some q \<and>
    load_meta (ms_db s') ''next_offset'' = Some (u64_to_string (ms_next_offset s)) \<and>
    load_meta (ms_db s') ''next_seq'' = Some (u64_to_string (ms_next_seq s))"
proof -
  obtain r d h where
    r: "write_dirty (ser_meta C) (ms_records s) (sorted_list_of_fset (ms_dirty s)) (db_records (ms_db s)) = Inr r"
    and d: "write_dirty Some (ms_demotion s) (sorted_list_of_fset (ms_demotion_dirty s)) (db_demotion (ms_db s)) = Inr d"
    and h: "write_dirty (ser_ring C) (ms_history s) (sorted_list_of_fset (ms_history_dirty s)) (db_history (ms_db s)) = Inr h"
    and s': "s' = s\<lparr>ms_dirty := {||}, ms_demotion_dirty := {||}, ms_history_dirty := {||},
       ms_db := (ms_db s)\<lparr>db_records := r, db_demotion := d, db_history := h,
         db_meta := fmupd ''last_applied_seq'' (u64_to_string q)
           (fmupd ''next_seq'' (u64_to_string (ms_next_seq s))
             (fmupd ''next_offset'' (u64_to_string (ms_next_offset s)) (db_meta (ms_db s))))\<rparr>\<rparr>"
    using assms(2) by (auto simp: write_snapshot_def Let_def result_iff split: sum.splits if_splits)
  have "synced (\<lambda>b m. de_meta C b = Some m) {||} r (ms_records s)"
    by (rule write_dirty_synced [OF _ r]) (use assms(1) in \<open>auto simp: ms_inv_def codec_ok_def\<close>)
  moreover have "synced f32_same {||} d (ms_demotion s)"
    by (rule write_dirty_synced [OF _ d]) (use assms(1) in \<open>auto simp: ms_inv_def\<close>)
  moreover have "synced (\<lambda>b m. de_ring C b = Some m) {||} h (ms_history s)"
    by (rule write_dirty_synced [OF _ h]) (use assms(1) in \<open>auto simp: ms_inv_def codec_ok_def\<close>)
  ultimately show ?thesis
    using assms(1) by (simp add: s' ms_inv_def ms_clean_def last_applied_seq_def load_meta_def)
qed

lemma ms_flush_Inr:
  assumes "ms_inv C s" "ms_flush C out q s = (Inr (), s')"
  shows "ms_inv C s'" "ms_clean s'" "ms_records s' = ms_records s" "ms_demotion s' = ms_demotion s"
    "ms_history s' = ms_history s" "last_applied_seq s' = Some q"
    "ms_next_offset s' = ms_next_offset s" "ms_next_seq s' = ms_next_seq s"
    "fmdom (ms_records s) \<noteq> {||} \<Longrightarrow>
      load_meta (ms_db s') ''next_offset'' = Some (u64_to_string (ms_next_offset s)) \<and>
      load_meta (ms_db s') ''next_seq'' = Some (u64_to_string (ms_next_seq s))"
proof -
  let ?s1 = "s\<lparr>ms_dirty := {||}, ms_demotion_dirty := {||}, ms_history_dirty := {||}\<rparr>"
  let ?skip = "ms_clean s \<and> last_applied_seq s = Some q \<and> fmdom (ms_records s) = {||}"
  have la: "last_applied_seq ?s1 = last_applied_seq s" by (simp add: last_applied_seq_def)
  have fl: "ms_flush C out q s = (if ?skip then (Inr (), ?s1) else
      case write_snapshot C out (ms_dirty s) (ms_demotion_dirty s) (ms_history_dirty s) q ?s1 of
        (Inr u, s2) \<Rightarrow> (Inr u, s2)
      | (Inl e, s2) \<Rightarrow> (Inl e, s2\<lparr>ms_dirty := ms_dirty s2 |\<union>| ms_dirty s,
          ms_demotion_dirty := ms_demotion_dirty s2 |\<union>| ms_demotion_dirty s,
          ms_history_dirty := ms_history_dirty s2 |\<union>| ms_history_dirty s\<rparr>))"
    unfolding ms_flush_def Let_def la ms_clean_def by simp
  have "ms_inv C s' \<and> ms_clean s' \<and> ms_records s' = ms_records s \<and> ms_demotion s' = ms_demotion s \<and>
    ms_history s' = ms_history s \<and> last_applied_seq s' = Some q \<and>
    ms_next_offset s' = ms_next_offset s \<and> ms_next_seq s' = ms_next_seq s \<and> (fmdom (ms_records s) \<noteq> {||} \<longrightarrow>
      load_meta (ms_db s') ''next_offset'' = Some (u64_to_string (ms_next_offset s)) \<and>
      load_meta (ms_db s') ''next_seq'' = Some (u64_to_string (ms_next_seq s)))"
  proof (cases ?skip)
    case True
    then have "s' = ?s1" using assms(2) fl by simp
    then show ?thesis using assms(1) True la by (simp add: ms_inv_def ms_clean_def)
  next
    case False
    then have "write_snapshot C out (ms_dirty s) (ms_demotion_dirty s) (ms_history_dirty s) q ?s1 = (Inr (), s')"
      using assms(2) unfolding fl if_not_P [OF False] by (simp split: prod.splits sum.splits)
    from write_snapshot_Inr [OF assms(1) this] show ?thesis by simp
  qed
  then show "ms_inv C s'" "ms_clean s'" "ms_records s' = ms_records s" "ms_demotion s' = ms_demotion s"
    "ms_history s' = ms_history s" "last_applied_seq s' = Some q"
    "ms_next_offset s' = ms_next_offset s" "ms_next_seq s' = ms_next_seq s"
    "fmdom (ms_records s) \<noteq> {||} \<Longrightarrow>
      load_meta (ms_db s') ''next_offset'' = Some (u64_to_string (ms_next_offset s)) \<and>
      load_meta (ms_db s') ''next_seq'' = Some (u64_to_string (ms_next_seq s))"
    by simp_all
qed

text \<open>Opening the database of a clean store gives the cached values back.\<close>

lemma load_demotion_rel:
  assumes "synced f32_same {||} (db_demotion db) m"
  shows "\<exists>m'. load_demotion db = Inr m' \<and> (\<forall>k. rel_option f32_same (fmlookup m' k) (fmlookup m k)) \<and>
    synced f32_same {||} (db_demotion db) m'"
proof -
  have "synced (\<lambda>b v. Some b = Some v) {||} (db_demotion db) (db_demotion db)"
    by (simp add: synced_def option.rel_refl)
  then have "load_demotion db = Inr (db_demotion db)"
    unfolding load_demotion_def by (rule decode_synced)
  then show ?thesis using assms by (auto simp: synced_def intro: option.rel_refl)
qed

lemma ms_open_clean:
  assumes "ms_inv C s" "ms_clean s"
  shows "\<exists>t. ms_open C db_file (Opened (ms_db s)) = Inr t \<and> ms_inv C t \<and> ms_clean t \<and> ms_db t = ms_db s \<and>
    ms_records t = ms_records s \<and> ms_history t = ms_history s \<and>
    (\<forall>k. rel_option f32_same (fmlookup (ms_demotion t) k) (fmlookup (ms_demotion s) k)) \<and>
    (\<forall>n. Option.bind (load_meta (ms_db s) ''next_offset'') parse_u64 = Some n \<longrightarrow> ms_next_offset t = n) \<and>
    (\<forall>n. Option.bind (load_meta (ms_db s) ''next_seq'') parse_u64 = Some n \<longrightarrow> ms_next_seq t = n)"
proof -
  have r: "load_records C (ms_db s) = Inr (ms_records s)"
    unfolding load_records_def by (rule decode_synced) (use assms in \<open>simp add: ms_inv_def ms_clean_def\<close>)
  have h: "load_access_history C (ms_db s) = Inr (ms_history s)"
    unfolding load_access_history_def by (rule decode_synced) (use assms in \<open>simp add: ms_inv_def ms_clean_def\<close>)
  obtain d where d: "load_demotion (ms_db s) = Inr d" "synced f32_same {||} (db_demotion (ms_db s)) d"
    "\<forall>k. rel_option f32_same (fmlookup d k) (fmlookup (ms_demotion s) k)"
    using load_demotion_rel [of "ms_db s" "ms_demotion s"] assms by (auto simp: ms_inv_def ms_clean_def)
  show ?thesis using r h d assms
    by (auto simp: ms_open_def Let_def ms_inv_def ms_clean_def)
qed


section \<open>A cache with a snapshot as an interface\<close>

text \<open>
  The contract between a write-back cache and its snapshot: updates touch the cache only, a
  failed flush changes nothing, and after a successful flush loading the snapshot gives a cache
  with the same contents. It follows that a crash at any moment of any history leaves a
  snapshot that loads to the contents at the last acknowledged flush.
\<close>

datatype ('u, 'e) cache_step = Update 'u | TryFlush 'e

locale snapshot_store =
  fixes inv :: "'s \<Rightarrow> bool" and content :: "'s \<Rightarrow> 'c" and disk :: "'s \<Rightarrow> 'd"
    and upd :: "'u \<Rightarrow> 's \<Rightarrow> 's" and flush :: "'e \<Rightarrow> 's \<Rightarrow> unit result \<times> 's"
    and load :: "'d \<Rightarrow> 's result" and same :: "'c \<Rightarrow> 'c \<Rightarrow> bool"
  assumes upd_inv: "inv s \<Longrightarrow> inv (upd u s)"
    and upd_disk: "disk (upd u s) = disk s"
    and flush_err: "inv s \<Longrightarrow> flush e s = (Inl x, s') \<Longrightarrow> s' = s"
    and flush_ok: "inv s \<Longrightarrow> flush e s = (Inr (), s') \<Longrightarrow>
      inv s' \<and> content s' = content s \<and> (\<exists>t. load (disk s') = Inr t \<and> inv t \<and> same (content t) (content s))"
begin

text \<open>Running a history, with the contents at the last acknowledged flush.\<close>

fun run :: "('u, 'e) cache_step list \<Rightarrow> 's \<times> 'c \<Rightarrow> 's \<times> 'c" where
  "run [] p = p"
| "run (Update u # hs) (s, saved) = run hs (upd u s, saved)"
| "run (TryFlush e # hs) (s, saved) =
     (case flush e s of (Inl _, s') \<Rightarrow> run hs (s', saved) | (Inr _, s') \<Rightarrow> run hs (s', content s))"

lemma run_crash:
  assumes "inv s" "\<exists>t. load (disk s) = Inr t \<and> inv t \<and> same (content t) saved"
    and "run hs (s, saved) = (s', saved')"
  shows "inv s' \<and> (\<exists>t. load (disk s') = Inr t \<and> inv t \<and> same (content t) saved')"
  using assms
proof (induction hs "(s, saved)" arbitrary: s saved rule: run.induct)
  case (2 u hs s saved)
  have "\<exists>t. load (disk (upd u s)) = Inr t \<and> inv t \<and> same (content t) saved"
    using "2.prems"(2) upd_disk by simp
  then show ?case using "2.hyps" [OF upd_inv [OF "2.prems"(1)]] "2.prems"(3) by simp
next
  case (3 e hs s saved)
  obtain r s1 where f: "flush e s = (r, s1)" by fastforce
  show ?case
  proof (cases r)
    case (Inl x)
    then have "s1 = s" using flush_err [OF "3.prems"(1)] f by simp
    then show ?thesis using "3.hyps"(1) [OF f [symmetric] Inl] "3.prems" f Inl by simp
  next
    case (Inr u)
    have "inv s1" "\<exists>t. load (disk s1) = Inr t \<and> inv t \<and> same (content t) (content s)"
      using flush_ok [OF "3.prems"(1)] f Inr by auto
    then show ?thesis using "3.hyps"(2) [OF f [symmetric] Inr] "3.prems"(3) f Inr by simp
  qed
qed simp

end

text \<open>The updates of the metadata cache, and its contents: records, histories and demotions.\<close>

datatype mupdate =
    UPut point_offset meta_record
  | UPutBatch "(point_offset \<times> mem_record) list"
  | URemove point_offset
  | UDemote point_offset f32
  | UHistory point_offset "u64 list" nat
  | UAllocateOffset
  | UAllocateSeq
  | UAdvanceOffset point_offset
  | UAdvanceSeq u64

fun ms_update :: "mupdate \<Rightarrow> mstore \<Rightarrow> mstore" where
  "ms_update (UPut off m) s = put_meta off m s"
| "ms_update (UPutBatch rs) s = put_batch rs s"
| "ms_update (URemove off) s = ms_remove off s"
| "ms_update (UDemote off f) s = set_demotion_factor off f s"
| "ms_update (UHistory off ts n) s = append_access_history off ts n s"
| "ms_update UAllocateOffset s = snd (allocate_offset s)"
| "ms_update UAllocateSeq s = snd (allocate_seq s)"
| "ms_update (UAdvanceOffset off) s = advance_offset_past off s"
| "ms_update (UAdvanceSeq q) s = advance_seq_past q s"

type_synonym ms_content =
  "(point_offset, meta_record) fmap \<times> (point_offset, u64 list) fmap \<times> (point_offset, f32) fmap"

definition ms_content :: "mstore \<Rightarrow> ms_content" where
  "ms_content s = (ms_records s, ms_history s, ms_demotion s)"

definition same_content :: "ms_content \<Rightarrow> ms_content \<Rightarrow> bool" where
  "same_content a b = (case (a, b) of ((r1, h1, d1), (r2, h2, d2)) \<Rightarrow>
     r1 = r2 \<and> h1 = h2 \<and> (\<forall>k. rel_option f32_same (fmlookup d1 k) (fmlookup d2 k)))"

lemma ms_update_inv: "ms_inv C s \<Longrightarrow> ms_inv C (ms_update u s)"
proof (cases u)
  case (UPut off m) then show "ms_inv C s \<Longrightarrow> ?thesis" by (simp add: put_meta_inv)
next
  case (UPutBatch rs) then show "ms_inv C s \<Longrightarrow> ?thesis" by (simp add: put_batch_inv)
next
  case (URemove off) then show "ms_inv C s \<Longrightarrow> ?thesis" by (simp add: ms_remove_inv)
next
  case (UDemote off f) then show "ms_inv C s \<Longrightarrow> ?thesis" by (simp add: set_demotion_inv)
next
  case (UHistory off ts n) then show "ms_inv C s \<Longrightarrow> ?thesis" by (simp add: append_access_history_inv)
qed (simp_all add: ms_inv_def allocate_offset_def allocate_seq_def advance_offset_past_def advance_seq_past_def)

lemma put_batch_db [simp]: "ms_db (put_batch rs s) = ms_db s"
  by (simp add: put_batch_def split: prod.splits)

lemma ms_update_db: "ms_db (ms_update u s) = ms_db s"
  by (cases u) (simp_all add: put_meta_def ms_remove_def set_demotion_factor_def append_access_history_def
      allocate_offset_def allocate_seq_def advance_offset_past_def advance_seq_past_def Let_def split: prod.splits)

interpretation msnap: snapshot_store "ms_inv C" ms_content ms_db ms_update "\<lambda>(out, q). ms_flush C out q"
    "\<lambda>db. ms_open C db_file (Opened db)" same_content
  for C :: meta_codec and db_file :: string
proof unfold_locales
  fix s e s'
  assume a: "ms_inv C s" "(case e of (out, q) \<Rightarrow> ms_flush C out q) s = (Inr (), s')"
  obtain out q where e: "e = (out, q)" by fastforce
  note f = ms_flush_Inr [OF a(1), of out q s']
  show "ms_inv C s' \<and> ms_content s' = ms_content s \<and>
      (\<exists>t. ms_open C db_file (Opened (ms_db s')) = Inr t \<and> ms_inv C t \<and> same_content (ms_content t) (ms_content s))"
    using f(1-5) ms_open_clean [of C s' db_file] a(2) e by (auto simp: ms_content_def same_content_def)
qed (auto simp: ms_update_inv ms_update_db dest: ms_flush_Inl)


section \<open>Claims\<close>

text \<open>A concrete codec for the witnesses, faithful on the values it accepts: records whose fields
  are all empty or zero apart from a one-character identifier, and histories of at most one
  access.\<close>

definition demo_meta :: "u8 \<Rightarrow> meta_record" where
  "demo_meta c = \<lparr>m_id = [char_of (unat c)], m_text = [], m_importance = 0, m_concepts = [], m_created_at = 0,
     m_insert_seq = 0, m_access_count = 0, m_last_accessed = 0, m_tier = Hot, m_payload = None,
     m_scope = None, m_source_role = None\<rparr>"

definition byte_of_char :: "char \<Rightarrow> u8" where
  "byte_of_char c = word_of_nat (of_char c)"

definition demo_codec :: meta_codec where
  "demo_codec =
     \<lparr>ser_meta = (\<lambda>m. case m_id m of [c] \<Rightarrow> if m = demo_meta (byte_of_char c) then Some [byte_of_char c] else None | _ \<Rightarrow> None),
      de_meta = (\<lambda>bs. case bs of [c] \<Rightarrow> Some (demo_meta c) | _ \<Rightarrow> None),
      ser_ring = (\<lambda>r. case r of [] \<Rightarrow> Some [] | [t] \<Rightarrow> Some (u64_to_le_bytes t) | _ \<Rightarrow> None),
      de_ring = (\<lambda>bs. if bs = [] then Some [] else Some [u64_from_le_bytes bs])\<rparr>"

definition empty_db :: redb_db where
  "empty_db = \<lparr>db_records = fmempty, db_meta = fmempty, db_meta_bin = fmempty, db_demotion = fmempty,
     db_history = fmempty\<rparr>"

definition demo_ms :: mstore where
  "demo_ms = \<lparr>ms_db = empty_db, ms_records = fmempty, ms_dirty = {||}, ms_demotion = fmempty,
     ms_demotion_dirty = {||}, ms_history = fmempty, ms_history_dirty = {||}, ms_next_offset = 0,
     ms_next_seq = 1, ms_record_count = 0\<rparr>"

lemma u64_to_le_bytes_nonempty [simp]: "u64_to_le_bytes w \<noteq> []"
  using length_int_bytes(3) [of w] by force

lemma demo_codec_ok: "codec_ok demo_codec"
  by (auto simp: codec_ok_def demo_codec_def split: list.splits if_splits)

lemma demo_ms_open: "ms_open C db_file (Opened empty_db) = Inr demo_ms"
  by (simp add: ms_open_def load_records_def load_demotion_def load_access_history_def table_items_def
      load_meta_def empty_db_def demo_ms_def)

lemma demo_ms_inv: "ms_inv demo_codec demo_ms" "ms_inv demo_codec (put_meta 3 (demo_meta 65) demo_ms)"
proof -
  show "ms_inv demo_codec demo_ms"
    by (simp add: ms_inv_def demo_codec_ok synced_def demo_ms_def empty_db_def)
  then show "ms_inv demo_codec (put_meta 3 (demo_meta 65) demo_ms)" by (rule put_meta_inv)
qed

lemma demo_flush: "\<exists>s'. ms_flush demo_codec TxnOk 9 (put_meta 3 (demo_meta 65) demo_ms) = (Inr (), s')"
  by (simp add: ms_flush_def put_meta_def demo_ms_def write_snapshot_def demo_codec_def demo_meta_def
      byte_of_char_def unat_of_nat)

text \<open>C22. Crash consistency of the snapshot: run any history of cache updates and flush attempts
  on a store, some of the flushes failing. Whatever state the process dies in, opening the
  database left behind succeeds and yields exactly the records, access histories and demotion
  factors (up to the sign of a zero factor) the cache had at the last flush that succeeded.\<close>

theorem ms_crash_consistent:
  assumes "ms_inv C s" "ms_open C db_file (Opened (ms_db s)) = Inr t" "ms_inv C t" "same_content (ms_content t) saved"
    and "snapshot_store.run ms_content ms_update (\<lambda>(out, q). ms_flush C out q) hs (s, saved) = (s', saved')"
  shows "\<exists>t'. ms_open C db_file (Opened (ms_db s')) = Inr t' \<and> ms_inv C t' \<and> same_content (ms_content t') saved'"
  using msnap.run_crash [of C s db_file saved hs s' saved'] assms by auto

theorem ms_crash_consistent_witness:
  "\<exists>s' t'. snapshot_store.run ms_content ms_update (\<lambda>(out, q). ms_flush demo_codec out q)
       [Update (UPut 3 (demo_meta 65)), TryFlush (TxnOk, 9), Update (URemove 3), TryFlush (CommitFails, 9)]
       (demo_ms, ms_content demo_ms) = (s', ms_content (put_meta 3 (demo_meta 65) demo_ms)) \<and>
     ms_open demo_codec [] (Opened (ms_db s')) = Inr t' \<and> ms_get t' 3 = Some (demo_meta 65) \<and> ms_get s' 3 = None"
proof -
  let ?s1 = "put_meta 3 (demo_meta 65) demo_ms"
  obtain s2 where f: "ms_flush demo_codec TxnOk 9 ?s1 = (Inr (), s2)" using demo_flush by blast
  have g: "\<exists>e. ms_flush demo_codec CommitFails 9 (ms_remove 3 s2) = (Inl e, ms_remove 3 s2)"
    by (rule ms_flush_fails) (simp_all add: ms_remove_def Let_def)
  then have run: "snapshot_store.run ms_content ms_update (\<lambda>(out, q). ms_flush demo_codec out q)
       [Update (UPut 3 (demo_meta 65)), TryFlush (TxnOk, 9), Update (URemove 3), TryFlush (CommitFails, 9)]
       (demo_ms, ms_content demo_ms) = (ms_remove 3 s2, ms_content ?s1)"
    using f by (auto simp: msnap.run.simps)
  have same: "same_content (ms_content demo_ms) (ms_content demo_ms)"
    by (simp add: same_content_def ms_content_def demo_ms_def)
  have "ms_open demo_codec [] (Opened (ms_db demo_ms)) = Inr demo_ms"
    using demo_ms_open by (simp add: demo_ms_def)
  from ms_crash_consistent [OF demo_ms_inv(1) this demo_ms_inv(1) same run]
  show ?thesis using run
    by (auto simp: same_content_def ms_content_def ms_get_def put_meta_def Let_def ms_remove_def)
qed


text \<open>C23. Flush and reopen: after a successful flush the reopened store has the same records,
  histories and (numerically) demotion factors, nothing is dirty, the last applied sequence
  number is the one given to the flush, and, unless the store is empty, both counters continue
  where they were.\<close>

theorem ms_flush_reload:
  assumes "ms_inv C s" "ms_flush C out q s = (Inr (), s')"
  shows "\<exists>t. ms_open C db_file (Opened (ms_db s')) = Inr t \<and> ms_clean t \<and>
    ms_records t = ms_records s \<and> ms_history t = ms_history s \<and> ms_record_count t = ms_record_count s \<and>
    (\<forall>off. f32_same (demotion_factor t off) (demotion_factor s off)) \<and> last_applied_seq t = Some q \<and>
    (fmdom (ms_records s) \<noteq> {||} \<longrightarrow> ms_next_offset t = ms_next_offset s \<and> ms_next_seq t = ms_next_seq s)"
proof -
  note f = ms_flush_Inr [OF assms]
  obtain t where t: "ms_open C db_file (Opened (ms_db s')) = Inr t" "ms_inv C t" "ms_clean t" "ms_db t = ms_db s'"
    "ms_records t = ms_records s" "ms_history t = ms_history s"
    and dem: "\<And>k. rel_option f32_same (fmlookup (ms_demotion t) k) (fmlookup (ms_demotion s) k)"
    and off: "\<And>n. Option.bind (load_meta (ms_db s') ''next_offset'') parse_u64 = Some n \<Longrightarrow> ms_next_offset t = n"
    and seq: "\<And>n. Option.bind (load_meta (ms_db s') ''next_seq'') parse_u64 = Some n \<Longrightarrow> ms_next_seq t = n"
    using ms_open_clean [OF f(1,2), of db_file] f(3-5) by auto
  have "f32_same (demotion_factor t k) (demotion_factor s k)" for k
    using dem [of k] by (auto simp: demotion_factor_def split: option.splits)
  moreover have "ms_record_count t = ms_record_count s"
    using t(2,5) assms(1) by (simp add: ms_inv_def)
  moreover have "last_applied_seq t = Some q"
    using f(6) t(4) by (simp add: last_applied_seq_def)
  ultimately show ?thesis using t off seq f(9) by simp
qed

theorem ms_flush_reload_witness:
  "\<exists>s' t. ms_flush demo_codec TxnOk 9 (put_meta 3 (demo_meta 65) demo_ms) = (Inr (), s') \<and>
     ms_open demo_codec [] (Opened (ms_db s')) = Inr t \<and> ms_get t 3 = Some (demo_meta 65) \<and>
     last_applied_seq t = Some 9 \<and> ms_next_seq t = 1"
proof -
  obtain s' where f: "ms_flush demo_codec TxnOk 9 (put_meta 3 (demo_meta 65) demo_ms) = (Inr (), s')"
    using demo_flush by blast
  show ?thesis using ms_flush_reload [OF demo_ms_inv(2) f, of "[]"] f
    by (auto simp: ms_get_def put_meta_def demo_ms_def)
qed

text \<open>A batch of puts has the effect of its puts one by one, on the records, the dirty set
  and the wrapping record counter, also when the batch names an offset twice.\<close>

theorem put_batch_sequential: "put_batch rs s = fold (\<lambda>(off, r). ms_put off r) rs s"
  by (rule put_batch_fold)

text \<open>C24. The access-history ring: after an append with a limit, the ring is sorted, holds at most
  the limit, consists of recorded accesses only, keeps everything when it fits, and every access
  that was dropped is no later than every access kept.\<close>

theorem access_history_ring:
  assumes "new_ts \<noteq> []"
  shows "\<exists>dropped. sort (access_history s off @ new_ts) =
      dropped @ access_history (append_access_history off new_ts n s) off \<and>
    sorted (access_history (append_access_history off new_ts n s) off) \<and>
    length (access_history (append_access_history off new_ts n s) off) = min n (length (access_history s off @ new_ts)) \<and>
    (\<forall>old \<in> set dropped. \<forall>new \<in> set (access_history (append_access_history off new_ts n s) off). old \<le> new)"
proof -
  let ?e = "sort (access_history s off @ new_ts)"
  let ?k = "length ?e - n"
  have ring: "access_history (append_access_history off new_ts n s) off = drop ?k ?e"
    using assms by (simp add: append_access_history_def access_history_def Let_def)
  have "sorted (take ?k ?e @ drop ?k ?e)" by simp
  then have ord: "sorted (drop ?k ?e)" "\<forall>x \<in> set (take ?k ?e). \<forall>y \<in> set (drop ?k ?e). x \<le> y"
    unfolding sorted_append by blast+
  show ?thesis
    unfolding ring by (rule exI [of _ "take ?k ?e"]) (use ord in \<open>simp add: min_def\<close>)
qed

theorem access_history_ring_witness:
  "access_history (append_access_history 3 [20, 10] 1 demo_ms) 3 = [20]"
proof -
  let ?r = "access_history (append_access_history 3 [20, 10] 1 demo_ms) 3"
  have ne: "[20, 10 :: u64] \<noteq> []" by simp
  have e: "access_history demo_ms 3 = []" by (simp add: access_history_def demo_ms_def)
  obtain dropped where d: "sort (access_history demo_ms 3 @ [20, 10]) = dropped @ ?r"
    and len: "length ?r = min 1 (length (access_history demo_ms 3 @ [20, 10]))"
    using access_history_ring [OF ne, of demo_ms 3 1] by blast
  from len obtain x where x: "?r = [x]" unfolding e by (auto simp: length_Suc_conv)
  from d have "[10, 20] = dropped @ [x]" unfolding e x by simp
  then have "x = 20" by (metis append_Cons append_Nil last_snoc)
  then show ?thesis using x by simp
qed

end
