(* ===== verification/Offset_Index.thy ===== *)
theory Offset_Index
  imports Records
begin

text \<open>
  The contract of the in-memory secondary indexes (\<open>ScopeIndex\<close>, \<open>PayloadIndex\<close>): an index
  represents the attributes of the live offsets, and a query returns the live offsets whose
  attribute matches. Offsets enter the indexes as 32-bit keys (\<open>bm_offset\<close>). The client lemma
  says that any history of additions and removals, as the engine performs them, keeps the
  queries exact.
\<close>

definition bm_offset :: "point_offset \<Rightarrow> u32" where
  "bm_offset off = ucast off"

lemma bm_offset_inj: "unat a < 2 ^ 32 \<Longrightarrow> unat b < 2 ^ 32 \<Longrightarrow> bm_offset a = bm_offset b \<Longrightarrow> a = b"
  by (simp add: bm_offset_def word_unat_eq_iff unsigned_ucast_eq take_bit_eq_mod)

lemma bm_offset_ucast [simp]: "bm_offset (ucast k) = k"
  unfolding bm_offset_def by transfer simp

datatype ('k, 'a) index_step = AddEntry 'k 'a | RemoveEntry 'k

locale offset_index =
  fixes rep :: "('k \<rightharpoonup> 'a) \<Rightarrow> 's \<Rightarrow> bool" and blank :: 's
    and add :: "'k \<Rightarrow> 'a \<Rightarrow> 's \<Rightarrow> 's" and remove :: "'k \<Rightarrow> 'a \<Rightarrow> 's \<Rightarrow> 's"
    and query :: "'q \<Rightarrow> 's \<Rightarrow> 'k fset result" and matches :: "'q \<Rightarrow> 'a \<Rightarrow> bool"
  assumes rep_blank: "rep Map.empty blank"
    and rep_add: "rep live s \<Longrightarrow> live k = None \<Longrightarrow> rep (live(k \<mapsto> a)) (add k a s)"
    and rep_remove: "rep live s \<Longrightarrow> live k = Some a \<Longrightarrow> rep (live(k := None)) (remove k a s)"
    and query_rep: "rep live s \<Longrightarrow> query q s = Inr ks \<Longrightarrow>
      k |\<in>| ks \<longleftrightarrow> (\<exists>a. live k = Some a \<and> matches q a)"
begin

text \<open>A history: an entry is added for an offset that is not live and removed, with its
  attribute, for one that is; other steps do not occur and are skipped.\<close>

fun run :: "('k, 'a) index_step list \<Rightarrow> ('k \<rightharpoonup> 'a) \<times> 's \<Rightarrow> ('k \<rightharpoonup> 'a) \<times> 's" where
  "run [] p = p"
| "run (AddEntry k a # hs) (live, s) =
     (if live k = None then run hs (live(k \<mapsto> a), add k a s) else run hs (live, s))"
| "run (RemoveEntry k # hs) (live, s) =
     (case live k of None \<Rightarrow> run hs (live, s) | Some a \<Rightarrow> run hs (live(k := None), remove k a s))"

lemma run_rep: "rep live s \<Longrightarrow> run hs (live, s) = (live', s') \<Longrightarrow> rep live' s'"
  by (induction hs "(live, s)" arbitrary: live s rule: run.induct)
     (auto simp: rep_add rep_remove split: if_splits option.splits)

lemma run_query:
  "run hs (Map.empty, blank) = (live, s) \<Longrightarrow> query q s = Inr ks \<Longrightarrow>
   k |\<in>| ks \<longleftrightarrow> (\<exists>a. live k = Some a \<and> matches q a)"
  using run_rep [OF rep_blank] query_rep by blast

end

end
