(* ===== verification/Scope_Index.thy ===== *)
theory Scope_Index
  imports Offset_Index
begin

text \<open>
  The scope index of \<open>turbomemory_storage/src/scope_index.rs\<close>: a bitmap of offsets per scope name
  and one for the records without a scope. A scoped query sees the scope's records and the
  global ones.
\<close>

record scope_index =
  si_by_scope :: "(string, u32 fset) fmap"
  si_global :: "u32 fset"

definition si_new :: scope_index where
  "si_new = \<lparr>si_by_scope = fmempty, si_global = {||}\<rparr>"

definition si_add :: "point_offset \<Rightarrow> string option \<Rightarrow> scope_index \<Rightarrow> scope_index" where
  "si_add off scope s =
     (let bo = bm_offset off in
      case scope of
        Some n \<Rightarrow>
          (let bm = (case fmlookup (si_by_scope s) n of None \<Rightarrow> {||} | Some bm \<Rightarrow> bm)
           in s\<lparr>si_by_scope := fmupd n (finsert bo bm) (si_by_scope s)\<rparr>)
      | None \<Rightarrow> s\<lparr>si_global := finsert bo (si_global s)\<rparr>)"

definition si_remove :: "point_offset \<Rightarrow> string option \<Rightarrow> scope_index \<Rightarrow> scope_index" where
  "si_remove off scope s =
     (let bo = bm_offset off in
      case scope of
        Some n \<Rightarrow>
          (case fmlookup (si_by_scope s) n of
             None \<Rightarrow> s
           | Some bm \<Rightarrow>
               (let bm' = bm |-| {|bo|}
                in if bm' = {||} then s\<lparr>si_by_scope := fmdrop n (si_by_scope s)\<rparr>
                   else s\<lparr>si_by_scope := fmupd n bm' (si_by_scope s)\<rparr>))
      | None \<Rightarrow> s\<lparr>si_global := si_global s |-| {|bo|}\<rparr>)"

definition si_query :: "string option \<Rightarrow> scope_index \<Rightarrow> u32 fset" where
  "si_query scope s =
     (case scope of
        None \<Rightarrow> {||}
      | Some n \<Rightarrow> (case fmlookup (si_by_scope s) n of None \<Rightarrow> si_global s | Some bm \<Rightarrow> si_global s |\<union>| bm))"

definition si_exact :: "string \<Rightarrow> scope_index \<Rightarrow> u32 fset" where
  "si_exact n s = (case fmlookup (si_by_scope s) n of None \<Rightarrow> {||} | Some bm \<Rightarrow> bm)"

text \<open>\<open>scopes\<close>: the names in order (strings compare as byte strings).\<close>

definition si_scopes :: "scope_index \<Rightarrow> string list" where
  "si_scopes s = sorted_list_of_fset (fmdom (si_by_scope s))"

definition si_all_offsets :: "scope_index \<Rightarrow> u32 fset" where
  "si_all_offsets s = si_global s |\<union>| ffUnion (fmran (si_by_scope s))"

section \<open>What the index represents\<close>

definition si_rep :: "(u32 \<rightharpoonup> string option) \<Rightarrow> scope_index \<Rightarrow> bool" where
  "si_rep live s \<longleftrightarrow>
     (\<forall>k. k |\<in>| si_global s \<longleftrightarrow> live k = Some None) \<and>
     (\<forall>n k. k |\<in>| si_exact n s \<longleftrightarrow> live k = Some (Some n)) \<and>
     (\<forall>n. fmlookup (si_by_scope s) n \<noteq> Some {||})"

text \<open>The operations on 32-bit keys.\<close>

definition si_add_key :: "u32 \<Rightarrow> string option \<Rightarrow> scope_index \<Rightarrow> scope_index" where
  "si_add_key k = si_add (ucast k)"

definition si_remove_key :: "u32 \<Rightarrow> string option \<Rightarrow> scope_index \<Rightarrow> scope_index" where
  "si_remove_key k = si_remove (ucast k)"

lemma si_add_keyed: "si_add off = si_add_key (bm_offset off)" "si_remove off = si_remove_key (bm_offset off)"
  by (simp_all add: fun_eq_iff si_add_key_def si_remove_key_def si_add_def si_remove_def)

lemma si_rep_add:
  assumes "si_rep live s" "live k = None"
  shows "si_rep (live(k \<mapsto> a)) (si_add_key k a s)"
  using assms by (cases a) (auto simp: si_rep_def si_add_key_def si_add_def si_exact_def Let_def split: option.splits)

lemma si_rep_remove:
  assumes "si_rep live s" "live k = Some a"
  shows "si_rep (live(k := None)) (si_remove_key k a s)"
proof (cases a)
  case None
  then show ?thesis using assms by (auto simp: si_rep_def si_remove_key_def si_remove_def si_exact_def Let_def)
next
  case (Some n)
  then have "k |\<in>| si_exact n s" using assms by (simp add: si_rep_def)
  then obtain bm where bm: "fmlookup (si_by_scope s) n = Some bm" "k |\<in>| bm"
    by (auto simp: si_exact_def split: option.splits)
  have ex: "si_exact n' (si_remove_key k a s) = (if n' = n then bm |-| {|k|} else si_exact n' s)" for n'
    using bm Some by (simp add: si_remove_key_def si_remove_def si_exact_def Let_def)
  have gl: "si_global (si_remove_key k a s) = si_global s"
    using bm Some by (simp add: si_remove_key_def si_remove_def Let_def)
  have ne: "fmlookup (si_by_scope (si_remove_key k a s)) n' \<noteq> Some {||}" for n'
    using assms bm Some by (simp add: si_remove_key_def si_remove_def Let_def si_rep_def)
  have bmk: "k' |\<in>| bm \<longleftrightarrow> live k' = Some (Some n)" for k'
    using assms(1) bm(1) by (auto simp: si_rep_def si_exact_def split: option.splits)
  show ?thesis
    using assms Some ne unfolding si_rep_def ex gl by (auto simp: bmk)
qed

lemma si_query_exact: "si_query (Some n) s = si_global s |\<union>| si_exact n s"
  by (simp add: si_query_def si_exact_def split: option.splits)

definition scope_visible :: "string \<Rightarrow> string option \<Rightarrow> bool" where
  "scope_visible n a \<longleftrightarrow> a = None \<or> a = Some n"

interpretation scope_idx: offset_index si_rep si_new si_add_key si_remove_key
    "\<lambda>n s. Inr (si_query (Some n) s)" scope_visible
proof unfold_locales
  show "si_rep Map.empty si_new" by (simp add: si_rep_def si_new_def si_exact_def)
next
  fix live s q ks k
  assume "si_rep live s" "(Inr (si_query (Some q) s) :: u32 fset result) = Inr ks"
  then show "(k |\<in>| ks) = (\<exists>a. live k = Some a \<and> scope_visible q a)"
    by (auto simp: si_rep_def si_query_exact scope_visible_def)
qed (auto intro: si_rep_add si_rep_remove)


section \<open>Claims\<close>

text \<open>Scoping is exact: after any history of indexing and removing records, a search in scope
  \<open>n\<close> may see precisely the live records of that scope and the live records without a scope,
  the scope owns precisely its own records, all indexed offsets are the live ones, and the
  scopes listed are precisely the scopes that have a live record, without repetition.\<close>

theorem scope_index_exact:
  assumes "offset_index.run si_add_key si_remove_key hs (Map.empty, si_new) = (live, s)"
  shows "(\<forall>n k. k |\<in>| si_query (Some n) s \<longleftrightarrow> live k = Some None \<or> live k = Some (Some n)) \<and>
    (\<forall>n k. k |\<in>| si_exact n s \<longleftrightarrow> live k = Some (Some n)) \<and>
    (\<forall>k. k |\<in>| si_all_offsets s \<longleftrightarrow> live k \<noteq> None) \<and>
    distinct (si_scopes s) \<and> (\<forall>n. n \<in> set (si_scopes s) \<longleftrightarrow> (\<exists>k. live k = Some (Some n)))"
proof -
  have rep: "si_rep live s" using scope_idx.run_rep [OF scope_idx.rep_blank assms] .
  have q: "k |\<in>| si_query (Some n) s \<longleftrightarrow> live k = Some None \<or> live k = Some (Some n)" for n k
    using scope_idx.run_query [OF assms, of n _ k] by (auto simp: scope_visible_def)
  have dom: "fmlookup (si_by_scope s) n = Some bm \<Longrightarrow> k |\<in>| bm \<longleftrightarrow> live k = Some (Some n)" for n bm k
    using rep by (auto simp: si_rep_def si_exact_def split: option.splits)
  have ex: "k |\<in>| si_exact n s \<longleftrightarrow> live k = Some (Some n)" for n k using rep by (simp add: si_rep_def)
  have scopes: "n \<in> set (si_scopes s) \<longleftrightarrow> (\<exists>k. live k = Some (Some n))" for n
  proof
    assume "n \<in> set (si_scopes s)"
    then obtain bm where bm: "fmlookup (si_by_scope s) n = Some bm" by (auto simp: si_scopes_def fmlookup_dom_iff)
    then have "bm \<noteq> {||}" using rep by (auto simp: si_rep_def)
    then show "\<exists>k. live k = Some (Some n)" using dom [OF bm] by auto
  next
    assume "\<exists>k. live k = Some (Some n)"
    then show "n \<in> set (si_scopes s)"
      using ex [of _ n] by (cases "fmlookup (si_by_scope s) n") (auto simp: si_scopes_def si_exact_def fmlookup_dom_iff)
  qed
  have all: "k |\<in>| si_all_offsets s \<longleftrightarrow> live k \<noteq> None" for k
  proof -
    have "k |\<in>| si_all_offsets s \<longleftrightarrow> live k = Some None \<or> (\<exists>n bm. fmlookup (si_by_scope s) n = Some bm \<and> k |\<in>| bm)"
      using rep by (auto simp: si_all_offsets_def si_rep_def fmlookup_ran_iff ffUnion_iff)
    also have "\<dots> \<longleftrightarrow> live k = Some None \<or> (\<exists>n. k |\<in>| si_exact n s)"
      by (force simp: si_exact_def split: option.split)
    also have "\<dots> \<longleftrightarrow> live k = Some None \<or> (\<exists>n. live k = Some (Some n))" by (simp only: ex)
    finally show ?thesis by (cases "live k") auto
  qed
  show ?thesis using q ex all scopes by (simp add: si_scopes_def)
qed

theorem scope_index_exact_witness:
  "\<exists>live s. offset_index.run si_add_key si_remove_key
       [AddEntry 1 (Some ''a''), AddEntry 2 None, AddEntry 3 (Some ''b''), RemoveEntry 3] (Map.empty, si_new) = (live, s) \<and>
     si_scopes s = [''a''] \<and> 1 |\<in>| si_query (Some ''a'') s \<and> 2 |\<in>| si_query (Some ''b'') s \<and>
     1 |\<notin>| si_query (Some ''b'') s \<and> 3 |\<notin>| si_all_offsets s"
proof -
  let ?hs = "[AddEntry 1 (Some ''a''), AddEntry 2 None, AddEntry 3 (Some ''b''), RemoveEntry 3] :: (u32, string option) index_step list"
  obtain live s where r: "offset_index.run si_add_key si_remove_key ?hs (Map.empty, si_new) = (live, s)" by fastforce
  have live: "live = [1 \<mapsto> Some ''a'', 2 \<mapsto> None]"
    using r by (auto simp: scope_idx.run.simps fun_eq_iff)
  note t = scope_index_exact [OF r]
  have q: "k |\<in>| si_query (Some n) s \<longleftrightarrow> live k = Some None \<or> live k = Some (Some n)" for n k using t by blast
  have all: "k |\<in>| si_all_offsets s \<longleftrightarrow> live k \<noteq> None" for k using t by blast
  have sc: "n \<in> set (si_scopes s) \<longleftrightarrow> (\<exists>k. live k = Some (Some n))" for n using t by blast
  have "n \<in> set (si_scopes s) \<longleftrightarrow> n = ''a''" for n unfolding sc live by (auto split: if_splits)
  then have "set (si_scopes s) = {''a''}" by blast
  moreover have "distinct (si_scopes s)" using t by blast
  ultimately have "si_scopes s = [''a'']" by (rule distinct_singleton_list)
  then show ?thesis using r by (auto simp: q all live)
qed

end
