(* ===== verification/Payload_Index.thy ===== *)
theory Payload_Index
  imports Offset_Index
begin

text \<open>
  The payload index of \<open>turbomemory_storage/src/payload_index.rs\<close>: inverted indexes over the
  top-level fields of JSON payloads, one for equality (by keyword) and one for numeric ranges,
  and the evaluation of filters over them. JSON parsing and number formatting (\<open>serde_json\<close>)
  are parameters. The numeric tree is keyed by \<open>NotNan<f64>\<close>, whose order and equality are
  those of the numbers, so its keys are the numeric ranks of the floats. \<open>BTreeMap::range\<close>
  panics on an inverted range; that is a result of the model.
\<close>

section \<open>Values and filters\<close>

datatype json_number = PosInt u64 | NegInt u64 | JFloat f64

datatype json =
    JNull
  | JBool bool
  | JNumber json_number
  | JString string
  | JArray "json list"
  | JObject "(string \<times> json) list"

record json_lib =
  json_from_str :: "string \<Rightarrow> json option"
  number_as_f64 :: "json_number \<Rightarrow> f64 option"
  number_to_string :: "json_number \<Rightarrow> string"
  json_to_string :: "json \<Rightarrow> string"

datatype bound = Included f64 | Excluded f64 | Unbounded

datatype pfilter =
    FEq string json
  | FRange string bound bound
  | FullText string string
  | FAnd "pfilter list"
  | FOr "pfilter list"
  | FNot pfilter

fun uses_full_text :: "pfilter \<Rightarrow> bool" where
  "uses_full_text (FullText f q) = True"
| "uses_full_text (FAnd ps) = list_ex uses_full_text ps"
| "uses_full_text (FOr ps) = list_ex uses_full_text ps"
| "uses_full_text (FNot p) = uses_full_text p"
| "uses_full_text (FEq f v) = False"
| "uses_full_text (FRange f l h) = False"

section \<open>The index\<close>

type_synonym num_rank = int

record payload_index =
  pi_keyword :: "(string, (string, u32 fset) fmap) fmap"
  pi_numeric :: "(string, (num_rank, u32 fset) fmap) fmap"
  pi_all_offsets :: "u32 fset"

definition pi_new :: payload_index where
  "pi_new = \<lparr>pi_keyword = fmempty, pi_numeric = fmempty, pi_all_offsets = {||}\<rparr>"

text \<open>\<open>entry(field).or_default().entry(key).or_default().insert(offset)\<close> and its inverse, which
  drops a bitmap that became empty but keeps the field's map.\<close>

definition get_or :: "'b \<Rightarrow> ('a, 'b) fmap \<Rightarrow> 'a \<Rightarrow> 'b" where
  "get_or d m k = (case fmlookup m k of None \<Rightarrow> d | Some v \<Rightarrow> v)"

definition nested_insert :: "'f \<Rightarrow> 'k \<Rightarrow> u32 \<Rightarrow> ('f, ('k, u32 fset) fmap) fmap \<Rightarrow> ('f, ('k, u32 fset) fmap) fmap" where
  "nested_insert f k off m =
     (let inner = get_or fmempty m f in fmupd f (fmupd k (finsert off (get_or {||} inner k)) inner) m)"

definition nested_remove :: "'f \<Rightarrow> 'k \<Rightarrow> u32 \<Rightarrow> ('f, ('k, u32 fset) fmap) fmap \<Rightarrow> ('f, ('k, u32 fset) fmap) fmap" where
  "nested_remove f k off m =
     (case fmlookup m f of
        None \<Rightarrow> m
      | Some inner \<Rightarrow>
          (case fmlookup inner k of
             None \<Rightarrow> m
           | Some bm \<Rightarrow>
               (let bm' = bm |-| {|off|}
                in fmupd f (if bm' = {||} then fmdrop k inner else fmupd k bm' inner) m)))"

definition bool_to_string :: "bool \<Rightarrow> string" where
  "bool_to_string b = (if b then ''true'' else ''false'')"

definition not_nan :: "f64 \<Rightarrow> num_rank option" where
  "not_nan f = (if f64_is_nan f then None else Some (num_key fmt64 (unat f)))"

fun index_scalar :: "json_lib \<Rightarrow> string \<Rightarrow> u32 \<Rightarrow> json \<Rightarrow> payload_index \<Rightarrow> payload_index" where
  "index_scalar J f off (JString s) x = x\<lparr>pi_keyword := nested_insert f s off (pi_keyword x)\<rparr>"
| "index_scalar J f off (JNumber n) x =
     (let x1 = (case number_as_f64 J n of
                  None \<Rightarrow> x
                | Some v \<Rightarrow> (case not_nan v of
                      None \<Rightarrow> x
                    | Some nn \<Rightarrow> x\<lparr>pi_numeric := nested_insert f nn off (pi_numeric x)\<rparr>))
      in x1\<lparr>pi_keyword := nested_insert f (number_to_string J n) off (pi_keyword x1)\<rparr>)"
| "index_scalar J f off (JBool b) x = x\<lparr>pi_keyword := nested_insert f (bool_to_string b) off (pi_keyword x)\<rparr>"
| "index_scalar J f off _ x = x"

definition index_field_value :: "json_lib \<Rightarrow> string \<Rightarrow> u32 \<Rightarrow> json \<Rightarrow> payload_index \<Rightarrow> payload_index" where
  "index_field_value J f off v x =
     (case v of JArray items \<Rightarrow> fold (index_scalar J f off) items x | _ \<Rightarrow> index_scalar J f off v x)"

fun remove_scalar :: "json_lib \<Rightarrow> string \<Rightarrow> u32 \<Rightarrow> json \<Rightarrow> payload_index \<Rightarrow> payload_index" where
  "remove_scalar J f off (JString s) x = x\<lparr>pi_keyword := nested_remove f s off (pi_keyword x)\<rparr>"
| "remove_scalar J f off (JNumber n) x =
     (let x1 = (case number_as_f64 J n of
                  None \<Rightarrow> x
                | Some v \<Rightarrow> (case not_nan v of
                      None \<Rightarrow> x
                    | Some nn \<Rightarrow> x\<lparr>pi_numeric := nested_remove f nn off (pi_numeric x)\<rparr>))
      in x1\<lparr>pi_keyword := nested_remove f (number_to_string J n) off (pi_keyword x1)\<rparr>)"
| "remove_scalar J f off (JBool b) x = x\<lparr>pi_keyword := nested_remove f (bool_to_string b) off (pi_keyword x)\<rparr>"
| "remove_scalar J f off _ x = x"

definition remove_field_value :: "json_lib \<Rightarrow> string \<Rightarrow> u32 \<Rightarrow> json \<Rightarrow> payload_index \<Rightarrow> payload_index" where
  "remove_field_value J f off v x =
     (case v of JArray items \<Rightarrow> fold (remove_scalar J f off) items x | _ \<Rightarrow> remove_scalar J f off v x)"

definition pi_add :: "json_lib \<Rightarrow> point_offset \<Rightarrow> string option \<Rightarrow> payload_index \<Rightarrow> unit result \<times> payload_index" where
  "pi_add J off payload x =
     (let bo = bm_offset off; x1 = x\<lparr>pi_all_offsets := finsert bo (pi_all_offsets x)\<rparr> in
      case payload of
        None \<Rightarrow> (Inr (), x1)
      | Some p \<Rightarrow>
          (case json_from_str J p of
             None \<Rightarrow> (Inl (InvalidArgument ''invalid payload JSON''), x1)
           | Some (JObject fs) \<Rightarrow> (Inr (), fold (\<lambda>(f, v). index_field_value J f bo v) fs x1)
           | Some _ \<Rightarrow> (Inr (), x1)))"

definition pi_remove :: "json_lib \<Rightarrow> point_offset \<Rightarrow> string option \<Rightarrow> payload_index \<Rightarrow> payload_index" where
  "pi_remove J off payload x =
     (let bo = bm_offset off; x1 = x\<lparr>pi_all_offsets := pi_all_offsets x |-| {|bo|}\<rparr> in
      case payload of
        None \<Rightarrow> x1
      | Some p \<Rightarrow>
          (case json_from_str J p of
             Some (JObject fs) \<Rightarrow> fold (\<lambda>(f, v). remove_field_value J f bo v) fs x1
           | _ \<Rightarrow> x1))"

definition from_meta_records_iter :: "json_lib \<Rightarrow> (point_offset \<times> meta_record) list \<Rightarrow> payload_index" where
  "from_meta_records_iter J rs = fold (\<lambda>(off, m) x. snd (pi_add J off (m_payload m) x)) rs pi_new"

section \<open>Queries\<close>

fun value_to_keyword :: "json_lib \<Rightarrow> json \<Rightarrow> string" where
  "value_to_keyword J (JString s) = s"
| "value_to_keyword J (JNumber n) = number_to_string J n"
| "value_to_keyword J (JBool b) = bool_to_string b"
| "value_to_keyword J JNull = ''null''"
| "value_to_keyword J v = json_to_string J v"

datatype rank_bound = RIncluded num_rank | RExcluded num_rank | RUnbounded

fun map_bound :: "bound \<Rightarrow> rank_bound" where
  "map_bound (Included f) = (case not_nan f of Some nn \<Rightarrow> RIncluded nn | None \<Rightarrow> RUnbounded)"
| "map_bound (Excluded f) = (case not_nan f of Some nn \<Rightarrow> RExcluded nn | None \<Rightarrow> RUnbounded)"
| "map_bound Unbounded = RUnbounded"

fun after_low :: "rank_bound \<Rightarrow> num_rank \<Rightarrow> bool" where
  "after_low (RIncluded l) r = (l \<le> r)"
| "after_low (RExcluded l) r = (l < r)"
| "after_low RUnbounded r = True"

fun before_high :: "rank_bound \<Rightarrow> num_rank \<Rightarrow> bool" where
  "before_high (RIncluded h) r = (r \<le> h)"
| "before_high (RExcluded h) r = (r < h)"
| "before_high RUnbounded r = True"

text \<open>The ranges \<open>BTreeMap::range\<close> panics on: the start is after the end, or both bounds exclude
  the same key.\<close>

fun inverted :: "rank_bound \<Rightarrow> rank_bound \<Rightarrow> bool" where
  "inverted (RIncluded l) (RIncluded h) = (h < l)"
| "inverted (RIncluded l) (RExcluded h) = (h < l)"
| "inverted (RExcluded l) (RIncluded h) = (h < l)"
| "inverted (RExcluded l) (RExcluded h) = (h \<le> l)"
| "inverted _ _ = False"

definition query_eq :: "json_lib \<Rightarrow> payload_index \<Rightarrow> string \<Rightarrow> json \<Rightarrow> u32 fset" where
  "query_eq J x f v =
     (case fmlookup (pi_keyword x) f of None \<Rightarrow> {||} | Some m \<Rightarrow> get_or {||} m (value_to_keyword J v))"

definition query_range :: "payload_index \<Rightarrow> string \<Rightarrow> bound \<Rightarrow> bound \<Rightarrow> u32 fset result" where
  "query_range x f low high =
     (case fmlookup (pi_numeric x) f of
        None \<Rightarrow> Inr {||}
      | Some tree \<Rightarrow>
          (let l = map_bound low; h = map_bound high in
           if inverted l h then Inl Panicked
           else Inr (fold (\<lambda>r acc. acc |\<union>| get_or {||} tree r)
                       (List.filter (\<lambda>r. after_low l r \<and> before_high h r) (sorted_list_of_fset (fmdom tree))) {||})))"

fun query_inner :: "json_lib \<Rightarrow> payload_index \<Rightarrow> pfilter \<Rightarrow> u32 fset result"
  and query_and :: "json_lib \<Rightarrow> payload_index \<Rightarrow> pfilter list \<Rightarrow> u32 fset \<Rightarrow> u32 fset result"
  and query_or :: "json_lib \<Rightarrow> payload_index \<Rightarrow> pfilter list \<Rightarrow> u32 fset \<Rightarrow> u32 fset result" where
  "query_inner J x (FEq f v) = Inr (query_eq J x f v)"
| "query_inner J x (FRange f l h) = query_range x f l h"
| "query_inner J x (FullText f q) = Inr {||}"
| "query_inner J x (FAnd []) = Inr {||}"
| "query_inner J x (FAnd (p # ps)) = rbind (query_inner J x p) (query_and J x ps)"
| "query_inner J x (FOr ps) = query_or J x ps {||}"
| "query_inner J x (FNot p) = rbind (query_inner J x p) (\<lambda>pos. Inr (pi_all_offsets x |-| pos))"
| "query_and J x [] acc = Inr acc"
| "query_and J x (p # ps) acc =
     (if acc = {||} then Inr acc
      else rbind (query_inner J x p) (\<lambda>r. query_and J x ps (acc |\<inter>| r)))"
| "query_or J x [] acc = Inr acc"
| "query_or J x (p # ps) acc = rbind (query_inner J x p) (\<lambda>r. query_or J x ps (acc |\<union>| r))"


section \<open>What a payload contains\<close>

text \<open>The reference meaning of a payload: the scalars of a top-level field (an array contributes its
  elements), their keywords and their numeric ranks, and whether a payload satisfies a filter.\<close>

fun scalar_keywords :: "json_lib \<Rightarrow> json \<Rightarrow> string list" where
  "scalar_keywords J (JString s) = [s]"
| "scalar_keywords J (JNumber n) = [number_to_string J n]"
| "scalar_keywords J (JBool b) = [bool_to_string b]"
| "scalar_keywords J _ = []"

fun scalar_ranks :: "json_lib \<Rightarrow> json \<Rightarrow> num_rank list" where
  "scalar_ranks J (JNumber n) =
     (case Option.bind (number_as_f64 J n) not_nan of None \<Rightarrow> [] | Some r \<Rightarrow> [r])"
| "scalar_ranks J _ = []"

definition scalars :: "json \<Rightarrow> json list" where
  "scalars v = (case v of JArray items \<Rightarrow> items | _ \<Rightarrow> [v])"

definition payload_fields :: "json_lib \<Rightarrow> string option \<Rightarrow> (string \<times> json) list" where
  "payload_fields J payload =
     (case Option.bind payload (json_from_str J) of
        Some (JObject fs) \<Rightarrow> concat (map (\<lambda>(f, v). map (Pair f) (scalars v)) fs)
      | _ \<Rightarrow> [])"

definition has_keyword :: "json_lib \<Rightarrow> string option \<Rightarrow> string \<Rightarrow> string \<Rightarrow> bool" where
  "has_keyword J p f key \<longleftrightarrow> list_ex (\<lambda>(g, v). g = f \<and> key \<in> set (scalar_keywords J v)) (payload_fields J p)"

definition has_rank :: "json_lib \<Rightarrow> string option \<Rightarrow> string \<Rightarrow> num_rank \<Rightarrow> bool" where
  "has_rank J p f r \<longleftrightarrow> list_ex (\<lambda>(g, v). g = f \<and> r \<in> set (scalar_ranks J v)) (payload_fields J p)"

definition in_range :: "bound \<Rightarrow> bound \<Rightarrow> num_rank \<Rightarrow> bool" where
  "in_range l h r \<longleftrightarrow> after_low (map_bound l) r \<and> before_high (map_bound h) r"

fun filter_matches :: "json_lib \<Rightarrow> pfilter \<Rightarrow> string option \<Rightarrow> bool" where
  "filter_matches J (FEq f v) p = has_keyword J p f (value_to_keyword J v)"
| "filter_matches J (FRange f l h) p = (\<exists>r. has_rank J p f r \<and> in_range l h r)"
| "filter_matches J (FullText f q) p = False"
| "filter_matches J (FAnd ps) p = (ps \<noteq> [] \<and> list_all (\<lambda>q. filter_matches J q p) ps)"
| "filter_matches J (FOr ps) p = list_ex (\<lambda>q. filter_matches J q p) ps"
| "filter_matches J (FNot q) p = (\<not> filter_matches J q p)"

fun ranges_ok :: "pfilter \<Rightarrow> bool" where
  "ranges_ok (FRange f l h) = (\<not> inverted (map_bound l) (map_bound h))"
| "ranges_ok (FAnd ps) = list_all ranges_ok ps"
| "ranges_ok (FOr ps) = list_all ranges_ok ps"
| "ranges_ok (FNot q) = ranges_ok q"
| "ranges_ok _ = True"

section \<open>Nested maps\<close>

definition nested_get :: "('f, ('k, u32 fset) fmap) fmap \<Rightarrow> 'f \<Rightarrow> 'k \<Rightarrow> u32 fset" where
  "nested_get m f k = get_or {||} (get_or fmempty m f) k"

lemma nested_get_insert:
  "off |\<in>| nested_get (nested_insert f k o' m) g j \<longleftrightarrow> off |\<in>| nested_get m g j \<or> off = o' \<and> g = f \<and> j = k"
  by (auto simp: nested_get_def nested_insert_def get_or_def Let_def split: option.splits)

lemma nested_get_remove:
  "off |\<in>| nested_get (nested_remove f k o' m) g j \<longleftrightarrow> off |\<in>| nested_get m g j \<and> \<not> (off = o' \<and> g = f \<and> j = k)"
proof (cases "fmlookup m f")
  case (Some inner)
  then show ?thesis
    by (cases "fmlookup inner k") (auto simp: nested_get_def nested_remove_def get_or_def Let_def split: option.splits)
qed (auto simp: nested_get_def nested_remove_def get_or_def Let_def split: option.splits)

lemma nested_get_empty [simp]: "nested_get fmempty f k = {||}"
  by (simp add: nested_get_def get_or_def)

text \<open>The effect of the index operations on the two nested maps.\<close>

lemma index_scalar_effect:
  "k |\<in>| nested_get (pi_keyword (index_scalar J f off v x)) g key \<longleftrightarrow>
     k |\<in>| nested_get (pi_keyword x) g key \<or> k = off \<and> g = f \<and> key \<in> set (scalar_keywords J v)"
  "k |\<in>| nested_get (pi_numeric (index_scalar J f off v x)) g r \<longleftrightarrow>
     k |\<in>| nested_get (pi_numeric x) g r \<or> k = off \<and> g = f \<and> r \<in> set (scalar_ranks J v)"
  "pi_all_offsets (index_scalar J f off v x) = pi_all_offsets x"
  by (cases v; auto simp: nested_get_insert Let_def split: option.splits)+

lemma remove_scalar_effect:
  "k |\<in>| nested_get (pi_keyword (remove_scalar J f off v x)) g key \<longleftrightarrow>
     k |\<in>| nested_get (pi_keyword x) g key \<and> \<not> (k = off \<and> g = f \<and> key \<in> set (scalar_keywords J v))"
  "k |\<in>| nested_get (pi_numeric (remove_scalar J f off v x)) g r \<longleftrightarrow>
     k |\<in>| nested_get (pi_numeric x) g r \<and> \<not> (k = off \<and> g = f \<and> r \<in> set (scalar_ranks J v))"
  "pi_all_offsets (remove_scalar J f off v x) = pi_all_offsets x"
  by (cases v; auto simp: nested_get_remove Let_def split: option.splits)+

lemma index_scalars_effect:
  "k |\<in>| nested_get (pi_keyword (fold (\<lambda>(f, v). index_scalar J f off v) fvs x)) g key \<longleftrightarrow>
     k |\<in>| nested_get (pi_keyword x) g key \<or> k = off \<and> list_ex (\<lambda>(f, v). f = g \<and> key \<in> set (scalar_keywords J v)) fvs"
  "k |\<in>| nested_get (pi_numeric (fold (\<lambda>(f, v). index_scalar J f off v) fvs x)) g r \<longleftrightarrow>
     k |\<in>| nested_get (pi_numeric x) g r \<or> k = off \<and> list_ex (\<lambda>(f, v). f = g \<and> r \<in> set (scalar_ranks J v)) fvs"
  "pi_all_offsets (fold (\<lambda>(f, v). index_scalar J f off v) fvs x) = pi_all_offsets x"
  by (induction fvs arbitrary: x) (auto simp: index_scalar_effect)

lemma remove_scalars_effect:
  "k |\<in>| nested_get (pi_keyword (fold (\<lambda>(f, v). remove_scalar J f off v) fvs x)) g key \<longleftrightarrow>
     k |\<in>| nested_get (pi_keyword x) g key \<and> \<not> (k = off \<and> list_ex (\<lambda>(f, v). f = g \<and> key \<in> set (scalar_keywords J v)) fvs)"
  "k |\<in>| nested_get (pi_numeric (fold (\<lambda>(f, v). remove_scalar J f off v) fvs x)) g r \<longleftrightarrow>
     k |\<in>| nested_get (pi_numeric x) g r \<and> \<not> (k = off \<and> list_ex (\<lambda>(f, v). f = g \<and> r \<in> set (scalar_ranks J v)) fvs)"
  "pi_all_offsets (fold (\<lambda>(f, v). remove_scalar J f off v) fvs x) = pi_all_offsets x"
  by (induction fvs arbitrary: x) (auto simp: remove_scalar_effect)

text \<open>Adding and removing a payload is adding and removing its scalars.\<close>

lemma fold_scalars:
  "fold (\<lambda>(f, v). index_field_value J f off v) fs x =
     fold (\<lambda>(f, v). index_scalar J f off v) (concat (map (\<lambda>(f, v). map (Pair f) (scalars v)) fs)) x"
  "fold (\<lambda>(f, v). remove_field_value J f off v) fs x =
     fold (\<lambda>(f, v). remove_scalar J f off v) (concat (map (\<lambda>(f, v). map (Pair f) (scalars v)) fs)) x"
proof -
  have a: "index_field_value J f off v x = fold (\<lambda>(f, v). index_scalar J f off v) (map (Pair f) (scalars v)) x" for f v x
    by (cases v) (simp_all add: index_field_value_def scalars_def fold_map comp_def)
  have r: "remove_field_value J f off v x = fold (\<lambda>(f, v). remove_scalar J f off v) (map (Pair f) (scalars v)) x" for f v x
    by (cases v) (simp_all add: remove_field_value_def scalars_def fold_map comp_def)
  show "fold (\<lambda>(f, v). index_field_value J f off v) fs x =
     fold (\<lambda>(f, v). index_scalar J f off v) (concat (map (\<lambda>(f, v). map (Pair f) (scalars v)) fs)) x"
    by (induction fs arbitrary: x) (auto simp: a)
  show "fold (\<lambda>(f, v). remove_field_value J f off v) fs x =
     fold (\<lambda>(f, v). remove_scalar J f off v) (concat (map (\<lambda>(f, v). map (Pair f) (scalars v)) fs)) x"
    by (induction fs arbitrary: x) (auto simp: r)
qed

lemma pi_add_scalars:
  "snd (pi_add J off p x) = fold (\<lambda>(f, v). index_scalar J f (bm_offset off) v) (payload_fields J p)
     (x\<lparr>pi_all_offsets := finsert (bm_offset off) (pi_all_offsets x)\<rparr>)"
  by (simp add: pi_add_def payload_fields_def Let_def fold_scalars split: option.splits json.splits)

lemma pi_remove_scalars:
  "pi_remove J off p x = fold (\<lambda>(f, v). remove_scalar J f (bm_offset off) v) (payload_fields J p)
     (x\<lparr>pi_all_offsets := pi_all_offsets x |-| {|bm_offset off|}\<rparr>)"
  by (simp add: pi_remove_def payload_fields_def Let_def fold_scalars split: option.splits json.splits)

section \<open>What the index represents\<close>

definition pi_rep :: "json_lib \<Rightarrow> (u32 \<rightharpoonup> string option) \<Rightarrow> payload_index \<Rightarrow> bool" where
  "pi_rep J live x \<longleftrightarrow>
     (\<forall>k. k |\<in>| pi_all_offsets x \<longleftrightarrow> live k \<noteq> None) \<and>
     (\<forall>k f key. k |\<in>| nested_get (pi_keyword x) f key \<longleftrightarrow> (\<exists>p. live k = Some p \<and> has_keyword J p f key)) \<and>
     (\<forall>k f r. k |\<in>| nested_get (pi_numeric x) f r \<longleftrightarrow> (\<exists>p. live k = Some p \<and> has_rank J p f r))"

definition pi_add_key :: "json_lib \<Rightarrow> u32 \<Rightarrow> string option \<Rightarrow> payload_index \<Rightarrow> payload_index" where
  "pi_add_key J k p x = snd (pi_add J (ucast k) p x)"

definition pi_remove_key :: "json_lib \<Rightarrow> u32 \<Rightarrow> string option \<Rightarrow> payload_index \<Rightarrow> payload_index" where
  "pi_remove_key J k p x = pi_remove J (ucast k) p x"

lemma pi_rep_add: "pi_rep J live x \<Longrightarrow> live k = None \<Longrightarrow> pi_rep J (live(k \<mapsto> p)) (pi_add_key J k p x)"
  by (auto simp: pi_rep_def pi_add_key_def pi_add_scalars index_scalars_effect has_keyword_def has_rank_def)

lemma pi_rep_remove: "pi_rep J live x \<Longrightarrow> live k = Some p \<Longrightarrow> pi_rep J (live(k := None)) (pi_remove_key J k p x)"
  by (auto simp: pi_rep_def pi_remove_key_def pi_remove_scalars remove_scalars_effect has_keyword_def has_rank_def)


section \<open>Queries are exact\<close>

lemma query_eq_nested: "query_eq J x f v = nested_get (pi_keyword x) f (value_to_keyword J v)"
  by (simp add: query_eq_def nested_get_def get_or_def split: option.splits)

lemma fold_union_iff: "k |\<in>| fold (\<lambda>r acc. acc |\<union>| g r) rs A \<longleftrightarrow> k |\<in>| A \<or> (\<exists>r \<in> set rs. k |\<in>| g r)"
  by (induction rs arbitrary: A) auto

lemma query_range_iff:
  assumes "query_range x f l h = Inr ks"
  shows "k |\<in>| ks \<longleftrightarrow> (\<exists>r. k |\<in>| nested_get (pi_numeric x) f r \<and> in_range l h r)"
proof (cases "fmlookup (pi_numeric x) f")
  case None
  then show ?thesis using assms by (simp add: query_range_def nested_get_def get_or_def)
next
  case (Some tree)
  have d: "k |\<in>| get_or {||} tree r \<Longrightarrow> r |\<in>| fmdom tree" for r
    by (auto simp: get_or_def fmlookup_dom_iff split: option.splits)
  have n: "nested_get (pi_numeric x) f r = get_or {||} tree r" for r
    using Some by (simp add: nested_get_def get_or_def)
  have "k |\<in>| ks \<longleftrightarrow> (\<exists>r. r |\<in>| fmdom tree \<and> in_range l h r \<and> k |\<in>| get_or {||} tree r)"
    using assms Some by (auto simp: query_range_def Let_def fold_union_iff in_range_def split: if_splits)
  then show ?thesis unfolding n using d by blast
qed

definition filter_holds :: "json_lib \<Rightarrow> (u32 \<rightharpoonup> string option) \<Rightarrow> u32 \<Rightarrow> pfilter \<Rightarrow> bool" where
  "filter_holds J live k q \<longleftrightarrow> (\<exists>p. live k = Some p \<and> filter_matches J q p)"

lemma query_exact:
  "pi_rep J live x \<Longrightarrow> query_inner J x flt = Inr R1 \<Longrightarrow> k |\<in>| R1 \<longleftrightarrow> filter_holds J live k flt"
  "pi_rep J live x \<Longrightarrow> query_and J x ps acc = Inr R2 \<Longrightarrow>
     k |\<in>| R2 \<longleftrightarrow> k |\<in>| acc \<and> list_all (filter_holds J live k) ps"
  "pi_rep J live x \<Longrightarrow> query_or J x qs acc' = Inr R3 \<Longrightarrow>
     k |\<in>| R3 \<longleftrightarrow> k |\<in>| acc' \<or> list_ex (filter_holds J live k) qs"
proof (induction J x flt and J x ps acc and J x qs acc' arbitrary: R1 and R2 and R3 rule: query_inner_query_and_query_or.induct)
  case (1 J x f v)
  then show ?case by (auto simp: query_eq_nested pi_rep_def filter_holds_def)
next
  case (2 J x f l h)
  then show ?case using query_range_iff [of x f l h R1 k] by (auto simp: pi_rep_def filter_holds_def)
next
  case (5 J x p ps)
  then obtain r where r: "query_inner J x p = Inr r" "query_and J x ps r = Inr R1" by (auto simp: result_iff)
  have "k |\<in>| R1 \<longleftrightarrow> filter_holds J live k p \<and> list_all (filter_holds J live k) ps"
    using "5.IH"(1) [OF "5.prems"(1) r(1)] "5.IH"(2) [OF "5.prems"(1) r(2)] by simp
  then show ?case by (auto simp: filter_holds_def list_all_iff)
next
  case (6 J x ps)
  then show ?case by (auto simp: filter_holds_def list_ex_iff)
next
  case (7 J x p)
  then show ?case by (auto simp: result_iff filter_holds_def pi_rep_def)
next
  case (9 J x p ps acc)
  then show ?case by (auto simp: result_iff split: if_splits)
next
  case (11 J x p ps acc)
  then show ?case by (auto simp: result_iff)
qed (auto simp: filter_holds_def)

lemma query_total:
  "ranges_ok flt \<Longrightarrow> \<exists>R. query_inner J x flt = Inr R"
  "list_all ranges_ok ps \<Longrightarrow> \<exists>R. query_and J x ps acc = Inr R"
  "list_all ranges_ok qs \<Longrightarrow> \<exists>R. query_or J x qs acc' = Inr R"
proof (induction J x flt and J x ps acc and J x qs acc' rule: query_inner_query_and_query_or.induct)
  case (2 J x f l h)
  then show ?case by (simp add: query_range_def Let_def split: option.splits)
qed (auto simp: result_iff)

interpretation payload_idx: offset_index "pi_rep J" pi_new "pi_add_key J" "pi_remove_key J"
    "\<lambda>q x. query_inner J x q" "filter_matches J"
  for J :: json_lib
proof unfold_locales
  show "pi_rep J Map.empty pi_new" by (simp add: pi_rep_def pi_new_def)
next
  fix live x q ks k
  assume "pi_rep J live x" "query_inner J x q = Inr ks"
  then show "(k |\<in>| ks) = (\<exists>p. live k = Some p \<and> filter_matches J q p)"
    using query_exact(1) by (simp add: filter_holds_def)
qed (auto intro: pi_rep_add pi_rep_remove)

section \<open>Claims\<close>

text \<open>A tiny JSON parser for the witnesses: one field \<open>n\<close> whose value is the first character's
  code.\<close>

definition demo_json :: json_lib where
  "demo_json =
     \<lparr>json_from_str = (\<lambda>s. case s of [] \<Rightarrow> None | c # _ \<Rightarrow> Some (JObject [(''n'', JNumber (PosInt (word_of_nat (of_char c))))])),
      number_as_f64 = (\<lambda>n. case n of PosInt w \<Rightarrow> Some w | NegInt w \<Rightarrow> None | JFloat f \<Rightarrow> Some f),
      number_to_string = (\<lambda>n. case n of PosInt w \<Rightarrow> u64_to_string w | NegInt w \<Rightarrow> CHR ''-'' # u64_to_string w | JFloat f \<Rightarrow> []),
      json_to_string = (\<lambda>v. [])\<rparr>"

text \<open>Filtered search is exact: after any history of indexing and removing payloads, a filter
  without inverted ranges evaluates without panicking to precisely the live offsets whose
  payload satisfies it, including negation (over all live offsets) and the short-circuiting
  conjunction.\<close>

theorem payload_query_exact:
  assumes "offset_index.run (pi_add_key J) (pi_remove_key J) hs (Map.empty, pi_new) = (live, x)" "ranges_ok flt"
  shows "\<exists>ks. query_inner J x flt = Inr ks \<and> (\<forall>k. k |\<in>| ks \<longleftrightarrow> (\<exists>p. live k = Some p \<and> filter_matches J flt p))"
  using query_total(1) [OF assms(2), of J x] payload_idx.run_query [OF assms(1)] by blast

theorem payload_query_exact_witness:
  "\<exists>live x ks. offset_index.run (pi_add_key demo_json) (pi_remove_key demo_json)
       [AddEntry 1 (Some ''A''), AddEntry 2 (Some ''B''), AddEntry 3 None, RemoveEntry 2] (Map.empty, pi_new) = (live, x) \<and>
     query_inner demo_json x (FNot (FEq ''n'' (JNumber (PosInt 65)))) = Inr ks \<and> 3 |\<in>| ks \<and> 2 |\<notin>| ks \<and> 1 |\<notin>| ks"
proof -
  let ?hs = "[AddEntry 1 (Some ''A''), AddEntry 2 (Some ''B''), AddEntry 3 None, RemoveEntry 2] :: (u32, string option) index_step list"
  let ?f = "FNot (FEq ''n'' (JNumber (PosInt 65)))"
  obtain live x where r: "offset_index.run (pi_add_key demo_json) (pi_remove_key demo_json) ?hs (Map.empty, pi_new) = (live, x)"
    by fastforce
  have live: "live = [1 \<mapsto> Some ''A'', 3 \<mapsto> None]"
    using r by (auto simp: payload_idx.run.simps fun_eq_iff)
  obtain ks where ks: "query_inner demo_json x ?f = Inr ks"
    "\<And>k. k |\<in>| ks \<longleftrightarrow> (\<exists>p. live k = Some p \<and> filter_matches demo_json ?f p)"
    using payload_query_exact [OF r, of ?f] by auto
  have a: "\<not> filter_matches demo_json ?f (Some ''A'')"
    by (simp add: has_keyword_def payload_fields_def demo_json_def scalars_def)
  have n: "filter_matches demo_json ?f None" by (simp add: has_keyword_def payload_fields_def)
  show ?thesis using r ks(1) ks(2) [of 1] ks(2) [of 2] ks(2) [of 3] a n live by auto
qed

end
