(* ===== verification/Segment_Search.thy ===== *)
theory Segment_Search
  imports Vector_Store "HOL-Library.Multiset"
begin

text \<open>
  Scoring and merging of search candidates: the heap selection, the two merge routines and the
  exact search of \<open>turbomemory_storage/src/segments/mod.rs\<close>, the Hot segment of
  \<open>segments/hot.rs\<close> and the search of a published snapshot in \<open>segment_holder.rs\<close>.
  A \<open>BinaryHeap\<close> is the list of its elements; popping removes a greatest element, and which one
  among equals is left open: it is the argument \<open>pick\<close>. The batched similarity kernel is the
  argument \<open>kern\<close>.
\<close>

section \<open>Scored points and heaps\<close>

record scored_point =
  sp_offset :: point_offset
  sp_score :: f32
  sp_tier :: tier

definition rank :: "scored_point \<Rightarrow> int" where
  "rank p = score_rank (sp_score p)"

text \<open>\<open>Ord for HeapScored\<close>: ascending by score with NaN lowest.\<close>

definition heap_cmp :: "f32 \<Rightarrow> f32 \<Rightarrow> ordering" where
  "heap_cmp a b = cmp_score_desc b a"

definition pop_at :: "nat \<Rightarrow> 'a list \<Rightarrow> 'a list" where
  "pop_at i xs = take i xs @ drop (Suc i) xs"

text \<open>A pick is right for an order when it names a greatest element of every non-empty heap.\<close>

definition pick_ok :: "('a \<Rightarrow> 'a \<Rightarrow> ordering) \<Rightarrow> ('a list \<Rightarrow> nat) \<Rightarrow> bool" where
  "pick_ok c pick \<longleftrightarrow> (\<forall>xs. xs \<noteq> [] \<longrightarrow> pick xs < length xs \<and> (\<forall>y \<in> set xs. c y (xs ! pick xs) \<noteq> Greater))"

definition point_max :: "scored_point \<Rightarrow> scored_point \<Rightarrow> ordering" where
  "point_max a b = heap_cmp (sp_score a) (sp_score b)"

definition point_min :: "scored_point \<Rightarrow> scored_point \<Rightarrow> ordering" where
  "point_min a b = heap_cmp (sp_score b) (sp_score a)"

section \<open>Selecting the best k\<close>

text \<open>The loop of \<open>top_k_minheap\<close>: the heap holds \<open>Reverse\<close> items, so its greatest element is the
  lowest score.\<close>

fun minheap_loop :: "(scored_point list \<Rightarrow> nat) \<Rightarrow> nat \<Rightarrow> scored_point list \<Rightarrow> scored_point list \<Rightarrow> scored_point list" where
  "minheap_loop pick k [] heap = heap"
| "minheap_loop pick k (p # ps) heap =
     minheap_loop pick k ps
       (if length heap < k then p # heap
        else if heap = [] then heap
        else if f32_lt (sp_score (heap ! pick heap)) (sp_score p) then p # pop_at (pick heap) heap
        else heap)"

text \<open>\<open>into_sorted_vec\<close>: greatest elements are popped to the back.\<close>

fun pops :: "('a list \<Rightarrow> nat) \<Rightarrow> nat \<Rightarrow> 'a list \<Rightarrow> 'a list" where
  "pops pick 0 heap = []"
| "pops pick (Suc n) heap = heap ! pick heap # pops pick n (pop_at (pick heap) heap)"

definition into_sorted_vec :: "('a list \<Rightarrow> nat) \<Rightarrow> 'a list \<Rightarrow> 'a list" where
  "into_sorted_vec pick heap = rev (pops pick (length heap) heap)"

definition top_k_minheap :: "(scored_point list \<Rightarrow> nat) \<Rightarrow> scored_point list \<Rightarrow> nat \<Rightarrow> scored_point list" where
  "top_k_minheap pick scored k =
     (if k = 0 then [] else rev (into_sorted_vec pick (minheap_loop pick k scored [])))"

section \<open>Merging candidate lists\<close>

text \<open>The deduplicating loop the merge routines share: keep the first occurrence of an offset and
  stop at \<open>k\<close> results.\<close>

fun dedup_loop :: "nat \<Rightarrow> scored_point list \<Rightarrow> point_offset fset \<Rightarrow> scored_point list \<Rightarrow> scored_point list" where
  "dedup_loop k [] seen out = out"
| "dedup_loop k (c # cs) seen out =
     (if sp_offset c |\<in>| seen then dedup_loop k cs seen out
      else if k \<le> length (out @ [c]) then out @ [c]
      else dedup_loop k cs (finsert (sp_offset c) seen) (out @ [c]))"

definition cmp_points :: "scored_point \<Rightarrow> scored_point \<Rightarrow> ordering" where
  "cmp_points a b = cmp_score_desc (sp_score a) (sp_score b)"

definition merge_candidates :: "scored_point list list \<Rightarrow> nat \<Rightarrow> scored_point list" where
  "merge_candidates ls top_k = dedup_loop top_k (sort_by cmp_points (concat ls)) {||} []"

text \<open>The k-way merge: heap items are a score, a list number and a position in that list.\<close>

record kway_item =
  ki_score :: f32
  ki_list :: nat
  ki_idx :: nat

definition item_cmp :: "kway_item \<Rightarrow> kway_item \<Rightarrow> ordering" where
  "item_cmp a b = heap_cmp (ki_score a) (ki_score b)"

definition kway_init :: "scored_point list list \<Rightarrow> kway_item list" where
  "kway_init ls =
     map (\<lambda>(i, l). \<lparr>ki_score = sp_score (hd l), ki_list = i, ki_idx = 0\<rparr>)
       (List.filter (\<lambda>(i, l). l \<noteq> []) (enumerate 0 ls))"

definition kway_push :: "scored_point list list \<Rightarrow> kway_item \<Rightarrow> kway_item list \<Rightarrow> kway_item list" where
  "kway_push ls it heap =
     (let n = ki_idx it + 1; l = ls ! ki_list it in
      if n < length l then \<lparr>ki_score = sp_score (l ! n), ki_list = ki_list it, ki_idx = n\<rparr> # heap else heap)"

definition item_ok :: "scored_point list list \<Rightarrow> kway_item \<Rightarrow> bool" where
  "item_ok ls it \<longleftrightarrow> ki_list it < length ls \<and> ki_idx it < length (ls ! ki_list it)"

definition item_left :: "scored_point list list \<Rightarrow> kway_item \<Rightarrow> nat" where
  "item_left ls it = length (ls ! ki_list it) - ki_idx it"

lemma pop_at_split: "i < length xs \<Longrightarrow> mset xs = add_mset (xs ! i) (mset (pop_at i xs))"
proof -
  assume "i < length xs"
  then have "xs = take i xs @ xs ! i # drop (Suc i) xs" by (rule id_take_nth_drop)
  then have "mset xs = mset (take i xs @ xs ! i # drop (Suc i) xs)" by (rule arg_cong)
  then show ?thesis by (simp add: pop_at_def)
qed

lemma kway_measure:
  assumes "i < length heap" "item_ok ls (heap ! i)"
  shows "sum_list (map (item_left ls) (kway_push ls (heap ! i) (pop_at i heap))) < sum_list (map (item_left ls) heap)"
proof -
  have "sum_mset (image_mset (item_left ls) (mset heap)) =
      item_left ls (heap ! i) + sum_mset (image_mset (item_left ls) (mset (pop_at i heap)))"
    using pop_at_split [OF assms(1)] by simp
  then have "sum_list (map (item_left ls) heap) =
      item_left ls (heap ! i) + sum_list (map (item_left ls) (pop_at i heap))"
    by (simp flip: sum_mset_sum_list mset_map)
  then show ?thesis using assms(2) by (auto simp: kway_push_def Let_def item_left_def item_ok_def)
qed

text \<open>The main loop. An item outside its list would be a panic; the loop stops there.\<close>

function kway_loop :: "(kway_item list \<Rightarrow> nat) \<Rightarrow> scored_point list list \<Rightarrow> nat \<Rightarrow> kway_item list
    \<Rightarrow> point_offset fset \<Rightarrow> scored_point list \<Rightarrow> scored_point list result" where
  "kway_loop pick ls k heap seen out =
     (if heap = [] then Inr out
      else if \<not> (pick heap < length heap \<and> item_ok ls (heap ! pick heap)) then Inl Panicked
      else let it = heap ! pick heap; heap1 = pop_at (pick heap) heap;
               c = ls ! ki_list it ! ki_idx it; heap2 = kway_push ls it heap1 in
        if sp_offset c |\<in>| seen then kway_loop pick ls k heap2 seen out
        else if k \<le> length (out @ [c]) then Inr (out @ [c])
        else kway_loop pick ls k heap2 (finsert (sp_offset c) seen) (out @ [c]))"
  by pat_completeness auto
termination
  by (relation "measure (\<lambda>(pick, ls, k, heap, seen, out). sum_list (map (item_left ls) heap))")
     (auto simp: kway_measure)

declare kway_loop.simps [simp del]

definition kway_merge_topk :: "(kway_item list \<Rightarrow> nat) \<Rightarrow> scored_point list list \<Rightarrow> nat \<Rightarrow> scored_point list result" where
  "kway_merge_topk pick ls k =
     (if k = 0 then Inr []
      else case ls of
        [] \<Rightarrow> Inr []
      | [l] \<Rightarrow> Inr (take k l)
      | _ \<Rightarrow> kway_loop pick ls k (kway_init ls) {||} [])"


section \<open>Scoring, segments and snapshots\<close>

fun chunks :: "nat \<Rightarrow> 'a list \<Rightarrow> 'a list list" where
  "chunks n xs = (if xs = [] \<or> n = 0 then [] else take n xs # chunks n (drop n xs))"

declare chunks.simps [simp del]

definition core_result :: "turbo_error + 'a \<Rightarrow> 'a result" where
  "core_result r = (case r of Inl e \<Rightarrow> Inl (Core e) | Inr x \<Rightarrow> Inr x)"

text \<open>One chunk: the candidates whose vector is present are scored together.\<close>

definition score_chunk :: "(f32 list \<Rightarrow> f32 list list \<Rightarrow> f32 list) \<Rightarrow> vstore \<Rightarrow> f32 list
    \<Rightarrow> (point_offset \<times> tier) list \<Rightarrow> scored_point list" where
  "score_chunk kern vs q chunk =
     (let pairs = List.map_filter (\<lambda>(off, t). map_option (\<lambda>v. ((off, t), v)) (vs_get vs off)) chunk;
          scores = kern q (map snd pairs)
      in map (\<lambda>(((off, t), v), sc). \<lparr>sp_offset = off, sp_score = sc, sp_tier = t\<rparr>) (zip pairs scores))"

definition score_all :: "(f32 list \<Rightarrow> f32 list list \<Rightarrow> f32 list) \<Rightarrow> vstore \<Rightarrow> f32 list
    \<Rightarrow> (point_offset \<times> tier) list \<Rightarrow> scored_point list" where
  "score_all kern vs q cs = concat (map (score_chunk kern vs q) (chunks 64 cs))"

definition exact_search_over_offsets :: "(f32 list \<Rightarrow> f32 list list \<Rightarrow> f32 list) \<Rightarrow> f32 list \<Rightarrow> nat \<Rightarrow> vstore
    \<Rightarrow> point_offset list \<Rightarrow> tier \<Rightarrow> scored_point list result" where
  "exact_search_over_offsets kern q top_k vs offsets t =
     rbind (core_result (validate_dimension q (vs_dim vs))) (\<lambda>_.
       Inr (take top_k (sort_by cmp_points (score_all kern vs q (map (\<lambda>off. (off, t)) offsets)))))"

record hot_segment =
  hs_dim :: nat
  hs_offsets :: "point_offset list"
  hs_seen :: "point_offset fset"

definition hot_new :: "nat \<Rightarrow> hot_segment" where
  "hot_new d = \<lparr>hs_dim = d, hs_offsets = [], hs_seen = {||}\<rparr>"

definition hot_insert :: "point_offset \<Rightarrow> mem_record \<Rightarrow> hot_segment \<Rightarrow> unit result \<times> hot_segment" where
  "hot_insert off r h =
     (case validate_dimension (r_embedding r) (hs_dim h) of
        Inl e \<Rightarrow> (Inl (Core e), h)
      | Inr _ \<Rightarrow>
          (Inr (), if off |\<in>| hs_seen h then h
                   else h\<lparr>hs_seen := finsert off (hs_seen h), hs_offsets := hs_offsets h @ [off]\<rparr>))"

fun hot_insert_all :: "(point_offset \<times> mem_record) list \<Rightarrow> hot_segment \<Rightarrow> unit result \<times> hot_segment" where
  "hot_insert_all [] h = (Inr (), h)"
| "hot_insert_all ((off, r) # rs) h =
     (case hot_insert off r h of (Inl e, h') \<Rightarrow> (Inl e, h') | (Inr _, h') \<Rightarrow> hot_insert_all rs h')"

definition hot_rebuild :: "(point_offset \<times> mem_record) list \<Rightarrow> hot_segment \<Rightarrow> unit result \<times> hot_segment" where
  "hot_rebuild rs h = hot_insert_all rs (h\<lparr>hs_offsets := [], hs_seen := {||}\<rparr>)"

definition allowed_by :: "u32 fset option \<Rightarrow> point_offset \<Rightarrow> bool" where
  "allowed_by allowed off = (case allowed of None \<Rightarrow> True | Some bm \<Rightarrow> ucast off |\<in>| bm)"

definition hot_search :: "(f32 list \<Rightarrow> f32 list list \<Rightarrow> f32 list) \<Rightarrow> hot_segment \<Rightarrow> f32 list \<Rightarrow> nat \<Rightarrow> vstore
    \<Rightarrow> u32 fset option \<Rightarrow> scored_point list result" where
  "hot_search kern h q top_k vs allowed =
     rbind (core_result (validate_dimension q (hs_dim h))) (\<lambda>_.
       let filtered = List.filter (allowed_by allowed) (hs_offsets h)
       in Inr (take top_k (sort_by cmp_points (score_all kern vs q (map (\<lambda>off. (off, Hot)) filtered)))))"

text \<open>A published snapshot: each segment is its search and its number of points.\<close>

type_synonym seg_search = "f32 list \<Rightarrow> nat \<Rightarrow> vstore \<Rightarrow> u32 fset option \<Rightarrow> scored_point list result"

record snapshot =
  ss_search_list_size :: nat
  ss_segments :: "(seg_search \<times> nat) list"

definition ss_point_count :: "snapshot \<Rightarrow> nat" where
  "ss_point_count s = sum_list (map snd (ss_segments s))"

definition f32_of_nat :: "nat \<Rightarrow> f32" where
  "f32_of_nat n = f32_of_rat (rat_of_nat n)"

text \<open>\<open>as usize\<close> truncates and saturates, NaN becomes zero.\<close>

definition f32_to_usize :: "f32 \<Rightarrow> nat" where
  "f32_to_usize a =
     (if f32_is_nan a \<or> neg_of fmt32 (unat a) then 0
      else if \<not> f32_is_finite a then usize_max
      else min usize_max (nat \<lfloor>float_val fmt32 (unat a)\<rfloor>))"

definition pool_width :: "snapshot \<Rightarrow> nat \<Rightarrow> nat option \<Rightarrow> u32 fset option \<Rightarrow> nat" where
  "pool_width s top_k ef allowed =
     (let total = max (ss_point_count s) 1;
          base_ef = (case ef of None \<Rightarrow> ss_search_list_size s | Some e \<Rightarrow> e);
          base_multiplier = (if allowed = None then 4 else 8 :: nat);
          segment_count = max (length (ss_segments s)) 1;
          selectivity = (case allowed of None \<Rightarrow> f32_one | Some b \<Rightarrow> f32_div (f32_of_nat (fcard b)) (f32_of_nat total));
          multiplier =
            (if f32_lt selectivity (f32_of_rat (1 / 100)) then base_multiplier
             else let selectivity_factor = f32_clamp (f32_div f32_one (f32_sqrt selectivity)) f32_one (f32_of_nat 16);
                      segment_factor = f32_clamp (f32_add f32_one (f32_mul (f32_of_nat (segment_count - 1)) (f32_of_rat (1 / 4))))
                                         f32_one (f32_of_rat (5 / 2))
                  in f32_to_usize (f32_mul (f32_mul (f32_of_nat base_multiplier) selectivity_factor) segment_factor))
      in min (max (min (saturating_mul top_k multiplier) (saturating_mul top_k 48)) base_ef) total)"

fun collect :: "'a result list \<Rightarrow> 'a list result" where
  "collect [] = Inr []"
| "collect (r # rs) = rbind r (\<lambda>x. rbind (collect rs) (\<lambda>xs. Inr (x # xs)))"

definition ss_candidates :: "(kway_item list \<Rightarrow> nat) \<Rightarrow> snapshot \<Rightarrow> f32 list \<Rightarrow> nat \<Rightarrow> vstore \<Rightarrow> u32 fset option
    \<Rightarrow> scored_point list result" where
  "ss_candidates pick s q pool_k vs allowed =
     rbind (collect (map (\<lambda>(search, n). search q pool_k vs allowed) (ss_segments s))) (\<lambda>ls.
       if 4 \<le> length ls \<and> 64 \<le> pool_k then kway_merge_topk pick ls pool_k
       else Inr (merge_candidates ls pool_k))"

definition cpu_rerank_candidates :: "(f32 list \<Rightarrow> f32 list list \<Rightarrow> f32 list) \<Rightarrow> f32 list \<Rightarrow> scored_point list \<Rightarrow> vstore
    \<Rightarrow> scored_point list" where
  "cpu_rerank_candidates kern q cs vs = score_all kern vs q (map (\<lambda>c. (sp_offset c, sp_tier c)) cs)"

definition ss_search :: "(f32 list \<Rightarrow> f32 list list \<Rightarrow> f32 list) \<Rightarrow> (kway_item list \<Rightarrow> nat) \<Rightarrow> snapshot \<Rightarrow> f32 list \<Rightarrow> nat
    \<Rightarrow> nat option \<Rightarrow> vstore \<Rightarrow> u32 fset option \<Rightarrow> scored_point list result" where
  "ss_search kern pick s q top_k ef vs allowed =
     rbind (ss_candidates pick s q (pool_width s top_k ef allowed) vs allowed) (\<lambda>cs.
       Inr (take top_k (sort_by cmp_points (cpu_rerank_candidates kern q cs vs))))"

section \<open>The specification of a merge\<close>

text \<open>Smaller ranks are better scores.\<close>

abbreviation best_first :: "scored_point list \<Rightarrow> bool" where
  "best_first ps \<equiv> sorted_wrt (\<lambda>a b. rank a \<le> rank b) ps"

definition is_top_k :: "scored_point list \<Rightarrow> nat \<Rightarrow> scored_point list \<Rightarrow> bool" where
  "is_top_k cs k ps \<longleftrightarrow>
     set ps \<subseteq> set cs \<and> distinct (map sp_offset ps) \<and> best_first ps \<and>
     length ps = min k (card (sp_offset ` set cs)) \<and>
     (\<forall>p \<in> set ps. \<forall>c \<in> set cs. sp_offset c = sp_offset p \<longrightarrow> rank p \<le> rank c) \<and>
     (\<forall>c \<in> set cs. sp_offset c \<notin> sp_offset ` set ps \<longrightarrow> (\<forall>p \<in> set ps. rank p \<le> rank c))"

fun firsts :: "point_offset fset \<Rightarrow> scored_point list \<Rightarrow> scored_point list" where
  "firsts seen [] = []"
| "firsts seen (c # cs) =
     (if sp_offset c |\<in>| seen then firsts seen cs else c # firsts (finsert (sp_offset c) seen) cs)"

lemma dedup_loop_firsts:
  "length out < k \<Longrightarrow> dedup_loop k cs seen out = out @ take (k - length out) (firsts seen cs)"
proof (induction k cs seen out rule: dedup_loop.induct)
  case (2 k c cs seen out)
  show ?case
  proof (cases "k \<le> length (out @ [c])")
    case True
    then have "k - length out = 1" using "2.prems" by simp
    then show ?thesis using 2 True by simp
  next
    case False
    then have "k - length out = Suc (k - length (out @ [c]))" by simp
    then show ?thesis using 2 False by simp
  qed
qed simp

lemma firsts_subset: "set (firsts seen cs) \<subseteq> set cs"
  by (induction seen cs rule: firsts.induct) auto

lemma firsts_offsets: "sp_offset ` set (firsts seen cs) = sp_offset ` set cs - fset seen"
  by (induction seen cs rule: firsts.induct) auto

lemma firsts_distinct: "distinct (map sp_offset (firsts seen cs))"
  by (induction seen cs rule: firsts.induct) (simp_all add: firsts_offsets)

lemma firsts_sorted: "best_first cs \<Longrightarrow> best_first (firsts seen cs)"
  using firsts_subset by (induction seen cs rule: firsts.induct) fastforce+

lemma firsts_best:
  "best_first cs \<Longrightarrow> p \<in> set (firsts seen cs) \<Longrightarrow> c \<in> set cs \<Longrightarrow> sp_offset c = sp_offset p \<Longrightarrow> rank p \<le> rank c"
proof (induction seen cs rule: firsts.induct)
  case (2 seen x cs)
  have off: "q \<in> set (firsts t cs) \<Longrightarrow> sp_offset q |\<notin>| t" for q t using firsts_offsets [of t cs] by blast
  show ?case
  proof (cases "sp_offset x |\<in>| seen")
    case True
    then show ?thesis using 2 off by auto
  next
    case False
    then show ?thesis using 2 off [of p "finsert (sp_offset x) seen"] by auto
  qed
qed simp

lemma take_firsts_top_k:
  assumes "best_first cs"
  shows "is_top_k cs k (take k (firsts {||} cs))"
proof -
  let ?f = "firsts {||} cs"
  have offs: "sp_offset ` set ?f = sp_offset ` set cs" using firsts_offsets [of "{||}" cs] by simp
  have len: "length ?f = card (sp_offset ` set cs)"
    using distinct_card [OF firsts_distinct [of "{||}" cs]] offs by simp
  have srt: "best_first (take k ?f @ drop k ?f)" using firsts_sorted [OF assms] by simp
  have rest: "rank p \<le> rank c"
    if c: "c \<in> set cs" "sp_offset c \<notin> sp_offset ` set (take k ?f)" and p: "p \<in> set (take k ?f)" for c p
  proof -
    obtain q where q: "q \<in> set ?f" "sp_offset q = sp_offset c" using c(1) offs by (metis imageE imageI)
    then have "q \<notin> set (take k ?f)" using c(2) by (metis image_eqI)
    then have "q \<in> set (drop k ?f)" using q(1) by (metis Un_iff append_take_drop_id set_append)
    then have "rank p \<le> rank q" using srt p unfolding sorted_wrt_append by blast
    then show ?thesis using firsts_best [OF assms q(1) c(1)] q(2) by simp
  qed
  have sub: "set (take k ?f) \<subseteq> set ?f" by (rule set_take_subset)
  then show ?thesis
    unfolding is_top_k_def
    using firsts_subset [of "{||}" cs] firsts_distinct [of "{||}" cs] firsts_best [OF assms] rest len
      sorted_wrt_take [OF firsts_sorted [OF assms]] by (auto simp: distinct_take simp flip: take_map)
qed

lemma dedup_top_k: "best_first cs \<Longrightarrow> 0 < k \<Longrightarrow> is_top_k cs k (dedup_loop k cs {||} [])"
  using take_firsts_top_k by (simp add: dedup_loop_firsts)

lemma sort_by_points: "sort_by cmp_points cs = sort_key rank cs"
  by (rule sort_by_key) (simp add: cmp_points_def cmp_score_desc_rank rank_def)

lemma best_first_sort: "best_first (sort_key rank cs)"
  using sorted_sort_key [of rank cs] by (simp add: sorted_map)

lemma is_top_k_set: "set cs = set ds \<Longrightarrow> is_top_k cs k ps = is_top_k ds k ps"
  by (simp add: is_top_k_def)

text \<open>The specification fixes the scores of a result: two results of one merge have the same
  sequence of ranks.\<close>


lemma is_top_k_ranks:
  assumes "is_top_k cs k ps" "is_top_k cs k qs"
  shows "map rank ps = map rank qs"
proof -
  define best where "best off = Min (rank ` {c \<in> set cs. sp_offset c = off})" for off
  have bst: "rank p = best (sp_offset p)" if "is_top_k cs k xs" "p \<in> set xs" for xs p
  proof -
    have "p \<in> set cs" "\<And>c. c \<in> set cs \<Longrightarrow> sp_offset c = sp_offset p \<Longrightarrow> rank p \<le> rank c"
      using that by (auto simp: is_top_k_def)
    then show ?thesis unfolding best_def by (intro Min_eqI [symmetric]) auto
  qed
  have len: "length ps = length qs" using assms by (simp add: is_top_k_def)
  have le: "rank (xs ! i) \<le> rank (ys ! i)"
    if top: "is_top_k cs k xs" "is_top_k cs k ys" and i: "i < length xs" for xs ys i
  proof (rule ccontr)
    assume "\<not> rank (xs ! i) \<le> rank (ys ! i)"
    then have gt: "rank (ys ! i) < rank (xs ! i)" by simp
    have iy: "i < length ys" using i top by (simp add: is_top_k_def)
    have sy: "rank (ys ! j) \<le> rank (ys ! i)" if "j \<le> i" for j
      using top(2) iy that by (cases "j = i") (auto simp: is_top_k_def sorted_wrt_iff_nth_less)
    have sx: "rank (xs ! i) \<le> rank (xs ! j)" if "i \<le> j" "j < length xs" for j
      using top(1) that by (cases "j = i") (auto simp: is_top_k_def sorted_wrt_iff_nth_less)
    let ?Y = "sp_offset ` set (take (Suc i) ys)"
    have "?Y \<subseteq> sp_offset ` set (take i xs)"
    proof
      fix off assume "off \<in> ?Y"
      then obtain j where j: "j \<le> i" "off = sp_offset (ys ! j)" "j < length ys"
        by (auto simp: in_set_conv_nth less_Suc_eq_le)
      have yc: "ys ! j \<in> set cs" using top(2) j(3) by (auto simp: is_top_k_def)
      have "off \<in> sp_offset ` set xs"
      proof (rule ccontr)
        assume "off \<notin> sp_offset ` set xs"
        then have "rank (xs ! i) \<le> rank (ys ! j)" using top(1) i yc j(2) unfolding is_top_k_def by auto
        then show False using gt sy [OF j(1)] by simp
      qed
      then obtain m where m: "m < length xs" "sp_offset (xs ! m) = off" by (metis imageE in_set_conv_nth)
      have "rank (xs ! m) = rank (ys ! j)"
        using bst [OF top(1), of "xs ! m"] bst [OF top(2), of "ys ! j"] m j by simp
      then have "\<not> i \<le> m" using sx [of m] m(1) gt sy [OF j(1)] by auto
      then show "off \<in> sp_offset ` set (take i xs)"
        using m by (metis image_eqI in_set_conv_nth length_take min_less_iff_conj not_le nth_take)
    qed
    then have "card ?Y \<le> card (sp_offset ` set (take i xs))" by (intro card_mono) auto
    also have "\<dots> \<le> i" using card_image_le [of "set (take i xs)" sp_offset] card_length [of "take i xs"] by simp
    finally have "card ?Y \<le> i" .
    moreover have "card ?Y = Suc i"
    proof -
      have "distinct (map sp_offset (take (Suc i) ys))"
        using top(2) unfolding is_top_k_def take_map [symmetric] by (simp add: distinct_take)
      then show ?thesis using distinct_card [of "map sp_offset (take (Suc i) ys)"] iy by simp
    qed
    ultimately show False by simp
  qed
  show ?thesis
    using le [OF assms] le [OF assms(2,1)] len by (intro nth_equalityI) (auto intro: order_antisym)
qed

section \<open>The k-way merge\<close>

definition remaining :: "scored_point list list \<Rightarrow> kway_item list \<Rightarrow> scored_point multiset" where
  "remaining ls heap = sum_mset (image_mset (\<lambda>it. mset (drop (ki_idx it) (ls ! ki_list it))) (mset heap))"

definition items_ok :: "scored_point list list \<Rightarrow> kway_item list \<Rightarrow> bool" where
  "items_ok ls heap \<longleftrightarrow>
     (\<forall>it \<in> set heap. item_ok ls it \<and> ki_score it = sp_score (ls ! ki_list it ! ki_idx it))"

lemma remaining_pop:
  assumes "i < length heap" "item_ok ls (heap ! i)"
  shows "remaining ls heap =
    add_mset (ls ! ki_list (heap ! i) ! ki_idx (heap ! i)) (remaining ls (kway_push ls (heap ! i) (pop_at i heap)))"
proof -
  let ?it = "heap ! i" let ?l = "ls ! ki_list (heap ! i)"
  have d: "drop (ki_idx ?it) ?l = ?l ! ki_idx ?it # drop (Suc (ki_idx ?it)) ?l"
    using assms(2) by (intro Cons_nth_drop_Suc [symmetric]) (simp add: item_ok_def)
  have "remaining ls heap = mset (drop (ki_idx ?it) ?l) + remaining ls (pop_at i heap)"
    using pop_at_split [OF assms(1)] by (simp add: remaining_def)
  then show ?thesis by (auto simp: d kway_push_def Let_def remaining_def)
qed

lemma items_ok_push:
  assumes "items_ok ls heap" "i < length heap"
  shows "items_ok ls (kway_push ls (heap ! i) (pop_at i heap))"
proof -
  have "set (pop_at i heap) \<subseteq> set heap" using set_take_subset set_drop_subset by (fastforce simp: pop_at_def)
  moreover have "item_ok ls (heap ! i)" using assms by (simp add: items_ok_def)
  ultimately show ?thesis using assms by (auto simp: items_ok_def kway_push_def Let_def item_ok_def)
qed

lemma popped_is_best:
  assumes "items_ok ls heap" "pick_ok item_cmp pick" "heap \<noteq> []" "list_all best_first ls"
    and "x \<in># remaining ls heap"
  shows "rank (ls ! ki_list (heap ! pick heap) ! ki_idx (heap ! pick heap)) \<le> rank x"
proof -
  obtain it where it: "it \<in> set heap" "x \<in> set (drop (ki_idx it) (ls ! ki_list it))"
    using assms(5) by (auto simp: remaining_def)
  let ?l = "ls ! ki_list it"
  have ok: "item_ok ls it" "ki_score it = sp_score (?l ! ki_idx it)" using assms(1) it(1) by (simp_all add: items_ok_def)
  have p: "pick heap < length heap" "item_cmp it (heap ! pick heap) \<noteq> Greater"
    using assms(2,3) it(1) by (auto simp: pick_ok_def)
  then have "ki_score (heap ! pick heap) = sp_score (ls ! ki_list (heap ! pick heap) ! ki_idx (heap ! pick heap))"
    using assms(1) by (simp add: items_ok_def)
  then have 1: "rank (ls ! ki_list (heap ! pick heap) ! ki_idx (heap ! pick heap)) \<le> rank (?l ! ki_idx it)"
    using p(2) ok(2) by (simp add: item_cmp_def heap_cmp_def cmp_score_desc_rank rank_def)
  have "best_first ?l" using assms(4) ok(1) by (simp add: list_all_length item_ok_def)
  moreover obtain j where j: "ki_idx it \<le> j" "j < length ?l" "x = ?l ! j"
  proof -
    obtain m where "m < length (drop (ki_idx it) ?l)" "x = drop (ki_idx it) ?l ! m"
      using it(2) by (auto simp: in_set_conv_nth)
    then show thesis by (intro that [of "ki_idx it + m"]) auto
  qed
  ultimately have "rank (?l ! ki_idx it) \<le> rank x"
    by (cases "j = ki_idx it") (auto simp: sorted_wrt_iff_nth_less)
  then show ?thesis using 1 by simp
qed


text \<open>The loop is the deduplicating loop over some best-first arrangement of what is left.\<close>

lemma kway_loop_dedup:
  "pick_ok item_cmp pick \<Longrightarrow> items_ok ls heap \<Longrightarrow> list_all best_first ls \<Longrightarrow>
   \<exists>cs. mset cs = remaining ls heap \<and> best_first cs \<and> kway_loop pick ls k heap seen out = Inr (dedup_loop k cs seen out)"
proof (induction pick ls k heap seen out rule: kway_loop.induct)
  case (1 pick ls k heap seen out)
  show ?case
  proof (cases "heap = []")
    case True
    then show ?thesis by (simp add: remaining_def kway_loop.simps)
  next
    case False
    let ?i = "pick heap" let ?it = "heap ! pick heap"
    let ?c = "ls ! ki_list ?it ! ki_idx ?it" let ?h2 = "kway_push ls ?it (pop_at ?i heap)"
    have i: "?i < length heap" using "1.prems"(1) False by (simp add: pick_ok_def)
    then have ok: "item_ok ls ?it" using "1.prems"(2) by (simp add: items_ok_def)
    note rem = remaining_pop [OF i ok]
    note ok2 = items_ok_push [OF "1.prems"(2) i]
    have best: "\<forall>x \<in># remaining ls ?h2. rank ?c \<le> rank x"
      using popped_is_best [OF "1.prems"(2,1) False "1.prems"(3)] rem by simp
    have cons: "best_first (?c # cs)" "mset (?c # cs) = remaining ls heap"
      if "mset cs = remaining ls ?h2" "best_first cs" for cs
      using that best rem by (auto simp flip: set_mset_mset)
    show ?thesis
    proof (cases "sp_offset ?c |\<in>| seen")
      case True
      then obtain cs where "mset cs = remaining ls ?h2" "best_first cs"
        "kway_loop pick ls k ?h2 seen out = Inr (dedup_loop k cs seen out)"
        using "1.IH"(1) [OF False _ refl refl refl refl True "1.prems"(1) ok2 "1.prems"(3)] i ok by blast
      then show ?thesis using cons False i ok True
        by (intro exI [of _ "?c # cs"]) (simp add: kway_loop.simps [of pick ls k heap] Let_def)
    next
      case unseen: False
      show ?thesis
      proof (cases "k \<le> length (out @ [?c])")
        case True
        obtain ds where ds: "mset ds = remaining ls ?h2" using ex_mset by blast
        then show ?thesis using cons [of "sort_key rank ds"] best_first_sort [of ds] False i ok unseen True
          by (intro exI [of _ "?c # sort_key rank ds"]) (simp add: kway_loop.simps [of pick ls k heap] Let_def)
      next
        case more: False
        then obtain cs where "mset cs = remaining ls ?h2" "best_first cs"
          "kway_loop pick ls k ?h2 (finsert (sp_offset ?c) seen) (out @ [?c]) =
           Inr (dedup_loop k cs (finsert (sp_offset ?c) seen) (out @ [?c]))"
          using "1.IH"(2) [OF False _ refl refl refl refl unseen more "1.prems"(1) ok2 "1.prems"(3)] i ok by blast
        then show ?thesis using cons False i ok unseen more
          by (intro exI [of _ "?c # cs"]) (simp add: kway_loop.simps [of pick ls k heap] Let_def)
      qed
    qed
  qed
qed

lemma kway_init_enum:
  "items_ok ls (map (\<lambda>(i, l). \<lparr>ki_score = sp_score (hd l), ki_list = i, ki_idx = 0\<rparr>)
      (List.filter (\<lambda>(i, l). l \<noteq> []) (enumerate 0 ls)))"
  by (auto simp: items_ok_def item_ok_def in_set_enumerate_eq hd_conv_nth)

lemma remaining_enum:
  assumes "\<And>i. i < length ms \<Longrightarrow> n + i < length ls \<and> ls ! (n + i) = ms ! i"
  shows "remaining ls (map (\<lambda>(i, l). \<lparr>ki_score = sp_score (hd l), ki_list = i, ki_idx = 0\<rparr>)
      (List.filter (\<lambda>(i, l). l \<noteq> []) (enumerate n ms))) = mset (concat ms)"
  using assms
proof (induction ms arbitrary: n)
  case (Cons m ms)
  have "remaining ls (map (\<lambda>(i, l). \<lparr>ki_score = sp_score (hd l), ki_list = i, ki_idx = 0\<rparr>)
      (List.filter (\<lambda>(i, l). l \<noteq> []) (enumerate (Suc n) ms))) = mset (concat ms)"
    using Cons.prems [of "Suc _"] by (intro Cons.IH) simp
  moreover have "ls ! n = m" using Cons.prems [of 0] by simp
  ultimately show ?case by (simp add: remaining_def)
qed (simp add: remaining_def)

lemma kway_top_k:
  assumes "pick_ok item_cmp pick" "list_all best_first ls" "0 < k" "length ls \<noteq> 1"
  shows "\<exists>ps. kway_merge_topk pick ls k = Inr ps \<and> is_top_k (concat ls) k ps"
proof (cases ls)
  case Nil
  then show ?thesis using assms(3) by (simp add: kway_merge_topk_def is_top_k_def)
next
  case (Cons a rest)
  then obtain b more where ls: "ls = a # b # more" using assms(4) by (cases rest) auto
  obtain cs where cs: "mset cs = remaining ls (kway_init ls)" "best_first cs"
    "kway_loop pick ls k (kway_init ls) {||} [] = Inr (dedup_loop k cs {||} [])"
    using kway_loop_dedup [OF assms(1) _ assms(2), of "kway_init ls" k "{||}" "[]"] kway_init_enum [of ls]
    by (auto simp: kway_init_def)
  have "mset cs = mset (concat ls)" using cs(1) remaining_enum [of ls 0 ls] by (simp add: kway_init_def)
  then have "set cs = set (concat ls)" by (metis set_mset_mset)
  then show ?thesis
    using dedup_top_k [OF cs(2) assms(3)] cs(3) assms(3) ls is_top_k_set [of cs "concat ls"]
    by (simp add: kway_merge_topk_def)
qed

lemma merge_top_k: "0 < k \<Longrightarrow> is_top_k (concat ls) k (merge_candidates ls k)"
  using dedup_top_k [OF best_first_sort [of "concat ls"], of k] is_top_k_set [of "sort_key rank (concat ls)" "concat ls"]
  by (simp add: merge_candidates_def sort_by_points)


section \<open>Selection with a bounded heap\<close>

abbreviation num :: "scored_point \<Rightarrow> int" where
  "num p \<equiv> num_key fmt32 (unat (sp_score p))"

definition no_nan :: "scored_point list \<Rightarrow> bool" where
  "no_nan ps \<longleftrightarrow> (\<forall>p \<in> set ps. \<not> f32_is_nan (sp_score p))"

lemma rank_num: "\<not> f32_is_nan (sp_score a) \<Longrightarrow> \<not> f32_is_nan (sp_score b) \<Longrightarrow> rank a \<le> rank b \<Longrightarrow> num b \<le> num a"
  by (auto simp: rank_def score_rank_def total_key_def num_key_def split: if_splits)

text \<open>What a heap of at most \<open>k\<close> points keeps, against what it dropped: nothing is dropped while
  there is room, and no dropped point beats a kept one.\<close>

definition keeps_best :: "nat \<Rightarrow> scored_point multiset \<Rightarrow> scored_point multiset \<Rightarrow> bool" where
  "keeps_best k kept dropped \<longleftrightarrow>
     size kept \<le> k \<and> (size kept < k \<longrightarrow> dropped = {#}) \<and> (\<forall>x \<in># kept. \<forall>y \<in># dropped. num y \<le> num x)"

lemma minheap_loop_best:
  assumes "pick_ok point_min pick" "0 < k"
  shows "keeps_best k (mset heap) dropped \<Longrightarrow> no_nan (heap @ ps) \<Longrightarrow>
    \<exists>dropped'. mset (minheap_loop pick k ps heap) + dropped' = mset heap + dropped + mset ps \<and>
      keeps_best k (mset (minheap_loop pick k ps heap)) dropped'"
proof (induction ps arbitrary: heap dropped)
  case Nil
  then show ?case by auto
next
  case (Cons p ps)
  show ?case
  proof (cases "length heap < k")
    case True
    then have "keeps_best k (mset (p # heap)) dropped" using Cons.prems(1) by (simp add: keeps_best_def)
    moreover have "no_nan ((p # heap) @ ps)" using Cons.prems(2) by (auto simp: no_nan_def)
    ultimately show ?thesis using Cons.IH [of "p # heap" dropped] True by (simp add: ac_simps)
  next
    case full: False
    then have ne: "heap \<noteq> []" using assms(2) by auto
    let ?m = "heap ! pick heap"
    have i: "pick heap < length heap" and least: "\<And>x. x \<in> set heap \<Longrightarrow> rank x \<le> rank ?m"
      using assms(1) ne by (auto simp: pick_ok_def point_min_def heap_cmp_def cmp_score_desc_rank rank_def not_less)
    have nn: "\<And>x. x \<in> set heap \<Longrightarrow> \<not> f32_is_nan (sp_score x)" "\<not> f32_is_nan (sp_score p)"
      using Cons.prems(2) by (auto simp: no_nan_def)
    have low: "num ?m \<le> num x" if "x \<in> set heap" for x
      using rank_num [OF nn(1) nn(1) least, OF that _ that] i by simp
    have lt: "f32_lt (sp_score ?m) (sp_score p) \<longleftrightarrow> num ?m < num p" using nn i by (simp add: f32_lt_def)
    note split = pop_at_split [OF i]
    show ?thesis
    proof (cases "num ?m < num p")
      case True
      let ?h = "p # pop_at (pick heap) heap"
      have sub: "set (pop_at (pick heap) heap) \<subseteq> set heap"
        using split by (metis set_mset_mset subset_insertI set_mset_add_mset_insert)
      have "keeps_best k (mset ?h) (add_mset ?m dropped)"
        using Cons.prems(1) full split True low i sub unfolding keeps_best_def
        by (auto simp: size_mset [symmetric] simp del: size_mset)
      moreover have "no_nan (?h @ ps)" using Cons.prems(2) sub by (auto simp: no_nan_def)
      ultimately show ?thesis using Cons.IH [of ?h "add_mset ?m dropped"] full ne True lt split
        by (simp add: ac_simps add_mset_commute)
    next
      case False
      have "keeps_best k (mset heap) (add_mset p dropped)"
        using Cons.prems(1) full False low unfolding keeps_best_def by (fastforce dest: low)
      moreover have "no_nan (heap @ ps)" using Cons.prems(2) by (auto simp: no_nan_def)
      ultimately show ?thesis using Cons.IH [of heap "add_mset p dropped"] full ne False lt by (simp add: ac_simps)
    qed
  qed
qed

lemma pops_sorted:
  assumes "pick_ok c pick" "\<And>x y. c x y \<noteq> Greater \<longleftrightarrow> key x \<le> (key y :: int)"
  shows "n = length heap \<Longrightarrow>
    mset (pops pick n heap) = mset heap \<and> sorted_wrt (\<lambda>a b. key b \<le> key a) (pops pick n heap)"
proof (induction n arbitrary: heap)
  case (Suc n)
  then have ne: "heap \<noteq> []" by auto
  let ?i = "pick heap" let ?h = "pop_at (pick heap) heap"
  have i: "?i < length heap" and best: "\<And>x. x \<in> set heap \<Longrightarrow> key x \<le> key (heap ! ?i)"
    using assms ne by (auto simp: pick_ok_def)
  note split = pop_at_split [OF i]
  have "n = length ?h" using Suc.prems i by (simp add: pop_at_def)
  from Suc.IH [OF this] have ih: "mset (pops pick n ?h) = mset ?h" "sorted_wrt (\<lambda>a b. key b \<le> key a) (pops pick n ?h)"
    by simp_all
  have "set (pops pick n ?h) = set ?h" using ih(1) by (metis set_mset_mset)
  moreover have "set ?h \<subseteq> set heap" using split by (metis set_mset_mset subset_insertI set_mset_add_mset_insert)
  ultimately show ?case using ih best split by auto
qed simp

lemma top_k_minheap_best:
  assumes "pick_ok point_min pick" "0 < k" "no_nan ps"
  shows "\<exists>dropped. mset (top_k_minheap pick ps k) + dropped = mset ps \<and>
    length (top_k_minheap pick ps k) = min k (length ps) \<and>
    (\<forall>x \<in> set (top_k_minheap pick ps k). \<forall>y \<in># dropped. num y \<le> num x) \<and>
    sorted_wrt (\<lambda>a b. rank b \<le> rank a) (top_k_minheap pick ps k)"
proof -
  let ?h = "minheap_loop pick k ps []"
  obtain dropped where d: "mset ?h + dropped = mset ps" "keeps_best k (mset ?h) dropped"
    using minheap_loop_best [OF assms(1,2), of "[]" "{#}" ps] assms(3) by (auto simp: keeps_best_def)
  have c: "point_min x y \<noteq> Greater \<longleftrightarrow> rank x \<le> rank y" for x y
    by (simp add: point_min_def heap_cmp_def cmp_score_desc_rank rank_def not_less)
  have p: "mset (pops pick (length ?h) ?h) = mset ?h" "sorted_wrt (\<lambda>a b. rank b \<le> rank a) (pops pick (length ?h) ?h)"
    using pops_sorted [OF assms(1) c refl, of ?h] by simp_all
  have out: "top_k_minheap pick ps k = pops pick (length ?h) ?h"
    using assms(2) by (simp add: top_k_minheap_def into_sorted_vec_def)
  have "size (mset ?h) + size dropped = length ps" using d(1) by (metis size_mset size_union)
  then have "length ?h = min k (length ps)" using d(2) by (auto simp: keeps_best_def min_def)
  then have "length (pops pick (length ?h) ?h) = min k (length ps)" using p(1) by (metis size_mset)
  moreover have "set (pops pick (length ?h) ?h) = set ?h" using p(1) by (metis set_mset_mset)
  ultimately show ?thesis using d p unfolding out keeps_best_def
    by (intro exI [of _ dropped]) simp
qed


section \<open>Scoring\<close>

definition kernel_ok :: "(f32 list \<Rightarrow> f32 list list \<Rightarrow> f32 list) \<Rightarrow> bool" where
  "kernel_ok kern \<longleftrightarrow> (\<forall>q vs. length (kern q vs) = length vs)"

lemma concat_chunks: "0 < n \<Longrightarrow> concat (chunks n xs) = xs"
proof (induction n xs rule: chunks.induct)
  case (1 n xs)
  then show ?case by (simp add: chunks.simps [of n xs])
qed

definition present :: "vstore \<Rightarrow> point_offset \<times> tier \<Rightarrow> bool" where
  "present vs c \<longleftrightarrow> vs_get vs (fst c) \<noteq> None"

lemma score_chunk_points:
  assumes "kernel_ok kern"
  shows "map (\<lambda>p. (sp_offset p, sp_tier p)) (score_chunk kern vs q chunk) = List.filter (present vs) chunk"
proof -
  let ?pairs = "List.map_filter (\<lambda>(off, t). map_option (\<lambda>v. ((off, t), v)) (vs_get vs off)) chunk"
  have "map (\<lambda>p. (sp_offset p, sp_tier p)) (score_chunk kern vs q chunk) = map fst (map fst (zip ?pairs (kern q (map snd ?pairs))))"
    by (auto simp: score_chunk_def Let_def)
  also have "\<dots> = map fst ?pairs" using assms by (simp add: kernel_ok_def map_fst_zip)
  also have "\<dots> = List.filter (present vs) chunk"
    by (induction chunk) (auto simp: map_filter_simps present_def split: option.splits)
  finally show ?thesis .
qed

lemma score_all_points:
  assumes "kernel_ok kern"
  shows "map (\<lambda>p. (sp_offset p, sp_tier p)) (score_all kern vs q cs) = List.filter (present vs) cs"
proof -
  have "map (\<lambda>p. (sp_offset p, sp_tier p)) (score_all kern vs q cs) = concat (map (List.filter (present vs)) (chunks 64 cs))"
    by (simp add: score_all_def map_concat comp_def score_chunk_points [OF assms])
  also have "\<dots> = List.filter (present vs) (concat (chunks 64 cs))" by (simp add: filter_concat)
  finally show ?thesis by (simp add: concat_chunks)
qed

lemma score_all_offsets:
  assumes "kernel_ok kern"
  shows "map sp_offset (score_all kern vs q cs) = map fst (List.filter (present vs) cs)"
  using arg_cong [OF score_all_points [OF assms, of vs q cs], of "map fst"] by (simp add: comp_def)

text \<open>With a kernel that scores each vector by itself, scoring in chunks gives every candidate that has
  a vector the similarity of its own vector.\<close>

lemma score_chunk_pointwise:
  assumes "\<forall>q vecs. kern q vecs = map (sim q) vecs"
  shows "score_chunk kern vs q chunk =
    map (\<lambda>(off, t). \<lparr>sp_offset = off, sp_score = sim q (the (vs_get vs off)), sp_tier = t\<rparr>) (List.filter (present vs) chunk)"
proof -
  have z: "zip pairs (map (sim q) (map snd pairs)) = map (\<lambda>p. (p, sim q (snd p))) pairs" for pairs :: "((point_offset \<times> tier) \<times> f32 list) list"
    by (induction pairs) simp_all
  show ?thesis unfolding score_chunk_def Let_def assms [rule_format] z
    by (induction chunk) (auto simp: map_filter_simps present_def split: option.splits)
qed

lemma score_all_pointwise:
  assumes "\<forall>q vecs. kern q vecs = map (sim q) vecs"
  shows "score_all kern vs q cs =
    map (\<lambda>(off, t). \<lparr>sp_offset = off, sp_score = sim q (the (vs_get vs off)), sp_tier = t\<rparr>) (List.filter (present vs) cs)"
proof -
  have "score_all kern vs q cs =
    map (\<lambda>(off, t). \<lparr>sp_offset = off, sp_score = sim q (the (vs_get vs off)), sp_tier = t\<rparr>) (List.filter (present vs) (concat (chunks 64 cs)))"
    by (simp add: score_all_def ext [OF score_chunk_pointwise [OF assms]] map_concat filter_concat comp_def)
  then show ?thesis by (simp add: concat_chunks)
qed

text \<open>Sorting best first and keeping \<open>k\<close> is the top-k of a list without repeated offsets.\<close>

lemma take_sorted_top_k:
  assumes "distinct (map sp_offset cs)"
  shows "is_top_k cs k (take k (sort_by cmp_points cs))"
proof -
  let ?s = "sort_key rank cs"
  have d: "distinct (map sp_offset ?s)"
    using assms by (metis distinct_map distinct_sort set_sort)
  have "\<And>seen. fset seen \<inter> sp_offset ` set ps = {} \<Longrightarrow> distinct (map sp_offset ps) \<Longrightarrow> firsts seen ps = ps" for ps
    by (induction ps) auto
  from this [of "{||}" ?s] have "firsts {||} ?s = ?s" using d by simp
  then show ?thesis
    using take_firsts_top_k [OF best_first_sort [of cs], of k] is_top_k_set [of ?s cs] by (simp add: sort_by_points)
qed

section \<open>The contract of a segment\<close>

text \<open>
  What \<open>SegmentSnapshot\<close> relies on in every \<open>VectorSegment\<close>: a successful search returns at most
  the requested number of points, best first, without repetition, each of them owned by the
  segment and let through by the filter.
\<close>

locale vector_segment =
  fixes inv :: "'s \<Rightarrow> bool" and search :: "'s \<Rightarrow> seg_search" and owned :: "'s \<Rightarrow> point_offset list"
  assumes search_sound: "inv s \<Longrightarrow> search s q k vs allowed = Inr ps \<Longrightarrow>
      best_first ps \<and> length ps \<le> k \<and> distinct (map sp_offset ps) \<and>
      (\<forall>p \<in> set ps. sp_offset p \<in> set (owned s) \<and> allowed_by allowed (sp_offset p))"
begin

lemma search_count: "inv s \<Longrightarrow> search s q k vs allowed = Inr ps \<Longrightarrow> length ps \<le> min k (card (set (owned s)))"
proof -
  assume a: "inv s" "search s q k vs allowed = Inr ps"
  note t = search_sound [OF a]
  have "length ps = card (sp_offset ` set ps)" using t distinct_card [of "map sp_offset ps"] by simp
  also have "\<dots> \<le> card (set (owned s))" using t by (intro card_mono) auto
  finally show ?thesis using t by simp
qed

lemma search_filtered:
  "inv s \<Longrightarrow> search s q k vs (Some bm) = Inr ps \<Longrightarrow> p \<in> set ps \<Longrightarrow> ucast (sp_offset p) |\<in>| bm"
  using search_sound [of s q k vs "Some bm" ps] by (auto simp: allowed_by_def)

end

definition hot_inv :: "(f32 list \<Rightarrow> f32 list list \<Rightarrow> f32 list) \<Rightarrow> hot_segment \<Rightarrow> bool" where
  "hot_inv kern h \<longleftrightarrow> kernel_ok kern \<and> distinct (hs_offsets h) \<and> fset (hs_seen h) = set (hs_offsets h)"

lemma hot_insert_inv:
  assumes "hot_inv kern h" "hot_insert off r h = (res, h')"
  shows "hot_inv kern h'"
proof -
  have "h' = h \<or> off |\<notin>| hs_seen h \<and> h' = h\<lparr>hs_seen := finsert off (hs_seen h), hs_offsets := hs_offsets h @ [off]\<rparr>"
    using assms(2) by (cases "validate_dimension (r_embedding r) (hs_dim h)") (auto simp: hot_insert_def split: if_splits)
  then show ?thesis using assms(1) by (elim disjE) (simp_all add: hot_inv_def)
qed

lemma hot_search_top_k:
  assumes "hot_inv kern h" "hot_search kern h q k vs allowed = Inr ps"
  shows "is_top_k (score_all kern vs q (map (\<lambda>off. (off, Hot)) (List.filter (allowed_by allowed) (hs_offsets h)))) k ps"
proof -
  let ?cs = "score_all kern vs q (map (\<lambda>off. (off, Hot)) (List.filter (allowed_by allowed) (hs_offsets h)))"
  have "map sp_offset ?cs = List.filter (\<lambda>off. vs_get vs off \<noteq> None) (List.filter (allowed_by allowed) (hs_offsets h))"
    using assms(1) by (simp add: score_all_offsets hot_inv_def filter_map present_def comp_def)
  then have "distinct (map sp_offset ?cs)" using assms(1) by (simp add: hot_inv_def)
  moreover have "ps = take k (sort_by cmp_points ?cs)" using assms(2) by (auto simp: hot_search_def result_iff Let_def)
  ultimately show ?thesis using take_sorted_top_k by simp
qed

interpretation hot_seg: vector_segment "hot_inv kern" "hot_search kern" hs_offsets
  for kern :: "f32 list \<Rightarrow> f32 list list \<Rightarrow> f32 list"
proof unfold_locales
  fix h q k vs allowed ps
  assume a: "hot_inv kern h" "hot_search kern h q k vs allowed = Inr ps"
  let ?cs = "score_all kern vs q (map (\<lambda>off. (off, Hot)) (List.filter (allowed_by allowed) (hs_offsets h)))"
  have t: "is_top_k ?cs k ps" using hot_search_top_k [OF a] .
  have "map sp_offset ?cs = List.filter (\<lambda>off. vs_get vs off \<noteq> None) (List.filter (allowed_by allowed) (hs_offsets h))"
    using a(1) by (simp add: score_all_offsets hot_inv_def filter_map present_def comp_def)
  then have "sp_offset ` set ?cs = set (List.filter (\<lambda>off. vs_get vs off \<noteq> None) (List.filter (allowed_by allowed) (hs_offsets h)))"
    by (metis list.set_map)
  then have "sp_offset ` set ?cs \<subseteq> {off \<in> set (hs_offsets h). allowed_by allowed off}" by auto
  then show "best_first ps \<and> length ps \<le> k \<and> distinct (map sp_offset ps) \<and>
      (\<forall>p \<in> set ps. sp_offset p \<in> set (hs_offsets h) \<and> allowed_by allowed (sp_offset p))"
    using t by (auto simp: is_top_k_def)
qed


section \<open>Claims\<close>

text \<open>A concrete way to pick a greatest element, for the witnesses: the first one.\<close>

fun first_max :: "('a \<Rightarrow> int) \<Rightarrow> 'a list \<Rightarrow> nat" where
  "first_max key [] = 0"
| "first_max key [x] = 0"
| "first_max key (x # y # ys) =
     (let i = first_max key (y # ys) in if key ((y # ys) ! i) \<le> key x then 0 else Suc i)"

lemma first_max_best: "xs \<noteq> [] \<Longrightarrow> first_max key xs < length xs \<and> (\<forall>y \<in> set xs. key y \<le> key (xs ! first_max key xs))"
  by (induction key xs rule: first_max.induct) (auto simp: Let_def)

lemma first_max_pick_ok: "(\<And>x y. c x y = Greater \<longleftrightarrow> key y < key x) \<Longrightarrow> pick_ok c (first_max key)"
  using first_max_best [of _ key] by (force simp: pick_ok_def not_less)

definition item_key :: "kway_item \<Rightarrow> int" where
  "item_key it = - score_rank (ki_score it)"

lemma demo_picks: "pick_ok item_cmp (first_max item_key)" "pick_ok point_min (first_max rank)"
  by (rule first_max_pick_ok; simp add: item_cmp_def point_min_def heap_cmp_def cmp_score_desc_rank item_key_def rank_def)+

definition demo_point :: "point_offset \<Rightarrow> f32 \<Rightarrow> scored_point" where
  "demo_point off sc = \<lparr>sp_offset = off, sp_score = sc, sp_tier = Hot\<rparr>"

lemma demo_ranks: "rank (demo_point off f32_one) = - 1065353216" "rank (demo_point off f32_zero) = 0"
  by (simp_all add: rank_def demo_point_def score_rank_def f32_is_nan_def nan_pat_def total_key_def mag_of_def neg_of_def
      f32_one_def f32_zero_def)

text \<open>C25. The two merge routines agree: for candidate lists sorted best first and without repeated
  offsets inside a list, whatever way the heap breaks ties, the k-way heap merge does not panic,
  and it and the sort-based merge both return the k best distinct offsets (each with its best
  score, best first, nothing left out that beats a result), hence with the same scores in the
  same order.\<close>

theorem kway_equals_sort_merge:
  assumes "pick_ok item_cmp pick" "list_all best_first ls" "list_all (\<lambda>l. distinct (map sp_offset l)) ls" "0 < k"
  shows "\<exists>ps. kway_merge_topk pick ls k = Inr ps \<and> is_top_k (concat ls) k ps \<and>
    is_top_k (concat ls) k (merge_candidates ls k) \<and> map rank ps = map rank (merge_candidates ls k)"
proof -
  have m: "is_top_k (concat ls) k (merge_candidates ls k)" using merge_top_k [OF assms(4)] .
  have "\<exists>ps. kway_merge_topk pick ls k = Inr ps \<and> is_top_k (concat ls) k ps"
  proof (cases "length ls = 1")
    case True
    then obtain l where l: "ls = [l]" by (auto simp: length_Suc_conv)
    then have "is_top_k l k (take k l)"
      using take_sorted_top_k [of l k] assms(2,3) by (simp add: sort_by_points sort_key_id_if_sorted sorted_map)
    then show ?thesis using l assms(4) by (simp add: kway_merge_topk_def)
  qed (rule kway_top_k [OF assms(1,2,4)])
  then show ?thesis using m is_top_k_ranks by blast
qed

theorem kway_equals_sort_merge_witness:
  "\<exists>ps. kway_merge_topk (first_max item_key)
       [[demo_point 1 f32_one, demo_point 2 f32_zero], [demo_point 3 f32_one]] 2 = Inr ps \<and>
     map rank ps = map rank (merge_candidates [[demo_point 1 f32_one, demo_point 2 f32_zero], [demo_point 3 f32_one]] 2) \<and>
     length ps = 2"
proof -
  let ?ls = "[[demo_point 1 f32_one, demo_point 2 f32_zero], [demo_point 3 f32_one]]"
  have "\<exists>ps. kway_merge_topk (first_max item_key) ?ls 2 = Inr ps \<and> is_top_k (concat ?ls) 2 ps \<and>
    is_top_k (concat ?ls) 2 (merge_candidates ?ls 2) \<and> map rank ps = map rank (merge_candidates ?ls 2)"
    by (rule kway_equals_sort_merge [OF demo_picks(1)]) (simp_all add: demo_ranks, simp add: demo_point_def)
  then obtain ps where ps: "kway_merge_topk (first_max item_key) ?ls 2 = Inr ps" "is_top_k (concat ?ls) 2 ps"
    "map rank ps = map rank (merge_candidates ?ls 2)" by blast
  have "length ps = 2" using ps(2) by (simp add: is_top_k_def demo_point_def)
  then show ?thesis using ps by blast
qed

text \<open>The bounded heap keeps the right points: on scores without NaN it returns \<open>min k n\<close> of
  them, none of the dropped scores is numerically greater than a returned one, and the result
  is ordered from the lowest score to the highest.\<close>

theorem top_k_minheap_selects:
  assumes "pick_ok point_min pick" "0 < k" "no_nan ps"
  shows "\<exists>dropped. mset (top_k_minheap pick ps k) + dropped = mset ps \<and>
    length (top_k_minheap pick ps k) = min k (length ps) \<and>
    (\<forall>x \<in> set (top_k_minheap pick ps k). \<forall>y \<in># dropped. \<not> f32_lt (sp_score x) (sp_score y)) \<and>
    sorted_wrt (\<lambda>a b. rank b \<le> rank a) (top_k_minheap pick ps k)"
proof -
  obtain dropped where d: "mset (top_k_minheap pick ps k) + dropped = mset ps"
    "length (top_k_minheap pick ps k) = min k (length ps)"
    "\<And>x y. x \<in> set (top_k_minheap pick ps k) \<Longrightarrow> y \<in># dropped \<Longrightarrow> num y \<le> num x"
    "sorted_wrt (\<lambda>a b. rank b \<le> rank a) (top_k_minheap pick ps k)"
    using top_k_minheap_best [OF assms] by blast
  then show ?thesis by (intro exI [of _ dropped]) (force simp: f32_lt_def)
qed

theorem top_k_minheap_selects_witness:
  "\<exists>a b. top_k_minheap (first_max rank) [demo_point 1 f32_one, demo_point 2 f32_zero] 5 = [a, b] \<and> rank b \<le> rank a"
proof -
  let ?ps = "[demo_point 1 f32_one, demo_point 2 f32_zero]"
  let ?r = "top_k_minheap (first_max rank) ?ps 5"
  have nn: "no_nan ?ps"
    by (simp add: no_nan_def demo_point_def f32_is_nan_def nan_pat_def mag_of_def f32_one_def f32_zero_def)
  have five: "0 < (5 :: nat)" by simp
  have "length ?r = 2" "sorted_wrt (\<lambda>a b. rank b \<le> rank a) ?r"
    using top_k_minheap_selects [OF demo_picks(2) five nn] by auto
  moreover obtain a b where "?r = [a, b]" using \<open>length ?r = 2\<close> by (auto simp: numeral_2_eq_2 length_Suc_conv)
  ultimately show ?thesis by auto
qed

text \<open>C26. The Hot segment is exact, with a kernel that scores each vector by itself: a search with a
  query of the right dimension succeeds and returns the top k of its offsets that pass the filter
  and have a vector, each with the similarity of its own vector to the query, and a search with
  any other query fails with the dimension error.\<close>

theorem hot_search_exact:
  assumes "hot_inv kern h" "\<forall>q vecs. kern q vecs = map (sim q) vecs"
  shows "(length q \<noteq> hs_dim h \<longrightarrow>
      hot_search kern h q k vs allowed = Inl (Core (CoreDimensionMismatch (hs_dim h) (length q)))) \<and>
    (length q = hs_dim h \<longrightarrow> (\<exists>ps. hot_search kern h q k vs allowed = Inr ps \<and>
      is_top_k (map (\<lambda>off. \<lparr>sp_offset = off, sp_score = sim q (the (vs_get vs off)), sp_tier = Hot\<rparr>)
        (List.filter (\<lambda>off. allowed_by allowed off \<and> vs_get vs off \<noteq> None) (hs_offsets h))) k ps \<and>
      length ps = min k (card {off \<in> set (hs_offsets h). allowed_by allowed off \<and> vs_get vs off \<noteq> None})))"
proof (cases "length q = hs_dim h")
  case True
  let ?cs = "map (\<lambda>off. \<lparr>sp_offset = off, sp_score = sim q (the (vs_get vs off)), sp_tier = Hot\<rparr>)
    (List.filter (\<lambda>off. allowed_by allowed off \<and> vs_get vs off \<noteq> None) (hs_offsets h))"
  obtain ps where ps: "hot_search kern h q k vs allowed = Inr ps"
    using True by (simp add: hot_search_def validate_dimension_def core_result_def Let_def)
  have "score_all kern vs q (map (\<lambda>off. (off, Hot)) (List.filter (allowed_by allowed) (hs_offsets h))) = ?cs"
    by (simp add: score_all_pointwise [OF assms(2)] filter_map present_def comp_def conj_commute)
  then have "is_top_k ?cs k ps" using hot_search_top_k [OF assms(1) ps] by simp
  moreover have "sp_offset ` set ?cs = {off \<in> set (hs_offsets h). allowed_by allowed off \<and> vs_get vs off \<noteq> None}" by force
  ultimately show ?thesis using True ps by (simp add: is_top_k_def)
next
  case False
  then show ?thesis by (simp add: hot_search_def validate_dimension_def core_result_def)
qed

definition demo_kernel :: "f32 list \<Rightarrow> f32 list list \<Rightarrow> f32 list" where
  "demo_kernel q vs = map (\<lambda>v. f32_one) vs"

theorem hot_search_exact_witness:
  "\<exists>vs ps. vs_put demo_crc GrowOk demo_vs 7 [f32_one] = (Inr (), vs) \<and>
     hot_search demo_kernel \<lparr>hs_dim = 1, hs_offsets = [7, 9], hs_seen = {|7, 9|}\<rparr> [f32_one] 3 vs None = Inr ps \<and>
     ps = [\<lparr>sp_offset = 7, sp_score = f32_one, sp_tier = Hot\<rparr>]"
proof -
  obtain vs where p: "vs_put demo_crc GrowOk demo_vs 7 [f32_one] = (Inr (), vs)"
    and g: "vs_get vs 7 = Some [f32_one]" and c: "vs_count vs = 8" using demo_put_get by blast
  let ?h = "\<lparr>hs_dim = 1, hs_offsets = [7, 9], hs_seen = {|7, 9|}\<rparr>"
  have inv: "hot_inv demo_kernel ?h" by (simp add: hot_inv_def kernel_ok_def demo_kernel_def)
  have get: "vs_get vs 7 = Some [f32_one]" "vs_get vs 9 = None" using g c by (simp_all add: vs_get_def)
  have point: "\<forall>q vecs. demo_kernel q vecs = map ((\<lambda>q v. f32_one) q) vecs" by (simp add: demo_kernel_def)
  have only: "List.filter (\<lambda>off. allowed_by None off \<and> vs_get vs off \<noteq> None) (hs_offsets ?h) = [7]" using get by (simp add: allowed_by_def)
  obtain ps where ps: "hot_search demo_kernel ?h [f32_one] 3 vs None = Inr ps"
      "is_top_k [\<lparr>sp_offset = 7, sp_score = f32_one, sp_tier = Hot\<rparr>] 3 ps"
    using hot_search_exact [OF inv point, of "[f32_one]" 3 vs None] unfolding only by auto
  then have "length ps = 1" "set ps \<subseteq> {\<lparr>sp_offset = 7, sp_score = f32_one, sp_tier = Hot\<rparr>}" by (simp_all add: is_top_k_def)
  then have "ps = [\<lparr>sp_offset = 7, sp_score = f32_one, sp_tier = Hot\<rparr>]" by (cases ps) auto
  then show ?thesis using p ps(1) by auto
qed


text \<open>The contract of a segment as a predicate on one search function and the offsets it owns.\<close>

definition segment_ok :: "seg_search \<Rightarrow> point_offset set \<Rightarrow> bool" where
  "segment_ok search owned \<longleftrightarrow> (\<forall>q k vs allowed ps. search q k vs allowed = Inr ps \<longrightarrow>
     best_first ps \<and> length ps \<le> k \<and> distinct (map sp_offset ps) \<and>
     (\<forall>p \<in> set ps. sp_offset p \<in> owned \<and> allowed_by allowed (sp_offset p)))"

text \<open>The part of the contract that keeps a search over several segments sound.\<close>

definition segment_safe :: "seg_search \<Rightarrow> point_offset set \<Rightarrow> bool" where
  "segment_safe search owned \<longleftrightarrow> (\<forall>q k vs allowed ps. search q k vs allowed = Inr ps \<longrightarrow>
     best_first ps \<and> (\<forall>p \<in> set ps. sp_offset p \<in> owned \<and> allowed_by allowed (sp_offset p)))"

lemma segment_ok_safe: "segment_ok search owned \<Longrightarrow> segment_safe search owned"
  unfolding segment_ok_def segment_safe_def by blast

lemma hot_segment_safe:
  assumes "kernel_ok kern"
  shows "segment_safe (hot_search kern h) (set (hs_offsets h))"
  unfolding segment_safe_def
proof (intro allI impI)
  fix q k vs allowed ps assume "hot_search kern h q k vs allowed = Inr ps"
  let ?cs = "score_all kern vs q (map (\<lambda>off. (off, Hot)) (List.filter (allowed_by allowed) (hs_offsets h)))"
  have ps: "ps = take k (sort_by cmp_points ?cs)" using \<open>hot_search kern h q k vs allowed = Inr ps\<close> by (auto simp: hot_search_def result_iff Let_def)
  have "set (map sp_offset ?cs) \<subseteq> {off \<in> set (hs_offsets h). allowed_by allowed off}"
    unfolding score_all_offsets [OF assms] by auto
  moreover have "set ps \<subseteq> set ?cs" unfolding ps sort_by_points using set_take_subset [of k "sort_key rank ?cs"] by simp
  moreover have "best_first ps" unfolding ps sort_by_points by (rule sorted_wrt_take [OF best_first_sort])
  ultimately show "best_first ps \<and> (\<forall>p \<in> set ps. sp_offset p \<in> set (hs_offsets h) \<and> allowed_by allowed (sp_offset p))" by auto
qed

lemma hot_segment_ok: "hot_inv kern h \<Longrightarrow> segment_ok (hot_search kern h) (set (hs_offsets h))"
  unfolding segment_ok_def using hot_seg.search_sound by blast

lemma collect_Inr [result_iff]: "collect rs = Inr xs \<longleftrightarrow> list_all2 (\<lambda>r x. r = Inr x) rs xs"
  by (induction rs arbitrary: xs) (auto simp: result_iff list_all2_Cons1)

lemma dedup_loop_zero: "dedup_loop 0 cs seen [] = take 1 (firsts seen cs)"
  by (induction cs) auto

lemma merge_candidates_sound:
  "set (merge_candidates ls k) \<subseteq> set (concat ls)" "distinct (map sp_offset (merge_candidates ls k))"
proof -
  have "merge_candidates ls k = take (max k 1) (firsts {||} (sort_key rank (concat ls)))"
    by (cases k) (simp_all add: merge_candidates_def sort_by_points dedup_loop_zero dedup_loop_firsts)
  then show "set (merge_candidates ls k) \<subseteq> set (concat ls)" "distinct (map sp_offset (merge_candidates ls k))"
    using firsts_subset [of "{||}" "sort_key rank (concat ls)"] firsts_distinct [of "{||}" "sort_key rank (concat ls)"]
      set_take_subset [of "max k 1" "firsts {||} (sort_key rank (concat ls))"]
    by (auto simp: distinct_take simp flip: take_map)
qed

lemma ss_candidates_sound:
  assumes "pick_ok item_cmp pick" "list_all2 (\<lambda>(search, n) owned. segment_safe search owned) (ss_segments s) owns"
    and "ss_candidates pick s q k vs allowed = Inr cs"
  shows "distinct (map sp_offset cs) \<and> (\<forall>c \<in> set cs. sp_offset c \<in> \<Union> (set owns) \<and> allowed_by allowed (sp_offset c))"
proof -
  obtain ls where ls: "list_all2 (\<lambda>r x. r = Inr x) (map (\<lambda>(search, n). search q k vs allowed) (ss_segments s)) ls"
    and cs: "(if 4 \<le> length ls \<and> 64 \<le> k then kway_merge_topk pick ls k else Inr (merge_candidates ls k)) = Inr cs"
    using assms(3) by (auto simp: ss_candidates_def result_iff)
  have pt: "best_first (ls ! i) \<and> (\<forall>p \<in> set (ls ! i). sp_offset p \<in> owns ! i \<and> allowed_by allowed (sp_offset p))"
    and len: "length owns = length ls" if "i < length ls" for i
  proof -
    show "length owns = length ls" using ls assms(2) by (simp add: list_all2_conv_all_nth)
    obtain f n where f: "ss_segments s ! i = (f, n)" by fastforce
    have "f q k vs allowed = Inr (ls ! i)" "segment_safe f (owns ! i)"
      using that ls assms(2) f by (auto simp: list_all2_conv_all_nth)
    then show "best_first (ls ! i) \<and> (\<forall>p \<in> set (ls ! i). sp_offset p \<in> owns ! i \<and> allowed_by allowed (sp_offset p))"
      unfolding segment_safe_def by blast
  qed
  have el: "sp_offset p \<in> \<Union> (set owns) \<and> allowed_by allowed (sp_offset p)" if p: "p \<in> set (concat ls)" for p
  proof -
    obtain l where "l \<in> set ls" "p \<in> set l" using p by auto
    then obtain i where i: "i < length ls" "p \<in> set (ls ! i)" by (metis in_set_conv_nth)
    then show ?thesis using pt [OF i(1)] len [OF i(1)] by (metis UnionI nth_mem)
  qed
  have "set cs \<subseteq> set (concat ls) \<and> distinct (map sp_offset cs)"
  proof (cases "4 \<le> length ls \<and> 64 \<le> k")
    case True
    have "list_all best_first ls" using pt by (simp add: list_all_length)
    then obtain ps where "kway_merge_topk pick ls k = Inr ps" "is_top_k (concat ls) k ps"
      using kway_top_k [OF assms(1), of ls k] True by auto
    then show ?thesis using cs True by (simp add: is_top_k_def)
  next
    case False
    then have "cs = merge_candidates ls k" using cs by (simp split: if_splits)
    then show ?thesis using merge_candidates_sound by blast
  qed
  then show ?thesis using el by blast
qed

lemma ss_search_safe:
  assumes "kernel_ok kern" "pick_ok item_cmp pick"
    and "list_all2 (\<lambda>(search, n) owned. segment_safe search owned) (ss_segments s) owns"
    and r: "ss_search kern pick s q top_k ef vs allowed = Inr ps"
  shows "best_first ps" "length ps \<le> top_k" "distinct (map sp_offset ps)"
    "\<forall>p \<in> set ps. sp_offset p \<in> \<Union> (set owns) \<and> allowed_by allowed (sp_offset p) \<and> vs_get vs (sp_offset p) \<noteq> None"
proof -
  let ?k = "pool_width s top_k ef allowed"
  obtain cs where cs: "ss_candidates pick s q ?k vs allowed = Inr cs"
    and ps: "ps = take top_k (sort_by cmp_points (cpu_rerank_candidates kern q cs vs))"
    using r by (auto simp: ss_search_def result_iff)
  let ?r = "cpu_rerank_candidates kern q cs vs"
  note c = ss_candidates_sound [OF assms(2,3) cs]
  have off: "map sp_offset ?r = List.filter (\<lambda>off. vs_get vs off \<noteq> None) (map sp_offset cs)"
    by (simp add: cpu_rerank_candidates_def score_all_offsets [OF assms(1)] filter_map comp_def present_def)
  then have "distinct (map sp_offset ?r)" using c by simp
  then have top: "is_top_k ?r top_k ps" using take_sorted_top_k ps by simp
  have "set (map sp_offset ?r) \<subseteq> {off \<in> sp_offset ` set cs. vs_get vs off \<noteq> None}"
    unfolding off by auto
  moreover have "sp_offset ` set cs \<subseteq> {off \<in> \<Union> (set owns). allowed_by allowed off}" using c by blast
  ultimately have "\<forall>p \<in> set ?r. sp_offset p \<in> \<Union> (set owns) \<and> allowed_by allowed (sp_offset p) \<and> vs_get vs (sp_offset p) \<noteq> None"
    by fastforce
  then show "best_first ps" "length ps \<le> top_k" "distinct (map sp_offset ps)"
    "\<forall>p \<in> set ps. sp_offset p \<in> \<Union> (set owns) \<and> allowed_by allowed (sp_offset p) \<and> vs_get vs (sp_offset p) \<noteq> None"
    using top by (auto simp: is_top_k_def)
qed

text \<open>C27. Search over a published snapshot: if every segment keeps its contract, a successful search
  returns at most \<open>top_k\<close> points, best first, no offset twice, each owned by some segment, let
  through by the filter and backed by a stored vector; and the search only fails when a segment
  search fails.\<close>

theorem snapshot_search_sound:
  assumes "kernel_ok kern" "pick_ok item_cmp pick"
    and "list_all2 (\<lambda>(search, n) owned. segment_ok search owned) (ss_segments s) owns"
  shows "(\<forall>ps. ss_search kern pick s q top_k ef vs allowed = Inr ps \<longrightarrow>
      best_first ps \<and> length ps \<le> top_k \<and> distinct (map sp_offset ps) \<and>
      (\<forall>p \<in> set ps. sp_offset p \<in> \<Union> (set owns) \<and> allowed_by allowed (sp_offset p) \<and> vs_get vs (sp_offset p) \<noteq> None)) \<and>
    ((\<forall>(search, n) \<in> set (ss_segments s). \<exists>ls. search q (pool_width s top_k ef allowed) vs allowed = Inr ls) \<longrightarrow>
      (\<exists>ps. ss_search kern pick s q top_k ef vs allowed = Inr ps))"
proof (intro conjI allI impI)
  have safe: "list_all2 (\<lambda>(search, n) owned. segment_safe search owned) (ss_segments s) owns"
    using assms(3) by (rule list_all2_mono) (auto intro: segment_ok_safe)
  fix ps assume r: "ss_search kern pick s q top_k ef vs allowed = Inr ps"
  show "best_first ps" "length ps \<le> top_k" "distinct (map sp_offset ps)"
    "\<forall>p \<in> set ps. sp_offset p \<in> \<Union> (set owns) \<and> allowed_by allowed (sp_offset p) \<and> vs_get vs (sp_offset p) \<noteq> None"
    by (fact ss_search_safe [OF assms(1,2) safe r])+
next
  let ?k = "pool_width s top_k ef allowed"
  assume a: "\<forall>(search, n) \<in> set (ss_segments s). \<exists>ls. search q ?k vs allowed = Inr ls"
  have "\<exists>ls. collect (map (\<lambda>(search, n). search q ?k vs allowed) segs) = Inr ls"
    if "set segs \<subseteq> set (ss_segments s)" for segs
    using that a by (induction segs) fastforce+
  then obtain ls where ls: "collect (map (\<lambda>(search, n). search q ?k vs allowed) (ss_segments s)) = Inr ls" by blast
  have "best_first (ls ! i)" if "i < length ls" for i
  proof -
    obtain f n where f: "ss_segments s ! i = (f, n)" by fastforce
    have "f q ?k vs allowed = Inr (ls ! i)" "segment_ok f (owns ! i)"
      using that ls assms(3) f by (auto simp: result_iff list_all2_conv_all_nth)
    then show ?thesis unfolding segment_ok_def by blast
  qed
  then have bf: "list_all best_first ls" by (simp add: list_all_length)
  have "\<exists>cs. ss_candidates pick s q ?k vs allowed = Inr cs"
    using kway_top_k [OF assms(2) bf, of ?k] ls by (auto simp: ss_candidates_def)
  then show "\<exists>ps. ss_search kern pick s q top_k ef vs allowed = Inr ps" by (auto simp: ss_search_def)
qed


theorem snapshot_search_sound_witness:
  "\<exists>ps. ss_search demo_kernel (first_max item_key)
       \<lparr>ss_search_list_size = 4,
        ss_segments = [(hot_search demo_kernel \<lparr>hs_dim = 1, hs_offsets = [7, 9], hs_seen = {|7, 9|}\<rparr>, 2)]\<rparr>
       [f32_one] 3 None demo_vs None = Inr ps \<and> length ps \<le> 3 \<and> set (map sp_offset ps) \<subseteq> {7, 9}"
proof -
  let ?h = "\<lparr>hs_dim = 1, hs_offsets = [7, 9], hs_seen = {|7, 9|}\<rparr>"
  let ?s = "\<lparr>ss_search_list_size = 4, ss_segments = [(hot_search demo_kernel ?h, 2)]\<rparr>"
  have k: "kernel_ok demo_kernel" by (simp add: kernel_ok_def demo_kernel_def)
  have "hot_inv demo_kernel ?h" using k by (simp add: hot_inv_def)
  then have seg: "list_all2 (\<lambda>(search, n) owned. segment_ok search owned) (ss_segments ?s) [{7, 9}]"
    using hot_segment_ok [of demo_kernel ?h] by simp
  note t = snapshot_search_sound [OF k demo_picks(1) seg, of "[f32_one]" 3 None demo_vs None]
  have "\<forall>(search, n) \<in> set (ss_segments ?s). \<exists>ls. search [f32_one] (pool_width ?s 3 None None) demo_vs None = Inr ls"
    by (simp add: hot_search_def validate_dimension_def core_result_def)
  then obtain ps where ps: "ss_search demo_kernel (first_max item_key) ?s [f32_one] 3 None demo_vs None = Inr ps"
    using t by blast
  then have "length ps \<le> 3" "\<forall>p \<in> set ps. sp_offset p \<in> \<Union> (set [{7, 9}])" using t by blast+
  then show ?thesis using ps by auto
qed

text \<open>The candidate pool is bounded: its width never exceeds the number of points (one for an
  empty snapshot) and never falls below the caller's or configured list size, unless there are
  fewer points than that.\<close>

theorem pool_width_bounds:
  "pool_width s top_k ef allowed \<le> max (ss_point_count s) 1 \<and>
   min (case ef of None \<Rightarrow> ss_search_list_size s | Some e \<Rightarrow> e) (max (ss_point_count s) 1) \<le> pool_width s top_k ef allowed"
  unfolding pool_width_def Let_def by (intro conjI min.cobounded2 min.mono max.cobounded2 order_refl)

end
