(* ===== verification/Query_Selection.thy ===== *)
theory Query_Selection
  imports Segment_Search "HOL-Library.Product_Lexorder"
begin

text \<open>
  Selecting results, from \<open>turbomemory_storage/src/engine/search.rs\<close>: \<open>top_of\<close> keeps the best
  candidates of an exact scan in a bounded buffer, and \<open>finish_exact\<close> turns the head of the ranking
  into results, widening the head while dropped records leave a shortfall. Both are shown equal to
  sorting all candidates.
\<close>

section \<open>The code\<close>

text \<open>\<open>best_first\<close>: the better score first, on a tie the older record.\<close>

definition best_first_cmp :: "point_offset \<times> f32 \<Rightarrow> point_offset \<times> f32 \<Rightarrow> ordering" where
  "best_first_cmp a b =
     (case cmp_score_desc (snd a) (snd b) of
        Equal \<Rightarrow> cmp_int (int (unat (fst a))) (int (unat (fst b)))
      | c \<Rightarrow> c)"

definition f32_neg_infinity :: f32 where
  "f32_neg_infinity = 0xFF800000"

definition sat_mul :: "nat \<Rightarrow> nat \<Rightarrow> nat" where
  "sat_mul a b = min (a * b) usize_max"

definition sat_add :: "nat \<Rightarrow> nat \<Rightarrow> nat" where
  "sat_add a b = min (a + b) usize_max"

text \<open>The loop of \<open>top_of\<close>. \<open>select_nth_unstable_by\<close> and \<open>truncate\<close> leave the \<open>want\<close> first elements of
  the sorted buffer in some order with the last of them in the last place; the final sort by a
  total order makes that order irrelevant, and here it is the sorted one.\<close>

fun top_of_loop :: "nat \<Rightarrow> nat \<Rightarrow> (point_offset \<Rightarrow> bool) \<Rightarrow> (point_offset \<times> f32) list \<Rightarrow> (point_offset \<times> f32) list \<Rightarrow> f32
    \<Rightarrow> (point_offset \<times> f32) list" where
  "top_of_loop want cap admit [] kept bar = kept"
| "top_of_loop want cap admit ((off, score) # cs) kept bar =
     (if \<not> f32_lt bar score \<or> \<not> admit off then top_of_loop want cap admit cs kept bar
      else let kept1 = kept @ [(off, score)] in
        if cap \<le> length kept1
        then let kept2 = take want (sort_by best_first_cmp kept1)
             in top_of_loop want cap admit cs kept2 (snd (kept2 ! (want - 1)))
        else top_of_loop want cap admit cs kept1 bar)"

definition top_of :: "(point_offset \<times> f32) list \<Rightarrow> nat \<Rightarrow> (point_offset \<Rightarrow> bool) \<Rightarrow> (point_offset \<times> f32) list" where
  "top_of cs want admit =
     (if want = 0 then []
      else take want (sort_by best_first_cmp (top_of_loop want (max (sat_mul want 2) 64) admit cs [] f32_neg_infinity)))"

definition excluded :: "string fset option \<Rightarrow> string \<Rightarrow> bool" where
  "excluded exclusion i = (case exclusion of None \<Rightarrow> False | Some s \<Rightarrow> i |\<in>| s)"

definition first_fetch :: "string fset option \<Rightarrow> nat \<Rightarrow> nat" where
  "first_fetch exclusion top_k = (if exclusion \<noteq> None then sat_add (sat_mul top_k 2) 5 else top_k)"

text \<open>The inner loop of \<open>finish_exact\<close>, which stops at \<open>top_k\<close> results.\<close>

fun collect_head :: "(point_offset \<Rightarrow> string option) \<Rightarrow> string fset option \<Rightarrow> nat \<Rightarrow> (point_offset \<times> f32) list
    \<Rightarrow> (point_offset \<times> string \<times> f32) list \<Rightarrow> (point_offset \<times> string \<times> f32) list" where
  "collect_head id_of exclusion top_k [] results = results"
| "collect_head id_of exclusion top_k ((off, score) # hs) results =
     (case id_of off of
        None \<Rightarrow> collect_head id_of exclusion top_k hs results
      | Some i \<Rightarrow>
          if excluded exclusion i then collect_head id_of exclusion top_k hs results
          else let results1 = results @ [(off, i, score)] in
            if length results1 = top_k then results1 else collect_head id_of exclusion top_k hs results1)"

text \<open>\<open>None\<close> would be a loop that does not end.\<close>

partial_function (option) finish_loop :: "(nat \<Rightarrow> (point_offset \<times> f32) list) \<Rightarrow> (point_offset \<Rightarrow> string option) \<Rightarrow> string fset option
    \<Rightarrow> nat \<Rightarrow> nat \<Rightarrow> (point_offset \<times> string \<times> f32) list option" where
  "finish_loop head_of id_of exclusion top_k want =
     (let head = head_of want; results = collect_head id_of exclusion top_k head [] in
      if length results = top_k \<or> length head < want then Some results
      else finish_loop head_of id_of exclusion top_k (sat_mul want 2))"

section \<open>Selection by a linear order\<close>

lemma take_insort: "take k (insort_key f x (take k s)) = take k (insort_key f x s)"
proof (induction s arbitrary: k)
  case (Cons y s)
  then show ?case by (cases k) (simp_all add: take_Cons' min_def)
qed simp

lemma take_foldr_insort: "take k (foldr (insort_key f) ys (take k s)) = take k (foldr (insort_key f) ys s)"
proof (induction ys)
  case (Cons y ys)
  then show ?case by (metis foldr_Cons comp_apply take_insort)
qed simp

lemma sort_append: "sort_key f (ys @ xs) = foldr (insort_key f) ys (sort_key f xs)"
  by (simp add: sort_key_def)

text \<open>Cutting a part of the input to its best \<open>k\<close> elements does not change the best \<open>k\<close>.\<close>

lemma take_sort_cut: "take k (sort_key f (ys @ take k (sort_key f xs))) = take k (sort_key f (ys @ xs))"
proof -
  have "sort_key f (take k (sort_key f xs)) = take k (sort_key f xs)"
    by (rule sort_key_id_if_sorted) (simp add: sorted_wrt_take take_map [symmetric])
  then show ?thesis by (simp add: sort_append take_foldr_insort)
qed

text \<open>Nor does an element that \<open>k\<close> others beat.\<close>

lemma take_insort_beaten:
  "sorted (map f s) \<Longrightarrow> k \<le> length (filter (\<lambda>y. f y < f x) s) \<Longrightarrow> take k (insort_key f x s) = take k s"
proof (induction s arbitrary: k)
  case (Cons y s)
  show ?case
  proof (cases "f x \<le> f y")
    case True
    then have "filter (\<lambda>z. f z < f x) (y # s) = []" using Cons.prems(1) by (fastforce simp: filter_empty_conv)
    then show ?thesis using Cons.prems(2) by (simp only: list.size(3) le_zero_eq take_0)
  next
    case False
    then have "f y < f x" by simp
    then show ?thesis using Cons by (cases k) auto
  qed
qed simp

lemma take_sort_beaten:
  assumes "k \<le> length (filter (\<lambda>y. f y < f x) xs)"
  shows "take k (sort_key f (x # xs)) = take k (sort_key f xs)"
proof -
  have "length (filter (\<lambda>y. f y < f x) (sort_key f xs)) = length (filter (\<lambda>y. f y < f x) xs)"
    by (metis mset_filter mset_sort size_mset)
  then show ?thesis using take_insort_beaten [of f "sort_key f xs" k x] assms by simp
qed

lemma sort_key_perm:
  assumes "mset xs = mset ys" "inj_on f (set xs)"
  shows "sort_key f xs = sort_key f ys"
proof (rule sort_key_inj_key_eq [OF _ assms(2)])
  show "mset xs = mset (sort_key f ys)" using assms(1) by simp
qed simp

section \<open>Selection is exact\<close>

abbreviation ckey :: "point_offset \<times> f32 \<Rightarrow> int \<times> point_offset" where
  "ckey \<equiv> \<lambda>(off, s). (score_rank s, off)"

lemma best_first_key: "sort_by best_first_cmp cs = sort_key ckey cs"
proof (rule sort_by_key)
  fix a b :: "point_offset \<times> f32"
  show "best_first_cmp a b = Greater \<longleftrightarrow> ckey b < ckey a"
    by (cases a; cases b)
      (auto simp: best_first_cmp_def cmp_score_desc_rank cmp_int_def word_less_def split: if_splits)
qed

lemma ckey_inj: "distinct (map fst cs) \<Longrightarrow> inj_on ckey (set cs)"
  by (fastforce simp: inj_on_def distinct_map)

definition neg_zero :: f32 where
  "neg_zero = 0x80000000"

lemma score_order:
  assumes "a \<noteq> neg_zero" "b \<noteq> neg_zero" "\<not> f32_is_nan a" "\<not> f32_is_nan b" "\<not> f32_lt b a"
  shows "score_rank b \<le> score_rank a"
proof -
  have z: "neg_of fmt32 (unat x) \<Longrightarrow> mag_of fmt32 (unat x) \<noteq> 0" if "x \<noteq> neg_zero" for x
  proof
    assume n: "neg_of fmt32 (unat x)" and m: "mag_of fmt32 (unat x) = 0"
    have u: "unat x < 2 ^ 32" by (rule unat_u32_bound)
    have a: "unat x mod 2 ^ 31 = 0" "2 ^ 31 \<le> unat x" using n m by (simp_all add: neg_of_def mag_of_def)
    have d: "unat x div 2 ^ 31 = 1" using u a(2) by auto
    have "unat x = unat x div 2 ^ 31 * 2 ^ 31 + unat x mod 2 ^ 31" by (rule div_mult_mod_eq [symmetric])
    then have "unat x = unat neg_zero" unfolding a d by (simp add: neg_zero_def)
    then show False using that by (simp add: word_unat_eq_iff)
  qed
  have "num_key fmt32 (unat a) \<le> num_key fmt32 (unat b)" using assms(3,4,5) by (simp add: f32_lt_def)
  then show ?thesis using assms(3,4) z [OF assms(1)] z [OF assms(2)]
    by (auto simp: score_rank_def num_key_def total_key_def split: if_splits)
qed

lemma f32_lt_trans: "f32_lt a b \<Longrightarrow> f32_lt b c \<Longrightarrow> f32_lt a c"
  by (auto simp: f32_lt_def)

lemma f32_lt_not_nan: "f32_lt a b \<Longrightarrow> \<not> f32_is_nan a \<and> \<not> f32_is_nan b"
  by (simp add: f32_lt_def)

abbreviation good :: "(point_offset \<Rightarrow> bool) \<Rightarrow> point_offset \<times> f32 \<Rightarrow> bool" where
  "good admit \<equiv> \<lambda>(off, s). f32_lt f32_neg_infinity s \<and> admit off"

text \<open>Whatever newer candidate does not beat the floor is beaten by \<open>want\<close> kept ones.\<close>

definition floor_ok :: "nat \<Rightarrow> (point_offset \<times> f32) list \<Rightarrow> f32 \<Rightarrow> bool" where
  "floor_ok want kept bar \<longleftrightarrow> (bar = f32_neg_infinity \<or> f32_lt f32_neg_infinity bar) \<and>
     (\<forall>off s. (\<forall>y \<in> set kept. fst y < off) \<longrightarrow> s \<noteq> neg_zero \<longrightarrow> f32_lt f32_neg_infinity s \<longrightarrow> \<not> f32_lt bar s \<longrightarrow>
        want \<le> length (filter (\<lambda>y. ckey y < ckey (off, s)) kept))"

lemma floor_ok_cut:
  assumes "0 < want" "want \<le> length kept" "\<And>y. y \<in> set kept \<Longrightarrow> snd y \<noteq> neg_zero \<and> f32_lt f32_neg_infinity (snd y)"
  shows "floor_ok want (take want (sort_key ckey kept)) (snd (take want (sort_key ckey kept) ! (want - 1)))"
proof -
  let ?k = "take want (sort_key ckey kept)"
  let ?l = "?k ! (want - 1)"
  have len: "length ?k = want" using assms(2) by simp
  have sub: "set ?k \<subseteq> set kept" using set_take_subset [of want "sort_key ckey kept"] by simp
  have l: "?l \<in> set ?k" using len assms(1) by (intro nth_mem) simp
  then have fl: "snd ?l \<noteq> neg_zero" "f32_lt f32_neg_infinity (snd ?l)" using assms(3) sub by blast+
  have srt: "sorted (map ckey ?k)" by (simp add: take_map [symmetric])
  have below: "ckey y \<le> ckey ?l" if "y \<in> set ?k" for y
  proof -
    obtain i where i: "i < want" "y = ?k ! i" using \<open>y \<in> set ?k\<close> len by (metis in_set_conv_nth)
    then show ?thesis using sorted_nth_mono [OF srt, of i "want - 1"] len by simp
  qed
  have "want \<le> length (filter (\<lambda>y. ckey y < ckey (off, s)) ?k)"
    if n: "\<forall>y \<in> set ?k. fst y < off" and s: "s \<noteq> neg_zero" "f32_lt f32_neg_infinity s" "\<not> f32_lt (snd ?l) s" for off s
  proof -
    have "score_rank (snd ?l) \<le> score_rank s"
      using score_order [OF s(1) fl(1) _ _ s(3)] f32_lt_not_nan [OF s(2)] f32_lt_not_nan [OF fl(2)] by blast
    then have lt: "ckey ?l < ckey (off, s)" using n l by (cases ?l) (auto simp: less_prod_def order.order_iff_strict)
    have "filter (\<lambda>y. ckey y < ckey (off, s)) ?k = ?k"
      by (intro filter_True ballI) (rule le_less_trans [OF below lt])
    then show ?thesis using len by simp
  qed
  then show ?thesis using fl(2) by (auto simp: floor_ok_def)
qed

lemma top_of_loop_exact:
  assumes "0 < want" "want \<le> cap"
  shows "sorted_wrt (<) (map fst (kept @ cs)) \<or> (\<forall>y \<in> set kept. \<forall>x \<in> set cs. fst y < fst x) \<and> distinct (map fst kept) \<and> sorted_wrt (<) (map fst cs) \<Longrightarrow>
    (\<And>y. y \<in> set (kept @ cs) \<Longrightarrow> snd y \<noteq> neg_zero) \<Longrightarrow> (\<And>y. y \<in> set kept \<Longrightarrow> f32_lt f32_neg_infinity (snd y)) \<Longrightarrow>
    floor_ok want kept bar \<Longrightarrow>
    take want (sort_key ckey (top_of_loop want cap admit cs kept bar)) = take want (sort_key ckey (kept @ filter (good admit) cs))"
proof (induction cs arbitrary: kept bar)
  case (Cons x cs)
  obtain off s where x: "x = (off, s)" by fastforce
  have ord: "\<forall>y \<in> set kept. \<forall>z \<in> set (x # cs). fst y < fst z" "distinct (map fst kept)" "sorted_wrt (<) (map fst (x # cs))"
    using Cons.prems(1) by (auto simp: sorted_wrt_append strict_sorted_iff)
  have "fst ` set kept \<inter> fst ` set (x # cs) = {}" using ord(1) by (fastforce simp del: set_simps)
  then have dist: "distinct (map fst (kept @ x # cs))"
    using ord(2,3) by (simp only: map_append distinct_append strict_sorted_iff set_map)
  have inj: "inj_on ckey (set (kept @ x # filter (good admit) cs))"
    by (rule inj_on_subset [OF ckey_inj [OF dist]]) auto
  have ord2: "(\<forall>y \<in> set kept. \<forall>z \<in> set cs. fst y < fst z) \<and> distinct (map fst kept) \<and> sorted_wrt (<) (map fst cs)" using ord by simp
  note nz = Cons.prems(2)
  show ?case
  proof (cases "f32_lt bar s \<and> admit off")
    case False
    have IH: "take want (sort_key ckey (top_of_loop want cap admit cs kept bar)) = take want (sort_key ckey (kept @ filter (good admit) cs))"
      by (rule Cons.IH) (use ord2 nz Cons.prems(3,4) in auto)
    show ?thesis
    proof (cases "good admit x")
      case True
      then have "want \<le> length (filter (\<lambda>y. ckey y < ckey x) kept)"
        using Cons.prems(4) False ord(1) nz [of x] x by (auto simp: floor_ok_def)
      then have "want \<le> length (filter (\<lambda>y. ckey y < ckey x) (kept @ filter (good admit) cs))" by simp
      note beaten = take_sort_beaten [OF this]
      have "sort_key ckey (kept @ x # filter (good admit) cs) = sort_key ckey (x # kept @ filter (good admit) cs)"
        by (rule sort_key_perm [OF _ inj]) simp
      then show ?thesis using IH False True beaten x by simp
    qed (use IH False x in auto)
  next
    case True
    have v: "f32_lt f32_neg_infinity s"
      using Cons.prems(4) True f32_lt_trans by (auto simp: floor_ok_def)
    let ?k1 = "kept @ [(off, s)]"
    have k1: "(\<forall>y \<in> set ?k1. \<forall>z \<in> set cs. fst y < fst z) \<and> distinct (map fst ?k1) \<and> sorted_wrt (<) (map fst cs)"
      "\<And>y. y \<in> set ?k1 \<Longrightarrow> f32_lt f32_neg_infinity (snd y)" "\<And>y. y \<in> set (?k1 @ cs) \<Longrightarrow> snd y \<noteq> neg_zero"
      using ord x v Cons.prems(3) nz by (auto simp: less_le)
    show ?thesis
    proof (cases "cap \<le> length ?k1")
      case cut: True
      let ?k2 = "take want (sort_key ckey ?k1)"
      have sub: "set ?k2 \<subseteq> set ?k1" using set_take_subset [of want "sort_key ckey ?k1"] by simp
      have d2: "distinct (map fst ?k2)"
      proof -
        have "mset (map fst (sort_key ckey ?k1)) = mset (map fst ?k1)" by simp
        then have "distinct (map fst (sort_key ckey ?k1))" using k1(1) mset_eq_imp_distinct_iff by blast
        then show ?thesis by (simp add: take_map [symmetric] distinct_take)
      qed
      have "take want (sort_key ckey (top_of_loop want cap admit cs ?k2 (snd (?k2 ! (want - 1))))) = take want (sort_key ckey (?k2 @ filter (good admit) cs))"
      proof (rule Cons.IH)
        show "floor_ok want ?k2 (snd (?k2 ! (want - 1)))"
          by (rule floor_ok_cut [OF assms(1)]) (use assms(2) cut k1(2,3) in auto)
        show "sorted_wrt (<) (map fst (?k2 @ cs)) \<or> (\<forall>y \<in> set ?k2. \<forall>x \<in> set cs. fst y < fst x) \<and> distinct (map fst ?k2) \<and> sorted_wrt (<) (map fst cs)"
          using k1(1) sub d2 by blast
        have sub2: "set (?k2 @ cs) \<subseteq> set (?k1 @ cs)" using sub by (simp only: set_append) blast
        show "snd y \<noteq> neg_zero" if "y \<in> set (?k2 @ cs)" for y by (rule k1(3) [OF subsetD [OF sub2 that]])
        show "f32_lt f32_neg_infinity (snd y)" if "y \<in> set ?k2" for y using that k1(2) sub by blast
      qed
      also have "\<dots> = take want (sort_key ckey (filter (good admit) cs @ ?k2))"
        by (rule arg_cong [where f = "take want"], rule sort_key_perm [OF _ inj_on_subset [OF inj]])
          (use sub x in \<open>auto simp: subset_iff\<close>)
      also have "\<dots> = take want (sort_key ckey (filter (good admit) cs @ ?k1))" by (rule take_sort_cut)
      also have "\<dots> = take want (sort_key ckey (kept @ x # filter (good admit) cs))"
        by (rule arg_cong [where f = "take want"], rule sort_key_perm [OF _ inj_on_subset [OF inj]]) (use x in auto)
      finally show ?thesis using True v x cut by (simp add: best_first_key Let_def)
    next
      case short: False
      have "floor_ok want ?k1 bar"
        using Cons.prems(4) unfolding floor_ok_def by (auto intro: le_SucI)
      then have "take want (sort_key ckey (top_of_loop want cap admit cs ?k1 bar)) = take want (sort_key ckey (?k1 @ filter (good admit) cs))"
        by (intro Cons.IH) (use k1 in auto)
      then show ?thesis using True v x short by (simp add: Let_def)
    qed
  qed
qed simp

lemma top_of_exact:
  assumes "sorted_wrt (<) (map fst cs)" "\<And>off s. (off, s) \<in> set cs \<Longrightarrow> s \<noteq> neg_zero" "want \<le> usize_max"
  shows "top_of cs want admit = take want (sort_key ckey (filter (good admit) cs))"
proof (cases "want = 0")
  case False
  have "want \<le> max (sat_mul want 2) 64" using assms(3) by (simp add: sat_mul_def)
  from top_of_loop_exact [OF _ this, of "[]" cs f32_neg_infinity admit] False assms(1,2)
  show ?thesis by (auto simp: top_of_def best_first_key floor_ok_def)
qed (simp add: top_of_def)

text \<open>Whatever the scores are, the selection is made from the admitted candidates.\<close>

lemma mset_take_sub: "mset (take n xs) \<subseteq># mset xs"
  by (metis append_take_drop_id mset_append mset_subset_eq_add_left)

lemma distinct_sub:
  assumes "mset xs \<subseteq># mset ys" "distinct ys"
  shows "distinct xs"
proof -
  obtain zs where "mset zs = mset ys - mset xs" using ex_mset by blast
  then have "mset ys = mset (xs @ zs)" using assms(1) by simp
  then show ?thesis using assms(2) mset_eq_imp_distinct_iff distinct_append by blast
qed

lemma top_of_loop_sub: "mset (top_of_loop want cap admit cs kept bar) \<subseteq># mset kept + mset (filter (\<lambda>(off, s). admit off) cs)"
proof (induction want cap admit cs kept bar rule: top_of_loop.induct)
  case (2 want cap admit off score cs kept bar)
  let ?k1 = "kept @ [(off, score)]" and ?rest = "mset (filter (\<lambda>(off, s). admit off) cs)"
  consider "\<not> f32_lt bar score \<or> \<not> admit off" | "f32_lt bar score" "admit off" "cap \<le> length ?k1" | "f32_lt bar score" "admit off" "\<not> cap \<le> length ?k1"
    by blast
  then show ?case
  proof cases
    case 1
    have "mset kept + ?rest \<subseteq># mset kept + mset (filter (\<lambda>(off, s). admit off) ((off, score) # cs))" by simp
    then show ?thesis using 1 2(1) by (auto intro: subset_mset.order_trans)
  next
    case 2
    let ?k2 = "take want (sort_by best_first_cmp ?k1)"
    have "mset ?k2 \<subseteq># mset (sort_by best_first_cmp ?k1)" by (rule mset_take_sub)
    then have "mset ?k2 + ?rest \<subseteq># mset ?k1 + ?rest" by (simp add: best_first_key)
    moreover have "mset (top_of_loop want cap admit cs ?k2 (snd (?k2 ! (want - 1)))) \<subseteq># mset ?k2 + ?rest"
      using "2.IH"(2) 2 by auto
    ultimately show ?thesis using 2 by (auto simp: Let_def intro: subset_mset.order_trans)
  next
    case 3
    then show ?thesis using "2.IH"(3) by (auto simp: Let_def)
  qed
qed simp

lemma top_of_sub: "mset (top_of cs want admit) \<subseteq># mset (filter (\<lambda>(off, s). admit off) cs)"
proof -
  let ?k = "top_of_loop want (max (sat_mul want 2) 64) admit cs [] f32_neg_infinity"
  have "mset (take want (sort_by best_first_cmp ?k)) \<subseteq># mset (sort_by best_first_cmp ?k)" by (rule mset_take_sub)
  also have "mset (sort_by best_first_cmp ?k) = mset ?k" by (simp add: best_first_key)
  also have "mset ?k \<subseteq># mset (filter (\<lambda>(off, s). admit off) cs)" using top_of_loop_sub [of want _ admit cs "[]"] by simp
  finally show ?thesis by (simp add: top_of_def)
qed

lemma top_of_facts:
  "set (top_of cs want admit) \<subseteq> {x \<in> set cs. admit (fst x)}" "length (top_of cs want admit) \<le> length cs"
  "distinct (map fst cs) \<Longrightarrow> distinct (map fst (top_of cs want admit))"
proof -
  let ?f = "filter (\<lambda>(off, s). admit off) cs"
  show "set (top_of cs want admit) \<subseteq> {x \<in> set cs. admit (fst x)}" using set_mset_mono [OF top_of_sub [of cs want admit]] by auto
  have "length (top_of cs want admit) \<le> length ?f" using size_mset_mono [OF top_of_sub [of cs want admit]] by (simp only: size_mset)
  also have "\<dots> \<le> length cs" by (rule length_filter_le)
  finally show "length (top_of cs want admit) \<le> length cs" .
  assume d: "distinct (map fst cs)"
  have "mset (map fst (top_of cs want admit)) \<subseteq># mset (map fst ?f)"
    using image_mset_subseteq_mono [OF top_of_sub [of cs want admit], of fst] by simp
  moreover have "distinct (map fst ?f)" using d by (rule distinct_map_filter)
  ultimately show "distinct (map fst (top_of cs want admit))" by (rule distinct_sub)
qed

section \<open>Filling the results\<close>

text \<open>What is left of a ranking when unknown and excluded records are dropped.\<close>

definition survivors :: "(point_offset \<Rightarrow> string option) \<Rightarrow> string fset option \<Rightarrow> (point_offset \<times> f32) list \<Rightarrow> (point_offset \<times> string \<times> f32) list" where
  "survivors id_of exclusion cs =
     List.map_filter (\<lambda>(off, s). case id_of off of None \<Rightarrow> None | Some i \<Rightarrow> if excluded exclusion i then None else Some (off, i, s)) cs"

lemma survivors_simps [simp]:
  "survivors id_of exclusion [] = []"
  "survivors id_of exclusion ((off, s) # cs) =
     (case id_of off of None \<Rightarrow> survivors id_of exclusion cs
      | Some i \<Rightarrow> if excluded exclusion i then survivors id_of exclusion cs else (off, i, s) # survivors id_of exclusion cs)"
  "survivors id_of exclusion (as @ cs) = survivors id_of exclusion as @ survivors id_of exclusion cs"
  by (auto simp: survivors_def List.map_filter_def split: option.split)

lemma survivors_iff:
  "(off, i, s) \<in> set (survivors id_of exclusion cs) \<longleftrightarrow> (off, s) \<in> set cs \<and> id_of off = Some i \<and> \<not> excluded exclusion i"
  by (induction cs) (auto split: option.splits if_splits)

lemma collect_head_eq:
  "length results < k \<Longrightarrow> collect_head id_of exclusion k hs results = take k (results @ survivors id_of exclusion hs)"
proof (induction hs arbitrary: results)
  case (Cons h hs)
  obtain off s where h: "h = (off, s)" by fastforce
  show ?case
  proof (cases "length results + 1 = k")
    case True
    then show ?thesis using Cons.IH [OF Cons.prems] h by (auto simp: Let_def split: option.split)
  next
    case False
    then have "length (results @ [(off, i, s)]) < k" for i using Cons.prems by simp
    from Cons.IH [OF this] Cons.IH [OF Cons.prems] h show ?thesis
      using False by (auto simp: Let_def split: option.split)
  qed
qed simp

lemma take_survivors:
  assumes "length (take k (survivors id_of exclusion (take w ranked))) = k \<or> length (take w ranked) < w"
  shows "take k (survivors id_of exclusion (take w ranked)) = take k (survivors id_of exclusion ranked)"
proof (cases "length (take w ranked) < w")
  case False
  have "survivors id_of exclusion ranked = survivors id_of exclusion (take w ranked) @ survivors id_of exclusion (drop w ranked)"
    by (metis append_take_drop_id survivors_simps(3))
  then show ?thesis using False assms by simp
qed simp

text \<open>The loop of \<open>finish_exact\<close> ends, whatever the candidates are.\<close>

lemma finish_loop_ends:
  assumes "\<And>w. length (head_of w) \<le> n" "n < usize_max" "0 < k"
  shows "0 < w \<Longrightarrow> w \<le> usize_max \<Longrightarrow> \<exists>w' rs. w' \<le> usize_max \<and> finish_loop head_of id_of exclusion k w = Some rs \<and>
    rs = take k (survivors id_of exclusion (head_of w')) \<and> (length rs = k \<or> length (head_of w') < w')"
proof (induction "Suc n - w" arbitrary: w rule: less_induct)
  case less
  let ?r = "collect_head id_of exclusion k (head_of w) []"
  have r: "?r = take k (survivors id_of exclusion (head_of w))" using collect_head_eq [of "[]" k] assms(3) by simp
  show ?case
  proof (cases "length ?r = k \<or> length (head_of w) < w")
    case True
    then have "finish_loop head_of id_of exclusion k w = Some ?r" by (subst finish_loop.simps) (simp add: Let_def)
    then show ?thesis using True r less.prems(2) by blast
  next
    case False
    then have "w \<le> n" using assms(1) [of w] by simp
    then have "w < sat_mul w 2" "sat_mul w 2 \<le> usize_max" using less.prems assms(2) by (auto simp: sat_mul_def)
    moreover have "finish_loop head_of id_of exclusion k w = finish_loop head_of id_of exclusion k (sat_mul w 2)"
      using False by (subst finish_loop.simps) (simp add: Let_def)
    ultimately show ?thesis using less.hyps [of "sat_mul w 2"] \<open>w \<le> n\<close> by simp
  qed
qed

text \<open>When the heads are those of one ranking, the results are its first \<open>top_k\<close> surviving candidates.\<close>

lemma finish_loop_eq:
  assumes "\<And>w. w \<le> usize_max \<Longrightarrow> head_of w = take w ranked" "\<And>w. length (head_of w) \<le> n" "n < usize_max" "0 < k" "0 < w" "w \<le> usize_max"
  shows "finish_loop head_of id_of exclusion k w = Some (take k (survivors id_of exclusion ranked))"
proof -
  obtain w' where w: "w' \<le> usize_max" "finish_loop head_of id_of exclusion k w = Some (take k (survivors id_of exclusion (head_of w')))"
    "length (take k (survivors id_of exclusion (head_of w'))) = k \<or> length (head_of w') < w'"
    using finish_loop_ends [of head_of n k w id_of exclusion] assms(2-6) by blast
  then show ?thesis using take_survivors [of k id_of exclusion w' ranked] assms(1) [OF w(1)] by simp
qed

lemma first_fetch_bounds: "0 < k \<Longrightarrow> 0 < first_fetch exclusion k" "k \<le> usize_max \<Longrightarrow> first_fetch exclusion k \<le> usize_max"
  by (simp_all add: first_fetch_def sat_add_def sat_mul_def usize_max_def)

end
