(* ===== verification/Access_Counters.thy ===== *)
theory Access_Counters
  imports Metadata_Store "HOL-Library.Multiset"
begin

text \<open>
  The access counters of \<open>turbomemory_storage/src/access_counters.rs\<close>: per-offset counts, the last
  access time and a ring of recent access times, accumulated in memory and drained into the
  metadata store. A drain visits the entries in the map's order, which does not matter because
  every entry has its own offset; they are visited in increasing order here.
\<close>

definition MAX_ACCESS_HISTORY_LEN :: nat where
  "MAX_ACCESS_HISTORY_LEN = 32"

definition clamp_history_len :: "nat \<Rightarrow> nat" where
  "clamp_history_len n = (if n < 1 then 1 else if MAX_ACCESS_HISTORY_LEN < n then MAX_ACCESS_HISTORY_LEN else n)"

record access_entry =
  ae_count :: u64
  ae_last_accessed :: u64
  ae_ring :: "u64 list"
  ae_cursor :: u64

definition access_entry_new :: "nat \<Rightarrow> access_entry" where
  "access_entry_new n = \<lparr>ae_count = 0, ae_last_accessed = 0, ae_ring = replicate n 0, ae_cursor = 0\<rparr>"

record access_counters =
  ac_counters :: "(point_offset, access_entry) fmap"
  ac_history_len :: nat

definition ac_new :: "nat \<Rightarrow> access_counters" where
  "ac_new n = \<lparr>ac_counters = fmempty, ac_history_len = clamp_history_len n\<rparr>"

definition bump_entry :: "u64 \<Rightarrow> access_entry \<Rightarrow> access_entry" where
  "bump_entry now e =
     e\<lparr>ae_count := ae_count e + 1, ae_last_accessed := now, ae_cursor := ae_cursor e + 1,
       ae_ring := (ae_ring e)[unat (ae_cursor e) mod length (ae_ring e) := now]\<rparr>"

definition bump :: "point_offset \<Rightarrow> u64 \<Rightarrow> access_counters \<Rightarrow> access_counters" where
  "bump off now a =
     (let e = (case fmlookup (ac_counters a) off of Some e \<Rightarrow> e | None \<Rightarrow> access_entry_new (ac_history_len a))
      in a\<lparr>ac_counters := fmupd off (bump_entry now e) (ac_counters a)\<rparr>)"

definition drain_entry :: "nat \<Rightarrow> point_offset \<Rightarrow> access_entry \<Rightarrow> mstore \<Rightarrow> mstore" where
  "drain_entry history_len off e ms =
     (if ae_count e = 0 then ms
      else case ms_get ms off of
        None \<Rightarrow> ms
      | Some m \<Rightarrow>
          (let m' = m\<lparr>m_access_count := m_access_count m + ae_count e,
                      m_last_accessed := max (m_last_accessed m) (ae_last_accessed e)\<rparr>;
               stamps = sort (List.filter (\<lambda>ts. ts \<noteq> 0) (ae_ring e))
           in append_access_history off stamps history_len (put_meta off m' ms)))"

definition drain_into :: "access_counters \<Rightarrow> mstore \<Rightarrow> access_counters \<times> mstore" where
  "drain_into a ms =
     (a\<lparr>ac_counters := fmempty\<rparr>,
      fold (\<lambda>(off, e). drain_entry (ac_history_len a) off e) (table_items (ac_counters a)) ms)"

section \<open>The ring\<close>

text \<open>Read from the cursor on, the ring is the last accesses in order, after the zeros it started
  with.\<close>

definition ring_holds :: "u64 list \<Rightarrow> u64 list \<Rightarrow> bool" where
  "ring_holds ring ts \<longleftrightarrow> rotate (length ts mod length ring) ring = drop (length ts) (replicate (length ring) 0 @ ts)"

lemma rotate_update: "j < length xs \<Longrightarrow> rotate j (xs[j := t]) = t # tl (rotate j xs)"
  by (simp add: rotate_drop_take Cons_nth_drop_Suc [symmetric] take_update_cancel drop_update_cancel)

lemma tl_drop_snoc: "n < length us \<Longrightarrow> tl (drop n us) @ [t] = drop (Suc n) (us @ [t])"
  by (simp add: drop_Suc tl_drop)

lemma rotate_mset: "mset (rotate n xs) = mset xs"
proof -
  have "mset (rotate n xs) = mset (take (n mod length xs) xs @ drop (n mod length xs) xs)"
    unfolding rotate_drop_take mset_append by (rule add.commute)
  then show ?thesis by simp
qed

lemma ring_holds_bump:
  assumes "ring_holds ring ts" "ring \<noteq> []"
  shows "ring_holds (ring[length ts mod length ring := t]) (ts @ [t])"
proof -
  let ?K = "length ring" let ?n = "length ts" let ?us = "replicate (length ring) 0 @ ts"
  let ?j = "length ts mod length ring" let ?r = "ring[length ts mod length ring := t]"
  have j: "?j < ?K" using assms(2) by simp
  have "rotate (Suc ?n mod ?K) ?r = rotate (Suc ?j) ?r"
    by (metis length_list_update mod_Suc_eq rotate_conv_mod mod_mod_trivial)
  also have "\<dots> = rotate1 (rotate ?j ?r)" by (simp add: rotate_def)
  also have "\<dots> = tl (drop ?n ?us) @ [t]" using rotate_update [OF j, of t] assms(1) by (simp add: ring_holds_def)
  also have "\<dots> = drop (Suc ?n) (?us @ [t])" using assms(2) by (intro tl_drop_snoc) (cases ring, auto)
  finally show ?thesis by (simp add: ring_holds_def)
qed

lemma ring_holds_new: "ring_holds (replicate n 0) []"
  by (simp add: ring_holds_def)

lemma ring_stamps:
  assumes "ring_holds ring ts"
  shows "sort (List.filter (\<lambda>t. t \<noteq> 0) ring) = sort (List.filter (\<lambda>t. t \<noteq> 0) (drop (length ts - length ring) ts))"
proof -
  have "mset ring = mset (drop (length ts) (replicate (length ring) 0 @ ts))"
    using assms unfolding ring_holds_def by (metis rotate_mset)
  then have "mset (List.filter (\<lambda>t. t \<noteq> 0) ring) =
      mset (List.filter (\<lambda>t. t \<noteq> 0) (drop (length ts) (replicate (length ring) 0 @ ts)))"
    by (metis mset_filter)
  also have "List.filter (\<lambda>t. t \<noteq> 0) (drop (length ts) (replicate (length ring) 0 @ ts)) =
      List.filter (\<lambda>t. t \<noteq> 0) (drop (length ts - length ring) ts)"
    by (auto simp: filter_empty_conv)
  finally show ?thesis by (intro properties_for_sort) (simp_all)
qed

section \<open>Accumulating and draining\<close>

definition times_of :: "point_offset \<Rightarrow> (point_offset \<times> u64) list \<Rightarrow> u64 list" where
  "times_of off bs = map snd (List.filter (\<lambda>(o', t). o' = off) bs)"

definition bump_all :: "(point_offset \<times> u64) list \<Rightarrow> access_counters \<Rightarrow> access_counters" where
  "bump_all bs a = fold (\<lambda>(off, t). bump off t) bs a"

text \<open>What an entry holds after the accesses \<open>ts\<close>.\<close>

definition entry_holds :: "nat \<Rightarrow> access_entry \<Rightarrow> u64 list \<Rightarrow> bool" where
  "entry_holds K e ts \<longleftrightarrow> length (ae_ring e) = K \<and> ae_count e = word_of_nat (length ts) \<and>
     ae_cursor e = word_of_nat (length ts) \<and> (ts \<noteq> [] \<longrightarrow> ae_last_accessed e = last ts) \<and> ring_holds (ae_ring e) ts"

lemma entry_holds_bump:
  assumes "entry_holds K e ts" "0 < K" "length ts < 2 ^ 64"
  shows "entry_holds K (bump_entry t e) (ts @ [t])"
proof -
  have "unat (ae_cursor e) = length ts" using assms by (simp add: entry_holds_def unat_of_nat)
  then show ?thesis using assms ring_holds_bump [of "ae_ring e" ts t]
    by (auto simp: entry_holds_def bump_entry_def)
qed

lemma entry_holds_new: "entry_holds K (access_entry_new K) []"
  by (simp add: entry_holds_def access_entry_new_def ring_holds_new)

definition counters_hold :: "access_counters \<Rightarrow> (point_offset \<times> u64) list \<Rightarrow> bool" where
  "counters_hold a bs \<longleftrightarrow> 0 < ac_history_len a \<and> (\<forall>off. case fmlookup (ac_counters a) off of
      None \<Rightarrow> times_of off bs = [] | Some e \<Rightarrow> times_of off bs \<noteq> [] \<and> entry_holds (ac_history_len a) e (times_of off bs))"

lemma times_of_snoc: "times_of off (bs @ [(o', t)]) = (if off = o' then times_of off bs @ [t] else times_of off bs)"
  by (auto simp: times_of_def)

lemma length_times_of: "length (times_of off bs) \<le> length bs"
  by (simp add: times_of_def)

lemma counters_hold_bump:
  assumes "counters_hold a bs" "length bs < 2 ^ 64"
  shows "counters_hold (bump off t a) (bs @ [(off, t)])"
proof -
  let ?e = "case fmlookup (ac_counters a) off of Some e \<Rightarrow> e | None \<Rightarrow> access_entry_new (ac_history_len a)"
  have K: "0 < ac_history_len a" and cs: "\<And>o'. case fmlookup (ac_counters a) o' of
      None \<Rightarrow> times_of o' bs = [] | Some e \<Rightarrow> times_of o' bs \<noteq> [] \<and> entry_holds (ac_history_len a) e (times_of o' bs)"
    using assms(1) by (auto simp: counters_hold_def)
  have "entry_holds (ac_history_len a) ?e (times_of off bs)"
    using cs [of off] entry_holds_new by (auto split: option.splits)
  then have "entry_holds (ac_history_len a) (bump_entry t ?e) (times_of off bs @ [t])"
    using K assms(2) length_times_of [of off bs] by (intro entry_holds_bump) auto
  then have all: "case fmlookup (ac_counters (bump off t a)) o' of
      None \<Rightarrow> times_of o' (bs @ [(off, t)]) = []
    | Some e \<Rightarrow> times_of o' (bs @ [(off, t)]) \<noteq> [] \<and> entry_holds (ac_history_len a) e (times_of o' (bs @ [(off, t)]))" for o'
    using cs [of o'] by (cases "o' = off") (simp_all add: bump_def Let_def times_of_snoc split: option.splits)
  have len: "ac_history_len (bump off t a) = ac_history_len a" by (simp add: bump_def Let_def)
  show ?thesis unfolding counters_hold_def len using K all by blast
qed

lemma bump_all_holds: "length bs < 2 ^ 64 \<Longrightarrow> counters_hold (bump_all bs (ac_new n)) bs \<and>
    ac_history_len (bump_all bs (ac_new n)) = clamp_history_len n"
proof (induction bs rule: rev_induct)
  case Nil
  then show ?case
    by (simp add: counters_hold_def bump_all_def ac_new_def times_of_def clamp_history_len_def MAX_ACCESS_HISTORY_LEN_def)
next
  case (snoc b bs)
  obtain off t where b: "b = (off, t)" by fastforce
  have "bump_all (bs @ [b]) (ac_new n) = bump off t (bump_all bs (ac_new n))" by (simp add: bump_all_def b)
  then show ?case using snoc counters_hold_bump [of "bump_all bs (ac_new n)" bs off t] b
    by (simp add: bump_def Let_def)
qed


text \<open>What a drain does to one offset of the store.\<close>

definition record_view :: "point_offset \<Rightarrow> mstore \<Rightarrow> meta_record option \<times> u64 list" where
  "record_view off ms = (ms_get ms off, access_history ms off)"

lemma put_meta_view: "record_view off (put_meta o' m ms) = (if off = o' then (Some m, access_history ms off) else record_view off ms)"
  by (simp add: record_view_def ms_get_def access_history_def put_meta_def Let_def)

lemma append_history_view:
  "record_view off (append_access_history o' ts n ms) =
     (if off = o' \<and> ts \<noteq> [] then
        (ms_get ms off, let entry = sort (access_history ms off @ ts) in drop (length entry - n) entry)
      else record_view off ms)"
  by (auto simp: record_view_def ms_get_def access_history_def append_access_history_def Let_def)

lemma drain_entry_other: "off \<noteq> o' \<Longrightarrow> record_view off (drain_entry n o' e ms) = record_view off ms"
  by (simp add: drain_entry_def append_history_view put_meta_view Let_def split: option.splits)

lemma drain_fold_other:
  "off \<notin> fst ` set items \<Longrightarrow> record_view off (fold (\<lambda>(off, e). drain_entry n off e) items ms) = record_view off ms"
  by (induction items arbitrary: ms) (auto simp: drain_entry_other)

lemma drain_entry_view_cong:
  "record_view off ms = record_view off ms' \<Longrightarrow> record_view off (drain_entry n off e ms) = record_view off (drain_entry n off e ms')"
  by (auto simp: drain_entry_def record_view_def append_history_view put_meta_view Let_def split: option.splits)
     (auto simp: ms_get_def put_meta_def access_history_def append_access_history_def Let_def)

lemma drain_fold_view:
  "distinct (map fst items) \<Longrightarrow> (off, e) \<in> set items \<Longrightarrow>
   record_view off (fold (\<lambda>(off, e). drain_entry n off e) items ms) = record_view off (drain_entry n off e ms)"
proof (induction items arbitrary: ms)
  case (Cons x items)
  obtain o' e' where x: "x = (o', e')" by fastforce
  show ?case
  proof (cases "o' = off")
    case True
    then have "e' = e" "off \<notin> fst ` set items" using Cons.prems x by (auto simp: image_iff)
    then show ?thesis using True x by (simp add: drain_fold_other)
  next
    case False
    then have "(off, e) \<in> set items" using Cons.prems(2) x by auto
    then show ?thesis
      using Cons.IH Cons.prems(1) x drain_entry_view_cong [OF drain_entry_other [of off o' n e' ms]] False by simp
  qed
qed simp

section \<open>Claims\<close>

text \<open>C29. Counting accesses and draining them: after any sequence of accesses (fewer than \<open>2 ^ 64\<close>) a
  drain adds to every live record exactly the number of its accesses, moves its last access
  time forward to the last one, merges the non-zero times of its last K accesses into its
  history (sorted, most recent kept), leaves every record without accesses alone, creates no
  record, and empties the counters.\<close>

theorem drain_exact:
  assumes "length bs < 2 ^ 64" "drain_into (bump_all bs (ac_new n)) ms = (a', ms')"
  shows "ac_counters a' = fmempty \<and>
    (times_of off bs = [] \<or> ms_get ms off = None \<longrightarrow> record_view off ms' = record_view off ms) \<and>
    (\<forall>m. ms_get ms off = Some m \<and> times_of off bs \<noteq> [] \<longrightarrow>
       (let ts = times_of off bs; K = clamp_history_len n;
            stamps = List.filter (\<lambda>t. t \<noteq> 0) (drop (length ts - K) ts);
            entry = sort (access_history ms off @ stamps)
        in ms_get ms' off = Some (m\<lparr>m_access_count := m_access_count m + word_of_nat (length ts),
                                     m_last_accessed := max (m_last_accessed m) (last ts)\<rparr>) \<and>
           access_history ms' off = (if stamps = [] then access_history ms off else drop (length entry - K) entry)))"
proof -
  let ?a = "bump_all bs (ac_new n)" let ?K = "clamp_history_len n"
  have h: "counters_hold ?a bs" and K: "ac_history_len ?a = ?K" using bump_all_holds [OF assms(1), of n] by simp_all
  have ms': "ms' = fold (\<lambda>(off, e). drain_entry ?K off e) (table_items (ac_counters ?a)) ms"
    and a': "ac_counters a' = fmempty" using assms(2) K by (auto simp: drain_into_def)
  show ?thesis
  proof (cases "fmlookup (ac_counters ?a) off")
    case None
    then have "off \<notin> fst ` set (table_items (ac_counters ?a))"
      by (auto simp: table_items_def fmlookup_dom_iff)
    then have "record_view off ms' = record_view off ms" using drain_fold_other ms' by simp
    moreover have "times_of off bs = []" using h None by (auto simp: counters_hold_def dest: spec [of _ off])
    ultimately show ?thesis using a' by simp
  next
    case (Some e)
    then have ts: "times_of off bs \<noteq> []" and e: "entry_holds ?K e (times_of off bs)"
      using h K by (auto simp: counters_hold_def dest: spec [of _ off])
    have "(off, e) \<in> set (table_items (ac_counters ?a))"
      using Some map_of_table_items [of "ac_counters ?a"] distinct_table_items by (metis map_of_eq_Some_iff)
    then have v: "record_view off ms' = record_view off (drain_entry ?K off e ms)"
      using drain_fold_view [OF distinct_table_items] ms' by simp
    have len: "length (times_of off bs) < 2 ^ 64" using length_times_of [of off bs] assms(1) by simp
    have "unat (word_of_nat (length (times_of off bs)) :: u64) = length (times_of off bs)"
      using len by (simp add: unat_of_nat)
    then have c: "ae_count e \<noteq> 0" "ae_count e = word_of_nat (length (times_of off bs))"
      "ae_last_accessed e = last (times_of off bs)"
      using e ts by (auto simp: entry_holds_def word_unat_eq_iff)
    have st: "sort (List.filter (\<lambda>t. t \<noteq> 0) (ae_ring e)) =
        sort (List.filter (\<lambda>t. t \<noteq> 0) (drop (length (times_of off bs) - ?K) (times_of off bs)))"
      using ring_stamps e by (auto simp: entry_holds_def)
    have merge: "sort (xs @ sort ys) = sort (xs @ ys)" for xs ys :: "u64 list"
      by (rule properties_for_sort) simp_all
    have empty: "sort xs = [] \<longleftrightarrow> xs = []" for xs :: "u64 list" by (metis length_0_conv length_sort)
    show ?thesis
    proof (cases "ms_get ms off")
      case None
      then show ?thesis using v a' by (simp add: drain_entry_def)
    next
      case (Some m)
      then have "record_view off (drain_entry ?K off e ms) =
        (Some (m\<lparr>m_access_count := m_access_count m + word_of_nat (length (times_of off bs)),
                 m_last_accessed := max (m_last_accessed m) (last (times_of off bs))\<rparr>),
         let stamps = List.filter (\<lambda>t. t \<noteq> 0) (drop (length (times_of off bs) - ?K) (times_of off bs));
             entry = sort (access_history ms off @ stamps)
         in if stamps = [] then access_history ms off else drop (length entry - ?K) entry)"
        using c by (simp add: drain_entry_def Let_def append_history_view put_meta_view st merge empty)
          (simp add: ms_get_def access_history_def put_meta_def Let_def)
      then show ?thesis using v a' ts Some by (auto simp: record_view_def Let_def)
    qed
  qed
qed


theorem drain_exact_witness:
  "\<exists>a' ms'. drain_into (bump_all [(3, 50), (3, 60)] (ac_new 1)) (put_meta 3 (demo_meta 65) demo_ms) = (a', ms') \<and>
     map_option m_access_count (ms_get ms' 3) = Some 2 \<and> access_history ms' 3 = [60]"
proof -
  let ?ms = "put_meta 3 (demo_meta 65) demo_ms"
  obtain a' ms' where d: "drain_into (bump_all [(3, 50), (3, 60)] (ac_new 1)) ?ms = (a', ms')" by fastforce
  have ts: "times_of 3 [(3, 50), (3, 60)] = [50, 60]" by (simp add: times_of_def)
  have g: "ms_get ?ms 3 = Some (demo_meta 65)" "access_history ?ms 3 = []"
    by (simp_all add: ms_get_def put_meta_def access_history_def demo_ms_def)
  have k: "clamp_history_len (Suc 0) = Suc 0" by (simp add: clamp_history_len_def MAX_ACCESS_HISTORY_LEN_def)
  have "ms_get ms' 3 = Some ((demo_meta 65)\<lparr>m_access_count := m_access_count (demo_meta 65) + word_of_nat 2,
      m_last_accessed := max (m_last_accessed (demo_meta 65)) 60\<rparr>) \<and> access_history ms' 3 = [60]"
    using drain_exact [OF _ d, of 3] by (simp add: ts g k Let_def)
  then show ?thesis using d by (simp add: demo_meta_def)
qed

end
