(* ===== verification/Visited_Pool.thy ===== *)
theory Visited_Pool
  imports TSM_Prelude
begin

text \<open>
  The visited sets of \<open>turbomemory_storage/src/visited_pool.rs\<close>: a byte per node holding the
  generation in which the node was last marked, a wrapping 8-bit generation counter that makes
  clearing cheap, and the pool that hands sets out and takes them back.
\<close>

record visited_set =
  vz_tokens :: bytes
  vz_generation :: u8

definition vz_new :: "nat \<Rightarrow> visited_set" where
  "vz_new capacity = \<lparr>vz_tokens = replicate capacity 0, vz_generation = 1\<rparr>"

definition vz_resize :: "nat \<Rightarrow> visited_set \<Rightarrow> visited_set" where
  "vz_resize capacity s =
     (if length (vz_tokens s) < capacity
      then s\<lparr>vz_tokens := vz_tokens s @ replicate (capacity - length (vz_tokens s)) 0\<rparr> else s)"

definition mark :: "nat \<Rightarrow> visited_set \<Rightarrow> visited_set" where
  "mark node s = (if node < length (vz_tokens s) then s\<lparr>vz_tokens := (vz_tokens s)[node := vz_generation s]\<rparr> else s)"

definition is_visited :: "nat \<Rightarrow> visited_set \<Rightarrow> bool" where
  "is_visited node s \<longleftrightarrow> node < length (vz_tokens s) \<and> vz_tokens s ! node = vz_generation s"

definition vz_clear :: "visited_set \<Rightarrow> visited_set" where
  "vz_clear s =
     (let g = vz_generation s + 1 in
      if g = 0 then s\<lparr>vz_tokens := replicate (length (vz_tokens s)) 0, vz_generation := 1\<rparr>
      else s\<lparr>vz_generation := g\<rparr>)"

record visited_pool =
  vp_slots :: "visited_set list"
  vp_capacity :: nat

definition vp_new :: "nat \<Rightarrow> nat \<Rightarrow> visited_pool" where
  "vp_new sz capacity = \<lparr>vp_slots = replicate sz (vz_new capacity), vp_capacity = capacity\<rparr>"

definition vp_resize :: "nat \<Rightarrow> visited_pool \<Rightarrow> visited_pool" where
  "vp_resize capacity p =
     (if capacity \<le> vp_capacity p then p
      else p\<lparr>vp_capacity := capacity, vp_slots := map (vz_resize capacity) (vp_slots p)\<rparr>)"

definition acquire :: "visited_pool \<Rightarrow> visited_set \<times> visited_pool" where
  "acquire p =
     (let (slot, rest) = (if vp_slots p = [] then (vz_new (vp_capacity p), [])
                          else (last (vp_slots p), butlast (vp_slots p)))
      in (vz_clear slot, p\<lparr>vp_slots := rest\<rparr>))"

definition release :: "visited_set \<Rightarrow> visited_pool \<Rightarrow> visited_pool" where
  "release s p = p\<lparr>vp_slots := vp_slots p @ [s]\<rparr>"

section \<open>A visited set is a set\<close>

text \<open>The invariant that makes clearing by generation sound: no token is ahead of the generation,
  and the generation is never zero, so the byte a new slot starts with is never current.\<close>

definition vz_inv :: "visited_set \<Rightarrow> bool" where
  "vz_inv s \<longleftrightarrow> vz_generation s \<noteq> 0 \<and> (\<forall>t \<in> set (vz_tokens s). t \<le> vz_generation s)"

definition vz_abs :: "visited_set \<Rightarrow> nat set" where
  "vz_abs s = {n. is_visited n s}"

lemma vz_new_ok: "vz_inv (vz_new n)" "vz_abs (vz_new n) = {}"
  by (auto simp: vz_inv_def vz_new_def vz_abs_def is_visited_def)

lemma mark_ok:
  assumes "vz_inv s"
  shows "vz_inv (mark n s)" "vz_abs (mark n s) = (if n < length (vz_tokens s) then insert n (vz_abs s) else vz_abs s)"
  using assms set_update_subset_insert [of "vz_tokens s" n "vz_generation s"]
  by (auto simp: vz_inv_def mark_def vz_abs_def is_visited_def nth_list_update)

lemma resize_ok:
  assumes "vz_inv s"
  shows "vz_inv (vz_resize n s)" "vz_abs (vz_resize n s) = vz_abs s"
    "length (vz_tokens (vz_resize n s)) = max n (length (vz_tokens s))"
  using assms by (auto simp: vz_inv_def vz_resize_def vz_abs_def is_visited_def nth_append split: if_splits)

lemma clear_ok:
  assumes "vz_inv s"
  shows "vz_inv (vz_clear s)" "vz_abs (vz_clear s) = {}" "length (vz_tokens (vz_clear s)) = length (vz_tokens s)"
proof -
  let ?g = "vz_generation s"
  have "t \<le> ?g + 1 \<and> t \<noteq> ?g + 1" if "t \<le> ?g" "?g + 1 \<noteq> 0" for t
  proof -
    have "?g < ?g + 1" using that(2) unatSuc [of ?g] by (simp add: word_less_nat_alt add.commute)
    then show ?thesis using that(1) by auto
  qed
  note fresh = this
  show "vz_inv (vz_clear s)" "vz_abs (vz_clear s) = {}" "length (vz_tokens (vz_clear s)) = length (vz_tokens s)"
    using assms fresh by (auto simp: vz_inv_def vz_clear_def Let_def vz_abs_def is_visited_def split: if_splits)
qed


section \<open>Claims\<close>

datatype vz_step = Mark nat | Clear | Resize nat

fun vz_run :: "vz_step list \<Rightarrow> visited_set \<Rightarrow> visited_set" where
  "vz_run [] s = s"
| "vz_run (Mark n # hs) s = vz_run hs (mark n s)"
| "vz_run (Clear # hs) s = vz_run hs (vz_clear s)"
| "vz_run (Resize n # hs) s = vz_run hs (vz_resize n s)"

text \<open>The abstract set: a capacity and the nodes marked since the last clear.\<close>

fun set_run :: "vz_step list \<Rightarrow> nat \<times> nat set \<Rightarrow> nat \<times> nat set" where
  "set_run [] p = p"
| "set_run (Mark n # hs) (c, m) = set_run hs (c, if n < c then insert n m else m)"
| "set_run (Clear # hs) (c, m) = set_run hs (c, {})"
| "set_run (Resize n # hs) (c, m) = set_run hs (max n c, m)"

lemma length_mark [simp]: "length (vz_tokens (mark n s)) = length (vz_tokens s)"
  by (simp add: mark_def)

lemma vz_run_refines:
  "vz_inv s \<Longrightarrow> vz_inv (vz_run hs s) \<and>
     set_run hs (length (vz_tokens s), vz_abs s) = (length (vz_tokens (vz_run hs s)), vz_abs (vz_run hs s))"
  by (induction hs s rule: vz_run.induct) (auto simp: mark_ok resize_ok clear_ok)

text \<open>A visited set behaves as a set of nodes through any number of clears, also when the 8-bit
  generation wraps around: after any history of marks, clears and resizes, a node reads as
  visited iff it was marked, while it was in capacity, after the last clear.\<close>

theorem visited_set_refines:
  "set_run hs (capacity, {}) =
     (length (vz_tokens (vz_run hs (vz_new capacity))), {n. is_visited n (vz_run hs (vz_new capacity))})"
proof -
  have "length (vz_tokens (vz_new capacity)) = capacity" by (simp add: vz_new_def)
  then show ?thesis using vz_run_refines [OF vz_new_ok(1), of hs capacity] vz_new_ok(2) [of capacity]
    by (simp add: vz_abs_def)
qed

definition vp_inv :: "visited_pool \<Rightarrow> bool" where
  "vp_inv p \<longleftrightarrow> list_all vz_inv (vp_slots p)"

lemma vp_ops_inv: "vp_inv (vp_new sz c)" "vp_inv p \<Longrightarrow> vp_inv (vp_resize c p)"
  "vp_inv p \<Longrightarrow> vz_inv s \<Longrightarrow> vp_inv (release s p)"
  by (auto simp: vp_inv_def vp_new_def vz_new_ok vp_resize_def resize_ok release_def list_all_iff)

text \<open>Every set the pool hands out is empty, whatever marks it carried when it was released, and
  the pool stays well-formed.\<close>

theorem acquire_is_blank:
  assumes "vp_inv p" "acquire p = (s, p')"
  shows "vz_inv s \<and> (\<forall>n. \<not> is_visited n s) \<and> vp_inv p'"
proof -
  let ?slot = "if vp_slots p = [] then vz_new (vp_capacity p) else last (vp_slots p)"
  have slot: "vz_inv ?slot" using assms(1) vz_new_ok by (auto simp: vp_inv_def list_all_iff)
  have "s = vz_clear ?slot" "vp_slots p' = butlast (vp_slots p)"
    using assms(2) by (auto simp: acquire_def Let_def split: if_splits)
  then show ?thesis using clear_ok [OF slot] assms(1)
    by (auto simp: vz_abs_def vp_inv_def list_all_iff dest: in_set_butlastD)
qed

theorem acquire_is_blank_witness:
  "\<not> is_visited 2 (fst (acquire (release (mark 2 (vz_new 4)) (vp_new 0 4))))"
proof -
  have "vp_inv (release (mark 2 (vz_new 4)) (vp_new 0 4))"
    by (intro vp_ops_inv mark_ok vz_new_ok)
  then show ?thesis using acquire_is_blank [OF _ surjective_pairing] by blast
qed

text \<open>A pool resize misses the sets that are checked out: a set acquired before the resize and
  released after it keeps its old capacity, is handed out again, and silently ignores the marks
  of nodes the pool claims to have room for.\<close>

theorem resize_misses_checked_out:
  "let (s, p1) = acquire (vp_new 1 4); (t, p2) = acquire (release s (vp_resize 8 p1))
   in vp_capacity p2 = 8 \<and> \<not> is_visited 6 (mark 6 t)"
  by (simp add: acquire_def vp_new_def vp_resize_def release_def mark_def is_visited_def vz_clear_def vz_new_def Let_def)

end
