(* ===== verification/Lexical_Index.thy ===== *)
theory Lexical_Index
  imports Records
begin

text \<open>
  The lexical side of the cognitive graph: the bookkeeping of the BM25 index
  (\<open>turbomemory_graph/src/bm25.rs\<close>) and the concept vocabulary of \<open>extract.rs\<close>. Unicode case
  mapping and word splitting are tables of the standard library and come in as the arguments
  \<open>words\<close> (\<open>to_lowercase\<close> followed by the split at characters that are not alphanumeric) and
  \<open>lower\<close> (\<open>to_lowercase\<close>). A hash map is iterated in an order the program does not choose; that
  order is an argument too.
\<close>

section \<open>The BM25 index\<close>

definition tokenize :: "(string \<Rightarrow> string list) \<Rightarrow> string \<Rightarrow> string list" where
  "tokenize words text = filter (\<lambda>s. 1 < length s) (words text)"

record bm25 =
  bm_docs :: "(string, string list) fmap"
  bm_term_doc_freq :: "(string, nat) fmap"
  bm_total_doc_len :: nat
  bm_k1 :: f32
  bm_b :: f32

definition bm25_new :: bm25 where
  "bm25_new = \<lparr>bm_docs = fmempty, bm_term_doc_freq = fmempty, bm_total_doc_len = 0, bm_k1 = 0x3F99999A, bm_b = 0x3F400000\<rparr>"

fun term_freqs_add :: "string list \<Rightarrow> string fset \<Rightarrow> (string, nat) fmap \<Rightarrow> (string, nat) fmap" where
  "term_freqs_add [] seen df = df"
| "term_freqs_add (t # ts) seen df =
     (if t |\<in>| seen then term_freqs_add ts seen df
      else term_freqs_add ts (finsert t seen)
        (fmupd t ((case fmlookup df t of None \<Rightarrow> 0 | Some c \<Rightarrow> c) + 1) df))"

definition add_term_freqs :: "string list \<Rightarrow> bm25 \<Rightarrow> bm25" where
  "add_term_freqs tokens b = b\<lparr>bm_term_doc_freq := term_freqs_add tokens {||} (bm_term_doc_freq b)\<rparr>"

fun term_freqs_remove :: "string list \<Rightarrow> string fset \<Rightarrow> (string, nat) fmap \<Rightarrow> (string, nat) fmap" where
  "term_freqs_remove [] seen df = df"
| "term_freqs_remove (t # ts) seen df =
     (if t |\<in>| seen then term_freqs_remove ts seen df
      else term_freqs_remove ts (finsert t seen)
        (case fmlookup df t of
           None \<Rightarrow> df
         | Some c \<Rightarrow> if c - 1 = 0 then fmdrop t df else fmupd t (c - 1) df))"

definition remove_term_freqs :: "string list \<Rightarrow> bm25 \<Rightarrow> bm25" where
  "remove_term_freqs tokens b = b\<lparr>bm_term_doc_freq := term_freqs_remove tokens {||} (bm_term_doc_freq b)\<rparr>"

definition bm25_remove :: "string \<Rightarrow> bm25 \<Rightarrow> bm25" where
  "bm25_remove doc b =
     (case fmlookup (bm_docs b) doc of
        None \<Rightarrow> b
      | Some old \<Rightarrow>
          (let b1 = remove_term_freqs old (b\<lparr>bm_docs := fmdrop doc (bm_docs b)\<rparr>)
           in b1\<lparr>bm_total_doc_len := bm_total_doc_len b1 - length old\<rparr>))"

definition bm25_add :: "(string \<Rightarrow> string list) \<Rightarrow> string \<Rightarrow> string \<Rightarrow> bm25 \<Rightarrow> bm25" where
  "bm25_add words doc text b =
     (let tokens = tokenize words text;
          b1 = (case fmlookup (bm_docs b) doc of
                  None \<Rightarrow> b
                | Some old \<Rightarrow>
                    (let b2 = remove_term_freqs old (b\<lparr>bm_docs := fmdrop doc (bm_docs b)\<rparr>)
                     in b2\<lparr>bm_total_doc_len := bm_total_doc_len b2 - length old\<rparr>));
          b3 = add_term_freqs tokens b1
      in b3\<lparr>bm_total_doc_len := bm_total_doc_len b3 + length tokens, bm_docs := fmupd doc tokens (bm_docs b3)\<rparr>)"

fun recompute_loop :: "string list list \<Rightarrow> bm25 \<Rightarrow> bm25" where
  "recompute_loop [] b = b"
| "recompute_loop (tokens # rest) b =
     (let b1 = add_term_freqs tokens b
      in recompute_loop rest (b1\<lparr>bm_total_doc_len := bm_total_doc_len b1 + length tokens\<rparr>))"

text \<open>\<open>recompute\<close>, visiting the documents in the order \<open>ids\<close>.\<close>

definition bm25_recompute :: "string list \<Rightarrow> bm25 \<Rightarrow> bm25" where
  "bm25_recompute ids b =
     recompute_loop (List.map_filter (fmlookup (bm_docs b)) ids)
       (b\<lparr>bm_term_doc_freq := fmempty, bm_total_doc_len := 0\<rparr>)"

section \<open>The concept vocabulary\<close>

type_synonym vocab = "(string, string) fmap"

definition add_alias :: "(string \<Rightarrow> string) \<Rightarrow> string \<Rightarrow> string \<Rightarrow> vocab \<Rightarrow> vocab" where
  "add_alias lower alias canonical v =
     (let canonical_norm = lower canonical; alias_norm = lower alias;
          root = (case fmlookup v canonical_norm of None \<Rightarrow> canonical_norm | Some r \<Rightarrow> r)
      in fmupd alias_norm root v)"

function resolve_loop :: "vocab \<Rightarrow> string \<Rightarrow> string fset \<Rightarrow> string" where
  "resolve_loop v current seen =
     (case fmlookup v current of
        None \<Rightarrow> current
      | Some next \<Rightarrow> if next |\<in>| seen then current else resolve_loop v next (finsert next seen))"
  by pat_completeness auto
termination
proof (relation "measure (\<lambda>(v, current, seen). fcard (fmran v |-| seen))")
  fix v :: vocab and current :: string and seen :: "string fset" and nxt :: string
  assume "fmlookup v current = Some nxt" "nxt |\<notin>| seen"
  then have "fmran v |-| finsert nxt seen |\<subset>| fmran v |-| seen"
    by (auto intro: fmranI)
  then show "((v, nxt, finsert nxt seen), v, current, seen) \<in> measure (\<lambda>(v, current, seen). fcard (fmran v |-| seen))"
    by (simp add: pfsubset_fcard_mono)
qed simp

declare resolve_loop.simps [simp del]

definition resolve :: "(string \<Rightarrow> string) \<Rightarrow> string \<Rightarrow> vocab \<Rightarrow> string" where
  "resolve lower concept v = resolve_loop v (lower concept) {||}"

definition is_alias :: "(string \<Rightarrow> string) \<Rightarrow> string \<Rightarrow> vocab \<Rightarrow> bool" where
  "is_alias lower concept v \<longleftrightarrow> lower concept |\<in>| fmdom v"

definition from_alias_pairs :: "(string \<times> string) list \<Rightarrow> vocab" where
  "from_alias_pairs pairs = foldl (\<lambda>v (a, c). fmupd a c v) fmempty pairs"

section \<open>What the index counts\<close>

definition doc_count :: "(string, string list) fmap \<Rightarrow> string \<Rightarrow> nat" where
  "doc_count docs t = card {doc. \<exists>ts. fmlookup docs doc = Some ts \<and> t \<in> set ts}"

definition doc_len :: "(string, string list) fmap \<Rightarrow> nat" where
  "doc_len docs = (\<Sum>doc\<in>fset (fmdom docs). length (the (fmlookup docs doc)))"

definition freq :: "(string, nat) fmap \<Rightarrow> string \<Rightarrow> nat" where
  "freq df t = (case fmlookup df t of None \<Rightarrow> 0 | Some c \<Rightarrow> c)"

definition bm25_inv :: "bm25 \<Rightarrow> bool" where
  "bm25_inv b \<longleftrightarrow>
     (\<forall>t. freq (bm_term_doc_freq b) t = doc_count (bm_docs b) t) \<and>
     (\<forall>t. fmlookup (bm_term_doc_freq b) t \<noteq> Some 0) \<and> bm_total_doc_len b = doc_len (bm_docs b)"

lemma finite_docs [simp]: "finite {doc. \<exists>ts. fmlookup docs doc = Some ts \<and> t \<in> set ts}"
  by (rule finite_subset [of _ "fset (fmdom docs)"]) (auto intro: fmdomI)

lemma doc_count_insert:
  assumes "fmlookup docs doc = None"
  shows "doc_count (fmupd doc ts docs) t = doc_count docs t + (if t \<in> set ts then 1 else 0)"
proof -
  let ?D = "{i. \<exists>us. fmlookup docs i = Some us \<and> t \<in> set us}"
  have "{i. \<exists>us. fmlookup (fmupd doc ts docs) i = Some us \<and> t \<in> set us} = (if t \<in> set ts then insert doc ?D else ?D)"
    using assms by auto
  then show ?thesis using assms by (simp add: doc_count_def)
qed

lemma doc_count_drop:
  assumes "fmlookup docs doc = Some ts"
  shows "doc_count docs t = doc_count (fmdrop doc docs) t + (if t \<in> set ts then 1 else 0)"
proof -
  have "fmupd doc ts (fmdrop doc docs) = docs"
    using assms by (intro fmap_ext) auto
  then show ?thesis using doc_count_insert [of "fmdrop doc docs" doc ts t] by simp
qed

lemma doc_len_insert:
  assumes "fmlookup docs doc = None"
  shows "doc_len (fmupd doc ts docs) = doc_len docs + length ts"
proof -
  have doc: "doc \<notin> fset (fmdom docs)" using assms by (simp add: fmdom_notI)
  have "(\<Sum>i\<in>fset (fmdom docs). length (the (fmlookup (fmupd doc ts docs) i))) = doc_len docs"
    unfolding doc_len_def by (rule sum.cong) (use doc in auto)
  then show ?thesis using doc by (simp add: doc_len_def)
qed

lemma doc_len_drop:
  assumes "fmlookup docs doc = Some ts"
  shows "doc_len docs = doc_len (fmdrop doc docs) + length ts"
proof -
  have "fmupd doc ts (fmdrop doc docs) = docs"
    using assms by (intro fmap_ext) auto
  then show ?thesis using doc_len_insert [of "fmdrop doc docs" doc ts] by simp
qed

lemma term_freqs_add_freq:
  "freq (term_freqs_add ts seen df) t = freq df t + (if t \<in> set ts \<and> t |\<notin>| seen then 1 else 0)"
  by (induction ts seen df rule: term_freqs_add.induct) (auto simp: freq_def split: option.splits)

lemma term_freqs_add_pos:
  "(\<And>t. fmlookup df t \<noteq> Some 0) \<Longrightarrow> fmlookup (term_freqs_add ts seen df) t \<noteq> Some 0"
  by (induction ts seen df rule: term_freqs_add.induct) (auto split: if_splits)

lemma term_freqs_remove_freq:
  "freq (term_freqs_remove ts seen df) t = freq df t - (if t \<in> set ts \<and> t |\<notin>| seen then 1 else 0)"
  by (induction ts seen df rule: term_freqs_remove.induct) (auto simp: freq_def split: option.splits)

lemma term_freqs_remove_pos:
  "(\<And>t. fmlookup df t \<noteq> Some 0) \<Longrightarrow> fmlookup (term_freqs_remove ts seen df) t \<noteq> Some 0"
  by (induction ts seen df rule: term_freqs_remove.induct) (auto split: if_splits option.splits)

lemma bm25_new_inv: "bm25_inv bm25_new"
  by (simp add: bm25_inv_def bm25_new_def freq_def doc_count_def doc_len_def)

lemma bm25_remove_inv:
  assumes "bm25_inv b"
  shows "bm25_inv (bm25_remove doc b)"
proof (cases "fmlookup (bm_docs b) doc")
  case (Some old)
  then show ?thesis
    using assms doc_count_drop [OF Some] doc_len_drop [OF Some]
    by (auto simp: bm25_inv_def bm25_remove_def remove_term_freqs_def term_freqs_remove_freq term_freqs_remove_pos Let_def)
qed (use assms in \<open>simp add: bm25_remove_def\<close>)

lemma bm25_add_remove:
  "bm25_add words doc text b =
     (let b1 = bm25_remove doc b; tokens = tokenize words text; b3 = add_term_freqs tokens b1
      in b3\<lparr>bm_total_doc_len := bm_total_doc_len b3 + length tokens, bm_docs := fmupd doc tokens (bm_docs b3)\<rparr>)"
  by (simp add: bm25_add_def bm25_remove_def Let_def)

lemma bm25_remove_gone: "fmlookup (bm_docs (bm25_remove doc b)) doc = None"
  by (auto simp: bm25_remove_def remove_term_freqs_def Let_def split: option.splits)

lemma bm25_add_inv:
  assumes "bm25_inv b"
  shows "bm25_inv (bm25_add words doc text b)"
proof -
  have "bm25_inv (bm25_remove doc b)" using assms by (rule bm25_remove_inv)
  then show ?thesis
    using doc_count_insert [OF bm25_remove_gone] doc_len_insert [OF bm25_remove_gone]
    by (auto simp: bm25_add_remove bm25_inv_def add_term_freqs_def term_freqs_add_freq term_freqs_add_pos Let_def)
qed

lemma freq_eq_lookup:
  assumes "\<And>t. freq d t = freq e t" "\<And>t. fmlookup d t \<noteq> Some 0" "\<And>t. fmlookup e t \<noteq> Some 0"
  shows "d = e"
proof (rule fmap_ext)
  fix t show "fmlookup d t = fmlookup e t"
    using assms [of t] by (auto simp: freq_def split: option.splits)
qed

lemma recompute_loop_state:
  "bm_docs (recompute_loop ls b) = bm_docs b \<and> bm_k1 (recompute_loop ls b) = bm_k1 b \<and> bm_b (recompute_loop ls b) = bm_b b \<and>
   bm_total_doc_len (recompute_loop ls b) = bm_total_doc_len b + sum_list (map length ls) \<and>
   freq (bm_term_doc_freq (recompute_loop ls b)) t = freq (bm_term_doc_freq b) t + length (filter (\<lambda>l. t \<in> set l) ls)"
  by (induction ls b rule: recompute_loop.induct) (auto simp: add_term_freqs_def term_freqs_add_freq Let_def)

lemma recompute_loop_pos:
  "(\<And>t. fmlookup (bm_term_doc_freq b) t \<noteq> Some 0) \<Longrightarrow> fmlookup (bm_term_doc_freq (recompute_loop ls b)) t \<noteq> Some 0"
  by (induction ls b rule: recompute_loop.induct) (auto simp: add_term_freqs_def term_freqs_add_pos Let_def)

lemma map_filter_docs:
  assumes "set ids \<subseteq> fset (fmdom docs)"
  shows "List.map_filter (fmlookup docs) ids = map (\<lambda>i. the (fmlookup docs i)) ids"
  using assms by (induction ids) (auto simp: List.map_filter_simps fmlookup_dom_iff)

lemma sum_list_docs:
  assumes "distinct ids" "set ids = fset (fmdom docs)"
  shows "sum_list (map (\<lambda>i. length (the (fmlookup docs i))) ids) = doc_len docs"
  using assms by (simp add: doc_len_def sum_list_distinct_conv_sum_set)

lemma count_docs:
  assumes "distinct ids" "set ids = fset (fmdom docs)"
  shows "length (filter (\<lambda>i. t \<in> set (the (fmlookup docs i))) ids) = doc_count docs t"
proof -
  have "set (filter (\<lambda>i. t \<in> set (the (fmlookup docs i))) ids) = {i. \<exists>ts. fmlookup docs i = Some ts \<and> t \<in> set ts}"
    using assms(2) by (auto simp: fmlookup_dom_iff)
  then show ?thesis
    using distinct_card [OF distinct_filter [OF assms(1), of "\<lambda>i. t \<in> set (the (fmlookup docs i))"]]
    by (simp add: doc_count_def)
qed

lemma recompute_same:
  assumes "bm25_inv b" "distinct ids" "set ids = fset (fmdom (bm_docs b))"
  shows "bm25_recompute ids b = b"
proof -
  let ?ls = "map (\<lambda>i. the (fmlookup (bm_docs b) i)) ids"
  let ?b0 = "b\<lparr>bm_term_doc_freq := fmempty, bm_total_doc_len := 0\<rparr>"
  have r: "bm25_recompute ids b = recompute_loop ?ls ?b0"
    using assms(3) map_filter_docs [of ids "bm_docs b"] by (simp add: bm25_recompute_def)
  have df: "bm_term_doc_freq (recompute_loop ?ls ?b0) = bm_term_doc_freq b"
  proof (rule freq_eq_lookup)
    fix t
    have "length (filter (\<lambda>l. t \<in> set l) ?ls) = doc_count (bm_docs b) t"
      using count_docs [OF assms(2,3), of t] by (simp add: filter_map comp_def)
    then show "freq (bm_term_doc_freq (recompute_loop ?ls ?b0)) t = freq (bm_term_doc_freq b) t"
      using assms(1) recompute_loop_state [of ?ls ?b0 t] by (simp add: bm25_inv_def freq_def)
    show "fmlookup (bm_term_doc_freq b) t \<noteq> Some 0" using assms(1) by (simp add: bm25_inv_def)
    show "fmlookup (bm_term_doc_freq (recompute_loop ?ls ?b0)) t \<noteq> Some 0" by (rule recompute_loop_pos) simp
  qed
  have len: "bm_total_doc_len (recompute_loop ?ls ?b0) = bm_total_doc_len b"
    using assms(1) recompute_loop_state [of ?ls ?b0] sum_list_docs [OF assms(2,3)]
    by (simp add: bm25_inv_def comp_def)
  show ?thesis
    unfolding r using df len recompute_loop_state [of ?ls ?b0] by (intro bm25.equality) simp_all
qed

datatype bm25_op = BmAdd string string | BmRemove string

fun bm25_run :: "(string \<Rightarrow> string list) \<Rightarrow> bm25_op list \<Rightarrow> bm25 \<Rightarrow> bm25" where
  "bm25_run words [] b = b"
| "bm25_run words (BmAdd doc text # ops) b = bm25_run words ops (bm25_add words doc text b)"
| "bm25_run words (BmRemove doc # ops) b = bm25_run words ops (bm25_remove doc b)"

lemma bm25_run_inv: "bm25_inv b \<Longrightarrow> bm25_inv (bm25_run words ops b)"
  by (induction words ops b rule: bm25_run.induct) (simp_all add: bm25_add_inv bm25_remove_inv)

text \<open>C35. The incremental bookkeeping of the BM25 index is exact: after any history of added,
  replaced and removed documents the document frequency of every term is the number of documents
  that contain it, the total length is the sum of their lengths, and the full recomputation, in
  whatever order it visits the documents, changes nothing.\<close>

theorem bm25_incremental_exact:
  "let b = bm25_run words ops bm25_new in
     freq (bm_term_doc_freq b) t = card {doc. \<exists>ts. fmlookup (bm_docs b) doc = Some ts \<and> t \<in> set ts} \<and>
     bm_total_doc_len b = (\<Sum>doc\<in>fset (fmdom (bm_docs b)). length (the (fmlookup (bm_docs b) doc))) \<and>
     (distinct ids \<and> set ids = fset (fmdom (bm_docs b)) \<longrightarrow> bm25_recompute ids b = b)"
  using bm25_run_inv [OF bm25_new_inv, of words ops] recompute_same [of "bm25_run words ops bm25_new" ids]
  by (simp add: bm25_inv_def doc_count_def doc_len_def Let_def)

definition demo_words :: "string \<Rightarrow> string list" where
  "demo_words s = [''rust'', ''safe'']"

theorem bm25_incremental_exact_witness:
  "bm25_recompute [''m1''] (bm25_run demo_words [BmAdd ''m1'' ''Rust, safe''] bm25_new) =
   bm25_run demo_words [BmAdd ''m1'' ''Rust, safe''] bm25_new"
  using bm25_incremental_exact [where words = demo_words and ops = "[BmAdd ''m1'' ''Rust, safe'']" and ids = "[''m1'']" and t = "''rust''"]
  by (simp add: bm25_add_def bm25_new_def add_term_freqs_def Let_def)

section \<open>Alias chains\<close>

text \<open>\<open>alias_path v a ps\<close>: following the aliases from \<open>a\<close> visits \<open>ps\<close>.\<close>

fun alias_path :: "vocab \<Rightarrow> string \<Rightarrow> string list \<Rightarrow> bool" where
  "alias_path v a [] \<longleftrightarrow> True"
| "alias_path v a (p # ps) \<longleftrightarrow> fmlookup v a = Some p \<and> alias_path v p ps"

lemma alias_path_append: "alias_path v a (xs @ ys) \<longleftrightarrow> alias_path v a xs \<and> alias_path v (last (a # xs)) ys"
  by (induction xs arbitrary: a) auto

lemma alias_path_ran: "alias_path v a ps \<Longrightarrow> set ps \<subseteq> fset (fmran v)"
  by (induction ps arbitrary: a) (auto intro: fmranI)

lemma resolve_loop_walk:
  assumes "alias_path v a ps" "distinct ps" "set ps \<inter> fset S = {}"
  shows "resolve_loop v a S = resolve_loop v (last (a # ps)) (S |\<union>| fset_of_list ps)"
  using assms
proof (induction ps arbitrary: a S)
  case (Cons p ps)
  then have "resolve_loop v a S = resolve_loop v p (finsert p S)"
    by (subst resolve_loop.simps) auto
  also have "\<dots> = resolve_loop v (last (p # ps)) (finsert p S |\<union>| fset_of_list ps)"
    using Cons.prems by (intro Cons.IH) auto
  finally show ?case by (simp add: sup_commute)
qed simp

lemma resolve_loop_ends:
  "\<exists>ps. alias_path v a ps \<and> distinct ps \<and> set ps \<inter> fset S = {} \<and> resolve_loop v a S = last (a # ps) \<and>
     (case fmlookup v (last (a # ps)) of None \<Rightarrow> True | Some n \<Rightarrow> n \<in> fset S \<union> set ps)"
proof (induction v a S rule: resolve_loop.induct)
  case (1 v a S)
  show ?case
  proof (cases "\<exists>n. fmlookup v a = Some n \<and> n |\<notin>| S")
    case True
    then obtain n where n: "fmlookup v a = Some n" "n |\<notin>| S" by blast
    obtain ps where ps: "alias_path v n ps" "distinct ps" "set ps \<inter> fset (finsert n S) = {}"
        "resolve_loop v n (finsert n S) = last (n # ps)"
        "case fmlookup v (last (n # ps)) of None \<Rightarrow> True | Some m \<Rightarrow> m \<in> fset (finsert n S) \<union> set ps"
      using "1.IH" [OF n] by blast
    have "resolve_loop v a S = last (a # n # ps)"
      using n ps(4) by (subst resolve_loop.simps) simp
    with n ps show ?thesis
      by (intro exI [of _ "n # ps"]) (auto split: option.splits)
  next
    case False
    then have "resolve_loop v a S = a" by (subst resolve_loop.simps) (auto split: option.splits)
    then show ?thesis using False by (intro exI [of _ "[]"]) (auto split: option.splits)
  qed
qed

lemma resolve_loop_idem: "resolve_loop v (resolve_loop v a {||}) {||} = resolve_loop v a {||}"
proof -
  define r where "r = resolve_loop v a {||}"
  obtain ps where ps: "alias_path v a ps" "distinct ps" "r = last (a # ps)"
      "case fmlookup v r of None \<Rightarrow> True | Some n \<Rightarrow> n \<in> set ps"
    using resolve_loop_ends [of v a "{||}"] unfolding r_def by (metis bot_fset.rep_eq sup_bot_left)
  show ?thesis
  proof (cases "fmlookup v r")
    case None
    then show ?thesis unfolding r_def [symmetric] by (subst resolve_loop.simps) simp
  next
    case (Some n)
    then obtain xs ys where split: "ps = xs @ n # ys" using ps(4) by (auto dest: split_list)
    have "alias_path v r (n # ys)" using ps(1) Some by (simp add: split alias_path_append)
    moreover have "last (r # n # ys) = r" using ps(3) by (simp add: split)
    ultimately have "resolve_loop v r {||} = resolve_loop v r (fset_of_list (n # ys))"
      using ps(2) resolve_loop_walk [of v r "n # ys" "{||}"] by (simp add: split)
    also have "\<dots> = r" using Some by (subst resolve_loop.simps) simp
    finally show ?thesis by (simp add: r_def)
  qed
qed

text \<open>C36. Resolving a concept through the vocabulary always ends, also when the aliases form a
  cycle, and yields a canonical form: resolving the result again gives the same name (the names the
  vocabulary holds being in lower case, as \<open>add_alias\<close> makes them).\<close>

theorem resolve_idempotent:
  assumes "\<forall>c \<in> fset (fmran v). lower c = c" "lower (lower concept) = lower concept"
  shows "resolve lower (resolve lower concept v) v = resolve lower concept v"
proof -
  obtain ps where ps: "alias_path v (lower concept) ps" "resolve_loop v (lower concept) {||} = last (lower concept # ps)"
    using resolve_loop_ends [of v "lower concept" "{||}"] by blast
  have "set ps \<subseteq> fset (fmran v)"
    using ps(1) by (rule alias_path_ran)
  then have "lower (resolve_loop v (lower concept) {||}) = resolve_loop v (lower concept) {||}"
    using assms ps(2) by (cases ps rule: rev_cases) auto
  then show ?thesis by (simp add: resolve_def resolve_loop_idem)
qed

theorem resolve_idempotent_witness:
  "resolve (\<lambda>s. s) (resolve (\<lambda>s. s) ''a'' (add_alias (\<lambda>s. s) ''b'' ''a'' (add_alias (\<lambda>s. s) ''a'' ''b'' fmempty)))
     (add_alias (\<lambda>s. s) ''b'' ''a'' (add_alias (\<lambda>s. s) ''a'' ''b'' fmempty)) =
   resolve (\<lambda>s. s) ''a'' (add_alias (\<lambda>s. s) ''b'' ''a'' (add_alias (\<lambda>s. s) ''a'' ''b'' fmempty))"
  by (rule resolve_idempotent) simp_all

end
