(* ===== verification/Memory_Graph.thy ===== *)
theory Memory_Graph
  imports Lexical_Index
begin

text \<open>
  The cognitive graph of \<open>turbomemory_graph/src/graph.rs\<close>: nodes for memories and concepts interned
  to dense 32-bit ids, a vector of edges, and an adjacency index from a node to the positions of
  its outgoing edges. This theory holds the data, the operations that add, remove and reweight
  memories, and the invariant they keep. Indexing a vector out of range panics in the program; the
  model indexes with \<open>!\<close>, and the invariant (every position in the adjacency index is in range,
  every endpoint is a live node) shows that no such index is ever out of range.
\<close>

section \<open>Nodes and edges\<close>

datatype node_id = Memory string | Concept string

fun as_str :: "node_id \<Rightarrow> string" where
  "as_str (Memory s) = ''mem:'' @ s"
| "as_str (Concept s) = ''concept:'' @ s"

declare as_str.simps [simp del]

lemma as_str_inject [simp]: "as_str a = as_str b \<longleftrightarrow> a = b"
  by (cases a; cases b) (simp_all add: as_str.simps)

datatype node_kind = KMemory | KConcept

record internal_node =
  n_kind :: node_kind
  n_external_id :: string
  n_text :: string
  n_base_importance_factor :: f32

datatype edge_kind = Association | Temporal | Abstraction | Refines | Contradicts

record internal_edge =
  e_source :: u32
  e_target :: u32
  e_kind :: edge_kind
  e_weight :: f32
  e_last_reinforced_at :: u64

record gnode =
  nd_id :: node_id
  nd_text :: string
  nd_base_importance_factor :: f32

record gedge =
  ed_source :: node_id
  ed_target :: node_id
  ed_kind :: edge_kind
  ed_weight :: f32
  ed_last_reinforced_at :: u64

definition importance_factor :: "f32 \<Rightarrow> f32" where
  "importance_factor importance =
     (if \<not> f32_is_finite importance \<or> f32_le importance f32_zero then 0x3DCCCCCD else f32_sqrt importance)"

definition f32_min :: "f32 \<Rightarrow> f32 \<Rightarrow> f32" where
  "f32_min a b = (if f32_is_nan a then b else if f32_is_nan b then a else if f32_lt b a then b else a)"

section \<open>The interner\<close>

record interner =
  in_key_to_id :: "(string, u32) fmap"
  in_id_to_key :: "string list"
  in_id_to_node :: "internal_node list"

definition interner_new :: interner where
  "interner_new = \<lparr>in_key_to_id = fmempty, in_id_to_key = [], in_id_to_node = []\<rparr>"

definition intern :: "string \<Rightarrow> internal_node \<Rightarrow> interner \<Rightarrow> u32 \<times> interner" where
  "intern key n it =
     (case fmlookup (in_key_to_id it) key of
        Some i \<Rightarrow> (i, it)
      | None \<Rightarrow>
          (let i = word_of_nat (length (in_id_to_key it))
           in (i, \<lparr>in_key_to_id = fmupd key i (in_key_to_id it), in_id_to_key = in_id_to_key it @ [key],
                    in_id_to_node = in_id_to_node it @ [n]\<rparr>)))"

definition in_resolve :: "string \<Rightarrow> interner \<Rightarrow> u32 option" where
  "in_resolve key it = fmlookup (in_key_to_id it) key"

definition in_get :: "u32 \<Rightarrow> interner \<Rightarrow> internal_node option" where
  "in_get i it = (if unat i < length (in_id_to_node it) then Some (in_id_to_node it ! unat i) else None)"

text \<open>\<open>iter\<close> skips the slots whose key is no longer mapped to them.\<close>

definition in_iter :: "interner \<Rightarrow> (u32 \<times> string \<times> internal_node) list" where
  "in_iter it =
     map (\<lambda>(i, k). (word_of_nat i, k, in_id_to_node it ! i))
       (filter (\<lambda>(i, k). fmlookup (in_key_to_id it) k = Some (word_of_nat i)) (List.enumerate 0 (in_id_to_key it)))"

definition memory_nodes :: "interner \<Rightarrow> (u32 \<times> string \<times> internal_node) list" where
  "memory_nodes it = filter (\<lambda>(_, _, n). n_kind n = KMemory) (in_iter it)"

section \<open>The adjacency index\<close>

type_synonym adjacency = "(u32, nat list) fmap"

definition adj_add :: "u32 \<Rightarrow> nat \<Rightarrow> adjacency \<Rightarrow> adjacency" where
  "adj_add source idx a = fmupd source ((case fmlookup a source of None \<Rightarrow> [] | Some v \<Rightarrow> v) @ [idx]) a"

definition adj_get :: "u32 \<Rightarrow> adjacency \<Rightarrow> nat list option" where
  "adj_get source a = fmlookup a source"

definition adj_rebuild :: "internal_edge list \<Rightarrow> adjacency" where
  "adj_rebuild edges = foldl (\<lambda>a (idx, e). adj_add (e_source e) idx a) fmempty (List.enumerate 0 edges)"

text \<open>\<open>get(source)\<close> with the empty slice for a node without outgoing edges.\<close>

definition adj_list :: "u32 \<Rightarrow> adjacency \<Rightarrow> nat list" where
  "adj_list source a = (case adj_get source a of None \<Rightarrow> [] | Some v \<Rightarrow> v)"

section \<open>The graph\<close>

record mgraph =
  g_interner :: interner
  g_edges :: "internal_edge list"
  g_adjacency :: adjacency
  g_last_memory_id :: "string option"
  g_last_memory_by_scope :: "(string, string) fmap"
  g_co_occurrence :: "(string, nat) fmap"
  g_vocab :: vocab
  g_suppressed :: "string fset"

definition graph_new :: mgraph where
  "graph_new =
     \<lparr>g_interner = interner_new, g_edges = [], g_adjacency = fmempty, g_last_memory_id = None,
      g_last_memory_by_scope = fmempty, g_co_occurrence = fmempty, g_vocab = fmempty, g_suppressed = {||}\<rparr>"

definition intern_node :: "string \<Rightarrow> node_kind \<Rightarrow> string \<Rightarrow> string \<Rightarrow> f32 \<Rightarrow> mgraph \<Rightarrow> u32 \<times> mgraph" where
  "intern_node key kind ext text base g =
     (case fmlookup (in_key_to_id (g_interner g)) key of
        Some i \<Rightarrow> (i, g)
      | None \<Rightarrow>
          (let (i, it) = intern key \<lparr>n_kind = kind, n_external_id = ext, n_text = text, n_base_importance_factor = base\<rparr>
                           (g_interner g)
           in (i, g\<lparr>g_interner := it\<rparr>)))"

definition get_node_id :: "string \<Rightarrow> mgraph \<Rightarrow> u32 option" where
  "get_node_id key g = in_resolve key (g_interner g)"

definition push_edge :: "internal_edge \<Rightarrow> mgraph \<Rightarrow> mgraph" where
  "push_edge e g =
     g\<lparr>g_edges := g_edges g @ [e], g_adjacency := adj_add (e_source e) (length (g_edges g)) (g_adjacency g)\<rparr>"

definition add_int_edge :: "u32 \<Rightarrow> u32 \<Rightarrow> edge_kind \<Rightarrow> f32 \<Rightarrow> mgraph \<Rightarrow> mgraph" where
  "add_int_edge source target kind weight g =
     push_edge \<lparr>e_source = source, e_target = target, e_kind = kind, e_weight = weight, e_last_reinforced_at = 0\<rparr> g"

text \<open>The concepts of a memory: resolved, without the empty name and without repeats.\<close>

fun norm_concepts :: "(string \<Rightarrow> string) \<Rightarrow> vocab \<Rightarrow> string list \<Rightarrow> string fset \<Rightarrow> string list" where
  "norm_concepts lower v [] seen = []"
| "norm_concepts lower v (c # cs) seen =
     (let norm = resolve lower c v in
      if norm = [] \<or> norm |\<in>| seen then norm_concepts lower v cs seen
      else norm # norm_concepts lower v cs (finsert norm seen))"

definition link_concept :: "u32 \<Rightarrow> f32 \<Rightarrow> mgraph \<Rightarrow> string \<Rightarrow> mgraph" where
  "link_concept mem imp g c =
     (let (cid, g1) = intern_node (as_str (Concept c)) KConcept c c f32_zero g
      in add_int_edge cid mem Association imp (add_int_edge mem cid Association imp g1))"

fun all_pairs :: "'a list \<Rightarrow> ('a \<times> 'a) list" where
  "all_pairs [] = []"
| "all_pairs (x # xs) = map (Pair x) xs @ all_pairs xs"

definition co_key :: "string \<Rightarrow> string \<Rightarrow> string" where
  "co_key a b = ''concept:'' @ a @ [CHR 0x00] @ ''concept:'' @ b"

definition count_pair :: "(string, nat) fmap \<Rightarrow> string \<times> string \<Rightarrow> (string, nat) fmap" where
  "count_pair m p =
     (let key = co_key (fst p) (snd p) in fmupd key ((case fmlookup m key of None \<Rightarrow> 0 | Some c \<Rightarrow> c) + 1) m)"

definition chain_memory :: "string \<Rightarrow> u32 \<Rightarrow> f32 \<Rightarrow> string option \<Rightarrow> mgraph \<Rightarrow> mgraph" where
  "chain_memory mid mem imp scope g =
     (let scope_key = (case scope of None \<Rightarrow> [] | Some s \<Rightarrow> s);
          (prev_opt, g1) =
            (case fmlookup (g_last_memory_by_scope g) scope_key of
               Some prev \<Rightarrow> (Some prev, g\<lparr>g_last_memory_by_scope := fmdrop scope_key (g_last_memory_by_scope g)\<rparr>)
             | None \<Rightarrow> if scope = None then (g_last_memory_id g, g\<lparr>g_last_memory_id := None\<rparr>) else (None, g));
          g2 = (case prev_opt of
                  None \<Rightarrow> g1
                | Some prev \<Rightarrow>
                    (case get_node_id (as_str (Memory prev)) g1 of
                       None \<Rightarrow> g1
                     | Some prev_id \<Rightarrow> add_int_edge prev_id mem Temporal (f32_mul 0x3F000000 imp) g1));
          g3 = g2\<lparr>g_last_memory_by_scope := fmupd scope_key mid (g_last_memory_by_scope g2)\<rparr>
      in if scope = None then g3\<lparr>g_last_memory_id := Some mid\<rparr> else g3)"

definition add_memory_scoped ::
    "(string \<Rightarrow> string) \<Rightarrow> string \<Rightarrow> string \<Rightarrow> string list \<Rightarrow> f32 \<Rightarrow> string option \<Rightarrow> mgraph \<Rightarrow> mgraph" where
  "add_memory_scoped lower mid text concepts importance scope g =
     (let imp = importance_factor importance;
          (mem, g1) = intern_node (as_str (Memory mid)) KMemory mid text imp g;
          normalized = norm_concepts lower (g_vocab g1) concepts {||};
          g2 = foldl (link_concept mem imp) g1 normalized;
          g3 = (if 1 < length normalized
                then g2\<lparr>g_co_occurrence := foldl count_pair (g_co_occurrence g2) (all_pairs (sort normalized))\<rparr>
                else g2)
      in chain_memory mid mem imp scope g3)"

definition ensure_int_edge :: "u32 \<Rightarrow> u32 \<Rightarrow> edge_kind \<Rightarrow> f32 \<Rightarrow> u64 \<Rightarrow> mgraph \<Rightarrow> mgraph" where
  "ensure_int_edge source target kind weight stamp g =
     (case List.find (\<lambda>i. e_kind (g_edges g ! i) = kind \<and> e_target (g_edges g ! i) = target)
             (adj_list source (g_adjacency g)) of
        Some i \<Rightarrow>
          (let e = g_edges g ! i
           in g\<lparr>g_edges := (g_edges g)[i := e\<lparr>e_weight := f32_max (e_weight e) weight,
                  e_last_reinforced_at := max (e_last_reinforced_at e) stamp\<rparr>]\<rparr>)
      | None \<Rightarrow>
          push_edge \<lparr>e_source = source, e_target = target, e_kind = kind, e_weight = weight, e_last_reinforced_at = stamp\<rparr> g)"

definition ensure_concept :: "u32 \<Rightarrow> f32 \<Rightarrow> mgraph \<Rightarrow> string \<Rightarrow> mgraph" where
  "ensure_concept mem imp g c =
     (let (cid, g1) = intern_node (as_str (Concept c)) KConcept c c f32_zero g
      in ensure_int_edge cid mem Association imp 0 (ensure_int_edge mem cid Association imp 0 g1))"

definition add_concepts_to_memory ::
    "(string \<Rightarrow> string) \<Rightarrow> string \<Rightarrow> string list \<Rightarrow> f32 \<Rightarrow> mgraph \<Rightarrow> bool \<times> mgraph" where
  "add_concepts_to_memory lower mid concepts importance g =
     (case get_node_id (as_str (Memory mid)) g of
        None \<Rightarrow> (False, g)
      | Some mem \<Rightarrow>
          (True, foldl (ensure_concept mem (importance_factor importance)) g
                   (norm_concepts lower (g_vocab g) concepts {||})))"

definition drop_node_edges :: "u32 \<Rightarrow> mgraph \<Rightarrow> mgraph" where
  "drop_node_edges i g =
     (let es = filter (\<lambda>e. e_source e \<noteq> i \<and> e_target e \<noteq> i) (g_edges g)
      in g\<lparr>g_edges := es, g_adjacency := adj_rebuild es\<rparr>)"

definition forget_key :: "string \<Rightarrow> mgraph \<Rightarrow> mgraph" where
  "forget_key key g = g\<lparr>g_interner := (g_interner g)\<lparr>in_key_to_id := fmdrop key (in_key_to_id (g_interner g))\<rparr>\<rparr>"

definition remove_memory :: "string \<Rightarrow> mgraph \<Rightarrow> mgraph" where
  "remove_memory mid g =
     (case get_node_id (as_str (Memory mid)) g of
        None \<Rightarrow> g
      | Some mem \<Rightarrow> drop_node_edges mem (forget_key (as_str (Memory mid)) g))"

section \<open>Views\<close>

definition node_count :: "mgraph \<Rightarrow> nat" where
  "node_count g = length (in_iter (g_interner g))"

definition edge_count :: "mgraph \<Rightarrow> nat" where
  "edge_count g = length (g_edges g)"

definition memory_count :: "mgraph \<Rightarrow> nat" where
  "memory_count g = length (filter (\<lambda>(_, _, n). n_kind n = KMemory) (in_iter (g_interner g)))"

definition concept_degree :: "string \<Rightarrow> mgraph \<Rightarrow> nat" where
  "concept_degree concept g =
     (case get_node_id (as_str (Concept concept)) g of
        None \<Rightarrow> 0
      | Some i \<Rightarrow> length (filter (\<lambda>j. e_kind (g_edges g ! j) = Association) (adj_list i (g_adjacency g))))"

definition id_of_node :: "internal_node \<Rightarrow> node_id" where
  "id_of_node n = (case n_kind n of KMemory \<Rightarrow> Memory (n_external_id n) | KConcept \<Rightarrow> Concept (n_external_id n))"

definition gnode_of :: "internal_node \<Rightarrow> gnode" where
  "gnode_of n = \<lparr>nd_id = id_of_node n, nd_text = n_text n, nd_base_importance_factor = n_base_importance_factor n\<rparr>"

definition graph_nodes :: "mgraph \<Rightarrow> (string, gnode) fmap" where
  "graph_nodes g = foldl (\<lambda>m (_, k, n). fmupd k (gnode_of n) m) fmempty (in_iter (g_interner g))"

text \<open>\<open>None\<close> is the panic of \<open>expect\<close>.\<close>

definition gedge_of :: "interner \<Rightarrow> internal_edge \<Rightarrow> gedge option" where
  "gedge_of it e =
     (case (in_get (e_source e) it, in_get (e_target e) it) of
        (Some s, Some t) \<Rightarrow>
          Some \<lparr>ed_source = id_of_node s, ed_target = id_of_node t, ed_kind = e_kind e, ed_weight = e_weight e,
                ed_last_reinforced_at = e_last_reinforced_at e\<rparr>
      | _ \<Rightarrow> None)"

definition graph_edges :: "mgraph \<Rightarrow> gedge list option" where
  "graph_edges g = those (map (gedge_of (g_interner g)) (g_edges g))"

definition neighbors :: "string \<Rightarrow> mgraph \<Rightarrow> gedge list option" where
  "neighbors key g =
     (case get_node_id key g of
        None \<Rightarrow> Some []
      | Some i \<Rightarrow> those (map (\<lambda>j. gedge_of (g_interner g) (g_edges g ! j)) (adj_list i (g_adjacency g))))"

definition iter_memory_nodes :: "mgraph \<Rightarrow> (string \<times> gnode) list" where
  "iter_memory_nodes g = map (\<lambda>(_, k, n). (k, gnode_of n)) (memory_nodes (g_interner g))"

text \<open>The targets of the outgoing edges of one kind, as far as they are nodes of a given kind: the
  shape of \<open>memory_concepts\<close>, \<open>refined_by\<close> and \<open>contradicted_by\<close>.\<close>

definition targets :: "edge_kind \<Rightarrow> node_kind \<Rightarrow> string \<Rightarrow> mgraph \<Rightarrow> string list" where
  "targets ek nk mid g =
     (case get_node_id (as_str (Memory mid)) g of
        None \<Rightarrow> []
      | Some i \<Rightarrow>
          List.map_filter (\<lambda>j. case in_get (e_target (g_edges g ! j)) (g_interner g) of
              None \<Rightarrow> None
            | Some n \<Rightarrow> if n_kind n = nk then Some (n_external_id n) else None)
            (filter (\<lambda>j. e_kind (g_edges g ! j) = ek) (adj_list i (g_adjacency g))))"

definition memory_concepts :: "string \<Rightarrow> mgraph \<Rightarrow> string list" where
  "memory_concepts mid g = targets Association KConcept mid g"

definition refined_by :: "string \<Rightarrow> mgraph \<Rightarrow> string list" where
  "refined_by mid g = targets Refines KMemory mid g"

definition contradicted_by :: "string \<Rightarrow> mgraph \<Rightarrow> string list" where
  "contradicted_by mid g = targets Contradicts KMemory mid g"

section \<open>Learning\<close>

definition boosted :: "u64 \<Rightarrow> internal_edge \<Rightarrow> internal_edge" where
  "boosted now e =
     (let boost = (if e_last_reinforced_at e = 0 then 0x3FC00000
                   else f32_add f32_one (f32_div 0x3DCCCCCD (f32_add f32_one (e_weight e))))
      in e\<lparr>e_weight := f32_min (f32_mul (e_weight e) boost) 0x41000000, e_last_reinforced_at := now\<rparr>)"

definition reinforce :: "string \<Rightarrow> u64 \<Rightarrow> mgraph \<Rightarrow> mgraph" where
  "reinforce mid now0 g =
     (case get_node_id (as_str (Memory mid)) g of
        None \<Rightarrow> g
      | Some mem \<Rightarrow>
          (let now = max now0 1;
               es1 = foldl (\<lambda>es i. es[i := boosted now (es ! i)]) (g_edges g) (adj_list mem (g_adjacency g));
               es2 = map (\<lambda>e. if e_kind e = Association \<and> e_target e = mem then boosted now e else e) es1
           in g\<lparr>g_edges := es2\<rparr>))"

definition f64_of_u64 :: "u64 \<Rightarrow> f64" where
  "f64_of_u64 w = word_of_nat (round_pat fmt64 (of_nat (unat w)))"

definition f64_div :: "f64 \<Rightarrow> f64 \<Rightarrow> f64" where
  "f64_div a b = word_of_nat (pat_div fmt64 (unat a) (unat b))"

definition f32_of_f64 :: "f64 \<Rightarrow> f32" where
  "f32_of_f64 a =
     word_of_nat (if nan_pat fmt64 (unat a) then nan_canon fmt32
       else if \<not> finite_pat fmt64 (unat a) then with_sign fmt32 (neg_of fmt64 (unat a)) (inf_mag fmt32)
       else with_sign fmt32 (neg_of fmt64 (unat a)) (round_mag fmt32 \<bar>float_val fmt64 (unat a)\<bar>))"

text \<open>\<open>powf\<close> is the platform's power function, whose rounding the language leaves open.\<close>

definition decay_edges :: "(f64 \<Rightarrow> f64 \<Rightarrow> f64) \<Rightarrow> u64 \<Rightarrow> u64 \<Rightarrow> mgraph \<Rightarrow> mgraph" where
  "decay_edges powf now half_life g =
     (if half_life = 0 then g
      else let hl = f64_of_u64 half_life in
        g\<lparr>g_edges := map (\<lambda>e.
            if e_last_reinforced_at e = 0 then e
            else let age = f64_of_u64 (sat_sub64 now (e_last_reinforced_at e));
                     factor = f32_of_f64 (powf 0x3FE0000000000000 (f64_div age hl));
                     decayed = f32_mul (e_weight e) factor
                 in e\<lparr>e_weight := f32_max decayed (f32_min (e_weight e) f32_one)\<rparr>) (g_edges g)\<rparr>)"

definition own_edge :: "internal_edge \<Rightarrow> bool" where
  "own_edge e \<longleftrightarrow> e_kind e = Association \<or> e_kind e = Temporal"

definition own_idxs :: "u32 \<Rightarrow> mgraph \<Rightarrow> nat list" where
  "own_idxs mem g =
     foldl (\<lambda>own (i, e). if e_target e = mem \<and> own_edge e \<and> i \<notin> set own then own @ [i] else own)
       (filter (\<lambda>i. own_edge (g_edges g ! i)) (adj_list mem (g_adjacency g)))
       (List.enumerate 0 (g_edges g))"

definition min_weight :: "internal_edge list \<Rightarrow> nat list \<Rightarrow> f32" where
  "min_weight es idxs = foldl f32_min 0x7F800000 (map (\<lambda>i. e_weight (es ! i)) idxs)"

definition reweight_ratio :: "f32 \<Rightarrow> u32 \<Rightarrow> nat list \<Rightarrow> mgraph \<Rightarrow> f32" where
  "reweight_ratio new_factor mem own g =
     (let stored = (case in_get mem (g_interner g) of None \<Rightarrow> f32_zero | Some n \<Rightarrow> n_base_importance_factor n);
          unreinforced = min_weight (g_edges g) (filter (\<lambda>i. e_last_reinforced_at (g_edges g ! i) = 0) own);
          old_factor = f32_max (if f32_lt f32_zero stored then stored
                                else if f32_is_finite unreinforced then unreinforced
                                else min_weight (g_edges g) own) 0x358637BD
      in f32_div new_factor old_factor)"

definition reweight_memory :: "string \<Rightarrow> f32 \<Rightarrow> mgraph \<Rightarrow> bool \<times> mgraph" where
  "reweight_memory mid new_importance g =
     (case get_node_id (as_str (Memory mid)) g of
        None \<Rightarrow> (False, g)
      | Some mem \<Rightarrow>
          (let new_factor = importance_factor new_importance; own = own_idxs mem g in
           if own = [] then (False, g)
           else let ratio = reweight_ratio new_factor mem own g;
                    es = foldl (\<lambda>es i. es[i := (es ! i)\<lparr>e_weight :=
                             f32_clamp (f32_mul (e_weight (es ! i)) ratio) 0x3C23D70A 0x41000000\<rparr>]) (g_edges g) own;
                    it = g_interner g;
                    it' = (if unat mem < length (in_id_to_node it)
                           then it\<lparr>in_id_to_node := (in_id_to_node it)[unat mem :=
                                  (in_id_to_node it ! unat mem)\<lparr>n_base_importance_factor := new_factor\<rparr>]\<rparr>
                           else it)
                in (True, g\<lparr>g_edges := es, g_interner := it'\<rparr>)))"

section \<open>Belief edges\<close>

definition has_edge_to :: "u32 \<Rightarrow> edge_kind \<Rightarrow> u32 \<Rightarrow> mgraph \<Rightarrow> bool" where
  "has_edge_to source kind target g \<longleftrightarrow>
     list_ex (\<lambda>i. e_kind (g_edges g ! i) = kind \<and> e_target (g_edges g ! i) = target) (adj_list source (g_adjacency g))"

definition add_refinement :: "string \<Rightarrow> string \<Rightarrow> f32 \<Rightarrow> mgraph \<Rightarrow> bool \<times> mgraph" where
  "add_refinement old_id new_id weight g =
     (case (get_node_id (as_str (Memory old_id)) g, get_node_id (as_str (Memory new_id)) g) of
        (Some old_nid, Some new_nid) \<Rightarrow>
          if has_edge_to old_nid Refines new_nid g then (False, g)
          else (True, add_int_edge old_nid new_nid Refines weight g)
      | _ \<Rightarrow> (False, g))"

definition add_contradiction :: "string \<Rightarrow> string \<Rightarrow> f32 \<Rightarrow> f32 \<Rightarrow> mgraph \<Rightarrow> bool \<times> mgraph" where
  "add_contradiction old_id new_id weight weaken_factor g =
     (case (get_node_id (as_str (Memory old_id)) g, get_node_id (as_str (Memory new_id)) g) of
        (Some old_nid, Some new_nid) \<Rightarrow>
          if has_edge_to old_nid Contradicts new_nid g then (False, g)
          else let es = foldl (\<lambda>es i. if own_edge (es ! i)
                            then es[i := (es ! i)\<lparr>e_weight := f32_mul (e_weight (es ! i)) weaken_factor\<rparr>] else es)
                          (g_edges g) (adj_list old_nid (g_adjacency g))
               in (True, add_int_edge old_nid new_nid Contradicts weight (g\<lparr>g_edges := es\<rparr>))
      | _ \<Rightarrow> (False, g))"

definition refinement_count :: "mgraph \<Rightarrow> nat" where
  "refinement_count g = length (filter (\<lambda>e. e_kind e = Refines) (g_edges g))"

definition contradiction_count :: "mgraph \<Rightarrow> nat" where
  "contradiction_count g = length (filter (\<lambda>e. e_kind e = Contradicts) (g_edges g))"

definition abstraction_count :: "mgraph \<Rightarrow> nat" where
  "abstraction_count g =
     length (filter (\<lambda>(_, _, n). n_kind n = KConcept \<and> CHR ''+'' \<in> set (n_external_id n)) (in_iter (g_interner g)))"

definition concept_count :: "mgraph \<Rightarrow> nat" where
  "concept_count g =
     length (filter (\<lambda>(_, _, n). n_kind n = KConcept \<and> CHR ''+'' \<notin> set (n_external_id n)) (in_iter (g_interner g)))"

record graph_stats =
  gs_node_count :: nat
  gs_edge_count :: nat
  gs_memory_count :: nat
  gs_concept_count :: nat
  gs_refinement_count :: nat
  gs_contradiction_count :: nat
  gs_abstraction_count :: nat

definition stats :: "mgraph \<Rightarrow> graph_stats" where
  "stats g =
     \<lparr>gs_node_count = node_count g, gs_edge_count = edge_count g, gs_memory_count = memory_count g,
      gs_concept_count = concept_count g, gs_refinement_count = refinement_count g,
      gs_contradiction_count = contradiction_count g, gs_abstraction_count = abstraction_count g\<rparr>"

section \<open>The adjacency index is the edges by source\<close>

definition out_idxs :: "internal_edge list \<Rightarrow> u32 \<Rightarrow> nat list" where
  "out_idxs es s = filter (\<lambda>i. e_source (es ! i) = s) [0..<length es]"

definition adj_ok :: "internal_edge list \<Rightarrow> adjacency \<Rightarrow> bool" where
  "adj_ok es a \<longleftrightarrow> (\<forall>s. fmlookup a s = (if out_idxs es s = [] then None else Some (out_idxs es s)))"

definition edge_shape :: "internal_edge \<Rightarrow> u32 \<times> u32 \<times> edge_kind" where
  "edge_shape e = (e_source e, e_target e, e_kind e)"

lemma out_idxs_Nil [simp]: "out_idxs [] s = []"
  by (simp add: out_idxs_def)

lemma out_idxs_snoc: "out_idxs (es @ [e]) s = out_idxs es s @ (if e_source e = s then [length es] else [])"
proof -
  have "filter (\<lambda>i. e_source ((es @ [e]) ! i) = s) [0..<length es] = filter (\<lambda>i. e_source (es ! i) = s) [0..<length es]"
    by (rule filter_cong) (auto simp: nth_append)
  then show ?thesis by (simp add: out_idxs_def)
qed

lemma out_idxs_mem [simp]: "i \<in> set (out_idxs es s) \<longleftrightarrow> i < length es \<and> e_source (es ! i) = s"
  by (auto simp: out_idxs_def)

lemma out_idxs_distinct [simp]: "distinct (out_idxs es s)"
  by (simp add: out_idxs_def)

lemma out_idxs_edges: "map ((!) es) (out_idxs es s) = filter (\<lambda>e. e_source e = s) es"
proof (induction es rule: rev_induct)
  case (snoc e es)
  have "map ((!) (es @ [e])) (out_idxs es s) = map ((!) es) (out_idxs es s)"
    by (rule map_cong) (auto simp: nth_append)
  then show ?case using snoc by (simp add: out_idxs_snoc)
qed simp

lemma out_idxs_shape:
  assumes "map edge_shape es' = map edge_shape es"
  shows "out_idxs es' s = out_idxs es s"
proof -
  have len: "length es' = length es" using assms by (metis length_map)
  have "e_source (es' ! i) = e_source (es ! i)" if "i < length es" for i
    using assms that len by (metis (no_types, lifting) edge_shape_def fst_conv nth_map)
  then show ?thesis using len unfolding out_idxs_def by (intro filter_cong) auto
qed

lemma adj_ok_list [simp]: "adj_ok es a \<Longrightarrow> adj_list s a = out_idxs es s"
  by (simp add: adj_ok_def adj_list_def adj_get_def)

lemma adj_ok_push: "adj_ok es a \<Longrightarrow> adj_ok (es @ [e]) (adj_add (e_source e) (length es) a)"
  by (auto simp: adj_ok_def adj_add_def out_idxs_snoc)

lemma adj_ok_empty: "adj_ok [] fmempty"
  by (simp add: adj_ok_def)

lemma adj_ok_rebuild: "adj_ok es (adj_rebuild es)"
proof (induction es rule: rev_induct)
  case Nil
  then show ?case by (simp add: adj_rebuild_def adj_ok_empty)
next
  case (snoc e es)
  have "adj_rebuild (es @ [e]) = adj_add (e_source e) (length es) (adj_rebuild es)"
    by (simp add: adj_rebuild_def enumerate_append_eq)
  then show ?case using snoc adj_ok_push by simp
qed

lemma adj_ok_unique: "adj_ok es a \<Longrightarrow> a = adj_rebuild es"
  using adj_ok_rebuild [of es] by (intro fmap_ext) (simp add: adj_ok_def)

lemma adj_ok_shape:
  assumes "adj_ok es a" "map edge_shape es' = map edge_shape es"
  shows "adj_ok es' a"
  unfolding adj_ok_def out_idxs_shape [OF assms(2)] using assms(1) by (simp add: adj_ok_def)

section \<open>The graph invariant\<close>

definition key_fits :: "string \<Rightarrow> internal_node \<Rightarrow> bool" where
  "key_fits k n \<longleftrightarrow>
     (n_kind n = KMemory \<longrightarrow> k = as_str (Memory (n_external_id n))) \<and>
     (\<forall>m. k = as_str (Memory m) \<longrightarrow> n_kind n = KMemory \<and> n_external_id n = m) \<and>
     (\<forall>c. k = as_str (Concept c) \<longrightarrow> n_kind n = KConcept \<and> n_external_id n = c)"

definition interner_ok :: "interner \<Rightarrow> bool" where
  "interner_ok it \<longleftrightarrow>
     length (in_id_to_key it) = length (in_id_to_node it) \<and> length (in_id_to_key it) \<le> 2 ^ 32 \<and>
     (\<forall>k i. fmlookup (in_key_to_id it) k = Some i \<longrightarrow>
        unat i < length (in_id_to_key it) \<and> in_id_to_key it ! unat i = k \<and> key_fits k (in_id_to_node it ! unat i))"

definition live :: "interner \<Rightarrow> u32 \<Rightarrow> bool" where
  "live it i \<longleftrightarrow> (\<exists>k. fmlookup (in_key_to_id it) k = Some i)"

definition graph_ok :: "mgraph \<Rightarrow> bool" where
  "graph_ok g \<longleftrightarrow>
     interner_ok (g_interner g) \<and> adj_ok (g_edges g) (g_adjacency g) \<and>
     (\<forall>e \<in> set (g_edges g). live (g_interner g) (e_source e) \<and> live (g_interner g) (e_target e))"

definition in_size :: "mgraph \<Rightarrow> nat" where
  "in_size g = length (in_id_to_key (g_interner g))"

text \<open>The operations that only add nodes and edges or change weights.\<close>

definition grows :: "mgraph \<Rightarrow> mgraph \<Rightarrow> bool" where
  "grows g g' \<longleftrightarrow>
     in_size g \<le> in_size g' \<and>
     (\<forall>k i. get_node_id k g = Some i \<longrightarrow> get_node_id k g' = Some i) \<and>
     (graph_ok g \<and> in_size g' \<le> 2 ^ 32 \<longrightarrow> graph_ok g')"

lemma grows_refl [simp]: "grows g g"
  by (simp add: grows_def)

lemma grows_trans [trans]: "grows a b \<Longrightarrow> grows b c \<Longrightarrow> grows a c"
  by (auto simp: grows_def)

lemma grows_lookup: "grows g g' \<Longrightarrow> get_node_id k g = Some i \<Longrightarrow> get_node_id k g' = Some i"
  by (simp add: grows_def)

lemma live_lookup: "live (g_interner g) i \<longleftrightarrow> (\<exists>k. get_node_id k g = Some i)"
  by (simp add: live_def get_node_id_def in_resolve_def)

lemma grows_foldl:
  assumes "get_node_id k g = Some i"
    and step: "\<And>g x. x \<in> set xs \<Longrightarrow> get_node_id k g = Some i \<Longrightarrow> grows g (f g x)"
  shows "grows g (foldl f g xs)"
  using assms
proof (induction xs arbitrary: g)
  case (Cons x xs)
  have a: "grows g (f g x)" using Cons.prems by simp
  have "get_node_id k (f g x) = Some i" using a Cons.prems(1) by (rule grows_lookup)
  then have "grows (f g x) (foldl f (f g x) xs)" using Cons.prems(2) by (intro Cons.IH) simp_all
  with a show ?case by (auto intro: grows_trans)
qed simp

text \<open>Changing fields that the invariant does not read.\<close>

lemma grows_fields [simp]:
  "grows g (g\<lparr>g_co_occurrence := x\<rparr>)" "grows g (g\<lparr>g_last_memory_id := l\<rparr>)"
  "grows g (g\<lparr>g_last_memory_by_scope := m\<rparr>)" "grows g (g\<lparr>g_suppressed := s\<rparr>)" "grows g (g\<lparr>g_vocab := v\<rparr>)"
  by (simp_all add: grows_def graph_ok_def in_size_def get_node_id_def)

lemma reshape_live:
  assumes shape: "map edge_shape es = map edge_shape es0"
    and live0: "\<forall>e \<in> set es0. live it (e_source e) \<and> live it (e_target e)" and e: "e \<in> set es"
  shows "live it (e_source e) \<and> live it (e_target e)"
proof -
  have "edge_shape e \<in> edge_shape ` set es0"
    using e shape by (metis imageI list.set_map)
  then obtain e' where e': "e' \<in> set es0" "edge_shape e = edge_shape e'" by blast
  then have "e_source e = e_source e'" "e_target e = e_target e'" by (simp_all add: edge_shape_def)
  then show ?thesis using live0 e'(1) by simp
qed

lemma grows_reshape:
  assumes "map edge_shape es = map edge_shape (g_edges g)"
  shows "grows g (g\<lparr>g_edges := es\<rparr>)"
  using assms adj_ok_shape [OF _ assms] reshape_live [OF assms]
  by (simp add: grows_def graph_ok_def in_size_def get_node_id_def)

lemma intern_node_grows:
  assumes "intern_node key kind ext text base g = (i, g')"
    and fits: "key_fits key \<lparr>n_kind = kind, n_external_id = ext, n_text = text, n_base_importance_factor = base\<rparr>"
  shows "grows g g'" "get_node_id key g' = Some i" "g_vocab g' = g_vocab g" "g_edges g' = g_edges g"
    "g_co_occurrence g' = g_co_occurrence g"
proof -
  show look: "get_node_id key g' = Some i"
    using assms(1) by (auto simp: intern_node_def intern_def get_node_id_def in_resolve_def Let_def split: option.splits)
  show "g_vocab g' = g_vocab g" "g_edges g' = g_edges g" "g_co_occurrence g' = g_co_occurrence g"
    using assms(1) by (auto simp: intern_node_def intern_def Let_def split: option.splits)
  show "grows g g'"
  proof (cases "get_node_id key g")
    case (Some j)
    then show ?thesis using assms(1) by (simp add: intern_node_def get_node_id_def in_resolve_def)
  next
    case None
    define n where "n = \<lparr>n_kind = kind, n_external_id = ext, n_text = text, n_base_importance_factor = base\<rparr>"
    let ?it = "g_interner g"
    have g': "g' = g\<lparr>g_interner := \<lparr>in_key_to_id = fmupd key i (in_key_to_id ?it), in_id_to_key = in_id_to_key ?it @ [key],
        in_id_to_node = in_id_to_node ?it @ [n]\<rparr>\<rparr>" and i: "i = word_of_nat (in_size g)"
      using assms(1) None
      by (auto simp: intern_node_def intern_def get_node_id_def in_resolve_def n_def Let_def in_size_def)
    have mono: "get_node_id k g' = Some j" if "get_node_id k g = Some j" for k j
      using that None by (auto simp: g' get_node_id_def in_resolve_def)
    have "graph_ok g'" if ok: "graph_ok g" and size: "in_size g' \<le> 2 ^ 32"
    proof -
      have unat: "unat i = length (in_id_to_key ?it)"
        using size by (simp add: i g' in_size_def unat_of_nat)
      have "interner_ok (g_interner g')"
        using ok size fits unat unfolding graph_ok_def interner_ok_def n_def [symmetric]
        by (auto simp: g' in_size_def nth_append)
      then show ?thesis
        using ok mono unfolding graph_ok_def live_lookup by (fastforce simp: g')
    qed
    then show ?thesis using mono by (auto simp: grows_def in_size_def g')
  qed
qed

lemma push_edge_grows:
  assumes "live (g_interner g) (e_source e)" "live (g_interner g) (e_target e)"
  shows "grows g (push_edge e g)"
  using assms by (auto simp: grows_def push_edge_def graph_ok_def in_size_def get_node_id_def intro: adj_ok_push)

lemma add_int_edge_grows:
  assumes "get_node_id k g = Some s" "get_node_id l g = Some t"
  shows "grows g (add_int_edge s t kind w g)"
  unfolding add_int_edge_def using assms by (intro push_edge_grows) (auto simp: live_lookup)

lemma fits_concept [simp]:
  "key_fits (as_str (Concept c)) \<lparr>n_kind = KConcept, n_external_id = c, n_text = text, n_base_importance_factor = base\<rparr>"
  by (simp add: key_fits_def)

lemma fits_memory [simp]:
  "key_fits (as_str (Memory m)) \<lparr>n_kind = KMemory, n_external_id = m, n_text = text, n_base_importance_factor = base\<rparr>"
  by (simp add: key_fits_def)

section \<open>Every operation keeps the invariant\<close>

lemma graph_new_ok: "graph_ok graph_new"
  by (simp add: graph_ok_def graph_new_def interner_ok_def interner_new_def adj_ok_empty)

lemma get_node_id_fields [simp]:
  "get_node_id k (g\<lparr>g_edges := es\<rparr>) = get_node_id k g" "get_node_id k (g\<lparr>g_co_occurrence := c\<rparr>) = get_node_id k g"
  "get_node_id k (g\<lparr>g_last_memory_by_scope := m\<rparr>) = get_node_id k g" "get_node_id k (g\<lparr>g_last_memory_id := l\<rparr>) = get_node_id k g"
  "get_node_id k (g\<lparr>g_adjacency := a\<rparr>) = get_node_id k g" "get_node_id k (push_edge e g) = get_node_id k g"
  "get_node_id k (add_int_edge s t kind w g) = get_node_id k g"
  by (simp_all add: get_node_id_def push_edge_def add_int_edge_def)

lemma link_concept_grows:
  assumes "get_node_id k g = Some mem"
  shows "grows g (link_concept mem imp g c)"
proof -
  obtain cid g1 where g1: "intern_node (as_str (Concept c)) KConcept c c f32_zero g = (cid, g1)"
    by (metis surj_pair)
  note i = intern_node_grows [OF g1 fits_concept]
  have m: "get_node_id k g1 = Some mem" using i(1) assms by (rule grows_lookup)
  let ?g2 = "add_int_edge mem cid Association imp g1"
  have "grows g1 ?g2" by (rule add_int_edge_grows [OF m i(2)])
  also have "grows ?g2 (add_int_edge cid mem Association imp ?g2)"
    by (rule add_int_edge_grows [where k = "as_str (Concept c)" and l = k]) (use m i(2) in simp_all)
  finally show ?thesis using i(1) by (simp add: link_concept_def g1 grows_trans [of g g1])
qed

lemma chain_memory_grows:
  assumes "get_node_id k g = Some mem"
  shows "grows g (chain_memory mid mem imp scope g)"
proof -
  obtain prev g1 where pg: "(prev, g1) =
    (case fmlookup (g_last_memory_by_scope g) (case scope of None \<Rightarrow> [] | Some s \<Rightarrow> s) of
       Some prev \<Rightarrow> (Some prev, g\<lparr>g_last_memory_by_scope := fmdrop (case scope of None \<Rightarrow> [] | Some s \<Rightarrow> s) (g_last_memory_by_scope g)\<rparr>)
     | None \<Rightarrow> if scope = None then (g_last_memory_id g, g\<lparr>g_last_memory_id := None\<rparr>) else (None, g))"
    (is "_ = ?e") by (metis surj_pair)
  have g1: "grows g g1" "get_node_id k g1 = Some mem"
    using pg assms by (auto split: option.splits if_splits)
  let ?g2 = "case prev of None \<Rightarrow> g1
    | Some p \<Rightarrow> (case get_node_id (as_str (Memory p)) g1 of None \<Rightarrow> g1
        | Some q \<Rightarrow> add_int_edge q mem Temporal (f32_mul 0x3F000000 imp) g1)"
  have "grows g1 ?g2"
    using g1(2) by (auto split: option.splits intro: add_int_edge_grows)
  also have "grows ?g2 (?g2\<lparr>g_last_memory_by_scope := fmupd (case scope of None \<Rightarrow> [] | Some s \<Rightarrow> s) mid (g_last_memory_by_scope ?g2)\<rparr>)"
    (is "grows _ ?g3") by simp
  also have "grows ?g3 (chain_memory mid mem imp scope g)"
    unfolding chain_memory_def Let_def pg [symmetric] prod.case by simp
  finally show ?thesis using g1(1) by (blast intro: grows_trans)
qed

lemma add_memory_scoped_grows: "grows g (add_memory_scoped lower mid text concepts importance scope g)"
proof -
  let ?imp = "importance_factor importance"
  obtain mem g1 where g1: "intern_node (as_str (Memory mid)) KMemory mid text ?imp g = (mem, g1)"
    by (metis surj_pair)
  note i = intern_node_grows [OF g1 fits_memory]
  let ?cs = "norm_concepts lower (g_vocab g1) concepts {||}"
  let ?g2 = "foldl (link_concept mem ?imp) g1 ?cs"
  let ?g3 = "if 1 < length ?cs
    then ?g2\<lparr>g_co_occurrence := foldl count_pair (g_co_occurrence ?g2) (all_pairs (sort ?cs))\<rparr> else ?g2"
  have 2: "grows g1 ?g2" using i(2) by (rule grows_foldl) (rule link_concept_grows)
  have 3: "grows ?g2 ?g3" by simp
  have "get_node_id (as_str (Memory mid)) ?g3 = Some mem"
    using grows_lookup [OF 3 grows_lookup [OF 2 i(2)]] .
  then have 4: "grows ?g3 (chain_memory mid mem ?imp scope ?g3)" by (rule chain_memory_grows)
  have "add_memory_scoped lower mid text concepts importance scope g = chain_memory mid mem ?imp scope ?g3"
    by (simp add: add_memory_scoped_def g1 Let_def)
  then show ?thesis using grows_trans [OF i(1) grows_trans [OF 2 grows_trans [OF 3 4]]] by simp
qed

lemma update_shape:
  assumes "\<And>e. edge_shape (f e) = edge_shape e"
  shows "map edge_shape (es[i := f (es ! i)]) = map edge_shape es"
proof (cases "i < length es")
  case True
  then show ?thesis using assms by (simp add: map_update list_update_same_conv)
qed (simp add: list_update_beyond not_less)

lemma foldl_shape:
  assumes "\<And>es i. map edge_shape (f es i) = map edge_shape es"
  shows "map edge_shape (foldl f es is) = map edge_shape es"
  by (induction "is" arbitrary: es) (simp_all add: assms)

lemma shape_fields [simp]:
  "edge_shape (e\<lparr>e_weight := w\<rparr>) = edge_shape e" "edge_shape (e\<lparr>e_last_reinforced_at := l\<rparr>) = edge_shape e"
  by (simp_all add: edge_shape_def)

lemma ensure_int_edge_grows:
  assumes "get_node_id k g = Some s" "get_node_id l g = Some t"
  shows "grows g (ensure_int_edge s t kind w stamp g)"
proof (cases "List.find (\<lambda>i. e_kind (g_edges g ! i) = kind \<and> e_target (g_edges g ! i) = t) (adj_list s (g_adjacency g))")
  case None
  then show ?thesis using assms by (auto simp: ensure_int_edge_def live_lookup intro!: push_edge_grows)
next
  case (Some i)
  then show ?thesis
    by (auto simp: ensure_int_edge_def Let_def intro!: grows_reshape
        update_shape [where f = "\<lambda>e. e\<lparr>e_weight := f32_max (e_weight e) w, e_last_reinforced_at := max (e_last_reinforced_at e) stamp\<rparr>"])
qed

lemma ensure_concept_grows:
  assumes "get_node_id k g = Some mem"
  shows "grows g (ensure_concept mem imp g c)"
proof -
  obtain cid g1 where g1: "intern_node (as_str (Concept c)) KConcept c c f32_zero g = (cid, g1)"
    by (metis surj_pair)
  note i = intern_node_grows [OF g1 fits_concept]
  have m: "get_node_id k g1 = Some mem" using i(1) assms by (rule grows_lookup)
  let ?g2 = "ensure_int_edge mem cid Association imp 0 g1"
  have 2: "grows g1 ?g2" by (rule ensure_int_edge_grows [OF m i(2)])
  have "grows ?g2 (ensure_int_edge cid mem Association imp 0 ?g2)"
    by (rule ensure_int_edge_grows [OF grows_lookup [OF 2 i(2)] grows_lookup [OF 2 m]])
  with 2 i(1) show ?thesis by (simp add: ensure_concept_def g1) (metis grows_trans)
qed

lemma add_concepts_grows: "grows g (snd (add_concepts_to_memory lower mid concepts importance g))"
  by (auto simp: add_concepts_to_memory_def split: option.splits intro: grows_foldl ensure_concept_grows)

lemma boosted_shape [simp]: "edge_shape (boosted now e) = edge_shape e"
  by (simp add: boosted_def Let_def)

lemma reinforce_grows: "grows g (reinforce mid now g)"
proof (cases "get_node_id (as_str (Memory mid)) g")
  case (Some mem)
  let ?es = "foldl (\<lambda>es i. es[i := boosted (max now 1) (es ! i)]) (g_edges g) (adj_list mem (g_adjacency g))"
  have "map edge_shape ?es = map edge_shape (g_edges g)"
    by (rule foldl_shape) (simp add: update_shape)
  moreover have "map edge_shape (map (\<lambda>e. if P e then boosted t e else e) es) = map edge_shape es" for P t es
    by simp
  ultimately show ?thesis by (simp only: reinforce_def Some option.case Let_def grows_reshape)
qed (simp add: reinforce_def)

lemma decay_edges_grows: "grows g (decay_edges powf now hl g)"
  by (auto simp: decay_edges_def Let_def intro!: grows_reshape)

lemma add_refinement_grows: "grows g (snd (add_refinement old new w g))"
  by (auto simp: add_refinement_def split: option.splits intro: add_int_edge_grows)

lemma add_contradiction_grows: "grows g (snd (add_contradiction old new w weaken g))"
proof (cases "get_node_id (as_str (Memory old)) g")
  case (Some s)
  show ?thesis
  proof (cases "get_node_id (as_str (Memory new)) g")
    case None
    then show ?thesis by (simp add: add_contradiction_def Some)
  next
    case new: (Some t)
    let ?es = "foldl (\<lambda>es i. if own_edge (es ! i)
        then es[i := (es ! i)\<lparr>e_weight := f32_mul (e_weight (es ! i)) weaken\<rparr>] else es) (g_edges g) (adj_list s (g_adjacency g))"
    have "map edge_shape ?es = map edge_shape (g_edges g)"
      by (rule foldl_shape) (simp add: update_shape [where f = "\<lambda>e. e\<lparr>e_weight := f32_mul (e_weight e) weaken\<rparr>"])
    then have "grows g (g\<lparr>g_edges := ?es\<rparr>)" by (rule grows_reshape)
    also have "grows (g\<lparr>g_edges := ?es\<rparr>) (add_int_edge s t Contradicts w (g\<lparr>g_edges := ?es\<rparr>))"
      by (rule add_int_edge_grows) (use Some new in simp_all)
    finally show ?thesis by (simp add: add_contradiction_def Some new Let_def)
  qed
qed (simp add: add_contradiction_def)

lemma set_base_grows:
  assumes "i < length (in_id_to_node (g_interner g))"
  shows "grows g (g\<lparr>g_interner := (g_interner g)\<lparr>in_id_to_node := (in_id_to_node (g_interner g))[i :=
    (in_id_to_node (g_interner g) ! i)\<lparr>n_base_importance_factor := b\<rparr>]\<rparr>\<rparr>)"
proof -
  have fits: "key_fits k ((in_id_to_node (g_interner g))[i := (in_id_to_node (g_interner g) ! i)\<lparr>n_base_importance_factor := b\<rparr>] ! j) \<longleftrightarrow>
      key_fits k (in_id_to_node (g_interner g) ! j)" for k j
    using assms by (cases "i = j") (simp_all add: key_fits_def)
  show ?thesis
    using fits by (auto simp: grows_def graph_ok_def interner_ok_def in_size_def get_node_id_def in_resolve_def live_def)
qed

lemma reweight_memory_grows: "grows g (snd (reweight_memory mid new g))"
proof -
  have shape: "map edge_shape (foldl (\<lambda>es i. es[i := (es ! i)\<lparr>e_weight := f (e_weight (es ! i))\<rparr>]) es is) = map edge_shape es"
    for f es "is"
    by (rule foldl_shape) (simp add: update_shape [where f = "\<lambda>e. e\<lparr>e_weight := f (e_weight e)\<rparr>"])
  have step: "grows g (g\<lparr>g_edges := es, g_interner :=
      (if i < length (in_id_to_node (g_interner g)) then (g_interner g)\<lparr>in_id_to_node := (in_id_to_node (g_interner g))[i :=
         (in_id_to_node (g_interner g) ! i)\<lparr>n_base_importance_factor := b\<rparr>]\<rparr> else g_interner g)\<rparr>)"
    if "map edge_shape es = map edge_shape (g_edges g)" for es i b
  proof -
    let ?g1 = "g\<lparr>g_edges := es\<rparr>"
    have "grows g ?g1" using that by (rule grows_reshape)
    moreover have "grows ?g1 (?g1\<lparr>g_interner := (g_interner ?g1)\<lparr>in_id_to_node := (in_id_to_node (g_interner ?g1))[i :=
         (in_id_to_node (g_interner ?g1) ! i)\<lparr>n_base_importance_factor := b\<rparr>]\<rparr>\<rparr>)"
      if "i < length (in_id_to_node (g_interner g))"
      by (rule set_base_grows) (use that in simp)
    ultimately show ?thesis by (auto intro: grows_trans)
  qed
  show ?thesis
  proof (cases "get_node_id (as_str (Memory mid)) g")
    case (Some mem)
    show ?thesis
    proof (cases "own_idxs mem g = []")
      case False
      let ?r = "reweight_ratio (importance_factor new) mem (own_idxs mem g) g"
      show ?thesis
        using step [OF shape [where f = "\<lambda>w. f32_clamp (f32_mul w ?r) 0x3C23D70A 0x41000000"]]
        by (simp only: reweight_memory_def Some False option.case Let_def if_False snd_conv)
    qed (simp add: reweight_memory_def Some Let_def)
  qed (simp add: reweight_memory_def)
qed

lemma remove_memory_ok:
  assumes "graph_ok g"
  shows "graph_ok (remove_memory mid g)"
proof (cases "get_node_id (as_str (Memory mid)) g")
  case None
  then show ?thesis using assms by (simp add: remove_memory_def)
next
  case (Some mem)
  let ?g = "drop_node_edges mem (forget_key (as_str (Memory mid)) g)"
  have keep: "live (g_interner ?g) i" if i: "live (g_interner g) i" "i \<noteq> mem" for i
  proof -
    obtain k where k: "get_node_id k g = Some i" using i(1) live_lookup by blast
    then have "k \<noteq> as_str (Memory mid)" using Some i(2) by auto
    then have "get_node_id k ?g = Some i"
      using k by (simp add: drop_node_edges_def forget_key_def Let_def get_node_id_def in_resolve_def)
    then show ?thesis using live_lookup by blast
  qed
  have "interner_ok (g_interner ?g)"
    using assms by (auto simp: graph_ok_def interner_ok_def drop_node_edges_def forget_key_def Let_def)
  moreover have "adj_ok (g_edges ?g) (g_adjacency ?g)"
    by (simp add: drop_node_edges_def Let_def adj_ok_rebuild)
  moreover have "live (g_interner ?g) (e_source e) \<and> live (g_interner ?g) (e_target e)" if "e \<in> set (g_edges ?g)" for e
    using that assms keep unfolding graph_ok_def by (auto simp: drop_node_edges_def forget_key_def Let_def)
  ultimately show ?thesis by (simp add: remove_memory_def Some graph_ok_def)
qed

lemma remove_memory_size [simp]: "in_size (remove_memory mid g) = in_size g"
  by (simp add: remove_memory_def in_size_def drop_node_edges_def forget_key_def Let_def split: option.splits)

section \<open>Reading the graph through its edges\<close>

lemma ok_lookup:
  assumes "graph_ok g" "get_node_id k g = Some i"
  shows "unat i < in_size g" "in_id_to_key (g_interner g) ! unat i = k"
    "\<exists>n. in_get i (g_interner g) = Some n \<and> key_fits k n"
  using assms by (auto simp: graph_ok_def interner_ok_def in_get_def in_size_def get_node_id_def in_resolve_def)

lemma lookup_inject: "graph_ok g \<Longrightarrow> get_node_id k g = Some i \<Longrightarrow> get_node_id l g = Some i \<Longrightarrow> k = l"
  using ok_lookup(2) by blast

lemma ok_edge:
  assumes "graph_ok g" "e \<in> set (g_edges g)"
  shows "\<exists>k. get_node_id k g = Some (e_source e)" "\<exists>k. get_node_id k g = Some (e_target e)"
  using assms by (auto simp: graph_ok_def live_lookup)

text \<open>The named targets of one node's edges of a kind, read off the edge list.\<close>

definition name_of :: "node_kind \<Rightarrow> interner \<Rightarrow> u32 \<Rightarrow> string option" where
  "name_of nk it i = (case in_get i it of None \<Rightarrow> None | Some n \<Rightarrow> if n_kind n = nk then Some (n_external_id n) else None)"

definition edge_names :: "edge_kind \<Rightarrow> node_kind \<Rightarrow> u32 \<Rightarrow> mgraph \<Rightarrow> string list" where
  "edge_names ek nk s g =
     List.map_filter (\<lambda>e. name_of nk (g_interner g) (e_target e)) (filter (\<lambda>e. e_source e = s \<and> e_kind e = ek) (g_edges g))"

lemma map_filter_map: "List.map_filter f (map h xs) = List.map_filter (\<lambda>x. f (h x)) xs"
  by (simp add: List.map_filter_def filter_map comp_def)

lemma map_filter_append: "List.map_filter f (xs @ ys) = List.map_filter f xs @ List.map_filter f ys"
  by (simp add: List.map_filter_def)

lemma map_filter_mem: "y \<in> set (List.map_filter f xs) \<longleftrightarrow> (\<exists>x \<in> set xs. f x = Some y)"
  by (force simp: List.map_filter_def)

lemma targets_names:
  assumes "graph_ok g"
  shows "targets ek nk mid g = (case get_node_id (as_str (Memory mid)) g of None \<Rightarrow> [] | Some i \<Rightarrow> edge_names ek nk i g)"
proof (cases "get_node_id (as_str (Memory mid)) g")
  case (Some i)
  have adj: "adj_list i (g_adjacency g) = out_idxs (g_edges g) i"
    using assms by (simp add: graph_ok_def)
  have "filter (\<lambda>e. e_source e = i \<and> e_kind e = ek) (g_edges g) = filter (\<lambda>e. e_kind e = ek) (map ((!) (g_edges g)) (out_idxs (g_edges g) i))"
    unfolding out_idxs_edges by (simp add: conj_commute)
  also have "\<dots> = map ((!) (g_edges g)) (filter (\<lambda>j. e_kind (g_edges g ! j) = ek) (out_idxs (g_edges g) i))"
    by (simp add: filter_map comp_def)
  finally show ?thesis
    by (simp add: targets_def Some adj edge_names_def map_filter_map name_of_def)
qed (simp add: targets_def)

lemma gedge_of_ok:
  assumes "graph_ok g" "e \<in> set (g_edges g)"
  shows "\<exists>x. gedge_of (g_interner g) e = Some x"
proof -
  obtain k l where k: "get_node_id k g = Some (e_source e)" "get_node_id l g = Some (e_target e)"
    using ok_edge [OF assms] by blast
  show ?thesis
    using ok_lookup(3) [OF assms(1) k(1)] ok_lookup(3) [OF assms(1) k(2)] by (auto simp: gedge_of_def)
qed

lemma those_map_Some: "(\<And>x. x \<in> set xs \<Longrightarrow> f x = Some (h x)) \<Longrightarrow> those (map f xs) = Some (map h xs)"
  by (induction xs) auto

text \<open>The adjacency index and the edge list tell the same story, and reading either never
  panics: the edge view resolves both endpoints of every edge, and the neighbors of a key are
  exactly the edges that leave its node, in the order of the edge list.\<close>

theorem neighbors_exact:
  assumes "graph_ok g"
  shows "\<exists>view. graph_edges g = Some (map view (g_edges g)) \<and>
    neighbors key g = Some (case get_node_id key g of
        None \<Rightarrow> [] | Some i \<Rightarrow> map view (filter (\<lambda>e. e_source e = i) (g_edges g)))"
proof -
  define view where "view e = the (gedge_of (g_interner g) e)" for e
  have view: "gedge_of (g_interner g) e = Some (view e)" if "e \<in> set (g_edges g)" for e
    using gedge_of_ok [OF assms that] by (auto simp: view_def)
  have "graph_edges g = Some (map view (g_edges g))"
    unfolding graph_edges_def by (rule those_map_Some) (rule view)
  moreover have "neighbors key g = Some (map view (filter (\<lambda>e. e_source e = i) (g_edges g)))" if i: "get_node_id key g = Some i" for i
  proof -
    have adj: "adj_list i (g_adjacency g) = out_idxs (g_edges g) i"
      using assms by (simp add: graph_ok_def)
    have "those (map (\<lambda>j. gedge_of (g_interner g) (g_edges g ! j)) (out_idxs (g_edges g) i)) =
        Some (map (\<lambda>j. view (g_edges g ! j)) (out_idxs (g_edges g) i))"
      by (rule those_map_Some) (simp add: view)
    moreover have "map (\<lambda>j. view (g_edges g ! j)) (out_idxs (g_edges g) i) = map view (map ((!) (g_edges g)) (out_idxs (g_edges g) i))"
      by simp
    ultimately show ?thesis unfolding out_idxs_edges by (simp add: neighbors_def i adj)
  qed
  ultimately show ?thesis
    by (intro exI [of _ view]) (auto simp: neighbors_def split: option.split)
qed

definition demo_graph :: mgraph where
  "demo_graph = snd (add_refinement ''m1'' ''m2'' f32_one
     (add_memory_scoped (\<lambda>s. s) ''m2'' ''newer'' [''rust''] f32_one None
       (add_memory_scoped (\<lambda>s. s) ''m1'' ''older'' [''rust''] f32_one None graph_new)))"

lemma demo_graph_ok: "graph_ok demo_graph"
proof -
  have "grows graph_new demo_graph"
    unfolding demo_graph_def by (meson add_memory_scoped_grows add_refinement_grows grows_trans)
  moreover have "in_size demo_graph \<le> 2 ^ 32"
    by (simp add: demo_graph_def in_size_def add_refinement_def has_edge_to_def add_int_edge_def push_edge_def
      add_memory_scoped_def intern_node_def intern_def graph_new_def interner_new_def Let_def get_node_id_def in_resolve_def
      resolve_def resolve_loop.simps link_concept_def chain_memory_def)
  ultimately show ?thesis using graph_new_ok by (simp add: grows_def)
qed

theorem neighbors_exact_witness:
  "\<exists>view. graph_edges demo_graph = Some (map view (g_edges demo_graph)) \<and>
    neighbors ''mem:m1'' demo_graph = Some (case get_node_id ''mem:m1'' demo_graph of
        None \<Rightarrow> [] | Some i \<Rightarrow> map view (filter (\<lambda>e. e_source e = i) (g_edges demo_graph)))"
  by (rule neighbors_exact [OF demo_graph_ok])

section \<open>Removing a memory\<close>

lemma name_of_memory:
  assumes "graph_ok g" "get_node_id k g = Some i" "name_of KMemory (g_interner g) i = Some x"
  shows "k = as_str (Memory x)"
  using assms ok_lookup(3) [OF assms(1,2)] by (auto simp: name_of_def key_fits_def split: if_splits)

text \<open>No list of targets in a well-formed graph names a memory that is not in it.\<close>

lemma targets_present:
  assumes "graph_ok g" "x \<in> set (targets ek KMemory y g)"
  shows "get_node_id (as_str (Memory x)) g \<noteq> None"
proof -
  obtain i where i: "get_node_id (as_str (Memory y)) g = Some i" "x \<in> set (edge_names ek KMemory i g)"
    using assms by (cases "get_node_id (as_str (Memory y)) g") (simp_all add: targets_names)
  then obtain e where e: "e \<in> set (g_edges g)" "name_of KMemory (g_interner g) (e_target e) = Some x"
    by (auto simp: edge_names_def map_filter_mem)
  obtain k where k: "get_node_id k g = Some (e_target e)" using ok_edge(2) [OF assms(1) e(1)] by blast
  then show ?thesis using name_of_memory [OF assms(1) k e(2)] by simp
qed

lemma remove_memory_lookup:
  "get_node_id k (remove_memory mid g) = (if k = as_str (Memory mid) then None else get_node_id k g)"
  by (auto simp: remove_memory_def drop_node_edges_def forget_key_def Let_def get_node_id_def in_resolve_def split: option.splits)

lemma remove_memory_edges:
  assumes "get_node_id (as_str (Memory mid)) g = Some mem"
  shows "g_edges (remove_memory mid g) = filter (\<lambda>e. e_source e \<noteq> mem \<and> e_target e \<noteq> mem) (g_edges g)"
  using assms by (simp add: remove_memory_def drop_node_edges_def forget_key_def Let_def)

text \<open>C33. Removing a memory removes every trace of it and nothing else: its key resolves no more,
  all other keys resolve as before, the edges that remain are exactly those that do not touch it, and
  no refinement or contradiction list names it.\<close>

theorem remove_memory_forgets:
  assumes "graph_ok g"
  shows "graph_ok (remove_memory mid g) \<and>
    (\<forall>k. get_node_id k (remove_memory mid g) = (if k = as_str (Memory mid) then None else get_node_id k g)) \<and>
    g_edges (remove_memory mid g) = filter (\<lambda>e. get_node_id (as_str (Memory mid)) g \<notin> {Some (e_source e), Some (e_target e)}) (g_edges g) \<and>
    (\<forall>x. mid \<notin> set (refined_by x (remove_memory mid g)) \<and> mid \<notin> set (contradicted_by x (remove_memory mid g))) \<and>
    memory_concepts mid (remove_memory mid g) = []"
proof -
  have ok: "graph_ok (remove_memory mid g)" using assms by (rule remove_memory_ok)
  have edges: "g_edges (remove_memory mid g) = filter (\<lambda>e. get_node_id (as_str (Memory mid)) g \<notin> {Some (e_source e), Some (e_target e)}) (g_edges g)"
  proof (cases "get_node_id (as_str (Memory mid)) g")
    case None
    then show ?thesis by (simp add: remove_memory_def)
  next
    case (Some mem)
    then show ?thesis unfolding remove_memory_edges [OF Some] by (intro filter_cong) auto
  qed
  have "mid \<notin> set (targets ek KMemory x (remove_memory mid g))" for ek x
    using targets_present [OF ok, of mid ek x] by (auto simp: remove_memory_lookup)
  then show ?thesis
    using ok edges
    by (simp add: remove_memory_lookup refined_by_def contradicted_by_def memory_concepts_def targets_def)
qed

theorem remove_memory_forgets_witness:
  "g_edges (remove_memory ''m2'' demo_graph) =
     filter (\<lambda>e. get_node_id (as_str (Memory ''m2'')) demo_graph \<notin> {Some (e_source e), Some (e_target e)}) (g_edges demo_graph) \<and>
   ''m2'' \<notin> set (refined_by ''m1'' (remove_memory ''m2'' demo_graph))"
  using remove_memory_forgets [OF demo_graph_ok, of "''m2''"] by blast

section \<open>Adding a memory\<close>

lemma intern_node_nodes:
  assumes "intern_node key kind ext text base g = (i, g')"
  shows "\<exists>ns. in_id_to_node (g_interner g') = in_id_to_node (g_interner g) @ ns"
  using assms by (auto simp: intern_node_def intern_def Let_def split: option.splits)

lemma name_of_extend:
  assumes "in_id_to_node it' = in_id_to_node it @ ns" "in_get i it = Some n"
  shows "name_of nk it' i = name_of nk it i"
  using assms by (auto simp: name_of_def in_get_def nth_append split: if_splits)

lemma edge_names_extend:
  assumes ok: "graph_ok g" and edges: "g_edges g' = g_edges g @ es"
    and nodes: "in_id_to_node (g_interner g') = in_id_to_node (g_interner g) @ ns"
  shows "edge_names ek nk s g' = edge_names ek nk s g @
    List.map_filter (\<lambda>e. name_of nk (g_interner g') (e_target e)) (filter (\<lambda>e. e_source e = s \<and> e_kind e = ek) es)"
proof -
  have same: "name_of nk (g_interner g') (e_target e) = name_of nk (g_interner g) (e_target e)" if "e \<in> set (g_edges g)" for e
    using ok_edge(2) [OF ok that] ok_lookup(3) [OF ok] name_of_extend [OF nodes] by metis
  have "List.map_filter (\<lambda>e. name_of nk (g_interner g') (e_target e)) xs =
      List.map_filter (\<lambda>e. name_of nk (g_interner g) (e_target e)) xs" if "set xs \<subseteq> set (g_edges g)" for xs
    using that by (induction xs) (auto simp: List.map_filter_simps same split: option.split)
  then show ?thesis by (simp add: edge_names_def edges map_filter_append)
qed

lemma link_concept_names:
  assumes ok: "graph_ok g" and size: "in_size (link_concept mem imp g c) \<le> 2 ^ 32"
    and mem: "get_node_id (as_str (Memory m)) g = Some mem" and s: "get_node_id (as_str (Memory x)) g = Some s"
  shows "edge_names Association KConcept s (link_concept mem imp g c) =
    edge_names Association KConcept s g @ (if s = mem then [c] else [])"
proof -
  obtain cid g1 where g1: "intern_node (as_str (Concept c)) KConcept c c f32_zero g = (cid, g1)"
    by (metis surj_pair)
  note i = intern_node_grows [OF g1 fits_concept]
  obtain ns where ns: "in_id_to_node (g_interner g1) = in_id_to_node (g_interner g) @ ns"
    using intern_node_nodes [OF g1] by blast
  let ?g = "link_concept mem imp g c"
  have it: "g_interner ?g = g_interner g1"
    by (simp add: link_concept_def g1 add_int_edge_def push_edge_def)
  have ok1: "graph_ok g1" using i(1) ok size by (simp add: grows_def in_size_def it)
  have s1: "get_node_id (as_str (Memory x)) g1 = Some s" using i(1) s by (rule grows_lookup)
  have "cid \<noteq> s" using lookup_inject [OF ok1 i(2)] s1 by force
  moreover have "cid \<noteq> mem" using lookup_inject [OF ok1 i(2)] grows_lookup [OF i(1) mem] by force
  moreover have "name_of KConcept (g_interner g1) cid = Some c"
    using ok_lookup(3) [OF ok1 i(2)] by (auto simp: name_of_def key_fits_def)
  moreover have "g_edges ?g = g_edges g @
      [\<lparr>e_source = mem, e_target = cid, e_kind = Association, e_weight = imp, e_last_reinforced_at = 0\<rparr>,
       \<lparr>e_source = cid, e_target = mem, e_kind = Association, e_weight = imp, e_last_reinforced_at = 0\<rparr>]"
    using i(4) by (simp add: link_concept_def g1 add_int_edge_def push_edge_def)
  ultimately show ?thesis
    using edge_names_extend [OF ok _ ns [folded it]] it by (simp add: List.map_filter_simps)
qed

lemma foldl_link_names:
  assumes "graph_ok g" "in_size (foldl (link_concept mem imp) g cs) \<le> 2 ^ 32"
    "get_node_id (as_str (Memory m)) g = Some mem" "get_node_id (as_str (Memory x)) g = Some s"
  shows "edge_names Association KConcept s (foldl (link_concept mem imp) g cs) =
    edge_names Association KConcept s g @ (if s = mem then cs else [])"
  using assms
proof (induction cs arbitrary: g)
  case (Cons c cs)
  let ?g = "link_concept mem imp g c"
  have step: "grows g ?g" using Cons.prems(3) by (rule link_concept_grows)
  have m: "get_node_id (as_str (Memory m)) ?g = Some mem" using step Cons.prems(3) by (rule grows_lookup)
  have "grows ?g (foldl (link_concept mem imp) ?g cs)" using m by (rule grows_foldl) (rule link_concept_grows)
  then have size: "in_size ?g \<le> 2 ^ 32" using Cons.prems(2) by (simp add: grows_def)
  then have "graph_ok ?g" using step Cons.prems(1) by (simp add: grows_def)
  then show ?case
    using Cons.IH [of ?g] m grows_lookup [OF step Cons.prems(4)] Cons.prems(2)
      link_concept_names [OF Cons.prems(1) size Cons.prems(3,4)] by simp
qed simp

lemma chain_memory_graph:
  "g_interner (chain_memory mid mem imp scope g) = g_interner g \<and>
   (\<exists>es. g_edges (chain_memory mid mem imp scope g) = g_edges g @ es \<and> (\<forall>e \<in> set es. e_kind e = Temporal \<and> e_target e = mem))"
  by (auto simp: chain_memory_def Let_def add_int_edge_def push_edge_def split: option.splits)

lemma intern_node_lookup:
  assumes "intern_node key kind ext text base g = (i, g')"
  shows "get_node_id k g' = (if k = key then Some i else get_node_id k g)"
  using assms by (auto simp: intern_node_def intern_def get_node_id_def in_resolve_def Let_def split: option.splits)

lemma link_concept_lookup: "get_node_id (as_str (Memory x)) (link_concept mem imp g c) = get_node_id (as_str (Memory x)) g"
  by (auto simp: link_concept_def intern_node_lookup split: prod.split)

lemma foldl_link_lookup: "get_node_id (as_str (Memory x)) (foldl (link_concept mem imp) g cs) = get_node_id (as_str (Memory x)) g"
  by (induction cs arbitrary: g) (simp_all add: link_concept_lookup)

text \<open>What the first step, interning the memory, leaves of its lists of concepts.\<close>

lemma intern_memory_names:
  assumes ok: "graph_ok g" and g1: "intern_node (as_str (Memory mid)) KMemory mid text imp g = (mem, g1)"
    and ok1: "graph_ok g1" and s: "get_node_id (as_str (Memory x)) g1 = Some s"
  shows "edge_names Association KConcept s g1 = memory_concepts x g"
proof -
  note i = intern_node_grows [OF g1 fits_memory]
  obtain ns where ns: "in_id_to_node (g_interner g1) = in_id_to_node (g_interner g) @ ns"
    using intern_node_nodes [OF g1] by blast
  have same: "edge_names Association KConcept s g1 = edge_names Association KConcept s g"
    using edge_names_extend [OF ok _ ns, of "[]"] i(4) by (simp add: List.map_filter_simps)
  show ?thesis
  proof (cases "get_node_id (as_str (Memory x)) g")
    case (Some r)
    then have "r = s" using grows_lookup [OF i(1) Some] s by simp
    then show ?thesis using same Some ok by (simp add: memory_concepts_def targets_names)
  next
    case None
    have "e_source e \<noteq> s" if mem_e: "e \<in> set (g_edges g)" for e
    proof
      assume e: "e_source e = s"
      obtain k where k: "get_node_id k g = Some s" using ok_edge(1) [OF ok mem_e] e by blast
      then have "k = as_str (Memory x)" using lookup_inject [OF ok1 grows_lookup [OF i(1) k] s] by simp
      then show False using k None by simp
    qed
    then have "filter (\<lambda>e. e_source e = s \<and> e_kind e = Association) (g_edges g) = []"
      by (simp add: filter_empty_conv)
    then have "edge_names Association KConcept s g = []"
      unfolding edge_names_def by (simp only: List.map_filter_simps)
    then show ?thesis using same None by (simp add: memory_concepts_def targets_def)
  qed
qed

lemma chain_memory_names:
  assumes "graph_ok g"
  shows "edge_names Association KConcept s (chain_memory mid mem imp scope g) = edge_names Association KConcept s g"
proof -
  obtain es where es: "g_edges (chain_memory mid mem imp scope g) = g_edges g @ es" "\<forall>e \<in> set es. e_kind e = Temporal"
    using chain_memory_graph [of mid mem imp scope g] by blast
  then have "filter (\<lambda>e. e_source e = s \<and> e_kind e = Association) es = []"
    by (auto simp: filter_empty_conv)
  then show ?thesis
    using es(1) chain_memory_graph [of mid mem imp scope g]
      edge_names_extend [OF assms es(1), of "[]" Association KConcept s] by (simp only: List.map_filter_simps) simp
qed

text \<open>C32. Adding a memory links it to its concepts, each resolved through the vocabulary, without
  repeats and in the caller's order; the concepts of every other memory stay what they were, and the
  graph stays well formed (as long as node ids fit 32 bits).\<close>

theorem add_memory_links:
  assumes ok: "graph_ok g" and size: "in_size (add_memory_scoped lower mid text concepts importance scope g) \<le> 2 ^ 32"
  shows "graph_ok (add_memory_scoped lower mid text concepts importance scope g) \<and>
    get_node_id (as_str (Memory mid)) (add_memory_scoped lower mid text concepts importance scope g) \<noteq> None \<and>
    memory_concepts x (add_memory_scoped lower mid text concepts importance scope g) =
      memory_concepts x g @ (if x = mid then norm_concepts lower (g_vocab g) concepts {||} else [])"
proof -
  let ?imp = "importance_factor importance"
  obtain mem g1 where g1: "intern_node (as_str (Memory mid)) KMemory mid text ?imp g = (mem, g1)"
    by (metis surj_pair)
  note i = intern_node_grows [OF g1 fits_memory]
  let ?cs = "norm_concepts lower (g_vocab g1) concepts {||}"
  let ?g2 = "foldl (link_concept mem ?imp) g1 ?cs"
  let ?g3 = "if 1 < length ?cs
    then ?g2\<lparr>g_co_occurrence := foldl count_pair (g_co_occurrence ?g2) (all_pairs (sort ?cs))\<rparr> else ?g2"
  let ?g4 = "add_memory_scoped lower mid text concepts importance scope g"
  have g4: "?g4 = chain_memory mid mem ?imp scope ?g3"
    by (simp add: add_memory_scoped_def g1 Let_def)
  have grow: "grows g1 ?g2" using i(2) by (rule grows_foldl) (rule link_concept_grows)
  have it: "g_interner ?g4 = g_interner ?g2" unfolding g4 using chain_memory_graph by simp
  have size2: "in_size ?g2 \<le> 2 ^ 32" using size by (simp add: in_size_def it)
  have ok1: "graph_ok g1" using ok i(1) grow size2 by (simp add: grows_def)
  have ok2: "graph_ok ?g2" using ok1 grow size2 by (simp add: grows_def)
  have ok3: "graph_ok ?g3" using ok2 by (simp add: graph_ok_def)
  have ok4: "graph_ok ?g4" using add_memory_scoped_grows ok size by (simp add: grows_def)
  have look: "get_node_id (as_str (Memory y)) ?g4 = get_node_id (as_str (Memory y)) g1" for y
    using foldl_link_lookup [of y mem ?imp g1 ?cs] by (simp only: get_node_id_def it)
  have names: "edge_names Association KConcept s ?g4 = memory_concepts x g @ (if s = mem then ?cs else [])"
    if s: "get_node_id (as_str (Memory x)) g1 = Some s" for s
  proof -
    have "edge_names Association KConcept s ?g4 = edge_names Association KConcept s ?g3"
      unfolding g4 using ok3 by (rule chain_memory_names)
    also have "\<dots> = edge_names Association KConcept s ?g2" by (simp add: edge_names_def)
    finally show ?thesis
      using foldl_link_names [OF ok1 size2 i(2) s] intern_memory_names [OF ok g1 ok1 s] by simp
  qed
  have concepts: "memory_concepts x ?g4 = memory_concepts x g @ (if x = mid then ?cs else [])"
  proof (cases "get_node_id (as_str (Memory x)) g1")
    case (Some s)
    have "as_str (Memory x) = as_str (Memory mid)" if "s = mem"
      using lookup_inject [OF ok1 Some] i(2) that by blast
    then have "s = mem \<longleftrightarrow> x = mid" using i(2) Some by auto
    then show ?thesis using names [OF Some] Some look ok4 by (simp add: memory_concepts_def targets_names)
  next
    case None
    then have "x \<noteq> mid" "get_node_id (as_str (Memory x)) g = None"
      using i(2) grows_lookup [OF i(1)] by (auto simp: intern_node_lookup [OF g1] split: if_splits)
    then show ?thesis using None look by (simp add: memory_concepts_def targets_def)
  qed
  show ?thesis using ok4 look [of mid] i(2) concepts i(3) by simp
qed

theorem add_memory_links_witness:
  "memory_concepts ''m1'' (add_memory_scoped (\<lambda>s. s) ''m1'' ''text'' [''rust'', ''safety'', ''rust''] f32_one None graph_new) =
   [''rust'', ''safety'']"
proof -
  let ?g = "add_memory_scoped (\<lambda>s. s) ''m1'' ''text'' [''rust'', ''safety'', ''rust''] f32_one None graph_new"
  have "in_size ?g \<le> 2 ^ 32"
    by (simp add: in_size_def add_int_edge_def push_edge_def
      add_memory_scoped_def intern_node_def intern_def graph_new_def interner_new_def Let_def get_node_id_def in_resolve_def
      resolve_def resolve_loop.simps link_concept_def chain_memory_def)
  then show ?thesis
    using add_memory_links [OF graph_new_ok, of "\<lambda>s. s" "''m1''" "''text''" "[''rust'', ''safety'', ''rust'']" f32_one None "''m1''"]
    by (simp add: memory_concepts_def targets_def graph_new_def get_node_id_def in_resolve_def interner_new_def resolve_def resolve_loop.simps)
qed

end
