(* ===== verification/Graph_Belief.thy ===== *)
theory Graph_Belief
  imports Memory_Graph
begin

text \<open>
  Belief revision in the cognitive graph: an edge of kind \<open>Refines\<close> or \<open>Contradicts\<close> leads from an
  older memory to the one that supersedes it. This theory models the walks along those edges in
  \<open>turbomemory_graph/src/graph.rs\<close> (\<open>superseded_ids\<close>, \<open>belief_head\<close>, \<open>belief_lineage\<close>). The walks
  keep a set of visited nodes, so they end whatever the edges look like: node ids are 32-bit words
  and the set grows with every hop.
\<close>

section \<open>The walks\<close>

definition is_belief :: "edge_kind \<Rightarrow> bool" where
  "is_belief k \<longleftrightarrow> k = Refines \<or> k = Contradicts"

definition is_memory :: "interner \<Rightarrow> u32 \<Rightarrow> bool" where
  "is_memory it i = (case in_get i it of None \<Rightarrow> False | Some n \<Rightarrow> n_kind n = KMemory)"

text \<open>The hash set is collected in an order the program does not choose; the model keeps the set.\<close>

definition superseded_ids :: "mgraph \<Rightarrow> string fset" where
  "superseded_ids g =
     foldl (\<lambda>s e.
         if \<not> is_belief (e_kind e) then s
         else case (in_get (e_source e) (g_interner g), in_get (e_target e) (g_interner g)) of
             (Some src, Some tgt) \<Rightarrow>
               if n_kind src = KMemory \<and> n_kind tgt = KMemory then finsert (n_external_id src) s else s
           | _ \<Rightarrow> s) {||} (g_edges g)"

definition supersession_successors :: "u32 \<Rightarrow> mgraph \<Rightarrow> (nat \<times> u32) list" where
  "supersession_successors nid g =
     List.map_filter (\<lambda>i. let target = e_target (g_edges g ! i) in
         if is_memory (g_interner g) target then Some (i, target) else None)
       (filter (\<lambda>i. is_belief (e_kind (g_edges g ! i))) (adj_list nid (g_adjacency g)))"

text \<open>\<open>Iterator::max_by_key\<close> on the edge index: the last of the largest.\<close>

definition max_by_idx :: "(nat \<times> u32) list \<Rightarrow> (nat \<times> u32) option" where
  "max_by_idx xs =
     foldl (\<lambda>acc p. case acc of None \<Rightarrow> Some p | Some q \<Rightarrow> if fst q \<le> fst p then Some p else Some q) None xs"

definition supersession_next :: "mgraph \<Rightarrow> u32 \<Rightarrow> u32 option" where
  "supersession_next g nid = map_option snd (max_by_idx (supersession_successors nid g))"

lemma visited_measure:
  assumes "(n :: u32) |\<notin>| visited"
  shows "card (UNIV - fset (finsert n visited)) < card (UNIV - fset visited)"
  by (rule psubset_card_mono) (use assms in auto)

function head_loop :: "(u32 \<Rightarrow> u32 option) \<Rightarrow> u32 \<Rightarrow> u32 fset \<Rightarrow> u32" where
  "head_loop hop cur visited =
     (case hop cur of
        None \<Rightarrow> cur
      | Some nxt \<Rightarrow> if nxt |\<in>| visited then cur else head_loop hop nxt (finsert nxt visited))"
  by pat_completeness auto
termination
  by (relation "measure (\<lambda>(hop, cur, visited). card (UNIV - fset visited))") (simp, simp only: in_measure prod.case visited_measure not_False_eq_True)

function forward_loop :: "(u32 \<Rightarrow> u32 option) \<Rightarrow> u32 list \<Rightarrow> u32 fset \<Rightarrow> u32 list \<times> u32 fset" where
  "forward_loop hop chain visited =
     (case hop (last chain) of
        None \<Rightarrow> (chain, visited)
      | Some nxt \<Rightarrow> if nxt |\<in>| visited then (chain, visited) else forward_loop hop (chain @ [nxt]) (finsert nxt visited))"
  by pat_completeness auto
termination
  by (relation "measure (\<lambda>(hop, chain, visited). card (UNIV - fset visited))") (simp, simp only: in_measure prod.case visited_measure not_False_eq_True)

function backward_loop :: "(u32 \<Rightarrow> u32 option) \<Rightarrow> u32 \<Rightarrow> u32 list \<Rightarrow> u32 fset \<Rightarrow> u32 list" where
  "backward_loop hop cur chain visited =
     (case hop cur of
        None \<Rightarrow> chain
      | Some prev \<Rightarrow> if prev |\<in>| visited then chain else backward_loop hop prev (prev # chain) (finsert prev visited))"
  by pat_completeness auto
termination
  by (relation "measure (\<lambda>(hop, cur, chain, visited). card (UNIV - fset visited))") (simp, simp only: in_measure prod.case visited_measure not_False_eq_True)

declare head_loop.simps [simp del] forward_loop.simps [simp del] backward_loop.simps [simp del]

definition external_id :: "interner \<Rightarrow> u32 \<Rightarrow> string option" where
  "external_id it i = map_option n_external_id (in_get i it)"

definition belief_head :: "string \<Rightarrow> mgraph \<Rightarrow> string" where
  "belief_head mid g =
     (case get_node_id (as_str (Memory mid)) g of
        None \<Rightarrow> mid
      | Some start \<Rightarrow>
          (case external_id (g_interner g) (head_loop (supersession_next g) start {|start|}) of None \<Rightarrow> mid | Some x \<Rightarrow> x))"

text \<open>\<open>entry(k).or_default()\<close> of a map of vectors.\<close>

definition entry :: "(u32, (nat \<times> u32) list) fmap \<Rightarrow> u32 \<Rightarrow> (nat \<times> u32) list" where
  "entry m k = (case fmlookup m k of None \<Rightarrow> [] | Some v \<Rightarrow> v)"

definition predecessors :: "mgraph \<Rightarrow> (u32, (nat \<times> u32) list) fmap" where
  "predecessors g =
     foldl (\<lambda>m (i, e).
         if is_belief (e_kind e) \<and> is_memory (g_interner g) (e_source e) \<and> is_memory (g_interner g) (e_target e)
         then fmupd (e_target e) (entry m (e_target e) @ [(i, e_source e)]) m
         else m) fmempty (List.enumerate 0 (g_edges g))"

definition supersession_prev :: "mgraph \<Rightarrow> u32 \<Rightarrow> u32 option" where
  "supersession_prev g nid =
     (case fmlookup (predecessors g) nid of None \<Rightarrow> None | Some cands \<Rightarrow> map_option snd (max_by_idx cands))"

definition belief_lineage :: "string \<Rightarrow> mgraph \<Rightarrow> string list" where
  "belief_lineage mid g =
     (case get_node_id (as_str (Memory mid)) g of
        None \<Rightarrow> [mid]
      | Some start \<Rightarrow>
          (let (chain, visited) = forward_loop (supersession_next g) [start] {|start|};
               full = backward_loop (supersession_prev g) start chain visited
           in List.map_filter (external_id (g_interner g)) full))"

section \<open>Walking a hop function\<close>

text \<open>A hop function follows some edge of a relation whenever there is one.\<close>

locale hops =
  fixes hop :: "u32 \<Rightarrow> u32 option" and edge :: "u32 \<Rightarrow> u32 \<Rightarrow> bool"
  assumes hop_edge: "hop a = Some b \<Longrightarrow> edge a b"
    and hop_total: "edge a b \<Longrightarrow> hop a \<noteq> None"
begin

text \<open>The forward walk extends the chain by edges, keeps it free of repeats, ends where the head
  loop ends, and stops only at a node without an edge or when the hop leads back into the chain.\<close>

lemma forward_walk:
  assumes "forward_loop hop chain visited = (chain', visited')" "chain \<noteq> []" "distinct chain" "set chain = fset visited"
    "successively edge chain"
  shows "distinct chain' \<and> set chain' = fset visited' \<and> successively edge chain' \<and> chain' \<noteq> [] \<and>
    (\<exists>ext. chain' = chain @ ext) \<and> last chain' = head_loop hop (last chain) visited \<and>
    (case hop (last chain') of None \<Rightarrow> \<forall>b. \<not> edge (last chain') b | Some n \<Rightarrow> n \<in> set chain')"
  using assms
proof (induction "card (UNIV - fset visited)" arbitrary: chain visited rule: less_induct)
  case less
  show ?case
  proof (cases "\<exists>n. hop (last chain) = Some n \<and> n |\<notin>| visited")
    case True
    then obtain n where n: "hop (last chain) = Some n" "n |\<notin>| visited" by blast
    have step: "forward_loop hop (chain @ [n]) (finsert n visited) = (chain', visited')"
      using less.prems(1) n by (simp add: forward_loop.simps [of hop chain])
    have head: "head_loop hop (last chain) visited = head_loop hop n (finsert n visited)"
      using n by (simp add: head_loop.simps [of hop "last chain"])
    have "successively edge (chain @ [n])"
      using less.prems(2,5) hop_edge [OF n(1)] by (simp add: successively_append_iff)
    then show ?thesis
      using less.hyps [OF visited_measure [OF n(2)] step] less.prems n(2) head by auto
  next
    case False
    then have stop: "chain' = chain" "visited' = visited" "head_loop hop (last chain) visited = last chain"
      using less.prems(1)
      by (auto simp: forward_loop.simps [of hop chain] head_loop.simps [of hop "last chain"] split: option.splits if_splits)
    have "case hop (last chain) of None \<Rightarrow> \<forall>b. \<not> edge (last chain) b | Some n \<Rightarrow> n \<in> set chain"
      using False less.prems(4) hop_total [of "last chain"] by (auto split: option.split)
    then show ?thesis using less.prems(2-5) stop(3) unfolding stop(1,2) by simp
  qed
qed

text \<open>The backward walk prepends edges of the converse relation, one hop after the other, keeps the rest
  of the chain, and stops only at a node without a hop or when the hop leads into the chain.\<close>

lemma backward_walk:
  assumes "distinct chain" "set chain = fset visited" "chain \<noteq> []" "hd chain = cur" "successively (\<lambda>a b. edge b a) chain"
  shows "distinct (backward_loop hop cur chain visited) \<and> successively (\<lambda>a b. edge b a) (backward_loop hop cur chain visited) \<and>
    (\<exists>pre. backward_loop hop cur chain visited = pre @ chain \<and> successively (\<lambda>a b. hop b = Some a) (pre @ [cur]) \<and>
       (\<forall>n. hop (hd (pre @ [cur])) = Some n \<longrightarrow> n \<in> set (pre @ chain)))"
  using assms
proof (induction "card (UNIV - fset visited)" arbitrary: chain cur visited rule: less_induct)
  case less
  show ?case
  proof (cases "\<exists>n. hop cur = Some n \<and> n |\<notin>| visited")
    case True
    then obtain n where n: "hop cur = Some n" "n |\<notin>| visited" by blast
    have step: "backward_loop hop cur chain visited = backward_loop hop n (n # chain) (finsert n visited)"
      using n by (simp add: backward_loop.simps [of hop cur])
    have "successively (\<lambda>a b. edge b a) (n # chain)"
      using less.prems hop_edge [OF n(1)] by (cases chain) auto
    then have IH: "distinct (backward_loop hop n (n # chain) (finsert n visited)) \<and>
        successively (\<lambda>a b. edge b a) (backward_loop hop n (n # chain) (finsert n visited)) \<and>
        (\<exists>pre. backward_loop hop n (n # chain) (finsert n visited) = pre @ n # chain \<and> successively (\<lambda>a b. hop b = Some a) (pre @ [n]) \<and>
          (\<forall>m. hop (hd (pre @ [n])) = Some m \<longrightarrow> m \<in> set (pre @ n # chain)))"
      using less.hyps [OF visited_measure [OF n(2)], of "n # chain" n] less.prems n(2) by auto
    then obtain pre where pre: "backward_loop hop n (n # chain) (finsert n visited) = pre @ n # chain" "successively (\<lambda>a b. hop b = Some a) (pre @ [n])"
        "\<forall>m. hop (hd (pre @ [n])) = Some m \<longrightarrow> m \<in> set (pre @ n # chain)" by blast
    have "successively (\<lambda>a b. hop b = Some a) ((pre @ [n]) @ [cur])" using pre(2) n(1) by (simp add: successively_append_iff)
    moreover have "hd ((pre @ [n]) @ [cur]) = hd (pre @ [n])" by (cases pre) simp_all
    ultimately show ?thesis using IH pre(1,3) unfolding step by (intro conjI exI [of _ "pre @ [n]"]) simp_all
  next
    case False
    then have "backward_loop hop cur chain visited = chain"
      by (auto simp: backward_loop.simps [of hop cur] split: option.splits)
    moreover have "\<forall>n. hop cur = Some n \<longrightarrow> n \<in> set chain" using False less.prems(2) by auto
    ultimately show ?thesis using less.prems by simp
  qed
qed

end

section \<open>The two directions of supersession\<close>

definition succ_edge :: "mgraph \<Rightarrow> u32 \<Rightarrow> u32 \<Rightarrow> bool" where
  "succ_edge g a b \<longleftrightarrow> (\<exists>i. (i, b) \<in> set (supersession_successors a g))"

definition pred_edge :: "mgraph \<Rightarrow> u32 \<Rightarrow> u32 \<Rightarrow> bool" where
  "pred_edge g a b \<longleftrightarrow> (\<exists>i. (i, b) \<in> set (entry (predecessors g) a))"

lemma max_by_idx_Some: "max_by_idx xs = Some p \<Longrightarrow> p \<in> set xs"
  unfolding max_by_idx_def
  by (induction xs arbitrary: p rule: rev_induct) (auto split: option.splits if_splits)

lemma max_by_idx_None: "max_by_idx xs = None \<longleftrightarrow> xs = []"
  unfolding max_by_idx_def by (induction xs rule: rev_induct) (auto split: option.splits)

lemma max_by_idx_max: "max_by_idx xs = Some p \<Longrightarrow> q \<in> set xs \<Longrightarrow> fst q \<le> fst p"
proof (induction xs arbitrary: p rule: rev_induct)
  case (snoc x xs)
  have step: "max_by_idx (xs @ [x]) = (case max_by_idx xs of None \<Rightarrow> Some x | Some r \<Rightarrow> if fst r \<le> fst x then Some x else Some r)"
    by (simp add: max_by_idx_def)
  show ?case
  proof (cases "max_by_idx xs")
    case None
    then have "xs = []" by (simp add: max_by_idx_None)
    then show ?thesis using snoc.prems step None by simp
  next
    case (Some r)
    then have "q \<in> set xs \<Longrightarrow> fst q \<le> fst r" using snoc.IH by blast
    then show ?thesis using snoc.prems step Some by (auto split: if_splits)
  qed
qed (simp add: max_by_idx_def)

text \<open>Every hop function walks its own graph.\<close>

interpretation own: hops hop "\<lambda>a b. hop a = Some b" for hop :: "u32 \<Rightarrow> u32 option"
  by unfold_locales simp_all

interpretation fwd: hops "supersession_next g" "succ_edge g" for g
proof
  fix a b assume "supersession_next g a = Some b"
  then show "succ_edge g a b"
    using max_by_idx_Some by (fastforce simp: supersession_next_def succ_edge_def)
next
  fix a b assume "succ_edge g a b"
  then have "supersession_successors a g \<noteq> []" by (auto simp: succ_edge_def)
  then show "supersession_next g a \<noteq> None" by (simp add: supersession_next_def max_by_idx_None)
qed

lemma supersession_prev_list: "supersession_prev g a = map_option snd (max_by_idx (entry (predecessors g) a))"
  by (simp add: supersession_prev_def entry_def max_by_idx_def split: option.split)

interpretation bwd: hops "supersession_prev g" "pred_edge g" for g
proof
  fix a b assume "supersession_prev g a = Some b"
  then show "pred_edge g a b"
    using max_by_idx_Some by (fastforce simp: supersession_prev_list pred_edge_def)
next
  fix a b assume "pred_edge g a b"
  then have "entry (predecessors g) a \<noteq> []" by (auto simp: pred_edge_def)
  then show "supersession_prev g a \<noteq> None" by (simp add: supersession_prev_list max_by_idx_None)
qed

text \<open>A belief edge between two memories.\<close>

definition belief_edge :: "mgraph \<Rightarrow> u32 \<Rightarrow> u32 \<Rightarrow> bool" where
  "belief_edge g a b \<longleftrightarrow>
     (\<exists>e \<in> set (g_edges g). is_belief (e_kind e) \<and> e_source e = a \<and> e_target e = b) \<and> is_memory (g_interner g) b"

text \<open>The belief edge with a given position in the edge list.\<close>

definition belief_edge_at :: "mgraph \<Rightarrow> nat \<Rightarrow> u32 \<Rightarrow> u32 \<Rightarrow> bool" where
  "belief_edge_at g i a b \<longleftrightarrow> i < length (g_edges g) \<and> is_belief (e_kind (g_edges g ! i)) \<and>
     e_source (g_edges g ! i) = a \<and> e_target (g_edges g ! i) = b \<and> is_memory (g_interner g) b"

lemma belief_edge_pos: "belief_edge g a b \<longleftrightarrow> (\<exists>i. belief_edge_at g i a b)"
  unfolding belief_edge_def belief_edge_at_def by (metis in_set_conv_nth)

lemma successors_mem:
  assumes "graph_ok g"
  shows "(i, b) \<in> set (supersession_successors a g) \<longleftrightarrow> belief_edge_at g i a b"
proof -
  have adj: "adj_list a (g_adjacency g) = out_idxs (g_edges g) a" using assms by (simp add: graph_ok_def)
  show ?thesis
    unfolding supersession_successors_def map_filter_mem Let_def adj belief_edge_at_def by (auto split: if_splits)
qed

lemma succ_edge_iff: "graph_ok g \<Longrightarrow> succ_edge g a b \<longleftrightarrow> belief_edge g a b"
  by (simp add: succ_edge_def successors_mem belief_edge_pos)

lemma entry_upd [simp]: "entry (fmupd k v m) t = (if t = k then v else entry m t)" "entry fmempty t = []"
  by (simp_all add: entry_def)

definition pred_build :: "interner \<Rightarrow> internal_edge list \<Rightarrow> (u32, (nat \<times> u32) list) fmap" where
  "pred_build it es = foldl (\<lambda>m (i, e).
         if is_belief (e_kind e) \<and> is_memory it (e_source e) \<and> is_memory it (e_target e)
         then fmupd (e_target e) (entry m (e_target e) @ [(i, e_source e)]) m
         else m) fmempty (List.enumerate 0 es)"

lemma pred_build_entry:
  "(i, a) \<in> set (entry (pred_build it es) t) \<longleftrightarrow>
    i < length es \<and> is_belief (e_kind (es ! i)) \<and> is_memory it (e_source (es ! i)) \<and> is_memory it (e_target (es ! i)) \<and>
    e_source (es ! i) = a \<and> e_target (es ! i) = t"
proof (induction es rule: rev_induct)
  case Nil
  then show ?case by (simp add: pred_build_def)
next
  case (snoc e es)
  have "entry (pred_build it (es @ [e])) t = entry (pred_build it es) t @
      (if is_belief (e_kind e) \<and> is_memory it (e_source e) \<and> is_memory it (e_target e) \<and> e_target e = t
       then [(length es, e_source e)] else [])"
    by (auto simp: pred_build_def enumerate_append_eq)
  then show ?case using snoc by (auto simp: nth_append less_Suc_eq)
qed

lemma predecessors_mem: "(i, a) \<in> set (entry (predecessors g) b) \<longleftrightarrow> belief_edge_at g i a b \<and> is_memory (g_interner g) a"
  using pred_build_entry [of i a "g_interner g" "g_edges g" b] by (auto simp: belief_edge_at_def predecessors_def pred_build_def)

lemma pred_edge_iff: "pred_edge g b a \<longleftrightarrow> belief_edge g a b \<and> is_memory (g_interner g) a"
  by (auto simp: pred_edge_def predecessors_mem belief_edge_pos)

section \<open>Names of memories\<close>

definition mem_node :: "mgraph \<Rightarrow> string \<Rightarrow> u32 \<Rightarrow> bool" where
  "mem_node g x i \<longleftrightarrow>
     get_node_id (as_str (Memory x)) g = Some i \<and> external_id (g_interner g) i = Some x \<and> is_memory (g_interner g) i"

definition superseded_by :: "mgraph \<Rightarrow> string \<Rightarrow> string \<Rightarrow> bool" where
  "superseded_by g x y \<longleftrightarrow> y \<in> set (refined_by x g) \<or> y \<in> set (contradicted_by x g)"

lemma key_fitsD:
  "key_fits (as_str (Memory x)) n \<Longrightarrow> n_kind n = KMemory \<and> n_external_id n = x"
  "key_fits k n \<Longrightarrow> n_kind n = KMemory \<Longrightarrow> k = as_str (Memory (n_external_id n))"
  unfolding key_fits_def by blast+

lemma mem_node_lookup:
  assumes "graph_ok g" "get_node_id (as_str (Memory x)) g = Some i"
  shows "mem_node g x i"
proof -
  obtain n where n: "in_get i (g_interner g) = Some n" "key_fits (as_str (Memory x)) n"
    using ok_lookup(3) [OF assms] by blast
  then have "n_kind n = KMemory" "n_external_id n = x" using key_fitsD(1) by blast+
  then show ?thesis using assms(2) n(1) by (simp add: mem_node_def external_id_def is_memory_def)
qed

lemma mem_node_live:
  assumes "graph_ok g" "get_node_id k g = Some i" "is_memory (g_interner g) i"
  shows "\<exists>x. mem_node g x i"
proof -
  obtain n where n: "in_get i (g_interner g) = Some n" "key_fits k n" using ok_lookup(3) [OF assms(1,2)] by blast
  then have "k = as_str (Memory (n_external_id n))" using assms(3) key_fitsD(2) [OF n(2)] by (simp add: is_memory_def)
  then show ?thesis using mem_node_lookup [OF assms(1)] assms(2) by blast
qed

lemma mem_node_name: "mem_node g x i \<Longrightarrow> name_of KMemory (g_interner g) i = Some x"
  by (auto simp: mem_node_def name_of_def external_id_def is_memory_def split: option.splits)

lemma mem_node_fun: "mem_node g x i \<Longrightarrow> mem_node g x j \<Longrightarrow> i = j" "mem_node g x i \<Longrightarrow> mem_node g y i \<Longrightarrow> x = y"
  by (simp_all add: mem_node_def)

lemma belief_edge_target: "graph_ok g \<Longrightarrow> belief_edge g a b \<Longrightarrow> \<exists>y. mem_node g y b"
  using ok_edge(2) mem_node_live unfolding belief_edge_def by blast

lemma superseded_by_iff:
  assumes ok: "graph_ok g" and a: "mem_node g x a"
  shows "superseded_by g x y \<longleftrightarrow> (\<exists>b. belief_edge g a b \<and> mem_node g y b)"
proof -
  have look: "get_node_id (as_str (Memory x)) g = Some a" using a by (simp add: mem_node_def)
  have "superseded_by g x y \<longleftrightarrow>
      (\<exists>e \<in> set (g_edges g). is_belief (e_kind e) \<and> e_source e = a \<and> name_of KMemory (g_interner g) (e_target e) = Some y)"
    unfolding superseded_by_def refined_by_def contradicted_by_def
    by (auto simp: targets_names [OF ok] look edge_names_def map_filter_mem is_belief_def)
  also have "\<dots> \<longleftrightarrow> (\<exists>b. belief_edge g a b \<and> mem_node g y b)"
  proof
    assume "\<exists>e \<in> set (g_edges g). is_belief (e_kind e) \<and> e_source e = a \<and> name_of KMemory (g_interner g) (e_target e) = Some y"
    then obtain e where e: "e \<in> set (g_edges g)" "is_belief (e_kind e)" "e_source e = a"
      "name_of KMemory (g_interner g) (e_target e) = Some y" by blast
    obtain k where k: "get_node_id k g = Some (e_target e)" using ok_edge(2) [OF ok e(1)] by blast
    then have m: "mem_node g y (e_target e)"
      using name_of_memory [OF ok k e(4)] mem_node_lookup [OF ok] by blast
    then have "belief_edge g a (e_target e)"
      using e by (auto simp: belief_edge_def mem_node_def)
    with m show "\<exists>b. belief_edge g a b \<and> mem_node g y b" by blast
  next
    assume "\<exists>b. belief_edge g a b \<and> mem_node g y b"
    then show "\<exists>e \<in> set (g_edges g). is_belief (e_kind e) \<and> e_source e = a \<and> name_of KMemory (g_interner g) (e_target e) = Some y"
      using mem_node_name unfolding belief_edge_def by blast
  qed
  finally show ?thesis .
qed

section \<open>What is superseded\<close>

lemma superseded_fold:
  "x |\<in>| foldl (\<lambda>s e. if \<not> is_belief (e_kind e) then s
       else case (in_get (e_source e) it, in_get (e_target e) it) of
             (Some src, Some tgt) \<Rightarrow>
               if n_kind src = KMemory \<and> n_kind tgt = KMemory then finsert (n_external_id src) s else s
           | _ \<Rightarrow> s) {||} es \<longleftrightarrow>
   (\<exists>e \<in> set es. is_belief (e_kind e) \<and> name_of KMemory it (e_source e) = Some x \<and> is_memory it (e_target e))"
proof (induction es rule: rev_induct)
  case (snoc e es)
  then show ?case
    by (cases "in_get (e_source e) it"; cases "in_get (e_target e) it") (auto simp: name_of_def is_memory_def)
qed simp

text \<open>C31. The set of superseded memories, collected in one pass over the edges, is exactly the set
  of memories that the per-memory views show to be refined or contradicted by a memory of the graph.\<close>

theorem superseded_ids_exact:
  assumes "graph_ok g"
  shows "x |\<in>| superseded_ids g \<longleftrightarrow> refined_by x g \<noteq> [] \<or> contradicted_by x g \<noteq> []"
proof -
  have "x |\<in>| superseded_ids g \<longleftrightarrow> (\<exists>a b. mem_node g x a \<and> belief_edge g a b)"
  proof
    assume "x |\<in>| superseded_ids g"
    then obtain e where e: "e \<in> set (g_edges g)" "is_belief (e_kind e)"
        "name_of KMemory (g_interner g) (e_source e) = Some x" "is_memory (g_interner g) (e_target e)"
      unfolding superseded_ids_def superseded_fold by blast
    obtain k where k: "get_node_id k g = Some (e_source e)" using ok_edge(1) [OF assms e(1)] by blast
    then have "mem_node g x (e_source e)"
      using name_of_memory [OF assms k e(3)] mem_node_lookup [OF assms] by blast
    then show "\<exists>a b. mem_node g x a \<and> belief_edge g a b" using e by (auto simp: belief_edge_def)
  next
    assume "\<exists>a b. mem_node g x a \<and> belief_edge g a b"
    then show "x |\<in>| superseded_ids g"
      unfolding superseded_ids_def superseded_fold belief_edge_def using mem_node_name by blast
  qed
  also have "\<dots> \<longleftrightarrow> (\<exists>y. superseded_by g x y)"
  proof
    assume "\<exists>a b. mem_node g x a \<and> belief_edge g a b"
    then show "\<exists>y. superseded_by g x y" using superseded_by_iff [OF assms] belief_edge_target [OF assms] by blast
  next
    assume "\<exists>y. superseded_by g x y"
    then obtain y where y: "superseded_by g x y" by blast
    then obtain a where "get_node_id (as_str (Memory x)) g = Some a"
      by (cases "get_node_id (as_str (Memory x)) g") (auto simp: superseded_by_def refined_by_def contradicted_by_def targets_def)
    then show "\<exists>a b. mem_node g x a \<and> belief_edge g a b"
      using mem_node_lookup [OF assms] superseded_by_iff [OF assms] y by blast
  qed
  also have "\<dots> \<longleftrightarrow> refined_by x g \<noteq> [] \<or> contradicted_by x g \<noteq> []"
    unfolding superseded_by_def by (cases "refined_by x g"; cases "contradicted_by x g") auto
  finally show ?thesis .
qed

theorem superseded_ids_exact_witness:
  "''m1'' |\<in>| superseded_ids demo_graph \<and> ''m2'' |\<notin>| superseded_ids demo_graph"
proof -
  have "refined_by ''m1'' demo_graph = [''m2'']"
    by (simp add: refined_by_def targets_def demo_graph_def add_refinement_def has_edge_to_def add_int_edge_def push_edge_def
      add_memory_scoped_def intern_node_def intern_def graph_new_def interner_new_def Let_def get_node_id_def in_resolve_def
      resolve_def resolve_loop.simps link_concept_def chain_memory_def adj_add_def adj_list_def adj_get_def in_get_def List.map_filter_simps)
  moreover have "refined_by ''m2'' demo_graph = []" "contradicted_by ''m2'' demo_graph = []"
    by (simp_all add: refined_by_def contradicted_by_def targets_def demo_graph_def add_refinement_def has_edge_to_def add_int_edge_def push_edge_def
      add_memory_scoped_def intern_node_def intern_def graph_new_def interner_new_def Let_def get_node_id_def in_resolve_def
      resolve_def resolve_loop.simps link_concept_def chain_memory_def adj_add_def adj_list_def adj_get_def in_get_def List.map_filter_simps)
  ultimately show ?thesis using superseded_ids_exact [OF demo_graph_ok] by simp
qed
section \<open>Heads and lineages\<close>

definition node_name :: "mgraph \<Rightarrow> u32 \<Rightarrow> string" where
  "node_name g i = the (external_id (g_interner g) i)"

lemma node_name_eq: "mem_node g x i \<Longrightarrow> node_name g i = x \<and> external_id (g_interner g) i = Some x"
  by (simp add: node_name_def mem_node_def)

lemma forward_nodes:
  assumes "graph_ok g" "successively (succ_edge g) c" "c \<noteq> []" "\<exists>x. mem_node g x (hd c)"
  shows "successively (\<lambda>a b. pred_edge g b a) c"
  using assms(2-)
proof (induction c rule: induct_list012)
  case (3 a b c)
  have "belief_edge g a b" using "3.prems"(1) by (simp add: succ_edge_iff [OF assms(1)])
  then show ?case
    using "3.IH"(2) "3.prems" belief_edge_target [OF assms(1)] by (auto simp: pred_edge_iff mem_node_def)
qed simp_all

lemma backward_nodes:
  assumes "graph_ok g" "successively (\<lambda>a b. pred_edge g b a) c" "c \<noteq> []" "\<exists>x. mem_node g x (last c)"
  shows "(\<forall>i \<in> set c. mem_node g (node_name g i) i) \<and> successively (belief_edge g) c"
  using assms(2-)
proof (induction c rule: induct_list012)
  case (2 a)
  then show ?case using node_name_eq by auto
next
  case (3 a b c)
  have "belief_edge g a b" and m: "is_memory (g_interner g) a"
    using "3.prems"(1) by (simp_all add: pred_edge_iff)
  moreover then obtain x where "mem_node g x a"
    using ok_edge(1) [OF assms(1)] mem_node_live [OF assms(1) _ m] unfolding belief_edge_def by blast
  ultimately show ?case using "3.IH"(2) "3.prems" node_name_eq by auto
qed simp

lemma map_filter_names:
  "\<forall>i \<in> set c. mem_node g (node_name g i) i \<Longrightarrow> List.map_filter (external_id (g_interner g)) c = map (node_name g) c"
  by (induction c) (auto simp: List.map_filter_simps mem_node_def)

text \<open>The nodes of a lineage: hops backward, the memory itself, hops forward.\<close>

lemma lineage_nodes:
  assumes ok: "graph_ok g" and start: "get_node_id (as_str (Memory mid)) g = Some start"
  obtains pre post where "belief_lineage mid g = map (node_name g) (pre @ start # post)" "distinct (pre @ start # post)"
    "\<forall>i \<in> set (pre @ start # post). mem_node g (node_name g i) i" "node_name g start = mid"
    "successively (\<lambda>a b. supersession_next g a = Some b) (start # post)" "successively (\<lambda>a b. supersession_prev g b = Some a) (pre @ [start])"
    "belief_head mid g = node_name g (last (start # post))" "\<forall>n. supersession_next g (last (start # post)) = Some n \<longrightarrow> n \<in> set (start # post)"
    "\<forall>n. supersession_prev g (hd (pre @ [start])) = Some n \<longrightarrow> n \<in> set (pre @ start # post)"
proof -
  have m: "mem_node g mid start" using mem_node_lookup [OF ok start] .
  obtain chain visited where loop: "forward_loop (supersession_next g) [start] {|start|} = (chain, visited)"
    by (metis surj_pair)
  have f: "distinct chain \<and> set chain = fset visited \<and> successively (\<lambda>a b. supersession_next g a = Some b) chain \<and> chain \<noteq> [] \<and>
      (\<exists>ext. chain = [start] @ ext) \<and> last chain = head_loop (supersession_next g) (last [start]) {|start|} \<and>
      (case supersession_next g (last chain) of None \<Rightarrow> \<forall>b. supersession_next g (last chain) \<noteq> Some b | Some n \<Rightarrow> n \<in> set chain)"
    by (rule own.forward_walk [OF loop]) simp_all
  then obtain post where post: "chain = start # post" by auto
  have succ: "successively (succ_edge g) chain"
  proof (rule successively_mono)
    show "successively (\<lambda>a b. supersession_next g a = Some b) chain" using f by blast
  qed (rule fwd.hop_edge)
  have pred: "successively (\<lambda>a b. pred_edge g b a) chain" using forward_nodes [OF ok succ] m post by auto
  let ?full = "backward_loop (supersession_prev g) start chain visited"
  have b: "distinct ?full \<and> successively (\<lambda>a b. pred_edge g b a) ?full \<and>
      (\<exists>pre. ?full = pre @ chain \<and> successively (\<lambda>a b. supersession_prev g b = Some a) (pre @ [start]) \<and>
        (\<forall>n. supersession_prev g (hd (pre @ [start])) = Some n \<longrightarrow> n \<in> set (pre @ chain)))"
    by (rule bwd.backward_walk) (use f post pred in auto)
  then obtain pre where pre: "?full = pre @ start # post" "successively (\<lambda>a b. supersession_prev g b = Some a) (pre @ [start])"
      "\<forall>n. supersession_prev g (hd (pre @ [start])) = Some n \<longrightarrow> n \<in> set (pre @ start # post)" using post by auto
  have "\<exists>x. mem_node g x (last (start # post))"
  proof (cases post rule: rev_cases)
    case (snoc ys z)
    have "succ_edge g (last (start # ys)) z" using succ unfolding post snoc
      by (metis append_Cons last_snoc list.distinct(1) list.sel(1) successively_append_iff)
    then show ?thesis using belief_edge_target [OF ok] succ_edge_iff [OF ok] snoc by auto
  qed (use m in auto)
  then have n: "\<forall>i \<in> set (pre @ start # post). mem_node g (node_name g i) i"
    using backward_nodes [OF ok, of ?full] b unfolding pre(1) by auto
  have "belief_lineage mid g = map (node_name g) (pre @ start # post)"
    using map_filter_names [OF n] by (simp add: belief_lineage_def start loop pre(1))
  moreover have "belief_head mid g = node_name g (last (start # post))"
  proof -
    have "mem_node g (node_name g (last (start # post))) (last (start # post))" using n by (metis Un_iff last_in_set list.distinct(1) set_append)
    moreover have "head_loop (supersession_next g) start {|start|} = last (start # post)" using f post by simp
    ultimately show ?thesis by (simp add: belief_head_def start mem_node_def)
  qed
  moreover have "\<forall>n. supersession_next g (last (start # post)) = Some n \<longrightarrow> n \<in> set (start # post)"
  proof -
    have "case supersession_next g (last chain) of None \<Rightarrow> \<forall>b. supersession_next g (last chain) \<noteq> Some b | Some n \<Rightarrow> n \<in> set chain" using f by blast
    then show ?thesis unfolding post by (cases "supersession_next g (last (start # post))") simp_all
  qed
  moreover have "distinct (pre @ start # post)" using b unfolding pre(1) by blast
  moreover have "successively (\<lambda>a b. supersession_next g a = Some b) (start # post)" using f unfolding post by blast
  moreover have "node_name g start = mid" using node_name_eq [OF m] by blast
  ultimately show thesis using that n pre(2,3) by blast
qed

text \<open>The edges between memories by their ids, read off the edge list: \<open>y\<close> supersedes \<open>x\<close> by the \<open>i\<close>-th
  edge, by the latest edge from \<open>x\<close>, by the latest edge to \<open>y\<close>.\<close>

definition supersedes_at :: "mgraph \<Rightarrow> nat \<Rightarrow> string \<Rightarrow> string \<Rightarrow> bool" where
  "supersedes_at g i x y \<longleftrightarrow> i < length (g_edges g) \<and> is_belief (e_kind (g_edges g ! i)) \<and>
     name_of KMemory (g_interner g) (e_source (g_edges g ! i)) = Some x \<and> name_of KMemory (g_interner g) (e_target (g_edges g ! i)) = Some y"

definition latest_from :: "mgraph \<Rightarrow> string \<Rightarrow> string \<Rightarrow> bool" where
  "latest_from g x y \<longleftrightarrow> (\<exists>i. supersedes_at g i x y \<and> (\<forall>j z. supersedes_at g j x z \<longrightarrow> j \<le> i))"

definition latest_to :: "mgraph \<Rightarrow> string \<Rightarrow> string \<Rightarrow> bool" where
  "latest_to g x y \<longleftrightarrow> (\<exists>i. supersedes_at g i x y \<and> (\<forall>j z. supersedes_at g j z y \<longrightarrow> j \<le> i))"

lemma supersedes_at_nodes:
  assumes "graph_ok g"
  shows "supersedes_at g i x y \<longleftrightarrow> (\<exists>a b. belief_edge_at g i a b \<and> mem_node g x a \<and> mem_node g y b)"
proof
  assume s: "supersedes_at g i x y"
  let ?e = "g_edges g ! i"
  have e: "?e \<in> set (g_edges g)" using s by (simp add: supersedes_at_def)
  have "mem_node g z j" if "name_of KMemory (g_interner g) j = Some z" "\<exists>k. get_node_id k g = Some j" for z j
    using that name_of_memory [OF assms] mem_node_lookup [OF assms] by blast
  then have "mem_node g x (e_source ?e)" "mem_node g y (e_target ?e)" using s ok_edge [OF assms e] by (simp_all add: supersedes_at_def)
  then show "\<exists>a b. belief_edge_at g i a b \<and> mem_node g x a \<and> mem_node g y b"
    using s by (auto simp: belief_edge_at_def supersedes_at_def mem_node_def)
next
  assume "\<exists>a b. belief_edge_at g i a b \<and> mem_node g x a \<and> mem_node g y b"
  then show "supersedes_at g i x y" using mem_node_name by (auto simp: belief_edge_at_def supersedes_at_def)
qed

lemma next_latest:
  assumes ok: "graph_ok g" and a: "mem_node g x a" and b: "mem_node g y b" and hop: "supersession_next g a = Some b"
  shows "latest_from g x y"
proof -
  obtain i where i: "max_by_idx (supersession_successors a g) = Some (i, b)" using hop by (auto simp: supersession_next_def)
  have "j \<le> i" if j: "supersedes_at g j x z" for j z
  proof -
    obtain a' c where "belief_edge_at g j a' c" "mem_node g x a'" using j supersedes_at_nodes [OF ok] by blast
    then have "(j, c) \<in> set (supersession_successors a g)" using mem_node_fun(1) [OF a] successors_mem [OF ok] by blast
    then show ?thesis using max_by_idx_max [OF i] by fastforce
  qed
  moreover have "supersedes_at g i x y" using max_by_idx_Some [OF i] a b supersedes_at_nodes [OF ok] successors_mem [OF ok] by blast
  ultimately show ?thesis unfolding latest_from_def by blast
qed

lemma prev_latest:
  assumes ok: "graph_ok g" and a: "mem_node g x a" and b: "mem_node g y b" and hop: "supersession_prev g b = Some a"
  shows "latest_to g x y"
proof -
  obtain i where i: "max_by_idx (entry (predecessors g) b) = Some (i, a)" using hop by (auto simp: supersession_prev_list)
  have "j \<le> i" if j: "supersedes_at g j z y" for j z
  proof -
    obtain c b' where "belief_edge_at g j c b'" "mem_node g z c" "mem_node g y b'" using j supersedes_at_nodes [OF ok] by blast
    then have "(j, c) \<in> set (entry (predecessors g) b)" using mem_node_fun(1) [OF b] predecessors_mem by (auto simp: mem_node_def)
    then show ?thesis using max_by_idx_max [OF i] by fastforce
  qed
  moreover have "supersedes_at g i x y" using max_by_idx_Some [OF i] a b supersedes_at_nodes [OF ok] predecessors_mem by blast
  ultimately show ?thesis unfolding latest_to_def by blast
qed

lemma no_hop:
  assumes "graph_ok g" "mem_node g x a"
  shows "supersession_next g a = None \<Longrightarrow> \<not> supersedes_at g i x y" "supersession_prev g a = None \<Longrightarrow> \<not> supersedes_at g i y x"
proof -
  show "\<not> supersedes_at g i x y" if none: "supersession_next g a = None"
  proof
    assume "supersedes_at g i x y"
    then obtain b where "(i, b) \<in> set (supersession_successors a g)"
      using supersedes_at_nodes [OF assms(1)] mem_node_fun(1) [OF assms(2)] successors_mem [OF assms(1)] by blast
    then show False using none by (auto simp: supersession_next_def max_by_idx_None)
  qed
  show "\<not> supersedes_at g i y x" if none: "supersession_prev g a = None"
  proof
    assume "supersedes_at g i y x"
    then obtain c where "belief_edge_at g i c a" "mem_node g y c"
      using supersedes_at_nodes [OF assms(1)] mem_node_fun(1) [OF assms(2)] by blast
    then have "(i, c) \<in> set (entry (predecessors g) a)" using predecessors_mem by (auto simp: mem_node_def)
    then show False using none by (auto simp: supersession_prev_list max_by_idx_None)
  qed
qed

lemma successively_names:
  assumes "successively P is" "\<And>a b. a \<in> set is \<Longrightarrow> b \<in> set is \<Longrightarrow> P a b \<Longrightarrow> Q (node_name g a) (node_name g b)"
  shows "successively Q (map (node_name g) is)"
  unfolding successively_map using assms(1) by (rule successively_mono) (use assms(2) in blast)

text \<open>C30. The lineage of a memory is its chain of beliefs, oldest first: the memory itself stands
  in it, no memory twice. From the memory on, each entry is followed by the one that supersedes
  it by the latest edge, up to the head that \<open>belief_head\<close> finds; before the memory, each entry is
  the one that its follower supersedes by the latest edge. At the head, and at the oldest entry,
  either there is no further edge, or the latest one leads back into the lineage (the edges form
  a cycle; older edges may then lead out of it). Both walks end in every case.\<close>

theorem belief_lineage_chain:
  assumes ok: "graph_ok g" and present: "get_node_id (as_str (Memory mid)) g \<noteq> None"
  shows "\<exists>older newer. belief_lineage mid g = older @ mid # newer \<and> distinct (belief_lineage mid g) \<and>
    successively (latest_from g) (mid # newer) \<and> successively (latest_to g) (older @ [mid]) \<and>
    belief_head mid g = last (mid # newer) \<and>
    ((\<forall>i y. \<not> supersedes_at g i (belief_head mid g) y) \<or> (\<exists>y \<in> set (mid # newer). latest_from g (belief_head mid g) y)) \<and>
    ((\<forall>i x. \<not> supersedes_at g i x (hd (older @ [mid]))) \<or> (\<exists>x \<in> set (belief_lineage mid g). latest_to g x (hd (older @ [mid]))))"
proof -
  obtain start where start: "get_node_id (as_str (Memory mid)) g = Some start" using present by blast
  obtain pre post where L: "belief_lineage mid g = map (node_name g) (pre @ start # post)" "distinct (pre @ start # post)"
    and n: "\<forall>i \<in> set (pre @ start # post). mem_node g (node_name g i) i" and mid: "node_name g start = mid"
    and fw: "successively (\<lambda>a b. supersession_next g a = Some b) (start # post)"
    and bw: "successively (\<lambda>a b. supersession_prev g b = Some a) (pre @ [start])"
    and head: "belief_head mid g = node_name g (last (start # post))"
    and stop: "\<forall>n. supersession_next g (last (start # post)) = Some n \<longrightarrow> n \<in> set (start # post)"
      "\<forall>n. supersession_prev g (hd (pre @ [start])) = Some n \<longrightarrow> n \<in> set (pre @ start # post)"
    by (rule lineage_nodes [OF ok start])
  let ?N = "node_name g"
  have "inj_on ?N (set (pre @ start # post))" using n mem_node_fun(1) by (metis inj_onI)
  then have "distinct (belief_lineage mid g)" unfolding L(1) distinct_map using L(2) by simp
  moreover have "successively (latest_from g) (map ?N (start # post))"
  proof (rule successively_names [OF fw])
    show "latest_from g (?N a) (?N b)" if "a \<in> set (start # post)" "b \<in> set (start # post)" "supersession_next g a = Some b" for a b
      by (rule next_latest [OF ok _ _ that(3)]) (use n that(1,2) in auto)
  qed
  moreover have "successively (latest_to g) (map ?N (pre @ [start]))"
  proof (rule successively_names [OF bw])
    show "latest_to g (?N a) (?N b)" if "a \<in> set (pre @ [start])" "b \<in> set (pre @ [start])" "supersession_prev g b = Some a" for a b
      by (rule prev_latest [OF ok _ _ that(3)]) (use n that(1,2) in auto)
  qed
  moreover have "(\<forall>i y. \<not> supersedes_at g i (?N (last (start # post))) y) \<or> (\<exists>y \<in> ?N ` set (start # post). latest_from g (?N (last (start # post))) y)"
  proof -
    have h: "last (start # post) \<in> set (pre @ start # post)" by simp
    show ?thesis using stop(1) n h no_hop(1) [OF ok] next_latest [OF ok]
      by (cases "supersession_next g (last (start # post))") (blast, metis Un_iff imageI set_append)
  qed
  moreover have "(\<forall>i x. \<not> supersedes_at g i x (?N (hd (pre @ [start])))) \<or> (\<exists>x \<in> ?N ` set (pre @ start # post). latest_to g x (?N (hd (pre @ [start]))))"
  proof -
    have h: "hd (pre @ [start]) \<in> set (pre @ start # post)" by (cases pre) simp_all
    show ?thesis using stop(2) n h no_hop(2) [OF ok] prev_latest [OF ok]
      by (cases "supersession_prev g (hd (pre @ [start]))") (blast, metis imageI)
  qed
  moreover have "?N (hd (pre @ [start])) = hd (map ?N pre @ [mid])" using mid by (cases pre) simp_all
  moreover have "?N (last (start # post)) = last (mid # map ?N post)" using mid last_map [of "start # post" ?N] by simp
  moreover have "map ?N (start # post) = mid # map ?N post" "map ?N (pre @ [start]) = map ?N pre @ [mid]"
      "?N ` set (start # post) = set (mid # map ?N post)" "?N ` set (pre @ start # post) = set (belief_lineage mid g)"
    unfolding L(1) using mid by (simp_all add: image_Un)
  moreover have "belief_lineage mid g = map ?N pre @ mid # map ?N post" using L(1) mid by simp
  ultimately show ?thesis unfolding head by (metis (no_types))
qed

theorem belief_lineage_chain_witness:
  "last (belief_lineage ''m1'' demo_graph) = belief_head ''m1'' demo_graph \<and> distinct (belief_lineage ''m1'' demo_graph)"
proof -
  have "get_node_id (as_str (Memory ''m1'')) demo_graph \<noteq> None"
    by (simp add: demo_graph_def add_refinement_def has_edge_to_def add_int_edge_def push_edge_def
      add_memory_scoped_def intern_node_def intern_def graph_new_def interner_new_def Let_def get_node_id_def in_resolve_def
      resolve_def resolve_loop.simps link_concept_def chain_memory_def)
  from belief_lineage_chain [OF demo_graph_ok this] obtain older newer where
    "belief_lineage ''m1'' demo_graph = older @ ''m1'' # newer" "distinct (belief_lineage ''m1'' demo_graph)"
    "belief_head ''m1'' demo_graph = last (''m1'' # newer)" by blast
  then show ?thesis by simp
qed

end
