(* ===== verification/Graph_Snapshot.thy ===== *)
theory Graph_Snapshot
  imports Memory_Graph "HOL-Library.Multiset"
begin

text \<open>
  The binary form of the cognitive graph (\<open>to_snapshot_bytes\<close> and \<open>from_snapshot_bytes\<close> of
  \<open>turbomemory_graph/src/graph.rs\<close>): a magic and a version in front of a \<open>bincode\<close> payload. The
  live nodes are written in the order of their ids and numbered densely, the edges are renumbered
  and sorted, and the adjacency index is rebuilt on load. The payload codec is a parameter.
\<close>

section \<open>Data\<close>

definition SNAPSHOT_MAGIC :: bytes where
  "SNAPSHOT_MAGIC = [0x54, 0x4D, 0x47, 0x52]"

definition SNAPSHOT_VERSION :: u32 where
  "SNAPSHOT_VERSION = 1"

record graph_snapshot =
  sn_nodes :: "(string \<times> internal_node) list"
  sn_edges :: "internal_edge list"
  sn_last_memory_id :: "string option"
  sn_co_occurrence :: "(string, nat) fmap"
  sn_vocab_aliases :: "(string \<times> string) list"
  sn_suppressed :: "string fset"

record snap_codec =
  ser_snap :: "graph_snapshot \<Rightarrow> bytes option"
  de_snap :: "bytes \<Rightarrow> graph_snapshot option"

text \<open>What \<open>bincode\<close> promises: what was serialized deserializes to the same value.\<close>

definition snap_codec_ok :: "snap_codec \<Rightarrow> bool" where
  "snap_codec_ok K \<longleftrightarrow> (\<forall>s b. ser_snap K s = Some b \<longrightarrow> de_snap K b = Some s)"

datatype snap_error = MissingMagic | TruncatedHeader | UnsupportedVersion | BadPayload

section \<open>The edge order\<close>

definition cmp_str :: "string \<Rightarrow> string \<Rightarrow> ordering" where
  "cmp_str a b = (if a < b then Less else if a = b then Equal else Greater)"

fun then_cmp :: "ordering \<Rightarrow> ordering \<Rightarrow> ordering" where
  "then_cmp Equal o2 = o2"
| "then_cmp o1 o2 = o1"

fun kind_rank :: "edge_kind \<Rightarrow> int" where
  "kind_rank Association = 0"
| "kind_rank Temporal = 1"
| "kind_rank Abstraction = 2"
| "kind_rank Refines = 3"
| "kind_rank Contradicts = 4"

definition cmp_edge :: "(string \<times> internal_node) list \<Rightarrow> internal_edge \<Rightarrow> internal_edge \<Rightarrow> ordering" where
  "cmp_edge nodes a b =
     (let ext = (\<lambda>i. n_external_id (snd (nodes ! unat i)))
      in then_cmp (cmp_str (ext (e_source a)) (ext (e_source b)))
           (then_cmp (cmp_str (ext (e_target a)) (ext (e_target b)))
             (then_cmp (cmp_int (kind_rank (e_kind a)) (kind_rank (e_kind b)))
               (f32_total_cmp (e_weight a) (e_weight b)))))"

text \<open>\<open>compact\<close> compares optional external ids (a missing node sorts first) in the graph's own
  numbering.\<close>

definition cmp_opt_str :: "string option \<Rightarrow> string option \<Rightarrow> ordering" where
  "cmp_opt_str a b =
     (case (a, b) of (None, None) \<Rightarrow> Equal | (None, Some _) \<Rightarrow> Less | (Some _, None) \<Rightarrow> Greater
      | (Some x, Some y) \<Rightarrow> cmp_str x y)"

definition cmp_edge_ids :: "interner \<Rightarrow> internal_edge \<Rightarrow> internal_edge \<Rightarrow> ordering" where
  "cmp_edge_ids it a b =
     (let ext = (\<lambda>i. map_option n_external_id (in_get i it))
      in then_cmp (cmp_opt_str (ext (e_source a)) (ext (e_source b)))
           (then_cmp (cmp_opt_str (ext (e_target a)) (ext (e_target b)))
             (then_cmp (cmp_int (kind_rank (e_kind a)) (kind_rank (e_kind b)))
               (f32_total_cmp (e_weight a) (e_weight b)))))"

definition compact :: "mgraph \<Rightarrow> mgraph" where
  "compact g =
     (let es = sort_by (cmp_edge_ids (g_interner g)) (g_edges g)
      in g\<lparr>g_edges := es, g_adjacency := adj_rebuild es\<rparr>)"

section \<open>Writing\<close>

fun remap_nodes :: "(u32 \<times> string \<times> internal_node) list \<Rightarrow> (u32, u32) fmap \<Rightarrow> (string \<times> internal_node) list
    \<Rightarrow> (u32, u32) fmap \<times> (string \<times> internal_node) list" where
  "remap_nodes [] m nodes = (m, nodes)"
| "remap_nodes ((old, k, n) # rest) m nodes =
     remap_nodes rest (fmupd old (word_of_nat (length nodes)) m) (nodes @ [(k, n)])"

definition remap_edge :: "(u32, u32) fmap \<Rightarrow> internal_edge \<Rightarrow> internal_edge option" where
  "remap_edge m e =
     (case fmlookup m (e_source e) of
        None \<Rightarrow> None
      | Some s \<Rightarrow> (case fmlookup m (e_target e) of None \<Rightarrow> None | Some t \<Rightarrow> Some (e\<lparr>e_source := s, e_target := t\<rparr>)))"

definition alias_pairs :: "vocab \<Rightarrow> (string \<times> string) list" where
  "alias_pairs v = map (\<lambda>a. (a, the (fmlookup v a))) (sorted_list_of_fset (fmdom v))"

definition snapshot_of :: "mgraph \<Rightarrow> graph_snapshot" where
  "snapshot_of g =
     (case remap_nodes (in_iter (g_interner g)) fmempty [] of (m, nodes) \<Rightarrow>
        \<lparr>sn_nodes = nodes, sn_edges = sort_by (cmp_edge nodes) (List.map_filter (remap_edge m) (g_edges g)),
         sn_last_memory_id = g_last_memory_id g, sn_co_occurrence = g_co_occurrence g,
         sn_vocab_aliases = alias_pairs (g_vocab g), sn_suppressed = g_suppressed g\<rparr>)"

definition to_snapshot_bytes :: "snap_codec \<Rightarrow> mgraph \<Rightarrow> bytes option" where
  "to_snapshot_bytes K g =
     map_option (\<lambda>payload. SNAPSHOT_MAGIC @ u32_to_le_bytes SNAPSHOT_VERSION @ payload) (ser_snap K (snapshot_of g))"

section \<open>Reading\<close>

definition is_snapshot_bytes :: "bytes \<Rightarrow> bool" where
  "is_snapshot_bytes bs \<longleftrightarrow> length SNAPSHOT_MAGIC \<le> length bs \<and> take (length SNAPSHOT_MAGIC) bs = SNAPSHOT_MAGIC"

definition intern_all :: "(string \<times> internal_node) list \<Rightarrow> interner" where
  "intern_all ns = foldl (\<lambda>it (k, n). snd (intern k n it)) interner_new ns"

definition graph_of_snapshot :: "graph_snapshot \<Rightarrow> mgraph" where
  "graph_of_snapshot s =
     (let it = intern_all (sn_nodes s);
          node_bound = (word_of_nat (length (in_id_to_node it)) :: u32);
          es = filter (\<lambda>e. e_source e < node_bound \<and> e_target e < node_bound) (sn_edges s)
      in \<lparr>g_interner = it, g_edges = es, g_adjacency = adj_rebuild es, g_last_memory_id = sn_last_memory_id s,
          g_last_memory_by_scope = fmempty, g_co_occurrence = sn_co_occurrence s,
          g_vocab = from_alias_pairs (sn_vocab_aliases s), g_suppressed = sn_suppressed s\<rparr>)"

definition from_snapshot_bytes :: "snap_codec \<Rightarrow> bytes \<Rightarrow> snap_error + mgraph" where
  "from_snapshot_bytes K bs =
     (if \<not> is_snapshot_bytes bs then Inl MissingMagic
      else let header_len = length SNAPSHOT_MAGIC + 4 in
        if length bs < header_len then Inl TruncatedHeader
        else if u32_from_le_bytes (take 4 (drop (length SNAPSHOT_MAGIC) bs)) \<noteq> SNAPSHOT_VERSION
        then Inl UnsupportedVersion
        else case de_snap K (drop header_len bs) of None \<Rightarrow> Inl BadPayload | Some s \<Rightarrow> Inr (graph_of_snapshot s))"

section \<open>Lemmas\<close>

lemma mset_insert_by [simp]: "mset (insert_by c x ys) = add_mset x (mset ys)"
  by (induction ys) auto

lemma mset_sort_by [simp]: "mset (sort_by c xs) = mset xs"
  by (induction xs) (simp_all add: sort_by_def)

lemma set_sort_by [simp]: "set (sort_by c xs) = set xs"
  by (metis mset_sort_by set_mset_mset)

lemma from_alias_pairs_lookup:
  "distinct (map fst ps) \<Longrightarrow> fmlookup (foldl (\<lambda>v (a, c). fmupd a c v) v0 ps) k =
     (case map_of ps k of None \<Rightarrow> fmlookup v0 k | Some c \<Rightarrow> Some c)"
  by (induction ps arbitrary: v0) (force split: option.splits dest: map_of_SomeD)+

lemma alias_roundtrip [simp]: "from_alias_pairs (alias_pairs v) = v"
proof (rule fmap_ext)
  fix k
  have d: "distinct (map fst (alias_pairs v))" by (simp add: alias_pairs_def comp_def)
  have "map_of (alias_pairs v) k = fmlookup v k"
    by (cases "fmlookup v k")
      (auto simp: alias_pairs_def map_of_map_restrict restrict_map_def fmlookup_dom_iff)
  then show "fmlookup (from_alias_pairs (alias_pairs v)) k = fmlookup v k"
    using from_alias_pairs_lookup [OF d] by (simp add: from_alias_pairs_def split: option.splits)
qed

text \<open>Renumbering: the nodes are the live entries in order, and an id is mapped to its position.\<close>

lemma remap_nodes_eq:
  "remap_nodes lv m nodes = (foldl (\<lambda>m (j, old, k, n). fmupd old (word_of_nat j) m) m (List.enumerate (length nodes) lv),
     nodes @ map snd lv)"
  by (induction lv m nodes rule: remap_nodes.induct) (auto simp: enumerate_simps)

lemma remap_lookup:
  fixes lv :: "(u32 \<times> 'a \<times> 'b) list"
  shows "distinct (map fst lv) \<Longrightarrow>
   fmlookup (foldl (\<lambda>m (j, old, k, n). fmupd old (word_of_nat j :: u32) m) fmempty (List.enumerate 0 lv)) i = Some r \<longleftrightarrow>
   (\<exists>j < length lv. fst (lv ! j) = i \<and> r = word_of_nat j)"
proof (induction lv rule: rev_induct)
  case (snoc x lv)
  obtain old k n where x: "x = (old, k, n)" by (metis surj_pair)
  have d: "distinct (map fst lv)" "old \<notin> fst ` set lv" using snoc.prems x by auto
  then have ne: "fst (lv ! j) \<noteq> old" if "j < length lv" for j using that by (metis image_eqI nth_mem)
  show ?case using snoc.IH [OF d(1)] ne
    by (auto simp: enumerate_append_eq x nth_append less_Suc_eq)
qed simp

lemma intern_all_snoc: "intern_all (ns @ [(k, n)]) = snd (intern k n (intern_all ns))"
  by (simp add: intern_all_def)

lemma intern_all_entries:
  assumes "distinct (map fst ns)" "length ns \<le> 2 ^ 32"
  shows "in_id_to_key (intern_all ns) = map fst ns \<and> in_id_to_node (intern_all ns) = map snd ns \<and>
    (\<forall>k i. fmlookup (in_key_to_id (intern_all ns)) k = Some i \<longleftrightarrow> unat i < length ns \<and> fst (ns ! unat i) = k)"
  using assms
proof (induction ns rule: rev_induct)
  case Nil
  then show ?case by (simp add: intern_all_def interner_new_def)
next
  case (snoc x ns)
  obtain k n where x: "x = (k, n)" by fastforce
  have ih: "in_id_to_key (intern_all ns) = map fst ns" "in_id_to_node (intern_all ns) = map snd ns"
    and look: "\<And>k i. fmlookup (in_key_to_id (intern_all ns)) k = Some i \<longleftrightarrow> unat i < length ns \<and> fst (ns ! unat i) = k"
    using snoc by auto
  have u: "unat (word_of_nat (length ns) :: u32) = length ns" using snoc.prems(2) by (simp add: unat_of_nat)
  have new: "fst (ns ! j) \<noteq> k" if "j < length ns" for j
    using snoc.prems(1) x nth_mem [OF that] by force
  have none: "fmlookup (in_key_to_id (intern_all ns)) k = None"
    using look [of k] new by (cases "fmlookup (in_key_to_id (intern_all ns)) k") auto
  have it': "snd (intern k n (intern_all ns)) =
      \<lparr>in_key_to_id = fmupd k (word_of_nat (length ns)) (in_key_to_id (intern_all ns)),
       in_id_to_key = map fst ns @ [k], in_id_to_node = map snd ns @ [n]\<rparr>"
    by (simp add: intern_def none Let_def ih)
  have "fmlookup (fmupd k (word_of_nat (length ns)) (in_key_to_id (intern_all ns))) l = Some i \<longleftrightarrow>
      unat i < length (ns @ [x]) \<and> fst ((ns @ [x]) ! unat i) = l" for l i
  proof (cases "unat i = length ns")
    case True
    then have "i = word_of_nat (length ns)" using u by (simp add: word_unat_eq_iff)
    then show ?thesis using True u x look [of l i] by (auto simp: nth_append)
  next
    case False
    then have "i \<noteq> word_of_nat (length ns)" using u by auto
    then show ?thesis using False look [of l i] new [of "unat i"] by (auto simp: nth_append less_Suc_eq)
  qed
  then show ?case by (simp add: x it' intern_all_snoc)
qed

text \<open>The live entries of an interner: ids and keys do not repeat, and every live id is there.\<close>

lemma in_iter_entry:
  "(i, k, n) \<in> set (in_iter it) \<longleftrightarrow>
   (\<exists>j < length (in_id_to_key it). i = word_of_nat j \<and> k = in_id_to_key it ! j \<and> n = in_id_to_node it ! j \<and>
      fmlookup (in_key_to_id it) k = Some i)"
  by (force simp: in_iter_def in_set_enumerate_eq)

lemma in_iter_ok:
  assumes "interner_ok it"
  shows "distinct (map fst (in_iter it))" "distinct (map (\<lambda>(i, k, n). k) (in_iter it))"
    "length (in_iter it) \<le> 2 ^ 32"
    "(i, k, n) \<in> set (in_iter it) \<longleftrightarrow> fmlookup (in_key_to_id it) k = Some i \<and> n = in_id_to_node it ! unat i"
proof -
  let ?en = "List.enumerate 0 (in_id_to_key it)"
  let ?P = "\<lambda>(i, k). fmlookup (in_key_to_id it) k = Some (word_of_nat i :: u32)"
  have len: "length (in_id_to_key it) \<le> 2 ^ 32" using assms by (simp add: interner_ok_def)
  have fst: "map fst (in_iter it) = map (word_of_nat \<circ> fst) (filter ?P ?en)"
    by (auto simp: in_iter_def)
  have inj: "inj_on (word_of_nat :: nat \<Rightarrow> u32) {0..<length (in_id_to_key it)}"
  proof (rule inj_onI)
    fix a b assume "a \<in> {0..<length (in_id_to_key it)}" "b \<in> {0..<length (in_id_to_key it)}"
      "(word_of_nat a :: u32) = word_of_nat b"
    then have "unat (word_of_nat a :: u32) = unat (word_of_nat b :: u32)" "a < 2 ^ 32" "b < 2 ^ 32" using len by simp_all
    then show "a = b" by (simp add: unat_of_nat)
  qed
  have sub: "fst ` set (filter ?P ?en) \<subseteq> {0..<length (in_id_to_key it)}" by (auto simp: in_set_enumerate_eq)
  have "distinct (map fst (filter ?P ?en))" by (rule distinct_map_filter) (simp add: distinct_enumerate)
  then show ids: "distinct (map fst (in_iter it))"
    unfolding fst using inj_on_subset [OF inj sub] by (simp add: distinct_map comp_inj_on)
  have "inj_on (\<lambda>(i, k, n). k) (set (in_iter it))"
  proof (rule inj_onI)
    fix x y assume a: "x \<in> set (in_iter it)" "y \<in> set (in_iter it)" "(case x of (i, k, n) \<Rightarrow> k) = (case y of (i, k, n) \<Rightarrow> k)"
    obtain i k n i' n' where xy: "x = (i, k, n)" "y = (i', k, n')" using a(3) by (metis old.prod.case surj_pair)
    then obtain j j' where j: "i = word_of_nat j" "n = in_id_to_node it ! j" "i' = word_of_nat j'" "n' = in_id_to_node it ! j'"
      "i = i'" "j < length (in_id_to_key it)" "j' < length (in_id_to_key it)"
      using a(1,2) unfolding xy in_iter_entry by (metis (no_types, lifting) option.inject)
    then have "j = j'" using inj by (simp add: inj_on_def)
    then show "x = y" using j xy by simp
  qed
  moreover have "distinct (in_iter it)" using ids by (simp add: distinct_map)
  ultimately show "distinct (map (\<lambda>(i, k, n). k) (in_iter it))" by (simp add: distinct_map)
  have "length (filter ?P ?en) \<le> length ?en" by (rule length_filter_le)
  then show "length (in_iter it) \<le> 2 ^ 32" using len by (simp add: in_iter_def)
  show "(i, k, n) \<in> set (in_iter it) \<longleftrightarrow> fmlookup (in_key_to_id it) k = Some i \<and> n = in_id_to_node it ! unat i"
  proof
    assume "(i, k, n) \<in> set (in_iter it)"
    then show "fmlookup (in_key_to_id it) k = Some i \<and> n = in_id_to_node it ! unat i"
      using len by (auto simp: in_iter_entry unat_of_nat)
  next
    assume a: "fmlookup (in_key_to_id it) k = Some i \<and> n = in_id_to_node it ! unat i"
    then show "(i, k, n) \<in> set (in_iter it)"
      using assms unfolding in_iter_entry by (intro exI [of _ "unat i"]) (auto simp: interner_ok_def)
  qed
qed


lemma in_iter_intern_all:
  assumes "distinct (map fst ns)" "length ns \<le> 2 ^ 32"
  shows "map snd (in_iter (intern_all ns)) = ns"
proof -
  note e = intern_all_entries [OF assms]
  have "filter (\<lambda>(i, k). fmlookup (in_key_to_id (intern_all ns)) k = Some (word_of_nat i)) (List.enumerate 0 (map fst ns))
      = List.enumerate 0 (map fst ns)"
    using e assms(2) by (intro filter_True) (auto simp: in_set_enumerate_eq unat_of_nat)
  then have "in_iter (intern_all ns) =
      map (\<lambda>(i, k). (word_of_nat i, k, map snd ns ! i)) (List.enumerate 0 (map fst ns))"
    using e by (simp add: in_iter_def)
  then show ?thesis by (intro nth_equalityI) (auto simp: nth_enumerate_eq)
qed

text \<open>What the loaded graph is, in terms of the live entries and the edges of the saved one.\<close>

definition live_entries :: "mgraph \<Rightarrow> (string \<times> internal_node) list" where
  "live_entries g = map snd (in_iter (g_interner g))"

definition dense_ids :: "mgraph \<Rightarrow> (u32, u32) fmap" where
  "dense_ids g = fst (remap_nodes (in_iter (g_interner g)) fmempty [])"

lemma live_entries_ok:
  assumes "graph_ok g"
  shows "distinct (map fst (live_entries g))" "length (live_entries g) \<le> 2 ^ 32"
    "length (live_entries g) = node_count g"
  using in_iter_ok(2,3) [of "g_interner g"] assms
  by (simp_all add: live_entries_def node_count_def graph_ok_def comp_def case_prod_unfold)

lemma dense_lookup:
  assumes "graph_ok g"
  shows "fmlookup (dense_ids g) i = Some r \<longleftrightarrow>
    (\<exists>j < node_count g. fst (in_iter (g_interner g) ! j) = i \<and> r = word_of_nat j)"
  unfolding dense_ids_def remap_nodes_eq node_count_def
  using remap_lookup [OF in_iter_ok(1), of "g_interner g" i r] assms by (simp add: graph_ok_def)

lemma live_dense:
  assumes "graph_ok g" "live (g_interner g) i"
  obtains j n where "j < node_count g" "fmlookup (dense_ids g) i = Some (word_of_nat j)"
    "unat (word_of_nat j :: u32) = j" "in_get i (g_interner g) = Some n" "snd (live_entries g ! j) = n"
proof -
  let ?en = "in_iter (g_interner g)"
  have it: "interner_ok (g_interner g)" using assms(1) by (simp add: graph_ok_def)
  obtain k where k: "fmlookup (in_key_to_id (g_interner g)) k = Some i" using assms(2) by (auto simp: live_def)
  then have "(i, k, in_id_to_node (g_interner g) ! unat i) \<in> set ?en" using in_iter_ok(4) [OF it] by simp
  then obtain j where j: "j < length ?en" "?en ! j = (i, k, in_id_to_node (g_interner g) ! unat i)"
    by (auto simp: in_set_conv_nth)
  have "unat i < length (in_id_to_node (g_interner g))" using k it unfolding interner_ok_def by metis
  then have "in_get i (g_interner g) = Some (in_id_to_node (g_interner g) ! unat i)" by (simp add: in_get_def)
  moreover have "fmlookup (dense_ids g) i = Some (word_of_nat j)"
    using j dense_lookup [OF assms(1)] by (auto simp: node_count_def)
  moreover have "unat (word_of_nat j :: u32) = j"
    using j(1) live_entries_ok(2) [OF assms(1)] by (simp add: unat_of_nat live_entries_def)
  ultimately show thesis using that [of j] j by (simp add: live_entries_def node_count_def)
qed

lemma remap_live:
  assumes "graph_ok g" "e \<in> set (g_edges g)"
  obtains e' where "remap_edge (dense_ids g) e = Some e'"
    "gedge_of (intern_all (live_entries g)) e' = gedge_of (g_interner g) e"
    "unat (e_source e') < node_count g" "unat (e_target e') < node_count g"
proof -
  have lv: "live (g_interner g) (e_source e)" "live (g_interner g) (e_target e)"
    using assms by (auto simp: graph_ok_def)
  obtain a m where a: "a < node_count g" "fmlookup (dense_ids g) (e_source e) = Some (word_of_nat a)"
    "unat (word_of_nat a :: u32) = a" "in_get (e_source e) (g_interner g) = Some m" "snd (live_entries g ! a) = m"
    by (rule live_dense [OF assms(1) lv(1)])
  obtain b n where b: "b < node_count g" "fmlookup (dense_ids g) (e_target e) = Some (word_of_nat b)"
    "unat (word_of_nat b :: u32) = b" "in_get (e_target e) (g_interner g) = Some n" "snd (live_entries g ! b) = n"
    by (rule live_dense [OF assms(1) lv(2)])
  let ?e = "e\<lparr>e_source := word_of_nat a, e_target := word_of_nat b\<rparr>"
  have "in_get (word_of_nat a) (intern_all (live_entries g)) = Some m"
    "in_get (word_of_nat b) (intern_all (live_entries g)) = Some n"
    using a b intern_all_entries [OF live_entries_ok(1,2) [OF assms(1)]] live_entries_ok(3) [OF assms(1)]
    by (simp_all add: in_get_def)
  then have "gedge_of (intern_all (live_entries g)) ?e = gedge_of (g_interner g) e"
    using a(4) b(4) by (simp add: gedge_of_def)
  moreover have "remap_edge (dense_ids g) e = Some ?e" using a(2) b(2) by (simp add: remap_edge_def)
  ultimately show thesis using that [of ?e] a b by simp
qed

definition dense_edge :: "mgraph \<Rightarrow> internal_edge \<Rightarrow> internal_edge" where
  "dense_edge g e = the (remap_edge (dense_ids g) e)"

lemma dense_edge_ok:
  assumes "graph_ok g" "e \<in> set (g_edges g)"
  shows "remap_edge (dense_ids g) e = Some (dense_edge g e)"
    "gedge_of (intern_all (live_entries g)) (dense_edge g e) = gedge_of (g_interner g) e"
    "unat (e_source (dense_edge g e)) < node_count g" "unat (e_target (dense_edge g e)) < node_count g"
  by (rule remap_live [OF assms], simp add: dense_edge_def)+

lemma snapshot_edges:
  assumes "graph_ok g"
  shows "mset (sn_edges (snapshot_of g)) = mset (map (dense_edge g) (g_edges g))"
proof -
  have "List.map_filter (remap_edge (dense_ids g)) (g_edges g) = List.map_filter (\<lambda>e. Some (dense_edge g e)) (g_edges g)"
    using dense_edge_ok(1) [OF assms] by (simp add: List.map_filter_def cong: filter_cong map_cong)
  then show ?thesis by (simp add: snapshot_of_def dense_ids_def case_prod_unfold List.map_filter_def comp_def)
qed

text \<open>The loaded graph has the saved nodes in order and the saved edges by name, unless the
  snapshot holds \<open>2 ^ 32\<close> nodes, where the bound on the ids wraps to zero.\<close>

lemma loaded_graph:
  assumes "graph_ok g" "node_count g < 2 ^ 32"
  defines "g' \<equiv> graph_of_snapshot (snapshot_of g)"
  shows "g_interner g' = intern_all (live_entries g)" "mset (g_edges g') = mset (map (dense_edge g) (g_edges g))"
    "g_adjacency g' = adj_rebuild (g_edges g')"
proof -
  note le = live_entries_ok [OF assms(1)]
  have nodes: "sn_nodes (snapshot_of g) = live_entries g"
    by (simp add: snapshot_of_def remap_nodes_eq live_entries_def)
  then show it: "g_interner g' = intern_all (live_entries g)"
    by (simp add: g'_def graph_of_snapshot_def Let_def)
  show "g_adjacency g' = adj_rebuild (g_edges g')" by (simp add: g'_def graph_of_snapshot_def Let_def)
  let ?P = "\<lambda>e. e_source e < (word_of_nat (length (in_id_to_node (intern_all (live_entries g)))) :: u32) \<and>
      e_target e < word_of_nat (length (in_id_to_node (intern_all (live_entries g))))"
  have "?P e" if "e \<in> set (sn_edges (snapshot_of g))" for e
  proof -
    have "e \<in> dense_edge g ` set (g_edges g)"
      using that snapshot_edges [OF assms(1)] by (metis list.set_map set_mset_mset)
    then have "unat (e_source e) < node_count g" "unat (e_target e) < node_count g"
      using dense_edge_ok(3,4) [OF assms(1)] by auto
    moreover have "unat (word_of_nat (length (in_id_to_node (intern_all (live_entries g)))) :: u32) = node_count g"
      using intern_all_entries [OF le(1,2)] le(3) assms(2) by (simp add: unat_of_nat)
    ultimately show ?thesis by (simp add: word_less_nat_alt)
  qed
  then have "g_edges g' = sn_edges (snapshot_of g)"
    unfolding g'_def graph_of_snapshot_def Let_def nodes by (simp add: filter_id_conv)
  then show "mset (g_edges g') = mset (map (dense_edge g) (g_edges g))" using snapshot_edges [OF assms(1)] by simp
qed

lemma live_entries_fit:
  assumes "graph_ok g" "j < node_count g"
  shows "key_fits (fst (live_entries g ! j)) (snd (live_entries g ! j))"
proof -
  obtain i k n where e: "in_iter (g_interner g) ! j = (i, k, n)" by (metis surj_pair)
  have it: "interner_ok (g_interner g)" using assms(1) by (simp add: graph_ok_def)
  have "(i, k, n) \<in> set (in_iter (g_interner g))" using e assms(2) nth_mem by (fastforce simp: node_count_def)
  then have "fmlookup (in_key_to_id (g_interner g)) k = Some i" "n = in_id_to_node (g_interner g) ! unat i"
    using in_iter_ok(4) [OF it] by simp_all
  then have "key_fits k n" using it unfolding interner_ok_def by metis
  then show ?thesis using e assms(2) by (simp add: live_entries_def node_count_def)
qed

lemma loaded_graph_ok:
  assumes "graph_ok g" "node_count g < 2 ^ 32"
  shows "graph_ok (graph_of_snapshot (snapshot_of g))"
proof -
  let ?g = "graph_of_snapshot (snapshot_of g)"
  note l = loaded_graph [OF assms] and le = live_entries_ok [OF assms(1)]
  note e = intern_all_entries [OF le(1,2)]
  have it: "interner_ok (intern_all (live_entries g))"
    using e le(3) live_entries_fit [OF assms(1)] assms(2) by (auto simp: interner_ok_def)
  have lv: "live (intern_all (live_entries g)) i" if "unat i < node_count g" for i
    using e le(3) that by (auto simp: live_def)
  have "set (g_edges ?g) = dense_edge g ` set (g_edges g)" using l(2) by (metis list.set_map set_mset_mset)
  then show ?thesis
    using it lv dense_edge_ok(3,4) [OF assms(1)] adj_ok_rebuild l(1,3) by (auto simp: graph_ok_def)
qed

section \<open>Claims\<close>

text \<open>C34. Saving and loading the graph: the bytes of a well-formed graph with fewer than \<open>2 ^ 32\<close>
  live nodes carry the magic and load back, and the loaded graph is well formed, has the same live
  nodes with their keys in the same order, the same edges between the same named nodes (with
  kinds, weights and reinforcement times; the order is the sorted one), the same co-occurrence
  counts, vocabulary and suppressed concepts and the same last memory. The last memory of each
  scope is not part of the format: the loaded graph has none.\<close>

theorem snapshot_roundtrip:
  assumes "snap_codec_ok K" "graph_ok g" "node_count g < 2 ^ 32" "to_snapshot_bytes K g = Some bs"
  shows "is_snapshot_bytes bs \<and> (\<exists>g' es es'. from_snapshot_bytes K bs = Inr g' \<and> graph_ok g' \<and>
    map snd (in_iter (g_interner g')) = map snd (in_iter (g_interner g)) \<and>
    graph_edges g = Some es \<and> graph_edges g' = Some es' \<and> mset es' = mset es \<and>
    g_co_occurrence g' = g_co_occurrence g \<and> g_vocab g' = g_vocab g \<and> g_suppressed g' = g_suppressed g \<and>
    g_last_memory_id g' = g_last_memory_id g \<and> g_last_memory_by_scope g' = fmempty)"
proof -
  let ?g = "graph_of_snapshot (snapshot_of g)"
  obtain p where p: "ser_snap K (snapshot_of g) = Some p"
    and bs: "bs = SNAPSHOT_MAGIC @ u32_to_le_bytes SNAPSHOT_VERSION @ p"
    using assms(4) by (auto simp: to_snapshot_bytes_def)
  have "de_snap K p = Some (snapshot_of g)" using assms(1) p by (simp add: snap_codec_ok_def)
  then have ld: "is_snapshot_bytes bs" "from_snapshot_bytes K bs = Inr ?g"
    by (simp_all add: bs is_snapshot_bytes_def from_snapshot_bytes_def SNAPSHOT_MAGIC_def Let_def)
  note l = loaded_graph [OF assms(2,3)] and le = live_entries_ok [OF assms(2)]
  have ok: "graph_ok ?g" by (rule loaded_graph_ok [OF assms(2,3)])
  have view: "graph_edges h = Some (map (\<lambda>e. the (gedge_of (g_interner h) e)) (g_edges h))" if "graph_ok h" for h
    unfolding graph_edges_def using gedge_of_ok [OF that] by (intro those_map_Some) fastforce
  let ?v = "\<lambda>h e. the (gedge_of (g_interner h) e)"
  have "image_mset (?v ?g) (mset (g_edges ?g)) = image_mset (?v ?g \<circ> dense_edge g) (mset (g_edges g))"
    unfolding l(2) by (simp add: multiset.map_comp comp_def)
  also have "\<dots> = image_mset (?v g) (mset (g_edges g))"
    by (rule image_mset_cong) (simp add: l(1) dense_edge_ok(2) [OF assms(2)])
  finally have "mset (map (?v ?g) (g_edges ?g)) = mset (map (?v g) (g_edges g))" by simp
  moreover have "map snd (in_iter (g_interner ?g)) = map snd (in_iter (g_interner g))"
    using in_iter_intern_all [OF le(1,2)] l(1) by (simp add: live_entries_def)
  moreover have "g_co_occurrence ?g = g_co_occurrence g" "g_vocab ?g = g_vocab g" "g_suppressed ?g = g_suppressed g"
    "g_last_memory_id ?g = g_last_memory_id g" "g_last_memory_by_scope ?g = fmempty"
    by (simp_all add: graph_of_snapshot_def snapshot_of_def case_prod_unfold Let_def)
  ultimately show ?thesis using ld ok view [OF assms(2)] view [OF ok] by blast
qed


text \<open>A concrete codec for the witness: it knows one snapshot.\<close>

definition demo_snap_codec :: snap_codec where
  "demo_snap_codec = \<lparr>ser_snap = (\<lambda>s. if s = snapshot_of demo_graph then Some [7] else None),
     de_snap = (\<lambda>bs. if bs = [7] then Some (snapshot_of demo_graph) else None)\<rparr>"

theorem snapshot_roundtrip_witness:
  "\<exists>bs g' es es'. to_snapshot_bytes demo_snap_codec demo_graph = Some bs \<and> from_snapshot_bytes demo_snap_codec bs = Inr g' \<and>
     graph_edges demo_graph = Some es \<and> graph_edges g' = Some es' \<and> mset es' = mset es"
proof -
  have K: "snap_codec_ok demo_snap_codec" by (simp add: snap_codec_ok_def demo_snap_codec_def)
  have n: "node_count demo_graph < 2 ^ 32"
  proof -
    have "length (in_iter (g_interner demo_graph)) \<le> length (in_id_to_key (g_interner demo_graph))"
      unfolding in_iter_def length_map by (rule order_trans [OF length_filter_le]) simp
    moreover have "length (in_id_to_key (g_interner demo_graph)) < 2 ^ 32"
      by (simp add: demo_graph_def add_refinement_def has_edge_to_def add_int_edge_def push_edge_def
        add_memory_scoped_def intern_node_def intern_def graph_new_def interner_new_def Let_def get_node_id_def in_resolve_def
        resolve_def resolve_loop.simps link_concept_def chain_memory_def)
    ultimately show ?thesis by (simp add: node_count_def)
  qed
  obtain bs where bs: "to_snapshot_bytes demo_snap_codec demo_graph = Some bs"
    by (simp add: to_snapshot_bytes_def demo_snap_codec_def)
  show ?thesis using snapshot_roundtrip [OF K demo_graph_ok n bs] bs by blast
qed

end
