(* ===== verification/Segment_Holder.thy ===== *)
theory Segment_Holder
  imports Segment_Search Metadata_Store
begin

text \<open>
  The segment holder of \<open>turbomemory_storage/src/segment_holder.rs\<close> and the sealing and merging
  jobs of \<open>optimizer.rs\<close>. Segments live behind \<open>Arc\<close> pointers: \<open>sh_store\<close> is the store of all
  segments, a reference is a position in it, and the pointer comparison of the source is
  equality of references. The mutable Hot segment has reference 0 for good; its contents are
  replaced when it is sealed. Searches read the published snapshot, a list of references.
  Whether an index build, a quantization or a file operation succeeds is an argument; a segment
  that was built holds the offsets it was built from.
\<close>

section \<open>Data\<close>

record seg_config =
  cfg_dimension :: nat
  cfg_max_edges :: nat
  cfg_hot_capacity :: nat
  cfg_warm_capacity :: nat
  cfg_hnsw_threshold :: nat
  cfg_full_scan_kb :: nat
  cfg_merge_threshold :: nat
  cfg_merge_max :: nat
  cfg_promote_threshold :: f64
  cfg_half_life :: u64

definition merge_threshold_segments :: "seg_config \<Rightarrow> nat" where
  "merge_threshold_segments c = max (cfg_merge_threshold c) 2"

definition merge_max_records :: "seg_config \<Rightarrow> nat" where
  "merge_max_records c = max (max (cfg_merge_max c) (cfg_hot_capacity c)) 2"

datatype segment = PlainSeg hot_segment | BuiltSeg "point_offset list" string

fun seg_offsets :: "segment \<Rightarrow> point_offset list" where
  "seg_offsets (PlainSeg h) = hs_offsets h"
| "seg_offsets (BuiltSeg offs p) = offs"

fun seg_path :: "segment \<Rightarrow> string option" where
  "seg_path (PlainSeg h) = None"
| "seg_path (BuiltSeg offs p) = Some p"

type_synonym seg_ref = nat

definition hot_ref :: seg_ref where
  "hot_ref = 0"

record holder =
  sh_config :: seg_config
  sh_store :: "segment list"
  sh_sealing :: "seg_ref list"
  sh_building :: "seg_ref list"
  sh_sealed :: "seg_ref list"
  sh_warm :: "seg_ref list"
  sh_cold :: "seg_ref list"
  sh_next_id :: u64
  sh_snapshot :: "seg_ref list"
  sh_pending :: "string list"

definition seg_at :: "holder \<Rightarrow> seg_ref \<Rightarrow> segment" where
  "seg_at h a = (if a < length (sh_store h) then sh_store h ! a else BuiltSeg [] [])"

abbreviation offsets_at :: "holder \<Rightarrow> seg_ref \<Rightarrow> point_offset list" where
  "offsets_at h a \<equiv> seg_offsets (seg_at h a)"

definition seg_alloc :: "segment \<Rightarrow> holder \<Rightarrow> seg_ref \<times> holder" where
  "seg_alloc s h = (length (sh_store h), h\<lparr>sh_store := sh_store h @ [s]\<rparr>)"

definition the_hot :: "holder \<Rightarrow> hot_segment" where
  "the_hot h = (case seg_at h hot_ref of PlainSeg s \<Rightarrow> s | BuiltSeg offs p \<Rightarrow> hot_new 0)"

definition set_hot :: "hot_segment \<Rightarrow> holder \<Rightarrow> holder" where
  "set_hot s h = h\<lparr>sh_store := (sh_store h)[hot_ref := PlainSeg s]\<rparr>"

section \<open>Directories\<close>

definition SEALED_HOT_DIR :: string where
  "SEALED_HOT_DIR = ''sealed_hot''"

definition tier_dirs :: "string list" where
  "tier_dirs = [SEALED_HOT_DIR, tier_name Warm, tier_name Cold]"

definition segment_prefix :: string where
  "segment_prefix = ''segment_''"

definition segment_dir_name :: "u64 \<Rightarrow> string" where
  "segment_dir_name i = segment_prefix @ u64_to_string i"

definition segment_dir_id :: "string \<Rightarrow> u64 option" where
  "segment_dir_id nm =
     (if take (length segment_prefix) nm = segment_prefix then parse_u64 (drop (length segment_prefix) nm) else None)"

text \<open>\<open>ls\<close> lists the entries of a tier directory, \<open>None\<close> when it cannot be read.\<close>

definition next_id_after :: "(string \<Rightarrow> string list option) \<Rightarrow> u64" where
  "next_id_after ls =
     fold (\<lambda>tier n. case ls tier of
             None \<Rightarrow> n
           | Some names \<Rightarrow> fold (\<lambda>nm n. case segment_dir_id nm of None \<Rightarrow> n | Some i \<Rightarrow> max n (i + 1)) names n)
       tier_dirs 0"

definition segment_path :: "string \<Rightarrow> holder \<Rightarrow> string \<times> holder" where
  "segment_path dir h =
     (dir @ ''/'' @ segment_dir_name (sh_next_id h), h\<lparr>sh_next_id := sh_next_id h + 1\<rparr>)"

text \<open>\<open>gone p\<close>: after the attempt to remove the directory \<open>p\<close> it no longer exists.\<close>

definition discard_segment_dir :: "(string \<Rightarrow> bool) \<Rightarrow> string \<Rightarrow> holder \<Rightarrow> holder" where
  "discard_segment_dir gone p h = (if gone p then h else h\<lparr>sh_pending := sh_pending h @ [p]\<rparr>)"

definition cleanup_pending_dirs :: "(string \<Rightarrow> bool) \<Rightarrow> holder \<Rightarrow> holder" where
  "cleanup_pending_dirs gone h = h\<lparr>sh_pending := List.filter (\<lambda>p. \<not> gone p) (sh_pending h)\<rparr>"

section \<open>The published snapshot\<close>

definition searchable_segments :: "holder \<Rightarrow> seg_ref list" where
  "searchable_segments h = hot_ref # sh_sealing h @ sh_building h @ sh_sealed h @ sh_warm h @ sh_cold h"

definition publish_snapshot :: "holder \<Rightarrow> holder" where
  "publish_snapshot h = h\<lparr>sh_snapshot := searchable_segments h\<rparr>"

definition holder_new :: "seg_config \<Rightarrow> (string \<Rightarrow> string list option) \<Rightarrow> holder" where
  "holder_new c ls = publish_snapshot
     \<lparr>sh_config = c, sh_store = [PlainSeg (hot_new (cfg_dimension c))], sh_sealing = [], sh_building = [],
      sh_sealed = [], sh_warm = [], sh_cold = [], sh_next_id = next_id_after ls, sh_snapshot = [], sh_pending = []\<rparr>"

section \<open>List operations\<close>

definition pop_sealing_plain :: "holder \<Rightarrow> seg_ref option \<times> holder" where
  "pop_sealing_plain h =
     (if sh_sealing h = [] then (None, h)
      else let plain = last (sh_sealing h)
           in (Some plain, h\<lparr>sh_sealing := butlast (sh_sealing h), sh_building := sh_building h @ [plain]\<rparr>))"

definition push_sealing_plain :: "seg_ref \<Rightarrow> holder \<Rightarrow> holder" where
  "push_sealing_plain plain h = publish_snapshot
     (h\<lparr>sh_building := List.filter (\<lambda>p. p \<noteq> plain) (sh_building h), sh_sealing := sh_sealing h @ [plain]\<rparr>)"

definition remove_sealing_plain :: "seg_ref \<Rightarrow> holder \<Rightarrow> holder" where
  "remove_sealing_plain target h =
     h\<lparr>sh_sealing := List.filter (\<lambda>p. p \<noteq> target) (sh_sealing h),
       sh_building := List.filter (\<lambda>p. p \<noteq> target) (sh_building h)\<rparr>"

text \<open>The list part of \<open>add_sealed_hot\<close>, \<open>add_warm\<close> and \<open>add_cold\<close>, before they publish.\<close>

definition list_sealed_hot :: "segment \<Rightarrow> holder \<Rightarrow> holder" where
  "list_sealed_hot s h = (case seg_alloc s h of (a, h1) \<Rightarrow> h1\<lparr>sh_sealed := sh_sealed h1 @ [a]\<rparr>)"

definition list_warm :: "segment \<Rightarrow> holder \<Rightarrow> holder" where
  "list_warm s h = (case seg_alloc s h of (a, h1) \<Rightarrow> h1\<lparr>sh_warm := sh_warm h1 @ [a]\<rparr>)"

definition list_cold :: "segment \<Rightarrow> holder \<Rightarrow> holder" where
  "list_cold s h = (case seg_alloc s h of (a, h1) \<Rightarrow> h1\<lparr>sh_cold := sh_cold h1 @ [a]\<rparr>)"

definition add_sealed_hot :: "segment \<Rightarrow> holder \<Rightarrow> holder" where
  "add_sealed_hot s h = publish_snapshot (list_sealed_hot s h)"

definition add_warm :: "segment \<Rightarrow> holder \<Rightarrow> holder" where
  "add_warm s h = publish_snapshot (list_warm s h)"

definition add_cold :: "segment \<Rightarrow> holder \<Rightarrow> holder" where
  "add_cold s h = publish_snapshot (list_cold s h)"

fun merge_group :: "holder \<Rightarrow> nat \<Rightarrow> seg_ref list \<Rightarrow> nat \<Rightarrow> seg_ref list \<Rightarrow> seg_ref list" where
  "merge_group h hard_cap [] tot acc = acc"
| "merge_group h hard_cap (a # as) tot acc =
     (let count = length (offsets_at h a) in
      if 0 < tot \<and> hard_cap < saturating_add tot count then acc
      else merge_group h hard_cap as (tot + count) (acc @ [a]))"

definition sealed_hot_merge_candidates :: "nat \<Rightarrow> nat \<Rightarrow> holder \<Rightarrow> seg_ref list option" where
  "sealed_hot_merge_candidates threshold max_records h =
     (if length (sh_sealed h) < threshold then None
      else let sorted = sort_key (\<lambda>a. length (offsets_at h a)) (sh_sealed h);
               hard_cap = max (saturating_mul max_records 2) max_records;
               candidates = merge_group h hard_cap sorted 0 []
           in if threshold \<le> length candidates then Some candidates else None)"

definition remove_sealed_hot_segments :: "seg_ref list \<Rightarrow> holder \<Rightarrow> nat \<times> holder" where
  "remove_sealed_hot_segments targets h =
     (length (List.filter (\<lambda>a. a \<in> set targets) (sh_sealed h)),
      h\<lparr>sh_sealed := List.filter (\<lambda>a. a \<notin> set targets) (sh_sealed h)\<rparr>)"

section \<open>Inserting and sealing\<close>

definition holder_insert :: "point_offset \<Rightarrow> mem_record \<Rightarrow> holder \<Rightarrow> bool result \<times> holder" where
  "holder_insert off r h =
     (case hot_insert off r (the_hot h) of
        (Inl e, s) \<Rightarrow> (Inl e, set_hot s h)
      | (Inr _, s) \<Rightarrow> (Inr (cfg_hot_capacity (sh_config h) \<le> length (hs_offsets s)), set_hot s h))"

text \<open>\<open>seal_hot\<close> in its two critical sections: the swap of the Hot contents under the Hot lock, and
  the push of the old contents under the list lock, followed by the publication.\<close>

definition seal_swap :: "holder \<Rightarrow> hot_segment option \<times> holder" where
  "seal_swap h =
     (if length (hs_offsets (the_hot h)) < cfg_hot_capacity (sh_config h) then (None, h)
      else (Some (the_hot h), set_hot (hot_new (cfg_dimension (sh_config h))) h))"

definition list_sealing :: "hot_segment \<Rightarrow> holder \<Rightarrow> holder" where
  "list_sealing s h = (case seg_alloc (PlainSeg s) h of (a, h1) \<Rightarrow> h1\<lparr>sh_sealing := sh_sealing h1 @ [a]\<rparr>)"

definition seal_hot :: "holder \<Rightarrow> holder" where
  "seal_hot h =
     (case seal_swap h of (None, h1) \<Rightarrow> h1 | (Some s, h1) \<Rightarrow> publish_snapshot (list_sealing s h1))"

fun from_records_loop :: "(point_offset \<times> mem_record) list \<Rightarrow> point_offset set \<Rightarrow> holder \<Rightarrow> unit result \<times> holder" where
  "from_records_loop [] sealed h = (Inr (), h)"
| "from_records_loop ((off, r) # rs) sealed h =
     (if off \<in> sealed then from_records_loop rs sealed h
      else case holder_insert off r h of
        (Inl e, h1) \<Rightarrow> (Inl e, h1)
      | (Inr full, h1) \<Rightarrow> from_records_loop rs sealed (if full then seal_hot h1 else h1))"

definition from_records :: "seg_config \<Rightarrow> (string \<Rightarrow> string list option) \<Rightarrow> (point_offset \<times> mem_record) list
    \<Rightarrow> point_offset set \<Rightarrow> unit result \<times> holder" where
  "from_records c ls rs sealed = from_records_loop rs sealed (holder_new c ls)"

section \<open>Building segments\<close>

datatype build_outcome = BuildOk | BuildFails storage_error

definition read_vectors_for_offsets :: "point_offset list \<Rightarrow> vstore \<Rightarrow> (point_offset \<times> f32 list) list" where
  "read_vectors_for_offsets offs vs = List.map_filter (\<lambda>off. map_option (Pair off) (vs_get vs off)) offs"

definition blank_record :: "f32 list \<Rightarrow> mem_record" where
  "blank_record v =
     \<lparr>r_id = [], r_text = [], r_embedding = v, r_importance = f32_zero, r_concepts = [], r_created_at = 0,
      r_insert_seq = 0, r_access_count = 0, r_last_accessed = 0, r_tier = Warm, r_payload = None, r_scope = None,
      r_source_role = None\<rparr>"

definition build_records :: "point_offset list \<Rightarrow> vstore \<Rightarrow> (point_offset \<times> mem_record) list" where
  "build_records offs vs = List.map_filter (\<lambda>off. map_option (\<lambda>v. (off, blank_record v)) (vs_get vs off)) offs"

definition sealed_from_vectors :: "build_outcome \<Rightarrow> string \<Rightarrow> (point_offset \<times> f32 list) list \<Rightarrow> segment result" where
  "sealed_from_vectors out p vecs =
     (if vecs = [] then Inl (InvalidArgument ''cannot seal an empty hot segment'')
      else case out of BuildFails e \<Rightarrow> Inl e | BuildOk \<Rightarrow> Inr (BuiltSeg (map fst vecs) p))"

definition warm_from_records :: "build_outcome \<Rightarrow> string \<Rightarrow> (point_offset \<times> mem_record) list \<Rightarrow> segment result" where
  "warm_from_records out p recs =
     (if recs = [] then Inl (InvalidArgument ''cannot build empty warm segment'')
      else case out of BuildFails e \<Rightarrow> Inl e | BuildOk \<Rightarrow> Inr (BuiltSeg (map fst recs) p))"

definition cold_from_records :: "build_outcome \<Rightarrow> string \<Rightarrow> (point_offset \<times> mem_record) list \<Rightarrow> segment result" where
  "cold_from_records out p recs =
     (if recs = [] then Inl (InvalidArgument ''cannot build empty cold segment'')
      else case out of BuildFails e \<Rightarrow> Inl e | BuildOk \<Rightarrow> Inr (BuiltSeg (map fst recs) p))"

section \<open>Compaction\<close>

definition refs_offsets :: "holder \<Rightarrow> seg_ref list \<Rightarrow> point_offset list" where
  "refs_offsets h as = concat (map (offsets_at h) as)"

definition total_points :: "holder \<Rightarrow> seg_ref list \<Rightarrow> nat" where
  "total_points h as = sum_list (map (\<lambda>a. length (offsets_at h a)) as)"

text \<open>The first two stages of \<open>compact_warm\<close> (choose and build) and the installation.\<close>

definition compact_build :: "build_outcome \<Rightarrow> vstore \<Rightarrow> holder \<Rightarrow> (seg_ref list \<times> segment option) option result \<times> holder" where
  "compact_build out vs h =
     (if total_points h (sh_warm h) \<le> cfg_warm_capacity (sh_config h) \<or> sh_warm h = [] then (Inr None, h)
      else let targets = sh_warm h;
               recs = build_records (remdups_adj (sort (refs_offsets h targets))) vs
           in if recs = [] then (Inr (Some (targets, None)), h)
              else case segment_path (tier_name Cold) h of (p, h1) \<Rightarrow>
                (case cold_from_records out p recs of
                   Inl e \<Rightarrow> (Inl e, h1)
                 | Inr cold \<Rightarrow> (Inr (Some (targets, Some cold)), h1)))"

definition compact_install :: "seg_ref list \<Rightarrow> segment option \<Rightarrow> holder \<Rightarrow> holder" where
  "compact_install targets cold h =
     (let h1 = (case cold of None \<Rightarrow> h | Some s \<Rightarrow> list_cold s h)
      in h1\<lparr>sh_warm := List.filter (\<lambda>a. a \<notin> set targets) (sh_warm h1)\<rparr>)"

definition compact_warm :: "build_outcome \<Rightarrow> (string \<Rightarrow> bool) \<Rightarrow> vstore \<Rightarrow> holder \<Rightarrow> unit result \<times> holder" where
  "compact_warm out gone vs h =
     (case compact_build out vs h of
        (Inl e, h1) \<Rightarrow> (Inl e, h1)
      | (Inr None, h1) \<Rightarrow> (Inr (), h1)
      | (Inr (Some (targets, cold)), h1) \<Rightarrow>
          (Inr (), fold (discard_segment_dir gone) (List.map_filter (\<lambda>a. seg_path (seg_at h a)) targets)
                     (publish_snapshot (compact_install targets cold h1))))"

section \<open>Promotion\<close>

text \<open>\<open>access_score\<close> with the standard library's \<open>powf\<close> as an argument.\<close>

definition f64_of_u64 :: "u64 \<Rightarrow> f64" where
  "f64_of_u64 n = word_of_nat (round_pat fmt64 (rat_of_nat (unat n)))"

definition access_score :: "(f64 \<Rightarrow> f64 \<Rightarrow> f64) \<Rightarrow> meta_record \<Rightarrow> u64 \<Rightarrow> u64 \<Rightarrow> f64" where
  "access_score powf m now half_life =
     (let age = max (sat_sub64 now (m_last_accessed m)) 1;
          recency = powf (f64_of_u64 2)
            (word_of_nat (pat_div fmt64 (pat_neg fmt64 (unat (f64_of_u64 age))) (unat (f64_of_u64 half_life))))
      in word_of_nat (pat_mul fmt64 (unat (f64_of_u64 (m_access_count m))) (unat recency)))"

definition f64_lt :: "f64 \<Rightarrow> f64 \<Rightarrow> bool" where
  "f64_lt a b \<longleftrightarrow> \<not> f64_is_nan a \<and> \<not> f64_is_nan b \<and> num_key fmt64 (unat a) < num_key fmt64 (unat b)"

fun promote_loop :: "(f64 \<Rightarrow> f64 \<Rightarrow> f64) \<Rightarrow> u64 \<Rightarrow> vstore \<Rightarrow> point_offset list \<Rightarrow> nat \<Rightarrow> mstore \<Rightarrow> holder
    \<Rightarrow> nat result \<times> mstore \<times> holder" where
  "promote_loop powf now vs [] n ms h = (Inr n, ms, h)"
| "promote_loop powf now vs (off # offs) n ms h =
     (case ms_get ms off of
        None \<Rightarrow> promote_loop powf now vs offs n ms h
      | Some m \<Rightarrow>
          if f64_lt (access_score powf m now (max (cfg_half_life (sh_config h)) 1)) (cfg_promote_threshold (sh_config h))
          then promote_loop powf now vs offs n ms h
          else case vs_get vs off of
            None \<Rightarrow> promote_loop powf now vs offs n ms h
          | Some v \<Rightarrow>
              (let r = with_tier (with_embedding m v) Hot; ms1 = ms_put off r ms in
               case holder_insert off r h of
                 (Inl e, h1) \<Rightarrow> (Inl e, ms1, h1)
               | (Inr full, h1) \<Rightarrow>
                   promote_loop powf now vs offs (n + 1) ms1 (if full then seal_hot h1 else h1)))"

definition promote_hot :: "(f64 \<Rightarrow> f64 \<Rightarrow> f64) \<Rightarrow> u64 \<Rightarrow> vstore \<Rightarrow> mstore \<Rightarrow> holder \<Rightarrow> nat result \<times> mstore \<times> holder" where
  "promote_hot powf now vs ms h =
     (let candidates = refs_offsets h (sh_sealing h @ sh_building h @ sh_sealed h @ sh_warm h @ sh_cold h) in
      case promote_loop powf now vs candidates 0 ms h of
        (Inl e, ms1, h1) \<Rightarrow> (Inl e, ms1, h1)
      | (Inr n, ms1, h1) \<Rightarrow> (Inr n, ms1, if 0 < n then publish_snapshot h1 else h1))"

definition holder_consolidate :: "build_outcome \<Rightarrow> (string \<Rightarrow> bool) \<Rightarrow> (f64 \<Rightarrow> f64 \<Rightarrow> f64) \<Rightarrow> u64 \<Rightarrow> vstore \<Rightarrow> mstore \<Rightarrow> holder
    \<Rightarrow> (nat \<times> nat \<times> nat) result \<times> mstore \<times> holder" where
  "holder_consolidate out gone powf now vs ms h =
     (let full = cfg_hot_capacity (sh_config h) \<le> length (hs_offsets (the_hot h));
          h1 = (if full then seal_hot h else h);
          over = cfg_warm_capacity (sh_config h1) < total_points h1 (sh_warm h1) in
      case (if over then compact_warm out gone vs h1 else (Inr (), h1)) of
        (Inl e, h2) \<Rightarrow> (Inl e, ms, h2)
      | (Inr _, h2) \<Rightarrow>
          (case promote_hot powf now vs ms h2 of
             (Inl e, ms3, h3) \<Rightarrow> (Inl e, ms3, h3)
           | (Inr n, ms3, h3) \<Rightarrow> (Inr (of_bool full, of_bool over, n), ms3, h3)))"

definition holder_point_count :: "holder \<Rightarrow> nat" where
  "holder_point_count h = total_points h (searchable_segments h)"

text \<open>\<open>has_dir p\<close>: the segment directory \<open>p\<close> exists. A plain segment has nothing to flush.\<close>

fun flush_refs :: "(string \<Rightarrow> bool) \<Rightarrow> string \<Rightarrow> holder \<Rightarrow> seg_ref list \<Rightarrow> unit result" where
  "flush_refs has_dir msg h [] = Inr ()"
| "flush_refs has_dir msg h (a # as) =
     (case seg_path (seg_at h a) of
        Some p \<Rightarrow> if has_dir p then flush_refs has_dir msg h as else Inl (InvalidArgument msg)
      | None \<Rightarrow> flush_refs has_dir msg h as)"

definition holder_flush :: "(string \<Rightarrow> bool) \<Rightarrow> (string \<Rightarrow> bool) \<Rightarrow> holder \<Rightarrow> unit result \<times> holder" where
  "holder_flush gone has_dir h =
     (let h1 = cleanup_pending_dirs gone h in
      (rbind (flush_refs has_dir [] h1 (hot_ref # sh_sealing h1 @ sh_building h1)) (\<lambda>_.
       rbind (flush_refs has_dir ''sealed hot segment missing'' h1 (sh_sealed h1)) (\<lambda>_.
       rbind (flush_refs has_dir ''warm segment file missing'' h1 (sh_warm h1)) (\<lambda>_.
       flush_refs has_dir ''cold segment file missing'' h1 (sh_cold h1)))), h1))"

section \<open>What the holder covers\<close>

text \<open>The offsets of the listed segments, and those of the published ones.\<close>

definition listed :: "holder \<Rightarrow> point_offset set" where
  "listed h = set (refs_offsets h (searchable_segments h))"

definition visible :: "holder \<Rightarrow> point_offset set" where
  "visible h = set (refs_offsets h (sh_snapshot h))"

definition hot_plain :: "holder \<Rightarrow> bool" where
  "hot_plain h \<longleftrightarrow> (\<exists>s rest. sh_store h = PlainSeg s # rest)"

definition holder_wf :: "holder \<Rightarrow> bool" where
  "holder_wf h \<longleftrightarrow> hot_plain h \<and> (\<forall>a \<in> set (searchable_segments h). a < length (sh_store h))"

text \<open>Between operations the published snapshot is the set of listed segments.\<close>

definition holder_ok :: "holder \<Rightarrow> bool" where
  "holder_ok h \<longleftrightarrow> holder_wf h \<and> set (sh_snapshot h) = set (searchable_segments h)"

definition all_stored :: "vstore \<Rightarrow> point_offset set \<Rightarrow> bool" where
  "all_stored vs S \<longleftrightarrow> (\<forall>off \<in> S. vs_get vs off \<noteq> None)"

lemma set_refs_offsets: "set (refs_offsets h as) = (\<Union>a \<in> set as. set (offsets_at h a))"
  by (simp add: refs_offsets_def)

lemma set_searchable:
  "set (searchable_segments h) = insert hot_ref (set (sh_sealing h) \<union> set (sh_building h) \<union> set (sh_sealed h)
     \<union> set (sh_warm h) \<union> set (sh_cold h))"
  by (auto simp: searchable_segments_def)

lemma visible_listed: "holder_ok h \<Longrightarrow> visible h = listed h"
  by (simp add: holder_ok_def visible_def listed_def set_refs_offsets)

lemma listed_lists: "listed h = (\<Union>a \<in> set (searchable_segments h). set (offsets_at h a))"
  by (simp add: listed_def set_refs_offsets)

text \<open>One description for every change of the lists: the store grows by whole segments, the Hot
  contents may change, and each reference that leaves the lists is covered by what is listed.\<close>

definition store_grows :: "holder \<Rightarrow> holder \<Rightarrow> bool" where
  "store_grows h h' \<longleftrightarrow> (\<exists>new. sh_store h' = sh_store h @ new) \<and> sh_config h' = sh_config h"

lemma store_growsD:
  "store_grows h h' \<Longrightarrow> a < length (sh_store h) \<Longrightarrow> a < length (sh_store h') \<and> seg_at h' a = seg_at h a"
  by (auto simp: store_grows_def seg_at_def nth_append)

lemma store_grows_plain: "store_grows h h' \<Longrightarrow> hot_plain h \<Longrightarrow> hot_plain h'"
  by (auto simp: store_grows_def hot_plain_def)

lemma store_grows_refl [simp]: "store_grows h h"
  by (simp add: store_grows_def)

lemma store_grows_trans: "store_grows h h1 \<Longrightarrow> store_grows h1 h2 \<Longrightarrow> store_grows h h2"
  by (auto simp: store_grows_def)

lemma store_grows_upd [simp]:
  "store_grows h (h\<lparr>sh_sealing := x\<rparr>)" "store_grows h (h\<lparr>sh_building := x\<rparr>)" "store_grows h (h\<lparr>sh_sealed := x\<rparr>)"
  "store_grows h (h\<lparr>sh_warm := x\<rparr>)" "store_grows h (h\<lparr>sh_cold := x\<rparr>)" "store_grows h (h\<lparr>sh_next_id := i\<rparr>)"
  "store_grows h (h\<lparr>sh_pending := ps\<rparr>)" "store_grows h (h\<lparr>sh_snapshot := x\<rparr>)"
  by (simp_all add: store_grows_def)

lemma hot_in_store: "hot_plain h \<Longrightarrow> hot_ref < length (sh_store h)"
  by (auto simp: hot_plain_def hot_ref_def)

lemma seg_at_fields [simp]:
  "seg_at (h\<lparr>sh_sealing := x\<rparr>) = seg_at h" "seg_at (h\<lparr>sh_building := x\<rparr>) = seg_at h" "seg_at (h\<lparr>sh_sealed := x\<rparr>) = seg_at h"
  "seg_at (h\<lparr>sh_warm := x\<rparr>) = seg_at h" "seg_at (h\<lparr>sh_cold := x\<rparr>) = seg_at h" "seg_at (h\<lparr>sh_next_id := i\<rparr>) = seg_at h"
  "seg_at (h\<lparr>sh_pending := ps\<rparr>) = seg_at h" "seg_at (h\<lparr>sh_snapshot := x\<rparr>) = seg_at h"
  by (simp_all add: seg_at_def fun_eq_iff)

lemma publish_ok:
  assumes "holder_wf h"
  shows "holder_ok (publish_snapshot h)" "listed (publish_snapshot h) = listed h" "visible (publish_snapshot h) = listed h"
  using assms
  by (simp_all add: holder_ok_def holder_wf_def publish_snapshot_def hot_plain_def searchable_segments_def
      listed_def visible_def refs_offsets_def)

lemma grow_covers:
  assumes "holder_wf h" "store_grows h h'" "\<forall>a \<in> set (searchable_segments h'). a < length (sh_store h')"
    and "\<And>a off. a \<in> set (searchable_segments h) \<Longrightarrow> a \<notin> set (searchable_segments h') \<Longrightarrow> off \<in> set (offsets_at h a) \<Longrightarrow>
        \<exists>b \<in> set (searchable_segments h'). off \<in> set (offsets_at h' b)"
  shows "holder_wf h' \<and> listed h \<subseteq> listed h'"
proof -
  have "off \<in> listed h'" if off: "off \<in> listed h" for off
  proof -
    obtain a where a: "a \<in> set (searchable_segments h)" "off \<in> set (offsets_at h a)"
      using off by (auto simp: listed_lists)
    then have "a < length (sh_store h)" using assms(1) by (simp add: holder_wf_def)
    then have same: "seg_at h' a = seg_at h a" using store_growsD [OF assms(2)] by blast
    have "\<exists>b \<in> set (searchable_segments h'). off \<in> set (offsets_at h' b)"
      using a same assms(4) [of a off] by metis
    then show ?thesis by (auto simp: listed_lists)
  qed
  then show ?thesis using assms(1-3) store_grows_plain by (auto simp: holder_wf_def)
qed

section \<open>The operations keep what is covered\<close>

text \<open>The Hot segment.\<close>

lemma the_hot_at: "hot_plain h \<Longrightarrow> seg_at h hot_ref = PlainSeg (the_hot h)"
  by (auto simp: hot_plain_def the_hot_def seg_at_def hot_ref_def)

lemma set_hot_at:
  assumes "hot_plain h"
  shows "hot_plain (set_hot s h)" "length (sh_store (set_hot s h)) = length (sh_store h)"
    "seg_at (set_hot s h) a = (if a = hot_ref then PlainSeg s else seg_at h a)"
    "searchable_segments (set_hot s h) = searchable_segments h" "the_hot (set_hot s h) = s"
    "sh_config (set_hot s h) = sh_config h" "sh_snapshot (set_hot s h) = sh_snapshot h"
proof -
  show "hot_plain (set_hot s h)" "length (sh_store (set_hot s h)) = length (sh_store h)"
    using assms by (auto simp: hot_plain_def set_hot_def hot_ref_def)
  have at: "seg_at (set_hot s h) b = (if b = hot_ref then PlainSeg s else seg_at h b)" for b
    using assms by (cases b) (auto simp: hot_plain_def set_hot_def hot_ref_def seg_at_def)
  show "seg_at (set_hot s h) a = (if a = hot_ref then PlainSeg s else seg_at h a)" by (rule at)
  show "the_hot (set_hot s h) = s" by (simp add: the_hot_def at)
qed (simp_all add: set_hot_def searchable_segments_def)

lemma set_hot_wf: "holder_wf h \<Longrightarrow> holder_wf (set_hot s h)"
  by (simp add: holder_wf_def set_hot_at)

lemma set_hot_ok: "holder_ok h \<Longrightarrow> holder_ok (set_hot s h)"
  by (simp add: holder_ok_def set_hot_wf set_hot_at holder_wf_def)

definition listed_rest :: "holder \<Rightarrow> point_offset set" where
  "listed_rest h = (\<Union>a \<in> set (searchable_segments h) - {hot_ref}. set (offsets_at h a))"

lemma listed_split:
  assumes "holder_wf h"
  shows "listed h = set (hs_offsets (the_hot h)) \<union> listed_rest h"
proof -
  have "hot_ref \<in> set (searchable_segments h)" by (simp add: set_searchable)
  then have "listed h = set (offsets_at h hot_ref) \<union> listed_rest h"
    unfolding listed_lists listed_rest_def by (metis UN_insert insert_Diff)
  then show ?thesis using assms by (simp add: the_hot_at holder_wf_def)
qed

lemma listed_rest_set_hot: "hot_plain h \<Longrightarrow> listed_rest (set_hot s h) = listed_rest h"
  unfolding listed_rest_def by (rule SUP_cong) (simp_all add: set_hot_at(3,4))

lemma listed_set_hot: "holder_wf h \<Longrightarrow> listed (set_hot s h) = set (hs_offsets s) \<union> listed_rest h"
  using listed_split [OF set_hot_wf, of h s] by (simp add: set_hot_at listed_rest_set_hot holder_wf_def)

lemma hot_insert_form:
  assumes "hot_insert off r s = (q, s')"
  obtains (err) e where "q = Inl e" "s' = s"
  | (old) "q = Inr ()" "s' = s" "off |\<in>| hs_seen s"
  | (new) "q = Inr ()" "s' = s\<lparr>hs_seen := finsert off (hs_seen s), hs_offsets := hs_offsets s @ [off]\<rparr>"
proof (cases "validate_dimension (r_embedding r) (hs_dim s)")
  case (Inl e)
  then show thesis using assms err [of "Core e"] by (simp add: hot_insert_def)
next
  case (Inr u)
  then show thesis using assms old new by (cases "off |\<in>| hs_seen s") (simp_all add: hot_insert_def)
qed

text \<open>The membership set of the Hot segment mirrors its list.\<close>

definition hot_mirror :: "holder \<Rightarrow> bool" where
  "hot_mirror h \<longleftrightarrow> fset (hs_seen (the_hot h)) = set (hs_offsets (the_hot h)) \<and> hs_dim (the_hot h) = cfg_dimension (sh_config h)"

lemma holder_insert_ok:
  assumes "holder_ok h" "hot_mirror h" "holder_insert off r h = (res, h')"
  shows "holder_ok h' \<and> hot_mirror h' \<and> sh_config h' = sh_config h \<and> listed h \<subseteq> listed h' \<and>
    (case res of Inl e \<Rightarrow> listed h' = listed h | Inr full \<Rightarrow> listed h' = insert off (listed h))"
proof -
  have wf: "holder_wf h" and hp: "hot_plain h" using assms(1) by (auto simp: holder_ok_def holder_wf_def)
  obtain q s where i: "hot_insert off r (the_hot h) = (q, s)" by fastforce
  have h': "h' = set_hot s h" using assms(3) i by (cases q) (simp_all add: holder_insert_def)
  note l = listed_set_hot [OF wf, of s] listed_split [OF wf]
  have ok: "holder_ok h'" "sh_config h' = sh_config h" "the_hot h' = s"
    using assms(1) hp by (simp_all add: h' set_hot_ok set_hot_at)
  from i show ?thesis
  proof (cases rule: hot_insert_form)
    case (err e)
    then show ?thesis using assms(2,3) ok l i h' by (auto simp: hot_mirror_def holder_insert_def)
  next
    case old
    then have "off \<in> set (hs_offsets (the_hot h))" using assms(2) by (simp add: hot_mirror_def)
    then show ?thesis using old assms(2,3) ok l i h' by (auto simp: hot_mirror_def holder_insert_def)
  next
    case new
    then have "hot_mirror h'" using assms(2) ok by (simp add: hot_mirror_def)
    then show ?thesis using new assms(3) ok l i h' by (auto simp: holder_insert_def)
  qed
qed

text \<open>Adding a segment at the end of a list.\<close>

lemma list_grow:
  "store_grows h (list_sealing p h)" "store_grows h (list_sealed_hot s h)" "store_grows h (list_warm s h)"
  "store_grows h (list_cold s h)"
  by (simp_all add: store_grows_def list_sealing_def list_sealed_hot_def list_warm_def list_cold_def seg_alloc_def)

lemma searchable_list_add:
  "set (searchable_segments (list_sealing p h)) = insert (length (sh_store h)) (set (searchable_segments h))"
  "set (searchable_segments (list_sealed_hot s h)) = insert (length (sh_store h)) (set (searchable_segments h))"
  "set (searchable_segments (list_warm s h)) = insert (length (sh_store h)) (set (searchable_segments h))"
  "set (searchable_segments (list_cold s h)) = insert (length (sh_store h)) (set (searchable_segments h))"
  by (auto simp: set_searchable list_sealing_def list_sealed_hot_def list_warm_def list_cold_def seg_alloc_def)

lemma seg_at_new:
  "seg_at (list_sealing p h) (length (sh_store h)) = PlainSeg p" "seg_at (list_sealed_hot s h) (length (sh_store h)) = s"
  "seg_at (list_warm s h) (length (sh_store h)) = s" "seg_at (list_cold s h) (length (sh_store h)) = s"
  by (simp_all add: seg_at_def list_sealing_def list_sealed_hot_def list_warm_def list_cold_def seg_alloc_def)

lemma length_list_add:
  "length (sh_store (list_sealing p h)) = Suc (length (sh_store h))" "length (sh_store (list_sealed_hot s h)) = Suc (length (sh_store h))"
  "length (sh_store (list_warm s h)) = Suc (length (sh_store h))" "length (sh_store (list_cold s h)) = Suc (length (sh_store h))"
  by (simp_all add: list_sealing_def list_sealed_hot_def list_warm_def list_cold_def seg_alloc_def)

lemma listed_add:
  assumes "holder_wf h" "store_grows h h'" "length (sh_store h') = Suc (length (sh_store h))"
    and "set (searchable_segments h') = insert (length (sh_store h)) (set (searchable_segments h))"
    and "seg_at h' (length (sh_store h)) = s"
  shows "holder_wf h' \<and> listed h' = set (seg_offsets s) \<union> listed h"
proof -
  have r: "\<And>a. a \<in> set (searchable_segments h) \<Longrightarrow> a < length (sh_store h) \<and> seg_at h' a = seg_at h a"
    using assms(1) store_growsD [OF assms(2)] by (auto simp: holder_wf_def)
  then have "(\<Union>a \<in> set (searchable_segments h). set (offsets_at h' a)) = listed h"
    unfolding listed_lists by (intro SUP_cong) auto
  moreover have "holder_wf h'"
    using assms(1,3,4) store_grows_plain [OF assms(2)] by (auto simp: holder_wf_def less_Suc_eq)
  ultimately show ?thesis by (simp add: listed_lists assms(4,5))
qed

lemmas list_adds =
  listed_add [OF _ list_grow(1) length_list_add(1) searchable_list_add(1) seg_at_new(1)]
  listed_add [OF _ list_grow(2) length_list_add(2) searchable_list_add(2) seg_at_new(2)]
  listed_add [OF _ list_grow(3) length_list_add(3) searchable_list_add(3) seg_at_new(3)]
  listed_add [OF _ list_grow(4) length_list_add(4) searchable_list_add(4) seg_at_new(4)]

lemma the_hot_grow: "store_grows h h' \<Longrightarrow> hot_plain h \<Longrightarrow> the_hot h' = the_hot h"
  by (simp add: the_hot_def store_growsD hot_in_store)

lemma hot_mirror_grow: "store_grows h h' \<Longrightarrow> hot_plain h \<Longrightarrow> hot_mirror h \<Longrightarrow> hot_mirror h'"
  by (simp add: hot_mirror_def the_hot_grow) (simp add: store_grows_def)

lemma publish_grow: "store_grows h (publish_snapshot h)"
  by (simp add: publish_snapshot_def)

text \<open>Sealing moves the Hot contents into the list of plain segments.\<close>

lemma seal_swap_form:
  assumes "holder_wf h" "hot_mirror h" "seal_swap h = (Some s, h')"
  shows "s = the_hot h" "holder_wf h'" "hot_mirror h'" "listed h = set (hs_offsets s) \<union> listed h'"
    "listed h' = listed_rest h" "sh_config h' = sh_config h"
proof -
  have hp: "hot_plain h" using assms(1) by (simp add: holder_wf_def)
  have s: "s = the_hot h" "h' = set_hot (hot_new (cfg_dimension (sh_config h))) h"
    using assms(3) by (auto simp: seal_swap_def split: if_splits)
  then show "s = the_hot h" "holder_wf h'" "listed h' = listed_rest h" "listed h = set (hs_offsets s) \<union> listed h'"
    "sh_config h' = sh_config h"
    using assms(1) hp listed_split [OF assms(1)] listed_set_hot [OF assms(1), of "hot_new (cfg_dimension (sh_config h))"]
    by (simp_all add: set_hot_wf hot_new_def set_hot_at)
  show "hot_mirror h'" using s(2) hp by (simp add: hot_mirror_def set_hot_at hot_new_def)
qed

lemma seal_hot_ok:
  assumes "holder_ok h" "hot_mirror h"
  shows "holder_ok (seal_hot h) \<and> hot_mirror (seal_hot h) \<and> listed (seal_hot h) = listed h \<and> sh_config (seal_hot h) = sh_config h"
proof -
  have wf: "holder_wf h" using assms(1) by (simp add: holder_ok_def)
  obtain q h1 where q: "seal_swap h = (q, h1)" by fastforce
  show ?thesis
  proof (cases q)
    case None
    then have "h1 = h" using q by (auto simp: seal_swap_def split: if_splits)
    then show ?thesis using None q assms by (simp add: seal_hot_def)
  next
    case (Some s)
    note f = seal_swap_form [OF wf assms(2)]
    have q': "seal_swap h = (Some s, h1)" using q Some by simp
    note l = list_adds(1) [OF f(2) [OF q'], of s]
    have wf2: "holder_wf (list_sealing s h1)" using l by simp
    have "hot_mirror (publish_snapshot (list_sealing s h1))"
      using f(2,3) [OF q'] store_grows_trans [OF list_grow(1) publish_grow] hot_mirror_grow by (auto simp: holder_wf_def)
    moreover have "sh_config (publish_snapshot (list_sealing s h1)) = sh_config h"
      using f(6) [OF q'] store_grows_trans [OF list_grow(1) [of h1 s] publish_grow] by (simp add: store_grows_def)
    ultimately show ?thesis
      using Some q publish_ok [OF wf2] l f(4) [OF q'] by (simp add: seal_hot_def Un_commute)
  qed
qed

text \<open>A built segment holds every offset it was built from whose vector is stored.\<close>

lemma set_map_filter_fst: "fst ` set (List.map_filter (\<lambda>off. map_option (\<lambda>v. (off, f v)) (g off)) offs) = {off \<in> set offs. g off \<noteq> None}"
  by (induction offs) (auto simp: map_filter_simps split: option.splits)

lemma build_records_offsets: "all_stored vs (set offs) \<Longrightarrow> fst ` set (build_records offs vs) = set offs"
  by (auto simp: build_records_def set_map_filter_fst all_stored_def)

lemma read_vectors_offsets: "all_stored vs (set offs) \<Longrightarrow> fst ` set (read_vectors_for_offsets offs vs) = set offs"
  by (auto simp: read_vectors_for_offsets_def set_map_filter_fst all_stored_def)

lemma from_vectors_offsets:
  "sealed_from_vectors out p vecs = Inr s \<Longrightarrow> set (seg_offsets s) = fst ` set vecs"
  "warm_from_records out p recs = Inr s \<Longrightarrow> set (seg_offsets s) = fst ` set recs"
  "cold_from_records out p recs = Inr s \<Longrightarrow> set (seg_offsets s) = fst ` set recs"
  by (force simp: sealed_from_vectors_def warm_from_records_def cold_from_records_def
      split: if_splits build_outcome.splits)+

lemma all_stored_mono: "all_stored vs S \<Longrightarrow> T \<subseteq> S \<Longrightarrow> all_stored vs T"
  by (auto simp: all_stored_def)

lemma refs_listed: "set as \<subseteq> set (searchable_segments h) \<Longrightarrow> set (refs_offsets h as) \<subseteq> listed h"
  by (auto simp: listed_def set_refs_offsets)

definition opt_offsets :: "segment option \<Rightarrow> point_offset set" where
  "opt_offsets c = (case c of None \<Rightarrow> {} | Some s \<Rightarrow> set (seg_offsets s))"

lemma compact_build_form:
  assumes "all_stored vs (set (refs_offsets h (sh_warm h)))" "compact_build out vs h = (r, h')"
  shows "\<exists>i. h' = h\<lparr>sh_next_id := i\<rparr>"
    "r = Inr (Some (targets, cold)) \<Longrightarrow> targets = sh_warm h \<and> opt_offsets cold = set (refs_offsets h targets)"
proof -
  let ?recs = "build_records (remdups_adj (sort (refs_offsets h (sh_warm h)))) vs"
  have same: "\<exists>i. g = g\<lparr>sh_next_id := i\<rparr>" for g :: holder
    by (rule exI [of _ "sh_next_id g"]) simp
  show "\<exists>i. h' = h\<lparr>sh_next_id := i\<rparr>"
    using assms(2) by (auto intro: same simp: compact_build_def segment_path_def Let_def split: if_splits sum.splits)
  have recs: "fst ` set ?recs = set (refs_offsets h (sh_warm h))"
    using build_records_offsets [of vs "remdups_adj (sort (refs_offsets h (sh_warm h)))"] assms(1) by simp
  assume "r = Inr (Some (targets, cold))"
  with assms(2) consider "targets = sh_warm h" "cold = None" "?recs = []"
    | p s where "targets = sh_warm h" "cold = Some s" "cold_from_records out p ?recs = Inr s"
    by (auto simp: compact_build_def segment_path_def Let_def split: if_splits sum.splits)
  then show "targets = sh_warm h \<and> opt_offsets cold = set (refs_offsets h targets)"
    using recs from_vectors_offsets(3) by cases (simp_all add: opt_offsets_def)
qed

lemma compact_install_ok:
  assumes "holder_wf h" "set (refs_offsets h targets) \<subseteq> opt_offsets cold"
  shows "holder_wf (compact_install targets cold h) \<and> listed h \<subseteq> listed (compact_install targets cold h) \<and>
    listed (compact_install targets cold h) \<subseteq> opt_offsets cold \<union> listed h \<and> store_grows h (compact_install targets cold h)"
proof -
  define h1 where "h1 = (case cold of None \<Rightarrow> h | Some s \<Rightarrow> list_cold s h)"
  let ?h2 = "h1\<lparr>sh_warm := List.filter (\<lambda>a. a \<notin> set targets) (sh_warm h1)\<rparr>"
  have c: "compact_install targets cold h = ?h2" by (simp add: compact_install_def h1_def Let_def)
  have h1: "holder_wf h1" "store_grows h h1" "listed h1 = opt_offsets cold \<union> listed h"
    using assms(1) list_adds(4) [OF assms(1)] list_grow(4) [of h]
    by (auto simp: h1_def opt_offsets_def split: option.splits)
  have new: "\<exists>b \<in> set (searchable_segments ?h2). off \<in> set (offsets_at ?h2 b)" if o: "off \<in> opt_offsets cold" for off
  proof -
    obtain s where s: "cold = Some s" "off \<in> set (seg_offsets s)" using o by (auto simp: opt_offsets_def split: option.splits)
    then have "length (sh_store h) \<in> set (searchable_segments ?h2)" "offsets_at ?h2 (length (sh_store h)) = seg_offsets s"
      by (simp_all add: h1_def seg_at_new set_searchable) (simp add: list_cold_def seg_alloc_def)
    then show ?thesis using s(2) by metis
  qed
  have "holder_wf ?h2 \<and> listed h1 \<subseteq> listed ?h2"
  proof (rule grow_covers [OF h1(1)])
    show "\<forall>a \<in> set (searchable_segments ?h2). a < length (sh_store ?h2)"
      using h1(1) by (auto simp: holder_wf_def set_searchable)
    fix a off
    assume a: "a \<in> set (searchable_segments h1)" "a \<notin> set (searchable_segments ?h2)" "off \<in> set (offsets_at h1 a)"
    then have t: "a \<in> set targets" by (auto simp: set_searchable)
    have "a \<noteq> length (sh_store h) \<or> cold = None"
      using a by (auto simp: set_searchable h1_def list_cold_def seg_alloc_def split: option.splits)
    then have "a < length (sh_store h)"
      using h1(1) a(1) length_list_add(4) [of _ h] by (auto simp: holder_wf_def h1_def less_Suc_eq split: option.splits)
    then have "off \<in> set (refs_offsets h targets)"
      using t a(3) store_growsD [OF h1(2)] by (auto simp: set_refs_offsets)
    then show "\<exists>b \<in> set (searchable_segments ?h2). off \<in> set (offsets_at ?h2 b)" using new assms(2) by blast
  qed simp
  moreover have "listed ?h2 \<subseteq> listed h1" by (auto simp: listed_lists set_searchable)
  ultimately show ?thesis using c h1(2,3) store_grows_trans [OF h1(2)] by auto
qed

lemma compact_warm_ok:
  assumes "holder_ok h" "all_stored vs (listed h)" "compact_warm out gone vs h = (r, h')"
  shows "holder_ok h' \<and> listed h' = listed h \<and> store_grows h h'"
proof -
  obtain q h1 where q: "compact_build out vs h = (q, h1)" by fastforce
  have st: "all_stored vs (set (refs_offsets h (sh_warm h)))"
    using refs_listed [of "sh_warm h" h] assms(2) by (auto simp: set_searchable intro: all_stored_mono)
  obtain i where h1: "h1 = h\<lparr>sh_next_id := i\<rparr>" using compact_build_form(1) [OF st q] by blast
  have ok1: "holder_ok h1" "listed h1 = listed h" "store_grows h h1"
    using assms(1) by (simp_all add: h1 holder_ok_def holder_wf_def hot_plain_def searchable_segments_def listed_def refs_offsets_def)
  have disc: "fold (discard_segment_dir gone) ps g = g\<lparr>sh_pending := sh_pending (fold (discard_segment_dir gone) ps g)\<rparr>" for ps g
    by (induction ps arbitrary: g) (simp_all add: discard_segment_dir_def, metis holder.surjective holder.update_convs(10))
  consider "h' = h1" | targets cold where "q = Inr (Some (targets, cold))"
    "h' = fold (discard_segment_dir gone) (List.map_filter (\<lambda>a. seg_path (seg_at h a)) targets)
       (publish_snapshot (compact_install targets cold h1))"
    using assms(3) q by (auto simp: compact_warm_def split: sum.splits option.splits)
  then show ?thesis
  proof cases
    case 1 then show ?thesis using ok1 by simp
  next
    case 2
    have t: "set (refs_offsets h1 targets) \<subseteq> opt_offsets cold"
      using compact_build_form(2) [OF st q 2(1)] by (simp add: h1 refs_offsets_def)
    have wf1: "holder_wf h1" using ok1(1) by (simp add: holder_ok_def)
    note c = compact_install_ok [OF wf1 t]
    define g where "g = publish_snapshot (compact_install targets cold h1)"
    have "opt_offsets cold \<subseteq> listed h"
      using compact_build_form(2) [OF st q 2(1)] refs_listed [of targets h] by (auto simp: set_searchable)
    then have g: "holder_ok g" "listed g = listed h" "store_grows h g"
      using c publish_ok [of "compact_install targets cold h1"] ok1(2)
        store_grows_trans [OF ok1(3) store_grows_trans [OF _ publish_grow]] by (auto simp: g_def)
    obtain ps where "h' = g\<lparr>sh_pending := ps\<rparr>" using 2(2) disc g_def by metis
    then show ?thesis using g
      by (simp add: holder_ok_def holder_wf_def hot_plain_def searchable_segments_def listed_def refs_offsets_def store_grows_def)
  qed
qed

text \<open>Inserting with the seal that a full Hot segment triggers: the step shared by the write path,
  promotion and the rebuild.\<close>

definition insert_seal :: "point_offset \<Rightarrow> mem_record \<Rightarrow> holder \<Rightarrow> holder" where
  "insert_seal off r h =
     (case holder_insert off r h of (Inl e, h1) \<Rightarrow> h1 | (Inr full, h1) \<Rightarrow> if full then seal_hot h1 else h1)"

definition holder_inv :: "holder \<Rightarrow> bool" where
  "holder_inv h \<longleftrightarrow> holder_ok h \<and> hot_mirror h"

lemma insert_seal_ok:
  assumes "holder_inv h"
  shows "holder_inv (insert_seal off r h) \<and> listed h \<subseteq> listed (insert_seal off r h) \<and>
    (\<forall>full. fst (holder_insert off r h) = Inr full \<longrightarrow> off \<in> listed (insert_seal off r h)) \<and>
    sh_config (insert_seal off r h) = sh_config h"
proof -
  obtain q h1 where q: "holder_insert off r h = (q, h1)" by fastforce
  have i: "holder_ok h1" "hot_mirror h1" "sh_config h1 = sh_config h" "listed h \<subseteq> listed h1"
    "\<And>full. q = Inr full \<Longrightarrow> off \<in> listed h1"
    using holder_insert_ok [OF _ _ q] assms by (auto simp: holder_inv_def split: sum.splits)
  show ?thesis using seal_hot_ok [OF i(1,2)] i q by (cases q) (auto simp: insert_seal_def holder_inv_def)
qed

lemma promote_loop_ok:
  "holder_inv h \<Longrightarrow> promote_loop powf now vs offs n ms h = (r, ms', h') \<Longrightarrow>
   holder_inv h' \<and> listed h \<subseteq> listed h'"
proof (induction offs arbitrary: n ms h)
  case (Cons off offs)
  show ?case
  proof (cases "ms_get ms off = None \<or> vs_get vs off = None \<or>
      f64_lt (access_score powf (the (ms_get ms off)) now (max (cfg_half_life (sh_config h)) 1)) (cfg_promote_threshold (sh_config h))")
    case True
    then have "promote_loop powf now vs offs n ms h = (r, ms', h')"
      using Cons.prems(2) by (auto split: option.splits if_splits)
    then show ?thesis using Cons.IH Cons.prems(1) by blast
  next
    case False
    then obtain m v where mv: "ms_get ms off = Some m" "vs_get vs off = Some v" by auto
    let ?r = "with_tier (with_embedding m v) Hot"
    obtain q h1 where q: "holder_insert off ?r h = (q, h1)" by fastforce
    note i = insert_seal_ok [OF Cons.prems(1), of off ?r]
    show ?thesis
    proof (cases q)
      case (Inl e)
      then have "h' = insert_seal off ?r h" using Cons.prems(2) False mv q by (simp add: insert_seal_def Let_def)
      then show ?thesis using i by simp
    next
      case (Inr full)
      then have "promote_loop powf now vs offs (n + 1) (ms_put off ?r ms) (insert_seal off ?r h) = (r, ms', h')"
        using Cons.prems(2) False mv q by (simp add: insert_seal_def Let_def)
      then show ?thesis using Cons.IH i by blast
    qed
  qed
qed simp

lemma publish_inv: "holder_inv h \<Longrightarrow> holder_inv (publish_snapshot h) \<and> listed (publish_snapshot h) = listed h"
  using publish_ok [of h] hot_mirror_grow [OF publish_grow, of h] by (auto simp: holder_inv_def holder_ok_def holder_wf_def)

lemma promote_hot_ok:
  assumes "holder_inv h" "promote_hot powf now vs ms h = (r, ms', h')"
  shows "holder_inv h' \<and> listed h \<subseteq> listed h'"
proof -
  let ?offs = "refs_offsets h (sh_sealing h @ sh_building h @ sh_sealed h @ sh_warm h @ sh_cold h)"
  obtain q m1 h1 where q: "promote_loop powf now vs ?offs 0 ms h = (q, m1, h1)" by (metis surj_pair)
  note p = promote_loop_ok [OF assms(1) q]
  show ?thesis using p assms(2) q publish_inv [of h1] by (cases q) (auto simp: promote_hot_def split: if_splits)
qed

lemma store_grows_inv: "holder_inv h \<Longrightarrow> holder_ok h' \<Longrightarrow> store_grows h h' \<Longrightarrow> holder_inv h'"
  using hot_mirror_grow [of h h'] by (auto simp: holder_inv_def holder_ok_def holder_wf_def)

lemma holder_consolidate_ok:
  assumes "holder_inv h" "all_stored vs (listed h)" "holder_consolidate out gone powf now vs ms h = (r, ms', h')"
  shows "holder_inv h' \<and> listed h \<subseteq> listed h'"
proof -
  define h1 where "h1 = (if cfg_hot_capacity (sh_config h) \<le> length (hs_offsets (the_hot h)) then seal_hot h else h)"
  have h1: "holder_inv h1" "listed h1 = listed h" using assms(1) seal_hot_ok [of h] by (auto simp: h1_def holder_inv_def)
  obtain q h2 where q: "(if cfg_warm_capacity (sh_config h1) < total_points h1 (sh_warm h1) then compact_warm out gone vs h1 else (Inr (), h1)) = (q, h2)"
    by fastforce
  have h2: "holder_inv h2" "listed h1 \<subseteq> listed h2"
    using q compact_warm_ok [of h1 vs out gone q h2] h1 assms(2) store_grows_inv [of h1 h2]
    by (auto simp: holder_inv_def split: if_splits)
  obtain u m3 h3 where u: "promote_hot powf now vs ms h2 = (u, m3, h3)" by (metis surj_pair)
  note p = promote_hot_ok [OF h2(1) u]
  have "h' = h2 \<or> h' = h3"
    using assms(3) q u unfolding holder_consolidate_def Let_def h1_def [symmetric]
    by (cases q; cases u) auto
  then show ?thesis using h1 h2 p by auto
qed

lemma from_records_loop_ok:
  "holder_inv h \<Longrightarrow> from_records_loop rs sealed h = (r, h') \<Longrightarrow>
   holder_inv h' \<and> listed h \<subseteq> listed h' \<and> sh_config h' = sh_config h \<and>
   (r = Inr () \<longrightarrow> fst ` set rs - sealed \<subseteq> listed h')"
proof (induction rs arbitrary: h)
  case (Cons x rs)
  obtain off rec where x: "x = (off, rec)" by fastforce
  obtain q h1 where q: "holder_insert off rec h = (q, h1)" by fastforce
  note i = insert_seal_ok [OF Cons.prems(1), of off rec]
  show ?case
  proof (cases "off \<in> sealed")
    case True
    then show ?thesis using Cons x by auto
  next
    case False
    show ?thesis
    proof (cases q)
      case (Inl e)
      then have "h' = insert_seal off rec h" "r = Inl e"
        using Cons.prems(2) False q x by (simp_all add: insert_seal_def)
      then show ?thesis using i by simp
    next
      case (Inr full)
      then have "from_records_loop rs sealed (insert_seal off rec h) = (r, h')"
        using Cons.prems(2) False q x by (simp add: insert_seal_def)
      then show ?thesis using Cons.IH [of "insert_seal off rec h"] i q Inr x by auto
    qed
  qed
qed simp

lemma holder_new_inv: "holder_inv (holder_new c ls)" "listed (holder_new c ls) = {}" "sh_config (holder_new c ls) = c"
  by (simp_all add: holder_inv_def holder_ok_def holder_wf_def hot_mirror_def the_hot_def seg_at_def hot_ref_def hot_new_def
      listed_def refs_offsets_def holder_new_def publish_snapshot_def searchable_segments_def hot_plain_def)

section \<open>Directory names\<close>

lemma segment_dir_id_name [simp]: "segment_dir_id (segment_dir_name i) = Some i"
  by (simp add: segment_dir_id_def segment_dir_name_def)

lemma fold_ge: "(\<And>y n. n \<le> f y n) \<Longrightarrow> (n :: u64) \<le> fold f ys n"
proof (induction ys arbitrary: n)
  case (Cons y ys)
  from Cons.prems [of n y] Cons.IH [OF Cons.prems, of "f y n"] show ?case by simp
qed simp

lemma fold_reaches: "x \<in> set ys \<Longrightarrow> (\<And>y n. n \<le> f y n) \<Longrightarrow> (\<And>n. c \<le> f x n) \<Longrightarrow> (c :: u64) \<le> fold f ys n"
proof (induction ys arbitrary: n)
  case (Cons y ys)
  show ?case
  proof (cases "x = y")
    case True
    then show ?thesis using Cons.prems(3) [of n] fold_ge [of f "f y n" ys] Cons.prems(2) by fastforce
  next
    case False
    then show ?thesis using Cons by simp
  qed
qed simp

lemma next_id_above:
  assumes "tier \<in> set tier_dirs" "ls tier = Some names" "nm \<in> set names" "segment_dir_id nm = Some i"
  shows "i + 1 \<le> next_id_after ls"
proof -
  let ?s = "\<lambda>nm (n :: u64). case segment_dir_id nm of None \<Rightarrow> n | Some i \<Rightarrow> max n (i + 1)"
  have s: "n \<le> ?s nm n" for nm n by (cases "segment_dir_id nm") simp_all
  show ?thesis
    unfolding next_id_after_def
  proof (rule fold_reaches [OF assms(1)])
    show "n \<le> (case ls t of None \<Rightarrow> n | Some names \<Rightarrow> fold ?s names n)" for t n
      using fold_ge [of ?s n] s by (cases "ls t") simp_all
    show "i + 1 \<le> (case ls tier of None \<Rightarrow> n | Some names \<Rightarrow> fold ?s names n)" for n
      using fold_reaches [OF assms(3), of ?s "i + 1" n] s assms(2,4) by simp
  qed
qed

end
