(* ===== verification/Optimizer.thy ===== *)
theory Optimizer
  imports Segment_Holder
begin

text \<open>
  The background optimizer of \<open>turbomemory_storage/src/optimizer.rs\<close>: the resource budget, the job
  that turns a sealed plain segment into a persisted one, the merge of sealed segments, and the
  loops that drain both queues. The jobs are modelled in the stages the source runs them in
  (choose under a lock, build without it, install), so that the last section can interleave
  them with inserts and seals of other threads. The thread itself (channel, timer, shutdown)
  is scheduling and is not modelled.
\<close>

section \<open>The build budget\<close>

record budget =
  rb_inflight :: nat
  rb_max_concurrent :: nat
  rb_max_memory :: "nat option"

definition budget_new :: "nat \<Rightarrow> nat option \<Rightarrow> budget" where
  "budget_new builds mem = \<lparr>rb_inflight = 0, rb_max_concurrent = max builds 1, rb_max_memory = mem\<rparr>"

definition build_estimate :: "nat \<Rightarrow> nat \<Rightarrow> nat \<Rightarrow> nat" where
  "build_estimate n d max_edges =
     saturating_mul (saturating_add (saturating_mul (saturating_mul n d) 4) (saturating_mul (saturating_mul n max_edges) 8)) 13 div 10"

text \<open>\<open>cas\<close> is the outcome of the compare-and-swap. The guard is the increment; \<open>release\<close> is its drop.\<close>

definition try_acquire :: "bool \<Rightarrow> nat \<Rightarrow> nat \<Rightarrow> nat \<Rightarrow> budget \<Rightarrow> bool \<times> budget" where
  "try_acquire cas n d max_edges b =
     (if rb_max_concurrent b \<le> rb_inflight b then (False, b)
      else if (case rb_max_memory b of None \<Rightarrow> False | Some m \<Rightarrow> m < build_estimate n d max_edges) then (False, b)
      else if cas then (True, b\<lparr>rb_inflight := rb_inflight b + 1\<rparr>) else (False, b))"

definition release_guard :: "budget \<Rightarrow> budget" where
  "release_guard b = b\<lparr>rb_inflight := rb_inflight b - 1\<rparr>"

section \<open>Sealing jobs\<close>

record job =
  j_plain :: seg_ref
  j_offsets :: "point_offset list"
  j_use_hnsw :: bool
  j_path :: string

datatype seal_pick = NoWork | EmptySegment | Work job

definition threshold_met :: "seg_config \<Rightarrow> nat \<Rightarrow> bool" where
  "threshold_met c n \<longleftrightarrow>
     cfg_hnsw_threshold c \<le> n \<or>
     0 < cfg_full_scan_kb c \<and> cfg_full_scan_kb c \<le> saturating_mul (saturating_mul n (cfg_dimension c)) 4 div 1024"

text \<open>The first stage. The guard of a successful acquisition is a temporary of the condition and is
  dropped with it, so the budget is back where it was.\<close>

definition seal_start :: "bool \<Rightarrow> budget \<Rightarrow> holder \<Rightarrow> seal_pick \<times> budget \<times> holder" where
  "seal_start cas b h =
     (case pop_sealing_plain h of
        (None, h1) \<Rightarrow> (NoWork, b, h1)
      | (Some plain, h1) \<Rightarrow>
          (let offs = offsets_at h1 plain; c = sh_config h1 in
           if offs = [] then (EmptySegment, b, publish_snapshot (remove_sealing_plain plain h1))
           else let (got, b1) = (if threshold_met c (length offs)
                                 then try_acquire cas (length offs) (cfg_dimension c) (cfg_max_edges c) b else (False, b));
                    b2 = (if got then release_guard b1 else b1);
                    (p, h2) = segment_path (if got then SEALED_HOT_DIR else tier_name Warm) h1
                in (Work \<lparr>j_plain = plain, j_offsets = offs, j_use_hnsw = got, j_path = p\<rparr>, b2, h2)))"

definition build_segment :: "build_outcome \<Rightarrow> vstore \<Rightarrow> job \<Rightarrow> segment result" where
  "build_segment out vs j =
     (let vecs = read_vectors_for_offsets (j_offsets j) vs in
      if vecs = [] then Inl (InvalidArgument ''no vectors found for segment build'')
      else if j_use_hnsw j then sealed_from_vectors out (j_path j) vecs
      else warm_from_records out (j_path j) (map (\<lambda>(off, v). (off, blank_record v)) vecs))"

definition seal_install :: "build_outcome \<Rightarrow> (string \<Rightarrow> bool) \<Rightarrow> vstore \<Rightarrow> job \<Rightarrow> segment result \<Rightarrow> holder \<Rightarrow> bool result \<times> holder" where
  "seal_install out gone vs j built h =
     (let h1 = remove_sealing_plain (j_plain j) h in
      case built of
        Inl e \<Rightarrow> (Inl e, push_sealing_plain (j_plain j) h1)
      | Inr s \<Rightarrow>
          if j_use_hnsw j then (Inr True, add_sealed_hot s h1)
          else (Inr True, snd (compact_warm out gone vs (add_warm s h1))))"

text \<open>The environment of one job: the compare-and-swap, the build of the segment, the build of a
  compaction it triggers, and which directories can be removed. The half-written directory of a
  failed build, which the source removes, is not part of the state.\<close>

record seal_env =
  se_cas :: bool
  se_build :: build_outcome
  se_compact :: build_outcome
  se_gone :: "string \<Rightarrow> bool"

definition process_one_seal :: "seal_env \<Rightarrow> vstore \<Rightarrow> budget \<Rightarrow> holder \<Rightarrow> bool result \<times> budget \<times> holder" where
  "process_one_seal env vs b h =
     (case seal_start (se_cas env) b h of
        (NoWork, b1, h1) \<Rightarrow> (Inr False, b1, h1)
      | (EmptySegment, b1, h1) \<Rightarrow> (Inr True, b1, h1)
      | (Work j, b1, h1) \<Rightarrow>
          (case seal_install (se_compact env) (se_gone env) vs j (build_segment (se_build env) vs j) h1 of
             (r, h2) \<Rightarrow> (r, b1, h2)))"

section \<open>Merging jobs\<close>

text \<open>The union of the candidates' offsets without repetition, in order of first occurrence.\<close>

fun union_loop :: "point_offset list \<Rightarrow> point_offset list \<Rightarrow> point_offset list" where
  "union_loop [] acc = acc"
| "union_loop (off # offs) acc = union_loop offs (if off \<in> set acc then acc else acc @ [off])"

record merge_env =
  me_cas :: bool
  me_build :: build_outcome

definition process_one_merge :: "merge_env \<Rightarrow> vstore \<Rightarrow> budget \<Rightarrow> string list \<Rightarrow> holder
    \<Rightarrow> bool result \<times> budget \<times> string list \<times> holder" where
  "process_one_merge env vs b pending h =
     (let c = sh_config h in
      case sealed_hot_merge_candidates (merge_threshold_segments c) (merge_max_records c) h of
        None \<Rightarrow> (Inr False, b, pending, h)
      | Some cands \<Rightarrow>
          (let old_paths = List.map_filter (\<lambda>a. seg_path (seg_at h a)) cands;
               offs = union_loop (refs_offsets h cands) [] in
           if offs = [] then (Inr True, b, pending, publish_snapshot (snd (remove_sealed_hot_segments cands h)))
           else let vecs = read_vectors_for_offsets offs vs in
             if vecs = [] then (Inr False, b, pending, h)
             else case try_acquire (me_cas env) (length vecs) (cfg_dimension c) (cfg_max_edges c) b of
               (False, b1) \<Rightarrow> (Inr False, b1, pending, h)
             | (True, b1) \<Rightarrow>
                 (case segment_path SEALED_HOT_DIR h of (p, h1) \<Rightarrow>
                   (case sealed_from_vectors (me_build env) p vecs of
                      Inl e \<Rightarrow> (Inl e, release_guard b1, pending, h1)
                    | Inr s \<Rightarrow> (Inr True, release_guard b1, pending @ old_paths,
                        add_sealed_hot s (snd (remove_sealed_hot_segments cands h1)))))))"

definition try_cleanup_pending :: "(string \<Rightarrow> bool) \<Rightarrow> string list \<Rightarrow> string list" where
  "try_cleanup_pending removed pending = List.filter (\<lambda>p. \<not> removed p) pending"

section \<open>Jobs keep what is covered\<close>

lemma drop_covers:
  assumes "holder_wf h" "sh_store h1 = sh_store h"
    and "set (searchable_segments h) - set R \<subseteq> set (searchable_segments h1)"
    and "set (searchable_segments h1) \<subseteq> set (searchable_segments h)"
  shows "holder_wf h1 \<and> listed h \<subseteq> listed h1 \<union> set (refs_offsets h R)"
proof -
  have at: "seg_at h1 = seg_at h" using assms(2) by (simp add: seg_at_def fun_eq_iff)
  have "off \<in> listed h1 \<union> set (refs_offsets h R)" if "off \<in> listed h" for off
    using that assms(3) unfolding listed_lists set_refs_offsets at by blast
  then show ?thesis using assms(1,2,4) by (auto simp: holder_wf_def hot_plain_def)
qed

lemma set_union_loop: "set (union_loop offs acc) = set offs \<union> set acc"
  by (induction offs arbitrary: acc) auto

text \<open>The first stage moves a segment between lists that are both published.\<close>

lemma seal_start_ok:
  assumes "holder_inv h" "seal_start cas b h = (pick, b', h')"
  shows "holder_inv h' \<and> listed h' = listed h \<and>
    (\<forall>j. pick = Work j \<longrightarrow> j_plain j \<in> set (sh_building h') \<and> j_offsets j = offsets_at h' (j_plain j))"
proof (cases "sh_sealing h = []")
  case True
  then show ?thesis using assms by (auto simp: seal_start_def pop_sealing_plain_def)
next
  case False
  let ?p = "last (sh_sealing h)"
  define h1 where "h1 = h\<lparr>sh_sealing := butlast (sh_sealing h), sh_building := sh_building h @ [?p]\<rparr>"
  have pop: "pop_sealing_plain h = (Some ?p, h1)" using False by (simp add: pop_sealing_plain_def h1_def Let_def)
  have "set (sh_sealing h) = insert ?p (set (butlast (sh_sealing h)))"
    using False by (metis append_butlast_last_id list.set(1,2) list.simps(15) rotate1.simps(2) set_rotate1)
  then have se: "set (searchable_segments h1) = set (searchable_segments h)"
    by (auto simp: set_searchable h1_def)
  have inv1: "holder_inv h1" "listed h1 = listed h"
    using assms(1) se by (simp_all add: holder_inv_def holder_ok_def holder_wf_def hot_plain_def listed_lists hot_mirror_def
        the_hot_def, simp_all add: h1_def)
  show ?thesis
  proof (cases "offsets_at h1 ?p = []")
    case True
    have "set (searchable_segments h1) - set [?p] \<subseteq> set (searchable_segments (remove_sealing_plain ?p h1))"
      "set (searchable_segments (remove_sealing_plain ?p h1)) \<subseteq> set (searchable_segments h1)"
      by (auto simp: set_searchable remove_sealing_plain_def)
    with drop_covers [of h1 "remove_sealing_plain ?p h1" "[?p]"] inv1 True
    have d: "holder_wf (remove_sealing_plain ?p h1)" "listed h1 \<subseteq> listed (remove_sealing_plain ?p h1)"
      by (auto simp: remove_sealing_plain_def holder_inv_def holder_ok_def refs_offsets_def)
    moreover have "listed (remove_sealing_plain ?p h1) \<subseteq> listed h1"
      by (auto simp: listed_lists set_searchable remove_sealing_plain_def)
    moreover have "store_grows h1 (publish_snapshot (remove_sealing_plain ?p h1))"
      by (simp add: store_grows_def publish_snapshot_def remove_sealing_plain_def)
    ultimately show ?thesis
      using True assms(2) pop inv1 publish_ok [OF d(1)] store_grows_inv [of h1]
      by (auto simp: seal_start_def)
  next
    case ne: False
    obtain i where h': "h' = h1\<lparr>sh_next_id := i\<rparr>" and j: "\<exists>j. pick = Work j \<and> j_plain j = ?p \<and> j_offsets j = offsets_at h1 ?p"
      using assms(2) pop ne by (auto simp: seal_start_def segment_path_def Let_def split: prod.splits if_splits)
    then show ?thesis using inv1
      by (auto simp: holder_inv_def holder_ok_def holder_wf_def hot_plain_def listed_lists hot_mirror_def the_hot_def
          searchable_segments_def h1_def)
  qed
qed

lemma build_segment_offsets:
  "build_segment out vs j = Inr s \<Longrightarrow> all_stored vs (set (j_offsets j)) \<Longrightarrow> set (seg_offsets s) = set (j_offsets j)"
  using read_vectors_offsets [of vs "j_offsets j"] from_vectors_offsets(1,2)
  by (auto simp: build_segment_def Let_def image_image split_def split: if_splits)

lemma remove_sealing_covers:
  assumes "holder_wf h"
  shows "holder_wf (remove_sealing_plain p h) \<and> listed h \<subseteq> listed (remove_sealing_plain p h) \<union> set (offsets_at h p) \<and>
    store_grows h (remove_sealing_plain p h)"
proof -
  have "set (searchable_segments h) - set [p] \<subseteq> set (searchable_segments (remove_sealing_plain p h))"
    "set (searchable_segments (remove_sealing_plain p h)) \<subseteq> set (searchable_segments h)"
    by (auto simp: set_searchable remove_sealing_plain_def)
  then show ?thesis using drop_covers [OF assms, of "remove_sealing_plain p h" "[p]"]
    by (simp add: remove_sealing_plain_def refs_offsets_def store_grows_def)
qed

lemma push_sealing_covers:
  assumes "holder_wf h" "p < length (sh_store h)"
  shows "holder_ok (push_sealing_plain p h) \<and> listed (push_sealing_plain p h) = listed h \<union> set (offsets_at h p) \<and>
    store_grows h (push_sealing_plain p h)"
proof -
  let ?h = "h\<lparr>sh_building := List.filter (\<lambda>x. x \<noteq> p) (sh_building h), sh_sealing := sh_sealing h @ [p]\<rparr>"
  have "set (searchable_segments ?h) = insert p (set (searchable_segments h))"
    by (auto simp: set_searchable)
  then have "holder_wf ?h" "listed ?h = listed h \<union> set (offsets_at h p)"
    using assms by (auto simp: holder_wf_def hot_plain_def listed_lists)
  then show ?thesis using publish_ok [of ?h] by (auto simp: push_sealing_plain_def store_grows_def publish_snapshot_def)
qed

lemma add_covers:
  assumes "holder_wf h"
  shows "holder_ok (add_sealed_hot s h) \<and> listed (add_sealed_hot s h) = set (seg_offsets s) \<union> listed h \<and> store_grows h (add_sealed_hot s h)"
    and "holder_ok (add_warm s h) \<and> listed (add_warm s h) = set (seg_offsets s) \<union> listed h \<and> store_grows h (add_warm s h)"
    and "holder_ok (add_cold s h) \<and> listed (add_cold s h) = set (seg_offsets s) \<union> listed h \<and> store_grows h (add_cold s h)"
  using list_adds [OF assms] publish_ok store_grows_trans [OF _ publish_grow] list_grow
  by (simp_all add: add_sealed_hot_def add_warm_def add_cold_def)

text \<open>The installation, whatever happened to the lists since the job was started: the plain segment
  is replaced by a segment with the same offsets, or put back.\<close>

lemma seal_install_ok:
  assumes "holder_inv h" "j_plain j < length (sh_store h)" "j_offsets j = offsets_at h (j_plain j)"
    and "all_stored vs (listed h \<union> set (j_offsets j))" "built = build_segment out vs j"
    and "seal_install out2 gone vs j built h = (r, h')"
  shows "holder_inv h' \<and> listed h' = listed h \<union> set (j_offsets j)"
proof -
  let ?h1 = "remove_sealing_plain (j_plain j) h"
  have wf: "holder_wf h" using assms(1) by (simp add: holder_inv_def holder_ok_def)
  note rm = remove_sealing_covers [OF wf, of "j_plain j"]
  have wf1: "holder_wf ?h1" and at: "offsets_at ?h1 (j_plain j) = j_offsets j" "j_plain j < length (sh_store ?h1)"
    using rm assms(2,3) store_growsD [of h ?h1 "j_plain j"] by auto
  have st: "all_stored vs (set (j_offsets j))" using assms(4) all_stored_mono by blast
  have sub: "listed ?h1 \<subseteq> listed h" by (auto simp: listed_lists set_searchable remove_sealing_plain_def)
  have "holder_ok h' \<and> listed h' = listed h \<union> set (j_offsets j) \<and> store_grows h h'"
  proof (cases built)
    case (Inl e)
    then have "h' = push_sealing_plain (j_plain j) ?h1" using assms(6) by (simp add: seal_install_def)
    then show ?thesis using push_sealing_covers [OF wf1 at(2)] rm sub at(1) assms(3) store_grows_trans [of h ?h1 h'] by auto
  next
    case (Inr s)
    then have s: "set (seg_offsets s) = set (j_offsets j)" using build_segment_offsets assms(5) st by metis
    show ?thesis
    proof (cases "j_use_hnsw j")
      case True
      then have "h' = add_sealed_hot s ?h1" using assms(6) Inr by (simp add: seal_install_def)
      then show ?thesis using add_covers(1) [OF wf1, of s] rm sub s assms(3) store_grows_trans [of h ?h1 h'] by auto
    next
      case False
      let ?h2 = "add_warm s ?h1"
      obtain q where c: "compact_warm out2 gone vs ?h2 = (q, h')"
        using assms(6) Inr False by (cases "compact_warm out2 gone vs ?h2") (simp add: seal_install_def)
      note a = add_covers(2) [OF wf1, of s]
      have "all_stored vs (listed ?h2)" using assms(4) a s sub all_stored_mono [of vs "listed h \<union> set (j_offsets j)" "listed ?h2"] by auto
      with compact_warm_ok [OF _ _ c] a have w: "holder_ok h'" "listed h' = listed ?h2" "store_grows ?h2 h'" by simp_all
      have "store_grows h h'" using rm a w(3) store_grows_trans by blast
      then show ?thesis using w a rm sub s assms(3) by auto
    qed
  qed
  then show ?thesis using assms(1) store_grows_inv by auto
qed

lemma process_one_seal_ok:
  assumes "holder_inv h" "all_stored vs (listed h)" "process_one_seal env vs b h = (r, b', h')"
  shows "holder_inv h' \<and> listed h' = listed h"
proof -
  obtain pick b1 h1 where st: "seal_start (se_cas env) b h = (pick, b1, h1)" by (metis surj_pair)
  note s = seal_start_ok [OF assms(1) st]
  show ?thesis
  proof (cases pick)
    case (Work j)
    obtain r2 h2 where i: "seal_install (se_compact env) (se_gone env) vs j (build_segment (se_build env) vs j) h1 = (r2, h2)"
      by fastforce
    have h': "h' = h2" using assms(3) st Work i by (simp add: process_one_seal_def)
    have j: "j_plain j \<in> set (searchable_segments h1)" "j_offsets j = offsets_at h1 (j_plain j)"
      using s Work by (auto simp: set_searchable)
    then have "set (j_offsets j) \<subseteq> listed h1" "j_plain j < length (sh_store h1)"
      using s by (auto simp: listed_lists holder_inv_def holder_ok_def holder_wf_def)
    with seal_install_ok [OF _ _ j(2) _ refl i] s assms(2) h' show ?thesis by (auto simp: sup_absorb1)
  qed (use s st assms(3) in \<open>simp_all add: process_one_seal_def\<close>)
qed

lemma merge_group_prefix: "\<exists>k. merge_group h cap as tot acc = acc @ take k as"
proof (induction as arbitrary: tot acc)
  case (Cons a as)
  show ?case
  proof (cases "0 < tot \<and> cap < saturating_add tot (length (offsets_at h a))")
    case True
    then have "merge_group h cap (a # as) tot acc = acc @ take 0 (a # as)" by simp
    then show ?thesis by blast
  next
    case False
    then obtain k where "merge_group h cap (a # as) tot acc = acc @ take (Suc k) (a # as)"
      using Cons [of "tot + length (offsets_at h a)" "acc @ [a]"] by auto
    then show ?thesis by blast
  qed
qed simp

lemma merge_candidates_props:
  assumes "sealed_hot_merge_candidates n m h = Some cands"
  shows "set cands \<subseteq> set (sh_sealed h)" "n \<le> length (List.filter (\<lambda>a. a \<in> set cands) (sh_sealed h))"
proof -
  let ?s = "sort_key (\<lambda>a. length (offsets_at h a)) (sh_sealed h)"
  have "cands = merge_group h (max (saturating_mul m 2) m) ?s 0 []" and n: "n \<le> length cands"
    using assms by (auto simp: sealed_hot_merge_candidates_def Let_def split: if_splits)
  then obtain k where c: "cands = take k ?s" using merge_group_prefix by (metis append_Nil)
  show "set cands \<subseteq> set (sh_sealed h)" using c set_take_subset [of k ?s] by simp
  have "cands = List.filter (\<lambda>a. a \<in> set cands) cands" by (simp add: filter_id_conv)
  then have "length cands \<le> length (List.filter (\<lambda>a. a \<in> set cands) (cands @ drop k ?s))"
    by (metis filter_append le_add1 length_append)
  also have "cands @ drop k ?s = ?s" by (simp add: c)
  also have "length (List.filter (\<lambda>a. a \<in> set cands) ?s) = length (List.filter (\<lambda>a. a \<in> set cands) (sh_sealed h))"
    by (metis mset_filter mset_sort size_mset)
  finally show "n \<le> length (List.filter (\<lambda>a. a \<in> set cands) (sh_sealed h))" using n by simp
qed

lemma remove_sealed_covers:
  assumes "holder_wf h"
  shows "holder_wf (snd (remove_sealed_hot_segments R h)) \<and>
    listed h \<subseteq> listed (snd (remove_sealed_hot_segments R h)) \<union> set (refs_offsets h R) \<and>
    store_grows h (snd (remove_sealed_hot_segments R h))"
proof -
  have "set (searchable_segments h) - set R \<subseteq> set (searchable_segments (snd (remove_sealed_hot_segments R h)))"
    "set (searchable_segments (snd (remove_sealed_hot_segments R h))) \<subseteq> set (searchable_segments h)"
    by (auto simp: set_searchable remove_sealed_hot_segments_def)
  then show ?thesis using drop_covers [OF assms, of "snd (remove_sealed_hot_segments R h)" R]
    by (simp add: remove_sealed_hot_segments_def store_grows_def)
qed

lemma inv_next_id [simp]:
  "holder_inv (h\<lparr>sh_next_id := i\<rparr>) = holder_inv h" "listed (h\<lparr>sh_next_id := i\<rparr>) = listed h"
  "holder_wf (h\<lparr>sh_next_id := i\<rparr>) = holder_wf h" "refs_offsets (h\<lparr>sh_next_id := i\<rparr>) = refs_offsets h"
  by (simp_all add: holder_inv_def holder_ok_def holder_wf_def hot_plain_def listed_def refs_offsets_def hot_mirror_def
      the_hot_def searchable_segments_def fun_eq_iff)

lemma remove_sealed_listed: "listed (snd (remove_sealed_hot_segments R h)) \<subseteq> listed h"
  by (auto simp: listed_lists set_searchable remove_sealed_hot_segments_def)

lemma read_vectors_unmapped: "\<not> vs_mapped vs \<Longrightarrow> read_vectors_for_offsets offs vs = []"
  by (auto simp: read_vectors_for_offsets_def vs_get_def Let_def List.map_filter_def filter_empty_conv)

text \<open>The ways a merge can end.\<close>

lemma process_one_merge_cases:
  assumes "process_one_merge env vs b pend h = (r, b', pend', h')"
  obtains (same) i where "h' = h\<lparr>sh_next_id := i\<rparr>" "r \<noteq> Inr True"
  | (empty) cands where "sealed_hot_merge_candidates (merge_threshold_segments (sh_config h)) (merge_max_records (sh_config h)) h = Some cands"
      "r = Inr True" "refs_offsets h cands = []" "h' = publish_snapshot (snd (remove_sealed_hot_segments cands h))"
  | (merged) cands i s p where "sealed_hot_merge_candidates (merge_threshold_segments (sh_config h)) (merge_max_records (sh_config h)) h = Some cands"
      "r = Inr True" "sealed_from_vectors (me_build env) p (read_vectors_for_offsets (union_loop (refs_offsets h cands) []) vs) = Inr s"
      "h' = add_sealed_hot s (snd (remove_sealed_hot_segments cands (h\<lparr>sh_next_id := i\<rparr>)))"
proof (cases "sealed_hot_merge_candidates (merge_threshold_segments (sh_config h)) (merge_max_records (sh_config h)) h")
  case None
  then show thesis using assms same [of "sh_next_id h"] by (auto simp: process_one_merge_def Let_def)
next
  case (Some cands)
  let ?offs = "union_loop (refs_offsets h cands) []"
  let ?vecs = "read_vectors_for_offsets ?offs vs"
  obtain got b1 where acq: "try_acquire (me_cas env) (length ?vecs) (cfg_dimension (sh_config h)) (cfg_max_edges (sh_config h)) b = (got, b1)"
    by fastforce
  show thesis
  proof (cases "?offs = []")
    case True
    then have "refs_offsets h cands = []" using set_union_loop [of "refs_offsets h cands" "[]"] by simp
    then show thesis using assms Some True by (intro empty) (auto simp: process_one_merge_def Let_def)
  next
    case ne: False
    show thesis
    proof (cases "?vecs = [] \<or> \<not> got")
      case True
      then show thesis using assms Some ne acq same [of "sh_next_id h"]
        by (auto simp: process_one_merge_def Let_def split: if_splits)
    next
      case False
      obtain p h1 where p: "segment_path SEALED_HOT_DIR h = (p, h1)" "h1 = h\<lparr>sh_next_id := sh_next_id h + 1\<rparr>"
        by (simp add: segment_path_def)
      show thesis
      proof (cases "sealed_from_vectors (me_build env) p ?vecs")
        case (Inl e)
        then show thesis using assms Some ne False acq p same [of "sh_next_id h + 1"]
          by (auto simp: process_one_merge_def Let_def)
      next
        case (Inr s)
        then show thesis using assms Some ne False acq p merged [OF Some _ Inr, of "sh_next_id h + 1"]
          by (auto simp: process_one_merge_def Let_def)
      qed
    qed
  qed
qed

lemma process_one_merge_ok:
  assumes "holder_inv h" "all_stored vs (listed h) \<or> \<not> vs_mapped vs" "process_one_merge env vs b pend h = (r, b', pend', h')"
  shows "holder_inv h' \<and> listed h' = listed h"
  using assms(3)
proof (cases rule: process_one_merge_cases)
  case (same i)
  then show ?thesis using assms(1) by simp
next
  case (empty cands)
  have wf: "holder_wf h" using assms(1) by (simp add: holder_inv_def holder_ok_def)
  note rm = remove_sealed_covers [OF wf, of cands]
  then have "holder_ok h'" "listed h' = listed h" "store_grows h h'"
    using empty remove_sealed_listed publish_ok [of "snd (remove_sealed_hot_segments cands h)"]
      store_grows_trans [OF _ publish_grow, of h "snd (remove_sealed_hot_segments cands h)"] by auto
  then show ?thesis using store_grows_inv [OF assms(1)] by blast
next
  case (merged cands i s p)
  let ?h1 = "h\<lparr>sh_next_id := i\<rparr>"
  have wf: "holder_wf ?h1" using assms(1) by (simp add: holder_inv_def holder_ok_def)
  have sub: "set (refs_offsets h cands) \<subseteq> listed h"
    using merge_candidates_props(1) [OF merged(1)] refs_listed [of cands h] by (auto simp: set_searchable)
  have "all_stored vs (listed h)" using assms(2) merged(3) by (auto simp: read_vectors_unmapped sealed_from_vectors_def)
  then have "all_stored vs (set (union_loop (refs_offsets h cands) []))"
    using all_stored_mono sub by (simp add: set_union_loop)
  then have s: "set (seg_offsets s) = set (refs_offsets h cands)"
    using from_vectors_offsets(1) [OF merged(3)] read_vectors_offsets by (simp add: set_union_loop)
  note rm = remove_sealed_covers [OF wf, of cands]
  have h': "holder_ok h'" "listed h' = set (seg_offsets s) \<union> listed (snd (remove_sealed_hot_segments cands ?h1))"
      "store_grows (snd (remove_sealed_hot_segments cands ?h1)) h'"
    using rm add_covers(1) [of "snd (remove_sealed_hot_segments cands ?h1)" s] merged(4) by simp_all
  have "store_grows ?h1 h'" by (rule store_grows_trans [OF _ h'(3)]) (use rm in blast)
  then have "store_grows h h'" by (rule store_grows_trans [rotated]) simp
  moreover have "listed h' = listed h" using rm s sub h'(2) remove_sealed_listed [of cands ?h1] by auto
  ultimately show ?thesis using store_grows_inv [OF assms(1) h'(1)] by blast
qed

section \<open>Draining the queues\<close>

lemma sh_sealing_simps [simp]:
  "sh_sealing (publish_snapshot h) = sh_sealing h" "sh_sealing (add_sealed_hot s h) = sh_sealing h"
  "sh_sealing (add_warm s h) = sh_sealing h" "sh_sealing (compact_install t c h) = sh_sealing h"
  "sh_sealing (snd (segment_path d h)) = sh_sealing h" "sh_sealing (discard_segment_dir gone q h) = sh_sealing h"
  by (simp_all add: publish_snapshot_def add_sealed_hot_def list_sealed_hot_def add_warm_def list_warm_def list_cold_def
      seg_alloc_def segment_path_def discard_segment_dir_def compact_install_def Let_def split: option.splits)

lemma compact_build_sealing: "compact_build out vs h = (r, h') \<Longrightarrow> sh_sealing h' = sh_sealing h"
  by (auto simp: compact_build_def segment_path_def Let_def split: if_splits sum.splits)

lemma compact_warm_sealing: "sh_sealing (snd (compact_warm out gone vs h)) = sh_sealing h"
proof -
  obtain q h1 where q: "compact_build out vs h = (q, h1)" by fastforce
  have f: "sh_sealing (fold (discard_segment_dir gone) ps g) = sh_sealing g" for ps g by (induction ps arbitrary: g) simp_all
  show ?thesis using q compact_build_sealing [OF q] f by (auto simp: compact_warm_def split: sum.splits option.splits)
qed

lemma seal_install_sealing:
  "seal_install out gone vs j built h = (Inr True, h') \<Longrightarrow> sh_sealing h' = List.filter (\<lambda>p. p \<noteq> j_plain j) (sh_sealing h)"
  by (cases built) (auto simp: seal_install_def compact_warm_sealing remove_sealing_plain_def Let_def split: if_splits)

lemma process_one_seal_progress:
  assumes "process_one_seal env vs b h = (Inr True, b', h')"
  shows "length (sh_sealing h') < length (sh_sealing h)"
proof (cases "sh_sealing h = []")
  case True
  then show ?thesis using assms by (simp add: process_one_seal_def seal_start_def pop_sealing_plain_def)
next
  case False
  then have "length (sh_sealing h) = Suc (length (butlast (sh_sealing h)))" by simp
  moreover obtain pick b1 h1 where st: "seal_start (se_cas env) b h = (pick, b1, h1)" by (metis surj_pair)
  moreover have "length (sh_sealing h1) \<le> length (butlast (sh_sealing h)) \<and> pick \<noteq> NoWork"
    using st False by (auto simp: seal_start_def pop_sealing_plain_def segment_path_def remove_sealing_plain_def Let_def
        simp del: length_butlast split: if_splits prod.splits)
  moreover have "length (sh_sealing h') \<le> length (sh_sealing h1)"
    using assms st by (auto simp: process_one_seal_def split: seal_pick.splits prod.splits dest!: seal_install_sealing)
  ultimately show ?thesis by simp
qed

function process_seals :: "(nat \<Rightarrow> seal_env) \<Rightarrow> nat \<Rightarrow> vstore \<Rightarrow> budget \<Rightarrow> holder \<Rightarrow> storage_error option \<times> budget \<times> holder" where
  "process_seals envs i vs b h =
     (case process_one_seal (envs i) vs b h of
        (Inl e, b1, h1) \<Rightarrow> (Some e, b1, h1)
      | (Inr again, b1, h1) \<Rightarrow> if again then process_seals envs (Suc i) vs b1 h1 else (None, b1, h1))"
  by pat_completeness auto
termination
  by (relation "measure (\<lambda>(envs, i, vs, b, h). length (sh_sealing h))") (auto dest!: sym [of "(_, _)" "process_one_seal _ _ _ _"] process_one_seal_progress)

lemma sh_sealed_simps [simp]:
  "sh_sealed (publish_snapshot h) = sh_sealed h" "sh_sealed (add_sealed_hot s h) = sh_sealed h @ [length (sh_store h)]"
  by (simp_all add: publish_snapshot_def add_sealed_hot_def list_sealed_hot_def seg_alloc_def)

lemma process_one_merge_progress:
  assumes "process_one_merge env vs b pend h = (Inr True, b', pend', h')"
  shows "length (sh_sealed h') < length (sh_sealed h)"
proof -
  have two: "2 \<le> merge_threshold_segments (sh_config h)" by (simp add: merge_threshold_segments_def)
  have rm: "length (List.filter (\<lambda>a. a \<notin> set c) (sh_sealed h)) + 2 \<le> length (sh_sealed h)"
    if "sealed_hot_merge_candidates (merge_threshold_segments (sh_config h)) m h = Some c" for m c
    using merge_candidates_props(2) [OF that] two sum_length_filter_compl [of "\<lambda>a. a \<in> set c" "sh_sealed h"] by linarith
  show ?thesis
    using assms
  proof (cases rule: process_one_merge_cases)
    case (empty cands)
    then show ?thesis using rm [OF empty(1)] by (simp add: remove_sealed_hot_segments_def)
  next
    case (merged cands i s p)
    then show ?thesis using rm [OF merged(1)] by (simp add: remove_sealed_hot_segments_def)
  qed simp
qed

function process_merges :: "(nat \<Rightarrow> merge_env) \<Rightarrow> nat \<Rightarrow> vstore \<Rightarrow> budget \<Rightarrow> string list \<Rightarrow> holder \<Rightarrow> budget \<times> string list \<times> holder" where
  "process_merges envs i vs b pend h =
     (case process_one_merge (envs i) vs b pend h of
        (Inl e, b1, p1, h1) \<Rightarrow> (b1, p1, h1)
      | (Inr again, b1, p1, h1) \<Rightarrow> if again then process_merges envs (Suc i) vs b1 p1 h1 else (b1, p1, h1))"
  by pat_completeness auto
termination
  by (relation "measure (\<lambda>(envs, i, vs, b, p, h). length (sh_sealed h))") (auto dest!: sym [of "(_, _)" "process_one_merge _ _ _ _ _"] process_one_merge_progress)

declare process_seals.simps [simp del] process_merges.simps [simp del]

text \<open>\<open>drain\<close>, once no background build is running.\<close>

definition opt_drain :: "(nat \<Rightarrow> seal_env) \<Rightarrow> (nat \<Rightarrow> merge_env) \<Rightarrow> (string \<Rightarrow> bool) \<Rightarrow> vstore \<Rightarrow> budget \<Rightarrow> string list \<Rightarrow> holder
    \<Rightarrow> budget \<times> string list \<times> holder" where
  "opt_drain senvs menvs removed vs b pend h =
     (case process_seals senvs 0 vs b h of (_, b1, h1) \<Rightarrow>
        (case process_merges menvs 0 vs b1 pend h1 of (b2, p2, h2) \<Rightarrow> (b2, try_cleanup_pending removed p2, h2)))"

section \<open>Operations one after the other\<close>

text \<open>The states the holder goes through when every operation runs to its end before the next one
  starts, with the offsets whose insertion succeeded. Vectors are written before an offset is
  inserted and never disappear, so every job finds the vectors of the listed offsets.\<close>

inductive hreach :: "point_offset set \<Rightarrow> holder \<Rightarrow> bool" where
  hr_new: "hreach {} (holder_new c ls)"
| hr_insert: "hreach S h \<Longrightarrow> holder_insert off r h = (Inr full, h') \<Longrightarrow> hreach (insert off S) h'"
| hr_reject: "hreach S h \<Longrightarrow> holder_insert off r h = (Inl e, h') \<Longrightarrow> hreach S h'"
| hr_seal: "hreach S h \<Longrightarrow> hreach S (seal_hot h)"
| hr_job: "hreach S h \<Longrightarrow> all_stored vs (listed h) \<Longrightarrow> process_one_seal env vs b h = (r, b', h') \<Longrightarrow> hreach S h'"
| hr_merge: "hreach S h \<Longrightarrow> all_stored vs (listed h) \<Longrightarrow> process_one_merge menv vs b p h = (r, b', p', h') \<Longrightarrow> hreach S h'"
| hr_compact: "hreach S h \<Longrightarrow> all_stored vs (listed h) \<Longrightarrow> compact_warm out gone vs h = (q, h') \<Longrightarrow> hreach S h'"
| hr_consolidate: "hreach S h \<Longrightarrow> all_stored vs (listed h) \<Longrightarrow>
    holder_consolidate out gone powf now vs ms h = (u, ms', h') \<Longrightarrow> hreach S h'"

lemma hreach_inv: "hreach S h \<Longrightarrow> holder_inv h \<and> S \<subseteq> listed h"
proof (induction rule: hreach.induct)
  case (hr_new c ls)
  then show ?case by (simp add: holder_new_inv)
next
  case (hr_insert S h off r full h')
  then show ?case using holder_insert_ok [of h off r] by (auto simp: holder_inv_def)
next
  case (hr_reject S h off r e h')
  then show ?case using holder_insert_ok [of h off r] by (auto simp: holder_inv_def)
next
  case (hr_seal S h)
  then show ?case using seal_hot_ok [of h] by (auto simp: holder_inv_def)
next
  case (hr_job S h vs env b r b' h')
  then show ?case using process_one_seal_ok [of h] by blast
next
  case (hr_merge S h vs menv b p r b' p' h')
  then show ?case using process_one_merge_ok [of h] by blast
next
  case (hr_compact S h vs out gone q h')
  then show ?case using compact_warm_ok [of h vs out gone q h'] store_grows_inv [of h h'] by (auto simp: holder_inv_def)
next
  case (hr_consolidate S h vs out gone powf now ms u ms' h')
  then show ?case using holder_consolidate_ok [of h] by blast
qed

section \<open>Operations of several threads\<close>

text \<open>What a thread is in the middle of: the contents it took out of the Hot segment, a segment it
  removed from a list and is about to list again or to replace, a job it is building, a snapshot
  it has to build, and one it built and has to store.\<close>

datatype flight =
    Swapped hot_segment
  | Building job
  | Unlisted bool segment
  | PutBack seg_ref
  | Merging "seg_ref list" "point_offset list"
  | Compacting "seg_ref list" "segment option"
  | NeedPublish
  | Publishing "seg_ref list"

text \<open>One critical section of one thread. The build of a segment runs outside the locks, on a
  vector store that holds the vectors of all offsets that were inserted.\<close>

inductive cstep :: "point_offset set \<times> holder \<times> flight list \<Rightarrow> point_offset set \<times> holder \<times> flight list \<Rightarrow> bool" where
  c_insert: "holder_insert off r h = (Inr full, h') \<Longrightarrow> cstep (S, h, F) (insert off S, h', F)"
| c_swap: "seal_swap h = (Some s, h') \<Longrightarrow> cstep (S, h, F) (S, h', Swapped s # F)"
| c_push: "cstep (S, h, F @ Swapped s # G) (S, list_sealing s h, NeedPublish # F @ G)"
| c_snapshot: "cstep (S, h, F @ NeedPublish # G) (S, h, Publishing (searchable_segments h) # F @ G)"
| c_store: "cstep (S, h, F @ Publishing sn # G) (S, h\<lparr>sh_snapshot := sn\<rparr>, F @ G)"
| c_start: "seal_start cas b h = (Work j, b', h') \<Longrightarrow> cstep (S, h, F) (S, h', Building j # F)"
| c_built: "build_segment out vs j = Inr s \<Longrightarrow> all_stored vs (set (j_offsets j)) \<Longrightarrow>
    cstep (S, h, F @ Building j # G) (S, remove_sealing_plain (j_plain j) h, Unlisted (j_use_hnsw j) s # F @ G)"
| c_failed: "cstep (S, h, F @ Building j # G) (S, remove_sealing_plain (j_plain j) h, PutBack (j_plain j) # F @ G)"
| c_putback: "cstep (S, h, F @ PutBack p # G)
    (S, h\<lparr>sh_building := List.filter (\<lambda>x. x \<noteq> p) (sh_building h), sh_sealing := sh_sealing h @ [p]\<rparr>, NeedPublish # F @ G)"
| c_list: "cstep (S, h, F @ Unlisted hnsw s # G) (S, (if hnsw then list_sealed_hot s h else list_warm s h), NeedPublish # F @ G)"
| c_merge: "sealed_hot_merge_candidates n m h = Some cands \<Longrightarrow>
    cstep (S, h, F) (S, h, Merging cands (union_loop (refs_offsets h cands) []) # F)"
| c_merged: "sealed_from_vectors out p (read_vectors_for_offsets offs vs) = Inr s \<Longrightarrow> all_stored vs (set offs) \<Longrightarrow>
    cstep (S, h, F @ Merging cands offs # G) (S, snd (remove_sealed_hot_segments cands h), Unlisted True s # F @ G)"
| c_compact: "compact_build out vs h = (Inr (Some (targets, cold)), h') \<Longrightarrow> all_stored vs (set (refs_offsets h (sh_warm h))) \<Longrightarrow>
    cstep (S, h, F) (S, h', Compacting targets cold # F)"
| c_compacted: "cstep (S, h, F @ Compacting targets cold # G) (S, compact_install targets cold h, NeedPublish # F @ G)"

text \<open>What a flight still owes to the lists.\<close>

fun owed :: "holder \<Rightarrow> flight \<Rightarrow> point_offset set" where
  "owed h (Swapped s) = set (hs_offsets s)"
| "owed h (Unlisted hnsw s) = set (seg_offsets s)"
| "owed h (PutBack p) = set (offsets_at h p)"
| "owed h _ = {}"

text \<open>What a flight relies on: its references are allocated and stay as they were.\<close>

fun flight_ok :: "holder \<Rightarrow> flight \<Rightarrow> bool" where
  "flight_ok h (Building j) \<longleftrightarrow> j_plain j < length (sh_store h) \<and> j_plain j \<noteq> hot_ref \<and> j_offsets j = offsets_at h (j_plain j)"
| "flight_ok h (PutBack p) \<longleftrightarrow> p < length (sh_store h) \<and> p \<noteq> hot_ref"
| "flight_ok h (Merging cands offs) \<longleftrightarrow>
     (\<forall>a \<in> set cands. a < length (sh_store h) \<and> a \<noteq> hot_ref) \<and> set (refs_offsets h cands) \<subseteq> set offs"
| "flight_ok h (Compacting targets cold) \<longleftrightarrow>
     (\<forall>a \<in> set targets. a < length (sh_store h) \<and> a \<noteq> hot_ref) \<and> set (refs_offsets h targets) \<subseteq> opt_offsets cold"
| "flight_ok h _ \<longleftrightarrow> True"

text \<open>The Hot segment is in no list.\<close>

definition hot_unlisted :: "holder \<Rightarrow> bool" where
  "hot_unlisted h \<longleftrightarrow> hot_ref \<notin> set (sh_sealing h) \<union> set (sh_building h) \<union> set (sh_sealed h) \<union> set (sh_warm h) \<union> set (sh_cold h)"

definition conc_inv :: "point_offset set \<times> holder \<times> flight list \<Rightarrow> bool" where
  "conc_inv = (\<lambda>(S, h, F). holder_wf h \<and> hot_mirror h \<and> hot_unlisted h \<and> (\<forall>f \<in> set F. flight_ok h f) \<and>
     S \<subseteq> listed h \<union> (\<Union>f \<in> set F. owed h f))"

definition same_refs :: "holder \<Rightarrow> holder \<Rightarrow> bool" where
  "same_refs h h' \<longleftrightarrow> (\<forall>a. a < length (sh_store h) \<and> a \<noteq> hot_ref \<longrightarrow> a < length (sh_store h') \<and> seg_at h' a = seg_at h a)"

lemma same_refs_grow: "store_grows h h' \<Longrightarrow> same_refs h h'"
  by (simp add: same_refs_def store_growsD)

lemma same_refs_hot: "hot_plain h \<Longrightarrow> same_refs h (set_hot s h)"
  by (simp add: same_refs_def set_hot_at)

lemma refs_offsets_same:
  "same_refs h h' \<Longrightarrow> \<forall>a \<in> set as. a < length (sh_store h) \<and> a \<noteq> hot_ref \<Longrightarrow> refs_offsets h' as = refs_offsets h as"
  unfolding refs_offsets_def same_refs_def by (metis map_cong)

lemma same_refsD: "same_refs h h' \<Longrightarrow> a < length (sh_store h) \<Longrightarrow> a \<noteq> hot_ref \<Longrightarrow> a < length (sh_store h') \<and> seg_at h' a = seg_at h a"
  by (simp add: same_refs_def)

lemma refs_same:
  assumes "same_refs h h'" "\<forall>a \<in> set as. a < length (sh_store h) \<and> a \<noteq> hot_ref"
  shows "(\<forall>a \<in> set as. a < length (sh_store h') \<and> a \<noteq> hot_ref) \<and> refs_offsets h' as = refs_offsets h as"
proof
  show "\<forall>a \<in> set as. a < length (sh_store h') \<and> a \<noteq> hot_ref" using assms same_refsD [OF assms(1)] by blast
  show "refs_offsets h' as = refs_offsets h as" by (rule refs_offsets_same [OF assms])
qed

lemma flight_same:
  assumes "same_refs h h'" "flight_ok h f"
  shows "flight_ok h' f \<and> owed h' f = owed h f"
proof (cases f)
  case (Building j)
  then show ?thesis using same_refsD [OF assms(1), of "j_plain j"] assms(2) by simp
next
  case (PutBack p)
  then show ?thesis using same_refsD [OF assms(1), of p] assms(2) by simp
next
  case (Merging as offs)
  then have a: "\<forall>a \<in> set as. a < length (sh_store h) \<and> a \<noteq> hot_ref" using assms(2) by simp
  show ?thesis using refs_same [OF assms(1) a] assms(2) Merging by simp
next
  case (Compacting as c)
  then have a: "\<forall>a \<in> set as. a < length (sh_store h) \<and> a \<noteq> hot_ref" using assms(2) by simp
  show ?thesis using refs_same [OF assms(1) a] assms(2) Compacting by simp
qed simp_all

lemma conc_keep:
  assumes "conc_inv (S, h, E)" "same_refs h h'" "holder_wf h'" "hot_mirror h'" "hot_unlisted h'"
    and "set E = set R \<union> set K" "set E' = set N \<union> set K" "\<forall>f \<in> set N. flight_ok h' f" "S' \<subseteq> S \<union> X"
    and "listed h \<union> (\<Union>f \<in> set R. owed h f) \<union> X \<subseteq> listed h' \<union> (\<Union>f \<in> set N. owed h' f)"
  shows "conc_inv (S', h', E')"
proof -
  have ok: "\<forall>f \<in> set K. flight_ok h f" and S: "S \<subseteq> listed h \<union> (\<Union>f \<in> set R. owed h f) \<union> (\<Union>f \<in> set K. owed h f)"
    using assms(1,6) by (auto simp: conc_inv_def)
  have K: "\<forall>f \<in> set K. flight_ok h' f \<and> owed h' f = owed h f" using ok flight_same [OF assms(2)] by blast
  define A where "A = (\<Union>f \<in> set K. owed h f)"
  define B where "B = (\<Union>f \<in> set N. owed h' f)"
  define C where "C = (\<Union>f \<in> set R. owed h f)"
  have "(\<Union>f \<in> set K. owed h' f) = A" unfolding A_def using K by (intro SUP_cong) auto
  then have "(\<Union>f \<in> set N \<union> set K. owed h' f) = B \<union> A" by (simp add: UN_Un B_def)
  moreover have "S' \<subseteq> listed h' \<union> B \<union> A"
    using S assms(9,10) unfolding A_def [symmetric] B_def [symmetric] C_def [symmetric] by blast
  ultimately have "S' \<subseteq> listed h' \<union> (\<Union>f \<in> set N \<union> set K. owed h' f)" by (simp add: Un_assoc)
  then show ?thesis using assms(3-5,7,8) K by (auto simp: conc_inv_def)
qed

lemma grow_mirror: "store_grows h h' \<Longrightarrow> holder_wf h \<Longrightarrow> hot_mirror h \<Longrightarrow> hot_mirror h'"
  using hot_mirror_grow by (auto simp: holder_wf_def)

lemma conc_grow:
  assumes "conc_inv (S, h, E)" "store_grows h h'" "holder_wf h'" "hot_unlisted h'" "set E = set R \<union> set K" "set E' = set N \<union> set K"
    and "\<forall>f \<in> set N. flight_ok h' f"
    and "listed h \<union> (\<Union>f \<in> set R. owed h f) \<subseteq> listed h' \<union> (\<Union>f \<in> set N. owed h' f)"
  shows "conc_inv (S, h', E')"
  using conc_keep [OF assms(1) same_refs_grow [OF assms(2)] assms(3) _ assms(4-7), of S "{}"] assms(1,8)
    grow_mirror [OF assms(2)] by (simp add: conc_inv_def)

lemma list_hot_unlisted:
  assumes "hot_plain h" "hot_unlisted h"
  shows "hot_unlisted (list_sealing p h)" "hot_unlisted (list_sealed_hot s h)" "hot_unlisted (list_warm s h)" "hot_unlisted (list_cold s h)"
  using assms hot_in_store [OF assms(1)]
  by (auto simp: hot_unlisted_def list_sealing_def list_sealed_hot_def list_warm_def list_cold_def seg_alloc_def)

lemma hot_unlisted_lists:
  "hot_unlisted h \<Longrightarrow> hot_unlisted (remove_sealing_plain p h)"
  "hot_unlisted h \<Longrightarrow> hot_unlisted (snd (remove_sealed_hot_segments as h))"
  "hot_unlisted h \<Longrightarrow> hot_plain h \<Longrightarrow> hot_unlisted (compact_install ts c h)"
  "hot_unlisted h \<Longrightarrow> hot_unlisted (set_hot s h)"
  using list_hot_unlisted(4) [of h]
  by (auto simp: hot_unlisted_def remove_sealing_plain_def remove_sealed_hot_segments_def compact_install_def set_hot_def
      Let_def split: option.splits)

lemma seal_start_unlisted:
  assumes "hot_unlisted h" "hot_plain h" "seal_start cas b h = (Work j, b', h')"
  shows "hot_unlisted h' \<and> store_grows h h' \<and> set (searchable_segments h') = set (searchable_segments h) \<and>
    j_plain j \<in> set (sh_sealing h) \<and> j_offsets j = offsets_at h' (j_plain j)"
proof -
  let ?p = "last (sh_sealing h)"
  have ne: "sh_sealing h \<noteq> []" using assms(3) by (auto simp: seal_start_def pop_sealing_plain_def)
  obtain i where h': "h' = h\<lparr>sh_sealing := butlast (sh_sealing h), sh_building := sh_building h @ [?p], sh_next_id := i\<rparr>"
    and j: "j_plain j = ?p" "j_offsets j = offsets_at h ?p"
    using assms(3) ne by (auto simp: seal_start_def pop_sealing_plain_def segment_path_def Let_def split: prod.splits if_splits)
  have "set (sh_sealing h) = insert ?p (set (butlast (sh_sealing h)))"
    using ne by (metis append_butlast_last_id list.set(1,2) list.simps(15) rotate1.simps(2) set_rotate1)
  then show ?thesis using assms(1) j by (auto simp: h' hot_unlisted_def store_grows_def set_searchable)
qed

lemma snap_fields:
  "holder_wf (h\<lparr>sh_snapshot := sn\<rparr>) = holder_wf h" "listed (h\<lparr>sh_snapshot := sn\<rparr>) = listed h"
  "hot_unlisted (h\<lparr>sh_snapshot := sn\<rparr>) = hot_unlisted h"
  by (simp_all add: holder_wf_def hot_plain_def searchable_segments_def listed_def refs_offsets_def hot_unlisted_def)

lemma cstep_inv: "cstep x y \<Longrightarrow> conc_inv x \<Longrightarrow> conc_inv y"
proof (induction rule: cstep.induct)
  case (c_insert off r h full h' S F)
  then have i: "holder_wf h" "hot_plain h" "hot_mirror h" "hot_unlisted h" by (simp_all add: conc_inv_def holder_wf_def)
  obtain s where s: "h' = set_hot s h" "hot_insert off r (the_hot h) = (Inr (), s)"
    using c_insert.hyps by (cases "hot_insert off r (the_hot h)"; cases "fst (hot_insert off r (the_hot h))") (auto simp: holder_insert_def)
  have l: "listed h' = set (hs_offsets s) \<union> listed_rest h" "listed h = set (hs_offsets (the_hot h)) \<union> listed_rest h"
    using listed_set_hot [OF i(1), of s] listed_split [OF i(1)] s(1) by simp_all
  have m: "hot_mirror h' \<and> insert off (set (hs_offsets (the_hot h))) \<subseteq> set (hs_offsets s)"
    using s(2)
  proof (cases rule: hot_insert_form)
    case old
    then show ?thesis using i s(1) by (auto simp: hot_mirror_def set_hot_at)
  next
    case new
    then show ?thesis using i s(1) by (auto simp: hot_mirror_def set_hot_at)
  qed simp
  show ?case
    by (rule conc_keep [OF c_insert.prems, of h' "[]" F F "[]" _ "{off}"])
      (use i s l m in \<open>auto simp: same_refs_hot set_hot_wf hot_unlisted_lists\<close>)
next
  case (c_swap h s h' S F)
  then have i: "holder_wf h" "hot_plain h" "hot_mirror h" "hot_unlisted h" by (simp_all add: conc_inv_def holder_wf_def)
  note f = seal_swap_form [OF i(1,3) c_swap.hyps]
  have h': "h' = set_hot (hot_new (cfg_dimension (sh_config h))) h" using c_swap.hyps by (auto simp: seal_swap_def split: if_splits)
  show ?case
    by (rule conc_keep [OF c_swap.prems, of h' "[]" F "Swapped s # F" "[Swapped s]" _ "{}"])
      (use i f h' in \<open>auto simp: same_refs_hot hot_unlisted_lists\<close>)
next
  case (c_push S h F s G)
  then have i: "holder_wf h" "hot_plain h" "hot_unlisted h" by (simp_all add: conc_inv_def holder_wf_def)
  show ?case
    by (rule conc_grow [OF c_push.prems list_grow(1), of s "[Swapped s]" "F @ G" _ "[NeedPublish]"])
      (use i list_adds(1) [OF i(1), of s] in \<open>auto simp: list_hot_unlisted\<close>)
next
  case (c_snapshot S h F G)
  then show ?case by (auto simp: conc_inv_def)
next
  case (c_store S h F sn G)
  then have i: "holder_wf h" "hot_unlisted h" by (simp_all add: conc_inv_def)
  show ?case
    by (rule conc_grow [OF c_store.prems, of _ "[Publishing sn]" "F @ G" _ "[]"]) (use i in \<open>auto simp: snap_fields\<close>)
next
  case (c_start cas b h j b' h' S F)
  then have i: "holder_wf h" "hot_plain h" "hot_unlisted h" by (simp_all add: conc_inv_def holder_wf_def)
  note s = seal_start_unlisted [OF i(3,2) c_start.hyps]
  have jp: "j_plain j \<in> set (searchable_segments h)" "j_plain j \<noteq> hot_ref"
    using s i(3) by (auto simp: set_searchable hot_unlisted_def)
  then have len: "j_plain j < length (sh_store h')" using s i(1) store_growsD [of h h'] by (auto simp: holder_wf_def)
  have eq: "holder_wf h' \<and> listed h' = listed h"
  proof -
    have "\<forall>a \<in> set (searchable_segments h). a < length (sh_store h') \<and> seg_at h' a = seg_at h a"
      using i(1) s store_growsD by (auto simp: holder_wf_def)
    then show ?thesis using s i store_grows_plain [of h h'] by (auto simp: holder_wf_def listed_lists)
  qed
  show ?case
    by (rule conc_grow [OF c_start.prems, of h' "[]" F _ "[Building j]"]) (use s eq len jp in auto)
next
  case (c_built out vs j s S h F G)
  then have i: "holder_wf h" "hot_unlisted h" "j_offsets j = offsets_at h (j_plain j)" by (auto simp: conc_inv_def)
  have "set (seg_offsets s) = set (j_offsets j)" using build_segment_offsets c_built.hyps by blast
  then show ?case
    by (intro conc_grow [OF c_built.prems, of _ "[Building j]" "F @ G" _ "[Unlisted (j_use_hnsw j) s]"])
      (use i remove_sealing_covers [OF i(1), of "j_plain j"] in \<open>auto simp: hot_unlisted_lists\<close>)
next
  case (c_failed S h F j G)
  then have i: "holder_wf h" "hot_unlisted h" "j_plain j < length (sh_store h)" "j_plain j \<noteq> hot_ref" by (auto simp: conc_inv_def)
  note r = remove_sealing_covers [OF i(1), of "j_plain j"]
  have "seg_at (remove_sealing_plain (j_plain j) h) (j_plain j) = seg_at h (j_plain j)" by (simp add: remove_sealing_plain_def)
  then show ?case
    by (intro conc_grow [OF c_failed.prems, of _ "[Building j]" "F @ G" _ "[PutBack (j_plain j)]"])
      (use i r store_growsD in \<open>auto simp: hot_unlisted_lists\<close>)
next
  case (c_putback S h F p G)
  then have i: "holder_wf h" "hot_unlisted h" "p < length (sh_store h)" "p \<noteq> hot_ref" by (auto simp: conc_inv_def)
  let ?h = "h\<lparr>sh_building := List.filter (\<lambda>x. x \<noteq> p) (sh_building h), sh_sealing := sh_sealing h @ [p]\<rparr>"
  have se: "set (searchable_segments ?h) = insert p (set (searchable_segments h))" by (auto simp: set_searchable)
  then have "holder_wf ?h" "listed ?h = listed h \<union> set (offsets_at h p)"
    using i by (auto simp: holder_wf_def hot_plain_def listed_lists)
  then show ?case
    by (intro conc_grow [OF c_putback.prems, of _ "[PutBack p]" "F @ G" _ "[NeedPublish]"])
      (use i in \<open>auto simp: hot_unlisted_def store_grows_def\<close>)
next
  case (c_list S h F hnsw s G)
  then have i: "holder_wf h" "hot_plain h" "hot_unlisted h" by (simp_all add: conc_inv_def holder_wf_def)
  show ?case
    by (rule conc_grow [OF c_list.prems, of _ "[Unlisted hnsw s]" "F @ G" _ "[NeedPublish]"])
      (use i list_adds(2,3) [OF i(1), of s] in \<open>auto simp: list_hot_unlisted list_grow\<close>)
next
  case (c_merge n m h cands S F)
  then have i: "holder_wf h" "hot_unlisted h" by (simp_all add: conc_inv_def)
  have c: "\<forall>a \<in> set cands. a < length (sh_store h) \<and> a \<noteq> hot_ref"
    using merge_candidates_props(1) [OF c_merge.hyps] i by (auto simp: holder_wf_def set_searchable hot_unlisted_def)
  show ?case
    by (rule conc_grow [OF c_merge.prems, of _ "[]" F _ "[Merging cands (union_loop (refs_offsets h cands) [])]"])
      (use i c in \<open>auto simp: set_union_loop\<close>)
next
  case (c_merged out p offs vs s S h F cands G)
  then have i: "holder_wf h" "hot_unlisted h" "set (refs_offsets h cands) \<subseteq> set offs" by (auto simp: conc_inv_def)
  have "set (seg_offsets s) = set offs"
    using from_vectors_offsets(1) [OF c_merged.hyps(1)] read_vectors_offsets [OF c_merged.hyps(2)] by simp
  then show ?case
    by (intro conc_grow [OF c_merged.prems, of _ "[Merging cands offs]" "F @ G" _ "[Unlisted True s]"])
      (use i remove_sealed_covers [OF i(1), of cands] in \<open>auto simp: hot_unlisted_lists\<close>)
next
  case (c_compact out vs h targets cold h' S F)
  then have i: "holder_wf h" "hot_unlisted h" by (simp_all add: conc_inv_def)
  obtain k where h': "h' = h\<lparr>sh_next_id := k\<rparr>" using compact_build_form(1) [OF c_compact.hyps(2,1)] by blast
  have t: "targets = sh_warm h" "opt_offsets cold = set (refs_offsets h targets)"
    using compact_build_form(2) [OF c_compact.hyps(2,1)] by auto
  have c: "\<forall>a \<in> set targets. a < length (sh_store h') \<and> a \<noteq> hot_ref"
    using i t by (auto simp: holder_wf_def set_searchable hot_unlisted_def h')
  show ?case
    by (rule conc_grow [OF c_compact.prems, of _ "[]" F _ "[Compacting targets cold]"])
      (use i t c h' in \<open>auto simp: hot_unlisted_def\<close>)
next
  case (c_compacted S h F targets cold G)
  then have i: "holder_wf h" "hot_plain h" "hot_unlisted h" "set (refs_offsets h targets) \<subseteq> opt_offsets cold"
    by (auto simp: conc_inv_def holder_wf_def)
  show ?case
    by (rule conc_grow [OF c_compacted.prems, of _ "[Compacting targets cold]" "F @ G" _ "[NeedPublish]"])
      (use i compact_install_ok [OF i(1,4)] in \<open>auto simp: hot_unlisted_lists\<close>)
qed

section \<open>Claims\<close>

lemma conc_reach_inv: "cstep\<^sup>*\<^sup>* x y \<Longrightarrow> conc_inv x \<Longrightarrow> conc_inv y"
  by (induction rule: rtranclp_induct) (auto intro: cstep_inv)

lemma conc_init: "conc_inv ({}, holder_new c ls, [])"
  using holder_new_inv [of c ls]
  by (simp add: conc_inv_def holder_inv_def holder_ok_def hot_unlisted_def)
    (simp add: holder_new_def publish_snapshot_def)

text \<open>A configuration whose Hot segment is full after one insertion, and its first states.\<close>

definition demo_cfg :: seg_config where
  "demo_cfg = \<lparr>cfg_dimension = 1, cfg_max_edges = 16, cfg_hot_capacity = 1, cfg_warm_capacity = 100,
     cfg_hnsw_threshold = 1000, cfg_full_scan_kb = 0, cfg_merge_threshold = 2, cfg_merge_max = 100,
     cfg_promote_threshold = 0, cfg_half_life = 3600\<rparr>"

definition demo_holder :: holder where
  "demo_holder = holder_new demo_cfg (\<lambda>tier. None)"

lemmas holder_eval = demo_holder_def holder_new_def publish_snapshot_def searchable_segments_def hot_ref_def demo_cfg_def
  holder_insert_def hot_insert_def the_hot_def set_hot_def seg_at_def hot_new_def blank_record_def validate_dimension_def
  seal_swap_def list_sealing_def seg_alloc_def next_id_after_def tier_dirs_def

definition demo_hot1 :: holder where
  "demo_hot1 = snd (holder_insert 7 (blank_record [f32_one]) demo_holder)"

lemma demo_insert: "holder_insert 7 (blank_record [f32_one]) demo_holder = (Inr True, demo_hot1)"
  by (simp add: holder_eval demo_hot1_def)

text \<open>C37. Nothing inserted is ever hidden: whatever sequence of insertions, seals, index builds,
  merges, compactions and promotions runs, one at a time, with builds failing and directories that
  cannot be removed, as long as the vectors of all listed offsets can be read, every offset that was inserted is in a segment of the published snapshot after each
  of them.\<close>

theorem holder_keeps_visible:
  assumes "hreach S h"
  shows "S \<subseteq> visible h \<and> set (sh_snapshot h) = set (searchable_segments h)"
  using hreach_inv [OF assms] visible_listed [of h] by (simp add: holder_inv_def holder_ok_def)

theorem holder_keeps_visible_witness: "7 \<in> visible (seal_hot demo_hot1) \<and> sh_sealing (seal_hot demo_hot1) = [1]"
proof -
  have "hreach {7} (seal_hot demo_hot1)"
    using hr_seal [OF hr_insert [OF hr_new demo_insert [unfolded demo_holder_def]]] by simp
  then have "7 \<in> visible (seal_hot demo_hot1)" using holder_keeps_visible by blast
  moreover have "sh_sealing (seal_hot demo_hot1) = [1]" by (simp add: demo_hot1_def seal_hot_def holder_eval)
  ultimately show ?thesis by simp
qed

text \<open>C38. Threads lose nothing: let any number of threads insert, seal, build, merge and compact,
  interleaved at every critical section, where builds read the vectors of all their offsets. Every
  inserted offset is in a listed segment or in the
  hands of a thread that will list it; when no thread is in the middle of an operation, the next
  publication makes all of them visible.\<close>

theorem threads_lose_nothing:
  assumes "cstep\<^sup>*\<^sup>* ({}, holder_new c ls, []) (S, h, F)"
  shows "S \<subseteq> listed h \<union> (\<Union>f \<in> set F. owed h f) \<and> (F = [] \<longrightarrow> S \<subseteq> visible (publish_snapshot h))"
  using conc_reach_inv [OF assms conc_init] publish_ok(3) [of h] by (auto simp: conc_inv_def)

theorem threads_lose_nothing_witness:
  "\<exists>h s. cstep\<^sup>*\<^sup>* ({}, demo_holder, []) ({7}, h, [Swapped s]) \<and> 7 \<in> listed h \<union> owed h (Swapped s) \<and> listed h = {}"
proof -
  obtain s h where sw: "seal_swap demo_hot1 = (Some s, h)"
    by (simp add: holder_eval demo_hot1_def)
  have "cstep ({}, demo_holder, []) ({7}, demo_hot1, [])" using c_insert [OF demo_insert, of "{}" "[]"] by simp
  moreover have "cstep ({7}, demo_hot1, []) ({7}, h, [Swapped s])" by (rule c_swap [OF sw])
  ultimately have r: "cstep\<^sup>*\<^sup>* ({}, demo_holder, []) ({7}, h, [Swapped s])" by simp
  have "listed h = {}" using sw
    by (auto simp: holder_eval demo_hot1_def listed_def refs_offsets_def)
  then show ?thesis using threads_lose_nothing [OF r [unfolded demo_holder_def]] r by auto
qed

text \<open>C39. A stale publication hides records: two threads that seal at the same time can store their
  snapshots in the wrong order, since a snapshot is built and stored in separate steps. No
  operation is pending afterwards, and yet an inserted offset is in no published segment, until
  something else publishes.\<close>

theorem stale_publish_hides:
  "\<exists>c S h off. cstep\<^sup>*\<^sup>* ({}, holder_new c (\<lambda>tier. None), []) (S, h, []) \<and> off \<in> S \<and> off \<in> listed h \<and> off \<notin> visible h"
proof -
  let ?r = "blank_record [f32_one]"
  obtain h1 s1 where s1: "seal_swap demo_hot1 = (Some s1, h1)" and e1: "h1 = demo_holder" "hs_offsets s1 = [7]"
    by (simp add: holder_eval demo_hot1_def)
  define h2 where "h2 = list_sealing s1 h1"
  define h3 where "h3 = snd (holder_insert 8 ?r h2)"
  have i3: "holder_insert 8 ?r h2 = (Inr True, h3)" using e1 by (simp add: h2_def h3_def holder_eval)
  obtain h4 s2 where s2: "seal_swap h3 = (Some s2, h4)" and e4: "h4 = h2" "hs_offsets s2 = [8]"
    using e1 by (simp add: h2_def h3_def holder_eval)
  define h5 where "h5 = list_sealing s2 h4"
  let ?old = "searchable_segments h2" and ?new = "searchable_segments h5"
  define h7 where "h7 = h5\<lparr>sh_snapshot := ?new\<rparr>\<lparr>sh_snapshot := ?old\<rparr>"
  have "cstep ({}, demo_holder, []) ({7}, demo_hot1, [])" using c_insert [OF demo_insert, of "{}" "[]"] by simp
  moreover have "cstep ({7}, demo_hot1, []) ({7}, h1, [Swapped s1])" by (rule c_swap [OF s1])
  moreover have "cstep ({7}, h1, [Swapped s1]) ({7}, h2, [NeedPublish])"
    using c_push [of "{7}" h1 "[]" s1 "[]"] by (simp add: h2_def)
  moreover have "cstep ({7}, h2, [NeedPublish]) ({7}, h2, [Publishing ?old])"
    using c_snapshot [of "{7}" h2 "[]" "[]"] by simp
  moreover have "cstep ({7}, h2, [Publishing ?old]) ({8, 7}, h3, [Publishing ?old])" by (rule c_insert [OF i3])
  moreover have "cstep ({8, 7}, h3, [Publishing ?old]) ({8, 7}, h4, [Swapped s2, Publishing ?old])" by (rule c_swap [OF s2])
  moreover have "cstep ({8, 7}, h4, [Swapped s2, Publishing ?old]) ({8, 7}, h5, [NeedPublish, Publishing ?old])"
    using c_push [of "{8, 7}" h4 "[]" s2 "[Publishing ?old]"] by (simp add: h5_def)
  moreover have "cstep ({8, 7}, h5, [NeedPublish, Publishing ?old]) ({8, 7}, h5, [Publishing ?new, Publishing ?old])"
    using c_snapshot [of "{8, 7}" h5 "[]" "[Publishing ?old]"] by simp
  moreover have "cstep ({8, 7}, h5, [Publishing ?new, Publishing ?old]) ({8, 7}, h5\<lparr>sh_snapshot := ?new\<rparr>, [Publishing ?old])"
    using c_store [of "{8, 7}" h5 "[]" ?new "[Publishing ?old]"] by simp
  moreover have "cstep ({8, 7}, h5\<lparr>sh_snapshot := ?new\<rparr>, [Publishing ?old]) ({8, 7}, h7, [])"
    using c_store [of "{8, 7}" "h5\<lparr>sh_snapshot := ?new\<rparr>" "[]" ?old "[]"] by (simp add: h7_def)
  ultimately have "cstep\<^sup>*\<^sup>* ({}, demo_holder, []) ({8, 7}, h7, [])" by (meson converse_rtranclp_into_rtranclp rtranclp.rtrancl_refl)
  moreover have "(8 :: u64) \<in> listed h7 \<and> 8 \<notin> visible h7"
    using e1 e4 by (simp add: h7_def h5_def h2_def listed_def visible_def refs_offsets_def holder_eval)
  ultimately show ?thesis unfolding demo_holder_def by blast
qed

lemma process_one_seal_builds:
  assumes "holder_inv h" "all_stored vs (listed h)" "se_build env = BuildOk" "process_one_seal env vs b h = (r, b', h')"
  shows "r = Inr (sh_sealing h \<noteq> [])"
proof -
  obtain pick b1 h1 where st: "seal_start (se_cas env) b h = (pick, b1, h1)" by (metis surj_pair)
  note s = seal_start_ok [OF assms(1) st]
  have w: "pick = NoWork \<longleftrightarrow> sh_sealing h = []"
    using st by (auto simp: seal_start_def pop_sealing_plain_def Let_def split: if_splits prod.splits)
  show ?thesis
  proof (cases pick)
    case (Work j)
    have "set (j_offsets j) \<subseteq> listed h1" using s Work by (auto simp: listed_lists set_searchable)
    then have "all_stored vs (set (j_offsets j))" using assms(2) s all_stored_mono by simp
    then have v: "fst ` set (read_vectors_for_offsets (j_offsets j) vs) = set (j_offsets j)" by (rule read_vectors_offsets)
    have "j_offsets j \<noteq> []"
      using st Work by (auto simp: seal_start_def pop_sealing_plain_def segment_path_def Let_def split: if_splits prod.splits)
    then have "read_vectors_for_offsets (j_offsets j) vs \<noteq> []" using v by auto
    then obtain seg where "build_segment (se_build env) vs j = Inr seg"
      using assms(3) by (cases "j_use_hnsw j") (simp_all add: build_segment_def sealed_from_vectors_def warm_from_records_def)
    then show ?thesis using assms(4) st Work w by (auto simp: process_one_seal_def seal_install_def Let_def split: if_splits prod.splits)
  qed (use w st assms(4) in \<open>auto simp: process_one_seal_def\<close>)
qed

lemma process_seals_done:
  "holder_inv h \<Longrightarrow> all_stored vs (listed h) \<Longrightarrow> (\<And>k. se_build (envs k) = BuildOk) \<Longrightarrow>
   \<exists>b' h'. process_seals envs i vs b h = (None, b', h') \<and> sh_sealing h' = [] \<and> holder_inv h' \<and> listed h' = listed h"
proof (induction envs i vs b h rule: process_seals.induct)
  case (1 envs i vs b h)
  obtain r b1 h1 where p: "process_one_seal (envs i) vs b h = (r, b1, h1)" by (metis surj_pair)
  have r: "r = Inr (sh_sealing h \<noteq> [])" using process_one_seal_builds [OF "1.prems"(1,2) _ p] "1.prems"(3) by blast
  have ok: "holder_inv h1" "listed h1 = listed h" using process_one_seal_ok [OF "1.prems"(1,2) p] by simp_all
  show ?case
  proof (cases "sh_sealing h = []")
    case True
    then have "h1 = h" using p by (simp add: process_one_seal_def seal_start_def pop_sealing_plain_def)
    then show ?thesis using True p r ok by (simp add: process_seals.simps [of envs i])
  next
    case False
    then have "\<exists>b' h'. process_seals envs (Suc i) vs b1 h1 = (None, b', h') \<and> sh_sealing h' = [] \<and> holder_inv h' \<and> listed h' = listed h1"
      using "1.IH" [OF p [symmetric] r refl False] ok "1.prems" by auto
    then show ?thesis using p r ok False by (simp add: process_seals.simps [of envs i])
  qed
qed

text \<open>C40. Draining finishes: when the builds succeed and the vectors of the listed offsets are stored,
  draining the sealing queue ends without an error, leaves the queue empty, and lists exactly the
  offsets that were listed before, all of them published.\<close>

theorem drain_seals_all:
  assumes "hreach S h" "all_stored vs (listed h)" "\<forall>k. se_build (envs k) = BuildOk"
  shows "\<exists>b' h'. process_seals envs 0 vs b h = (None, b', h') \<and> sh_sealing h' = [] \<and> visible h' = visible h"
  using process_seals_done [of h vs envs 0 b] hreach_inv [OF assms(1)] assms(2,3) visible_listed
  by (auto simp: holder_inv_def)

theorem drain_seals_all_witness:
  "\<exists>vs b' h'. process_seals (\<lambda>k. \<lparr>se_cas = True, se_build = BuildOk, se_compact = BuildOk, se_gone = \<lambda>p. True\<rparr>) 0 vs
      (budget_new 1 None) (seal_hot demo_hot1) = (None, b', h') \<and> sh_sealing h' = [] \<and> visible h' = {7}"
proof -
  obtain vs where "vs_get vs 7 = Some [f32_one]" using demo_put_get by blast
  moreover have "seal_hot demo_hot1 = publish_snapshot (list_sealing \<lparr>hs_dim = 1, hs_offsets = [7], hs_seen = {|7|}\<rparr> demo_holder)"
    by (simp add: demo_hot1_def seal_hot_def holder_eval)
  then have v: "listed (seal_hot demo_hot1) = {7}" "visible (seal_hot demo_hot1) = {7}"
    by (simp_all add: holder_eval listed_def visible_def refs_offsets_def)
  ultimately have st: "all_stored vs (listed (seal_hot demo_hot1))" by (simp add: all_stored_def)
  have reach: "hreach {7} (seal_hot demo_hot1)"
    using hr_seal [OF hr_insert [OF hr_new demo_insert [unfolded demo_holder_def]]] by simp
  let ?envs = "\<lambda>k :: nat. \<lparr>se_cas = True, se_build = BuildOk, se_compact = BuildOk, se_gone = \<lambda>p. True\<rparr>"
  have "\<forall>k. se_build (?envs k) = BuildOk" by simp
  from drain_seals_all [OF reach st this, of "budget_new 1 None"] v(2) show ?thesis by metis
qed

end
