(* ===== verification/Engine_Durability.thy ===== *)
theory Engine_Durability
  imports Wal Vector_Store Metadata_Store
begin

text \<open>
  What of the storage engine survives a kill: the \<open>redb\<close> database, the vector file and the
  write-ahead log, and the first half of \<open>StorageEngine::open\<close> in
  \<open>turbomemory_storage/src/engine/mod.rs\<close> (replay, tail repair, persisting what was replayed, the
  two corruption checks), which turns these files back into the metadata cache, the vector store
  and the log. A kill ends the process, not the machine: what was written to a file or through a
  mapping is in the file, synced or not. Outcomes of file operations are arguments.

  The theory relates files and memory by one invariant: \<open>disk_inv D R\<close> says that the files \<open>D\<close>
  recover to the records \<open>R\<close>, and \<open>dur_inv\<close> that a running engine holds the records \<open>R\<close> and its
  files recover to them. Recovered records are compared up to their access statistics and tier,
  which are not logged (\<open>core_meta\<close>).
\<close>

section \<open>The files and the report\<close>

record disk =
  dk_db :: redb_db
  dk_vec :: "bytes option"
  dk_wal :: bytes

record recovery_report =
  rr_wal_ops_replayed :: nat
  rr_wal_inserts_without_vector :: nat
  rr_wal_bytes_discarded :: nat
  rr_segments_discarded :: nat
  rr_segment_dirs_removed :: nat
  rr_graph_nodes_pruned :: nat

definition report_new :: recovery_report where
  "report_new = \<lparr>rr_wal_ops_replayed = 0, rr_wal_inserts_without_vector = 0, rr_wal_bytes_discarded = 0,
     rr_segments_discarded = 0, rr_segment_dirs_removed = 0, rr_graph_nodes_pruned = 0\<rparr>"

definition report_is_clean :: "recovery_report \<Rightarrow> bool" where
  "report_is_clean r \<longleftrightarrow> r = report_new"

section \<open>Replay\<close>

record replay_state =
  rp_meta :: mstore
  rp_vectors :: vstore
  rp_max_seq :: u64
  rp_max_offset :: u64
  rp_replayed :: bool
  rp_report :: recovery_report

definition replay_insert :: "(bytes \<Rightarrow> u32) \<Rightarrow> u64 \<Rightarrow> (mstore \<Rightarrow> mstore) \<Rightarrow> point_offset \<Rightarrow> u64 \<Rightarrow> meta_record \<Rightarrow> u32 option
    \<Rightarrow> replay_state \<Rightarrow> replay_state" where
  "replay_insert crc last_applied before off sq m c p =
     (if last_applied < sq then
        let p1 = (case vs_recover crc (rp_vectors p) off c of
            (Some v, vs) \<Rightarrow>
              p\<lparr>rp_meta := ms_put off (with_embedding m v) (before (rp_meta p)), rp_vectors := vs,
                rp_report := (rp_report p)\<lparr>rr_wal_ops_replayed := rr_wal_ops_replayed (rp_report p) + 1\<rparr>\<rparr>
          | (None, vs) \<Rightarrow>
              p\<lparr>rp_vectors := vs, rp_report := (rp_report p)\<lparr>rr_wal_inserts_without_vector :=
                  rr_wal_inserts_without_vector (rp_report p) + 1\<rparr>\<rparr>)
        in p1\<lparr>rp_max_offset := max (rp_max_offset p1) off, rp_max_seq := max (rp_max_seq p1) sq, rp_replayed := True\<rparr>
      else p)"

fun replay_op :: "(bytes \<Rightarrow> u32) \<Rightarrow> u64 \<Rightarrow> replay_state \<Rightarrow> wal_op \<Rightarrow> replay_state" where
  "replay_op crc last_applied p (Insert off sq m c) = replay_insert crc last_applied (\<lambda>ms. ms) off sq m c p"
| "replay_op crc last_applied p (Replace old off sq m c) =
     replay_insert crc last_applied (ms_remove old) off sq m (Some c) p"
| "replay_op crc last_applied p (Delete off) =
     p\<lparr>rp_meta := ms_remove off (rp_meta p), rp_replayed := True,
       rp_report := (rp_report p)\<lparr>rr_wal_ops_replayed := rr_wal_ops_replayed (rp_report p) + 1\<rparr>\<rparr>"
| "replay_op crc last_applied p (Flush off) = p"

definition la_of :: "mstore \<Rightarrow> u64" where
  "la_of t = (case last_applied_seq t of None \<Rightarrow> 0 | Some q \<Rightarrow> q)"

definition replay_log :: "wal_lib \<Rightarrow> mstore \<Rightarrow> vstore \<Rightarrow> wal \<Rightarrow> replay_state" where
  "replay_log L t s w =
     foldl (replay_op (crc32 L) (la_of t))
       \<lparr>rp_meta = t, rp_vectors = s, rp_max_seq = la_of t, rp_max_offset = 0, rp_replayed = False,
        rp_report = report_new\<lparr>rr_wal_bytes_discarded := discarded_bytes (snd (read_all L (w_file w) (wal_iter_new w)))\<rparr>\<rparr>
       (wal_ops L w)"

section \<open>Clearing the log, with its failures\<close>

text \<open>\<open>Wal::clear\<close> truncates, rewrites the header and syncs. When the header write fails after
  \<open>n\<close> bytes the file holds only these.\<close>

datatype clear_outcome = ClearOk | SetLenFails | HeaderTorn nat | ClearSyncFails

definition clear_log :: "clear_outcome \<Rightarrow> wal \<Rightarrow> unit result \<times> wal" where
  "clear_log out w =
     (case out of
        ClearOk \<Rightarrow> (Inr (), wal_clear w)
      | SetLenFails \<Rightarrow> (Inl Io, w)
      | HeaderTorn n \<Rightarrow> (Inl Io, w\<lparr>w_file := take n (header_bytes WAL_VERSION), w_pos := min n WAL_HEADER_SIZE\<rparr>)
      | ClearSyncFails \<Rightarrow> (Inl Io, (wal_clear w)\<lparr>w_version := w_version w\<rparr>))"

section \<open>Opening the durable part\<close>

text \<open>Cutting off a torn tail of the log: the file may be left as it is, or be cut before the seek or the
  sync fails.\<close>

datatype truncate_outcome = TruncateOk | CutFails | SyncFails

record open_env =
  oe_db_ok :: bool
  oe_truncate :: truncate_outcome
  oe_vsync_ok :: bool
  oe_txn :: txn_outcome
  oe_fsync_ok :: bool
  oe_clear :: clear_outcome

text \<open>Persisting what was replayed: the vectors, the metadata, then the log is dropped. The sync of the
  vector file may fail after its header was stamped.\<close>

definition persist_replay :: "wal_lib \<Rightarrow> meta_codec \<Rightarrow> open_env \<Rightarrow> u64 \<Rightarrow> mstore \<Rightarrow> vstore \<Rightarrow> wal
    \<Rightarrow> unit result \<times> mstore \<times> vstore \<times> wal" where
  "persist_replay L C env max_seq ms vs w =
     (case vs_flush (crc32 L) vs of
        (Inl e, vs1) \<Rightarrow> (Inl e, ms, vs1, w)
      | (Inr _, vs1) \<Rightarrow>
          if \<not> oe_vsync_ok env then (Inl Io, ms, vs1, w) else
          (case ms_flush C (oe_txn env) max_seq ms of
             (Inl e, ms1) \<Rightarrow> (Inl e, ms1, vs1, w)
           | (Inr _, ms1) \<Rightarrow>
               if \<not> oe_fsync_ok env then (Inl Io, ms1, vs1, w)
               else case clear_log (oe_clear env) w of (r, w1) \<Rightarrow> (r, ms1, vs1, w1)))"

definition check_vectors :: "bool \<Rightarrow> nat \<Rightarrow> bool \<Rightarrow> mstore \<Rightarrow> vstore \<Rightarrow> unit result" where
  "check_vectors metadata_was_fresh vectors_at_open replayed ms vs =
     (if metadata_was_fresh \<and> \<not> replayed \<and> 0 < vectors_at_open
      then Inl (Corrupted ''vectors.bin holds vectors but memory.redb has no records'')
      else case max_live_offset ms of
        None \<Rightarrow> Inr ()
      | Some max_live \<Rightarrow>
          if vs_count vs \<le> unat max_live
          then Inl (Corrupted ''metadata holds a record beyond the vectors of vectors.bin'')
          else Inr ())"

definition disk_of :: "mstore \<Rightarrow> vstore \<Rightarrow> wal \<Rightarrow> disk" where
  "disk_of ms vs w = \<lparr>dk_db = ms_db ms, dk_vec = Some (vs_file vs), dk_wal = w_file w\<rparr>"

text \<open>The result and the files left behind: first the part after the tail of the log was repaired.\<close>

definition finish_open :: "wal_lib \<Rightarrow> meta_codec \<Rightarrow> open_env \<Rightarrow> bool \<Rightarrow> nat \<Rightarrow> replay_state \<Rightarrow> wal
    \<Rightarrow> (mstore \<times> vstore \<times> wal \<times> recovery_report) result \<times> disk" where
  "finish_open L C env metadata_was_fresh vectors_at_open p w =
     (let persist = rp_replayed p \<or> needs_upgrade w;
          ms1 = (if persist then advance_seq_past (rp_max_seq p) (advance_offset_past (rp_max_offset p) (rp_meta p))
                 else rp_meta p)
      in case (if persist then persist_replay L C env (rp_max_seq p) ms1 (rp_vectors p) w
               else (Inr (), ms1, rp_vectors p, w)) of
        (Inl e, ms2, vs2, w2) \<Rightarrow> (Inl e, disk_of ms2 vs2 w2)
      | (Inr _, ms2, vs2, w2) \<Rightarrow>
          (case check_vectors metadata_was_fresh vectors_at_open (rp_replayed p) ms2 vs2 of
             Inl e \<Rightarrow> (Inl e, disk_of ms2 vs2 w2)
           | Inr _ \<Rightarrow> (Inr (ms2, vs2, w2, rp_report p), disk_of ms2 vs2 w2)))"

definition open_durable :: "wal_lib \<Rightarrow> meta_codec \<Rightarrow> string \<Rightarrow> nat \<Rightarrow> nat \<Rightarrow> open_env \<Rightarrow> disk
    \<Rightarrow> (mstore \<times> vstore \<times> wal \<times> recovery_report) result \<times> disk" where
  "open_durable L C db_file d initial_capacity env D =
     (case ms_open C db_file (if oe_db_ok env then Opened (dk_db D) else OpenFails) of
        Inl e \<Rightarrow> (Inl e, D)
      | Inr t \<Rightarrow>
          (case vs_open (crc32 L) (dk_vec D) d initial_capacity of
             Inl e \<Rightarrow> (Inl e, D)
           | Inr s \<Rightarrow>
               (case wal_open (dk_wal D) of
                  Inl e \<Rightarrow> (Inl e, D\<lparr>dk_vec := Some (vs_file s)\<rparr>)
                | Inr w \<Rightarrow>
                    (let p = replay_log L t s w; torn = 0 < rr_wal_bytes_discarded (rp_report p) in
                     if torn \<and> oe_truncate env = CutFails then (Inl Io, disk_of t s w)
                     else if torn \<and> oe_truncate env = SyncFails then (Inl Io, disk_of t s (truncate_to (wal_valid_end L w) w))
                     else finish_open L C env (is_fresh t) (vs_count s) p
                       (if torn then truncate_to (wal_valid_end L w) w else w)))))"


section \<open>What the files recover to\<close>

definition core_meta :: "meta_record \<Rightarrow> meta_record" where
  "core_meta m = m\<lparr>m_access_count := 0, m_last_accessed := 0, m_tier := Hot\<rparr>"

definition rec_view :: "mstore \<Rightarrow> point_offset \<rightharpoonup> meta_record" where
  "rec_view ms off = map_option core_meta (fmlookup (ms_records ms) off)"

fun op_insert :: "wal_op \<Rightarrow> (point_offset \<times> u64 \<times> meta_record \<times> u32 option) option" where
  "op_insert (Insert off sq m c) = Some (off, sq, m, c)"
| "op_insert (Replace old off sq m c) = Some (off, sq, m, Some c)"
| "op_insert (Delete off) = None"
| "op_insert (Flush off) = None"

fun spec_step :: "u64 \<Rightarrow> (point_offset \<rightharpoonup> meta_record) \<Rightarrow> wal_op \<Rightarrow> (point_offset \<rightharpoonup> meta_record)" where
  "spec_step la R (Insert off sq m c) = (if la < sq then R(off \<mapsto> core_meta m) else R)"
| "spec_step la R (Replace old off sq m c) = (if la < sq then (R(old := None))(off \<mapsto> core_meta m) else R)"
| "spec_step la R (Delete off) = R(off := None)"
| "spec_step la R (Flush off) = R"

abbreviation spec_log :: "u64 \<Rightarrow> (point_offset \<rightharpoonup> meta_record) \<Rightarrow> wal_op list \<Rightarrow> (point_offset \<rightharpoonup> meta_record)" where
  "spec_log la \<equiv> foldl (spec_step la)"

text \<open>The insertions of a log that the snapshot does not contain yet.\<close>

definition pendings :: "u64 \<Rightarrow> wal_op list \<Rightarrow> (point_offset \<times> u64 \<times> u32 option) set" where
  "pendings la ops = {(off, sq, c). la < sq \<and> (\<exists>op \<in> set ops. \<exists>m. op_insert op = Some (off, sq, m, c))}"

definition deletes :: "wal_op list \<Rightarrow> point_offset set" where
  "deletes ops = {off. Delete off \<in> set ops}"

definition log_seqs :: "wal_op list \<Rightarrow> u64 set" where
  "log_seqs ops = {sq. \<exists>op \<in> set ops. \<exists>off m c. op_insert op = Some (off, sq, m, c)}"

text \<open>A slot holds a vector with a logged checksum.\<close>

definition slot_matches :: "(bytes \<Rightarrow> u32) \<Rightarrow> vstore \<Rightarrow> point_offset \<Rightarrow> u32 option \<Rightarrow> bool" where
  "slot_matches crc s off c \<longleftrightarrow> (\<exists>bs. slot_bytes s (unat off) = Some bs \<and> c = Some (crc bs))"

text \<open>The snapshot: every record lies inside the first \<open>n\<close> vectors and below the saved counter.\<close>

definition snap_ok :: "meta_codec \<Rightarrow> mstore \<Rightarrow> nat \<Rightarrow> bool" where
  "snap_ok C t n \<longleftrightarrow> ms_inv C t \<and> la_of t < ms_next_seq t \<and>
     (\<forall>off. fmlookup (ms_records t) off \<noteq> None \<longrightarrow>
        unat off < n \<and> off < ms_next_offset t \<and> last_applied_seq t \<noteq> None)"

text \<open>The log: replayed on the snapshot it gives \<open>R\<close>, every pending insertion finds its vector, and
  no deleted offset is used again.\<close>

definition log_ok :: "(bytes \<Rightarrow> u32) \<Rightarrow> mstore \<Rightarrow> vstore \<Rightarrow> wal_op list \<Rightarrow> (point_offset \<rightharpoonup> meta_record) \<Rightarrow> bool" where
  "log_ok crc t s ops R \<longleftrightarrow> spec_log (la_of t) (rec_view t) ops = R \<and>
     (\<forall>off sq c. (off, sq, c) \<in> pendings (la_of t) ops \<longrightarrow> off \<noteq> - 1 \<and> sq \<noteq> - 1 \<and> unat off < vs_slots s \<and> slot_matches crc s off c) \<and>
     (\<forall>off \<in> deletes ops. R off = None \<and>
        (off < ms_next_offset t \<or> (\<exists>off' sq c. (off', sq, c) \<in> pendings (la_of t) ops \<and> off \<le> off')))"

definition hcount :: "vstore \<Rightarrow> nat" where
  "hcount s = unat (h_count (file_header s))"

definition disk_inv :: "wal_lib \<Rightarrow> meta_codec \<Rightarrow> nat \<Rightarrow> nat \<Rightarrow> disk \<Rightarrow> (point_offset \<rightharpoonup> meta_record) \<Rightarrow> bool" where
  "disk_inv L C d n D R \<longleftrightarrow> bincode_ok L \<and> (\<exists>t s w. ms_open C [] (Opened (dk_db D)) = Inr t \<and>
     vs_open (crc32 L) (dk_vec D) d n = Inr s \<and> wal_open (dk_wal D) = Inr w \<and>
     vs_ok (crc32 L) s \<and> vs_count s = hcount s \<and> vs_dim s = d \<and> w_version w = WAL_VERSION \<and>
     take WAL_HEADER_SIZE (w_file w) = header_bytes WAL_VERSION \<and>
     snap_ok C t (hcount s) \<and> log_ok (crc32 L) t s (wal_ops L w) R)"

text \<open>The running engine: what is in memory beyond what the files recover to.\<close>

definition run_ok :: "wal_lib \<Rightarrow> meta_codec \<Rightarrow> mstore \<Rightarrow> mstore \<Rightarrow> vstore \<Rightarrow> wal \<Rightarrow> (point_offset \<rightharpoonup> meta_record) \<Rightarrow> bool" where
  "run_ok L C t ms vs w R \<longleftrightarrow> vs_wf (crc32 L) vs \<and> hcount vs \<le> vs_count vs \<and> wal_clean L w \<and>
     take WAL_HEADER_SIZE (w_file w) = header_bytes WAL_VERSION \<and> ms_inv C ms \<and> rec_view ms = R \<and>
     (\<forall>off. R off \<noteq> None \<longrightarrow> unat off < vs_count vs \<and> off < ms_next_offset ms) \<and>
     (\<forall>off sq c. (off, sq, c) \<in> pendings (la_of t) (wal_ops L w) \<longrightarrow> unat off < vs_count vs \<and> off < ms_next_offset ms) \<and>
     (\<forall>off \<in> deletes (wal_ops L w). off < ms_next_offset ms) \<and>
     (\<forall>sq \<in> log_seqs (wal_ops L w). sq < ms_next_seq ms) \<and> la_of t < ms_next_seq ms"

definition dur_inv :: "wal_lib \<Rightarrow> meta_codec \<Rightarrow> mstore \<Rightarrow> vstore \<Rightarrow> wal \<Rightarrow> (point_offset \<rightharpoonup> meta_record) \<Rightarrow> bool" where
  "dur_inv L C ms vs w R \<longleftrightarrow> bincode_ok L \<and> (\<exists>t. ms_open C [] (Opened (ms_db ms)) = Inr t \<and>
     snap_ok C t (hcount vs) \<and> log_ok (crc32 L) t vs (wal_ops L w) R \<and> run_ok L C t ms vs w R)"

lemma core_meta_idem [simp]: "core_meta (core_meta m) = core_meta m"
  by (simp add: core_meta_def)

lemma rec_view_put [simp]: "rec_view (put_meta off m ms) = (rec_view ms)(off \<mapsto> core_meta m)"
  "rec_view (ms_put off r ms) = (rec_view ms)(off \<mapsto> core_meta (meta_of_record r))"
  by (auto simp: rec_view_def put_meta_def ms_put_def Let_def)

lemma rec_view_remove [simp]: "rec_view (ms_remove off ms) = (rec_view ms)(off := None)"
  by (auto simp: rec_view_def ms_remove_def Let_def)

lemma rec_view_dom: "rec_view ms off = None \<longleftrightarrow> fmlookup (ms_records ms) off = None"
  by (simp add: rec_view_def)

lemma pendings_simps [simp]:
  "pendings la [] = {}" "pendings la (xs @ ys) = pendings la xs \<union> pendings la ys"
  "pendings la (Insert off sq m c # ops) = (if la < sq then insert (off, sq, c) (pendings la ops) else pendings la ops)"
  "pendings la (Replace old off sq m c' # ops) =
     (if la < sq then insert (off, sq, Some c') (pendings la ops) else pendings la ops)"
  "pendings la (Delete off # ops) = pendings la ops" "pendings la (Flush off # ops) = pendings la ops"
  by (auto simp: pendings_def)

lemma deletes_simps [simp]:
  "deletes [] = {}" "deletes (xs @ ys) = deletes xs \<union> deletes ys"
  "deletes (Insert off sq m c # ops) = deletes ops" "deletes (Replace old off sq m c' # ops) = deletes ops"
  "deletes (Delete off # ops) = insert off (deletes ops)" "deletes (Flush off # ops) = deletes ops"
  by (auto simp: deletes_def)

lemma log_seqs_simps [simp]:
  "log_seqs [] = {}" "log_seqs (xs @ ys) = log_seqs xs \<union> log_seqs ys"
  "log_seqs (Insert off sq m c # ops) = insert sq (log_seqs ops)"
  "log_seqs (Replace old off sq m c' # ops) = insert sq (log_seqs ops)"
  "log_seqs (Delete off # ops) = log_seqs ops" "log_seqs (Flush off # ops) = log_seqs ops"
  by (auto simp: log_seqs_def)

text \<open>Records in the result of a replay were in the snapshot or are pending.\<close>

lemma spec_log_dom:
  "spec_log la R ops off \<noteq> None \<Longrightarrow> R off \<noteq> None \<or> (\<exists>sq c. (off, sq, c) \<in> pendings la ops)"
proof (induction ops arbitrary: R)
  case (Cons op ops)
  then have "spec_step la R op off \<noteq> None \<or> (\<exists>sq c. (off, sq, c) \<in> pendings la ops)" by simp
  then show ?case
    by (cases op) (auto split: if_splits)
qed simp

text \<open>A log the snapshot already contains replays to nothing.\<close>

lemma spec_log_applied:
  "pendings la ops = {} \<Longrightarrow> (\<And>off. off \<in> deletes ops \<Longrightarrow> R off = None) \<Longrightarrow> spec_log la R ops = R"
proof (induction ops)
  case (Cons op ops)
  have "spec_step la R op = R"
    using Cons.prems by (cases op) (auto split: if_splits)
  moreover have "pendings la ops = {}" "\<And>off. off \<in> deletes ops \<Longrightarrow> R off = None"
    using Cons.prems by (cases op; auto split: if_splits)+
  ultimately show ?case using Cons.IH by simp
qed simp

section \<open>Replay restores the records\<close>

lemma replay_insert_effect:
  assumes "vs_ok crc (rp_vectors p)" "la < sq \<Longrightarrow> unat off < vs_slots (rp_vectors p) \<and> slot_matches crc (rp_vectors p) off c"
  shows "\<exists>v. replay_insert crc la before off sq m c p =
    (if la < sq then
       p\<lparr>rp_meta := ms_put off (with_embedding m v) (before (rp_meta p)),
         rp_vectors := (rp_vectors p)\<lparr>vs_count := max (vs_count (rp_vectors p)) (unat off + 1)\<rparr>,
         rp_report := (rp_report p)\<lparr>rr_wal_ops_replayed := rr_wal_ops_replayed (rp_report p) + 1\<rparr>,
         rp_max_offset := max (rp_max_offset p) off, rp_max_seq := max (rp_max_seq p) sq, rp_replayed := True\<rparr>
     else p)"
proof (cases "la < sq")
  case True
  then obtain bs where bs: "slot_bytes (rp_vectors p) (unat off) = Some bs" "c = Some (crc bs)"
    and u: "unat off < vs_slots (rp_vectors p)"
    using assms(2) by (auto simp: slot_matches_def)
  have "length bs = 4 * vs_dim (rp_vectors p)" using slot_bytes_Some [OF assms(1) u] bs(1) by simp
  then have vb: "vec_bytes (bytes_vec bs) = bs" by (rule vec_bytes_inverse)
  then have "vs_recover crc (rp_vectors p) off c =
      (Some (bytes_vec bs), (rp_vectors p)\<lparr>vs_count := max (vs_count (rp_vectors p)) (unat off + 1)\<rparr>)"
    using vs_recover_slot [OF assms(1) u, of "bytes_vec bs"] bs by (simp add: vector_crc_def)
  then show ?thesis using True by (auto simp: replay_insert_def Let_def)
qed (simp add: replay_insert_def)

text \<open>What is carried along the replay of the operations seen so far: the store differs from the
  opened one in its count only, the cache holds the specified records, all of them inside the
  count, and the counters bound what was seen.\<close>

definition replaying :: "meta_codec \<Rightarrow> mstore \<Rightarrow> vstore \<Rightarrow> wal_op list \<Rightarrow> replay_state \<Rightarrow> bool" where
  "replaying C t s ops p \<longleftrightarrow>
     (let la = la_of t; ms = rp_meta p; vs = rp_vectors p in
      vs_file vs = vs_file s \<and> vs_dim vs = vs_dim s \<and> vs_slots vs = vs_slots s \<and> vs_mapped vs = vs_mapped s \<and>
      vs_count s \<le> vs_count vs \<and> vs_count vs \<le> vs_slots s \<and>
      ms_inv C ms \<and> ms_db ms = ms_db t \<and> ms_next_offset ms = ms_next_offset t \<and> ms_next_seq ms = ms_next_seq t \<and>
      rec_view ms = spec_log la (rec_view t) ops \<and>
      (\<forall>off. rec_view ms off \<noteq> None \<longrightarrow> unat off < vs_count vs) \<and>
      (\<forall>off sq c. (off, sq, c) \<in> pendings la ops \<longrightarrow> unat off < vs_count vs \<and> off \<le> rp_max_offset p \<and> sq \<le> rp_max_seq p) \<and>
      la \<le> rp_max_seq p \<and> (rp_max_seq p = la \<or> (\<exists>off c. (off, rp_max_seq p, c) \<in> pendings la ops)) \<and>
      (rp_max_offset p = 0 \<or> (\<exists>sq c. (rp_max_offset p, sq, c) \<in> pendings la ops)) \<and>
      (rp_replayed p \<longleftrightarrow> pendings la ops \<noteq> {} \<or> deletes ops \<noteq> {}) \<and> (\<not> rp_replayed p \<longrightarrow> ms = t))"


lemma ms_put_fields [simp]:
  "ms_db (ms_put off r ms) = ms_db ms" "ms_next_offset (ms_put off r ms) = ms_next_offset ms"
  "ms_next_seq (ms_put off r ms) = ms_next_seq ms"
  by (simp_all add: ms_put_def put_meta_def Let_def)

lemma ms_remove_fields [simp]:
  "ms_db (ms_remove off ms) = ms_db ms" "ms_next_offset (ms_remove off ms) = ms_next_offset ms"
  "ms_next_seq (ms_remove off ms) = ms_next_seq ms"
  by (simp_all add: ms_remove_def Let_def)

lemma ms_put_inv: "ms_inv C ms \<Longrightarrow> ms_inv C (ms_put off r ms)"
  by (simp add: ms_put_def put_meta_inv)

lemma vs_ok_count: "vs_ok crc s \<Longrightarrow> n \<le> vs_slots s \<Longrightarrow> vs_ok crc (s\<lparr>vs_count := n\<rparr>)"
  by (simp add: vs_ok_def file_header_def)

lemma replaying_vs_ok: "replaying C t s ops p \<Longrightarrow> vs_ok crc s \<Longrightarrow> vs_ok crc (rp_vectors p)"
  by (auto simp: replaying_def Let_def vs_ok_def file_header_def)

lemma replaying_slot:
  "replaying C t s ops p \<Longrightarrow> slot_bytes (rp_vectors p) j = slot_bytes s j \<and> vs_slots (rp_vectors p) = vs_slots s"
  by (simp add: replaying_def Let_def slot_bytes_def)

lemma replaying_insert:
  assumes p: "replaying C t s ops p" and la: "la_of t < sq" and u: "unat off < vs_slots s"
    and b: "rec_view (before (rp_meta p)) = R'" "\<And>off. R' off \<noteq> None \<Longrightarrow> rec_view (rp_meta p) off \<noteq> None"
      "ms_inv C (before (rp_meta p))" "ms_db (before (rp_meta p)) = ms_db (rp_meta p)"
      "ms_next_offset (before (rp_meta p)) = ms_next_offset (rp_meta p)"
      "ms_next_seq (before (rp_meta p)) = ms_next_seq (rp_meta p)"
    and ops': "spec_log (la_of t) (rec_view t) ops' = R'(off \<mapsto> core_meta m)"
      "pendings (la_of t) ops' = insert (off, sq, c) (pendings (la_of t) ops)" "deletes ops' = deletes ops"
  shows "replaying C t s ops'
    (p\<lparr>rp_meta := ms_put off (with_embedding m v) (before (rp_meta p)),
       rp_vectors := (rp_vectors p)\<lparr>vs_count := max (vs_count (rp_vectors p)) (unat off + 1)\<rparr>,
       rp_report := rep, rp_max_offset := max (rp_max_offset p) off, rp_max_seq := max (rp_max_seq p) sq, rp_replayed := True\<rparr>)"
proof -
  note r = p [unfolded replaying_def Let_def]
  have cnt: "unat o' < max (vs_count (rp_vectors p)) (unat off + 1)" if "(R'(off \<mapsto> core_meta m)) o' \<noteq> None" for o'
  proof (cases "o' = off")
    case False
    then have "rec_view (rp_meta p) o' \<noteq> None" using that b(2) [of o'] by simp
    then have "unat o' < vs_count (rp_vectors p)" using r by blast
    then show ?thesis by simp
  qed simp
  have pend: "unat o' < max (vs_count (rp_vectors p)) (unat off + 1) \<and> o' \<le> max (rp_max_offset p) off \<and> q \<le> max (rp_max_seq p) sq"
    if "(o', q, c') \<in> insert (off, sq, c) (pendings (la_of t) ops)" for o' q c'
  proof (cases "(o', q, c') = (off, sq, c)")
    case False
    then have "(o', q, c') \<in> pendings (la_of t) ops" using that by blast
    then have "unat o' < vs_count (rp_vectors p) \<and> o' \<le> rp_max_offset p \<and> q \<le> rp_max_seq p" using r by blast
    then show ?thesis by (auto simp: max_def)
  qed auto
  have mx: "max (rp_max_seq p) sq = la_of t \<or>
      (\<exists>off' c'. (off', max (rp_max_seq p) sq, c') = (off, sq, c) \<or> (off', max (rp_max_seq p) sq, c') \<in> pendings (la_of t) ops)"
  proof (cases "rp_max_seq p \<le> sq")
    case False
    then have "max (rp_max_seq p) sq = rp_max_seq p" by (simp add: max_def)
    then show ?thesis using r by auto
  qed (auto simp: max_def)
  have mo: "max (rp_max_offset p) off = 0 \<or>
      (\<exists>sq' c'. (max (rp_max_offset p) off, sq', c') = (off, sq, c) \<or> (max (rp_max_offset p) off, sq', c') \<in> pendings (la_of t) ops)"
  proof (cases "rp_max_offset p \<le> off")
    case False
    then have "max (rp_max_offset p) off = rp_max_offset p" by (simp add: max_def)
    then show ?thesis using r by auto
  qed (auto simp: max_def)
  have la_le: "la_of t \<le> max (rp_max_seq p) sq" using r by (simp add: le_max_iff_disj)
  have cs: "vs_count s \<le> max (vs_count (rp_vectors p)) (unat off + 1)" "max (vs_count (rp_vectors p)) (unat off + 1) \<le> vs_slots s"
    using r u by (simp_all add: le_max_iff_disj)
  have pend': "\<forall>o' q c'. (o', q, c') = (off, sq, c) \<or> (o', q, c') \<in> pendings (la_of t) ops \<longrightarrow>
      unat o' < max (vs_count (rp_vectors p)) (unat off + 1) \<and> o' \<le> max (rp_max_offset p) off \<and> q \<le> max (rp_max_seq p) sq"
    using pend by blast
  have st: "vs_file (rp_vectors p) = vs_file s" "vs_dim (rp_vectors p) = vs_dim s" "vs_slots (rp_vectors p) = vs_slots s"
    "vs_mapped (rp_vectors p) = vs_mapped s" "ms_db (rp_meta p) = ms_db t"
    "ms_next_offset (rp_meta p) = ms_next_offset t" "ms_next_seq (rp_meta p) = ms_next_seq t"
    using r by blast+
  show ?thesis
    unfolding replaying_def Let_def ops' using st cs b(1,3,4,5,6) cnt pend' la_le mx mo
    by (simp add: ms_put_inv)
qed

lemma replaying_step:
  assumes p: "replaying C t s ops p" and s: "vs_ok crc s"
    and pend: "\<And>off sq c. (off, sq, c) \<in> pendings (la_of t) [op] \<Longrightarrow> unat off < vs_slots s \<and> slot_matches crc s off c"
  shows "replaying C t s (ops @ [op]) (replay_op crc (la_of t) p op)"
proof -
  note r = p [unfolded replaying_def Let_def] and ok = replaying_vs_ok [OF p s]
  have match: "slot_matches crc (rp_vectors p) off c = slot_matches crc s off c" for off c
    using replaying_slot [OF p] by (simp add: slot_matches_def)
  have slots: "vs_slots (rp_vectors p) = vs_slots s" using replaying_slot [OF p] by simp
  have view: "rec_view (rp_meta p) = spec_log (la_of t) (rec_view t) ops" using r by blast
  have inv: "ms_inv C (rp_meta p)" using r by blast
  show ?thesis
  proof (cases op)
    case (Insert off sq m c)
    show ?thesis
    proof (cases "la_of t < sq")
      case True
      have pd: "unat off < vs_slots s" "slot_matches crc s off c" using pend [of off sq c] Insert True by simp_all
      obtain v where v: "replay_op crc (la_of t) p op = p\<lparr>rp_meta := ms_put off (with_embedding m v) (rp_meta p),
          rp_vectors := (rp_vectors p)\<lparr>vs_count := max (vs_count (rp_vectors p)) (unat off + 1)\<rparr>,
          rp_report := (rp_report p)\<lparr>rr_wal_ops_replayed := rr_wal_ops_replayed (rp_report p) + 1\<rparr>,
          rp_max_offset := max (rp_max_offset p) off, rp_max_seq := max (rp_max_seq p) sq, rp_replayed := True\<rparr>"
        using replay_insert_effect [OF ok, of "la_of t" sq off c "\<lambda>ms. ms" m] pd True Insert match slots by (simp) metis
      show ?thesis unfolding v
        by (rule replaying_insert [OF p True pd(1), where before = "\<lambda>ms. ms"])
          (use inv view Insert True in auto)
    next
      case False
      then show ?thesis using p Insert by (simp add: replay_insert_def replaying_def)
    qed
  next
    case (Replace old off sq m c)
    show ?thesis
    proof (cases "la_of t < sq")
      case True
      have pd: "unat off < vs_slots s" "slot_matches crc s off (Some c)" using pend [of off sq "Some c"] Replace True by simp_all
      obtain v where v: "replay_op crc (la_of t) p op = p\<lparr>rp_meta := ms_put off (with_embedding m v) (ms_remove old (rp_meta p)),
          rp_vectors := (rp_vectors p)\<lparr>vs_count := max (vs_count (rp_vectors p)) (unat off + 1)\<rparr>,
          rp_report := (rp_report p)\<lparr>rr_wal_ops_replayed := rr_wal_ops_replayed (rp_report p) + 1\<rparr>,
          rp_max_offset := max (rp_max_offset p) off, rp_max_seq := max (rp_max_seq p) sq, rp_replayed := True\<rparr>"
        using replay_insert_effect [OF ok, of "la_of t" sq off "Some c" "ms_remove old" m] pd True Replace match slots by (simp) metis
      show ?thesis unfolding v
        by (rule replaying_insert [OF p True pd(1), where before = "ms_remove old"])
          (use inv view Replace True in \<open>auto simp: ms_remove_inv split: if_splits\<close>)
    next
      case False
      then show ?thesis using p Replace by (simp add: replay_insert_def replaying_def)
    qed
  next
    case (Delete off)
    then show ?thesis using r view by (auto simp: replaying_def Let_def ms_remove_inv)
  next
    case (Flush off)
    then show ?thesis using p by (simp add: replaying_def)
  qed
qed


lemma replaying_fold:
  assumes "replaying C t s ops0 p" "vs_ok crc s"
    and "\<And>off sq c. (off, sq, c) \<in> pendings (la_of t) ops \<Longrightarrow> unat off < vs_slots s \<and> slot_matches crc s off c"
  shows "replaying C t s (ops0 @ ops) (foldl (replay_op crc (la_of t)) p ops)"
  using assms
proof (induction ops arbitrary: ops0 p)
  case (Cons op ops)
  have pd: "unat off < vs_slots s \<and> slot_matches crc s off c"
    if "(off, sq, c) \<in> pendings (la_of t) [op] \<or> (off, sq, c) \<in> pendings (la_of t) ops" for off sq c
    using Cons.prems(3) [of off sq c] that by (simp add: pendings_def) blast
  have "replaying C t s (ops0 @ [op]) (replay_op crc (la_of t) p op)"
    by (rule replaying_step [OF Cons.prems(1,2)]) (use pd in blast)
  then have "replaying C t s ((ops0 @ [op]) @ ops) (foldl (replay_op crc (la_of t)) (replay_op crc (la_of t) p op) ops)"
    by (rule Cons.IH [OF _ Cons.prems(2)]) (use pd in blast)
  then show ?case by simp
qed simp

lemma replay_log_ok:
  assumes "vs_ok (crc32 L) s" "vs_count s = hcount s" "snap_ok C t (hcount s)" "log_ok (crc32 L) t s (wal_ops L w) R"
  shows "replaying C t s (wal_ops L w) (replay_log L t s w)"
proof -
  let ?p = "\<lparr>rp_meta = t, rp_vectors = s, rp_max_seq = la_of t, rp_max_offset = 0, rp_replayed = False,
        rp_report = report_new\<lparr>rr_wal_bytes_discarded := discarded_bytes (snd (read_all L (w_file w) (wal_iter_new w)))\<rparr>\<rparr>"
  have "replaying C t s [] ?p"
    using assms(1,2,3) by (auto simp: replaying_def Let_def snap_ok_def rec_view_def vs_ok_def)
  from replaying_fold [OF this assms(1), of "wal_ops L w"]
  have "replaying C t s ([] @ wal_ops L w) (foldl (replay_op (crc32 L) (la_of t)) ?p (wal_ops L w))"
    using assms(4) unfolding log_ok_def by blast
  then show ?thesis by (simp add: replay_log_def)
qed

subsection \<open>Words\<close>

lemma unat_plus_one: "b \<noteq> - 1 \<Longrightarrow> unat (b + 1 :: u64) = unat b + 1"
proof -
  assume "b \<noteq> - 1"
  then have "unat b + 1 < 2 ^ 64" using offset_below_max [of b] by (simp add: usize_max_def)
  then show ?thesis by (simp add: unat_word_ariths)
qed

lemma less_plus_one: "a \<le> b \<Longrightarrow> b \<noteq> - 1 \<Longrightarrow> a < (b + 1 :: u64)"
  by (simp add: word_less_nat_alt word_le_nat_alt unat_plus_one)

lemma less_not_max: "a < (b :: u64) \<Longrightarrow> a \<noteq> - 1"
  using word_n1_ge [of b] by (auto simp: not_less [symmetric])

lemma less_le_pred: "a < b \<Longrightarrow> a \<le> sat_sub64 b 1"
proof -
  assume "a < b"
  then have "1 \<le> unat b" "unat a < unat b" by (simp_all add: word_less_nat_alt)
  moreover have "unat (b - 1) = unat b - 1"
    using \<open>1 \<le> unat b\<close> by (intro unat_minus_one) (auto simp: unat_eq_0)
  moreover have "(1 :: u64) \<le> b" using \<open>1 \<le> unat b\<close> by (simp add: word_le_nat_alt)
  ultimately show ?thesis by (simp add: sat_sub64_def word_le_nat_alt)
qed

section \<open>Opening: the running invariant after replay\<close>

lemma disk_parts:
  assumes "vs_ok crc s" "replaying C t s ops p"
  shows "vs_wf crc (rp_vectors p)" "hcount (rp_vectors p) = hcount s" "vs_dim (rp_vectors p) = vs_dim s"
    "slot_matches crc (rp_vectors p) off c = slot_matches crc s off c" "vs_slots (rp_vectors p) = vs_slots s"
  using replaying_vs_ok [OF assms(2,1)] replaying_slot [OF assms(2)] assms(2)
  by (simp_all add: vs_ok_wf slot_matches_def hcount_def file_header_def replaying_def Let_def)

text \<open>The log after the repair of its tail.\<close>

definition repaired :: "wal_lib \<Rightarrow> wal \<Rightarrow> wal" where
  "repaired L w = (if 0 < discarded_bytes (snd (read_all L (w_file w) (wal_iter_new w)))
     then truncate_to (wal_valid_end L w) w else w)"

lemma repaired_ok:
  assumes "w_version w = WAL_VERSION" "take WAL_HEADER_SIZE (w_file w) = header_bytes WAL_VERSION" "w_pos w = length (w_file w)"
  shows "wal_clean L (repaired L w)" "wal_ops L (repaired L w) = wal_ops L w"
    "take WAL_HEADER_SIZE (w_file (repaired L w)) = header_bytes WAL_VERSION"
proof -
  have hd: "WAL_HEADER_SIZE \<le> length (w_file w)"
    using arg_cong [OF assms(2), of length] by (simp add: header_bytes_parts)
  note b = wal_valid_end_bounds [OF hd, of L] and c = wal_cut_read [OF hd refl, of L]
  have dis: "discarded_bytes (snd (read_all L (w_file w) (wal_iter_new w))) = length (w_file w) - wal_valid_end L w"
    using wal_read_end [OF hd, of L] by (simp add: discarded_bytes_def wal_valid_end_def)
  show "wal_clean L (repaired L w)" "wal_ops L (repaired L w) = wal_ops L w"
    using c b hd assms dis by (auto simp: repaired_def wal_clean_def)
  show "take WAL_HEADER_SIZE (w_file (repaired L w)) = header_bytes WAL_VERSION"
    using assms(2) b by (simp add: repaired_def truncate_to_def set_len_def max_absorb1 Let_def min_absorb1)
qed


text \<open>The state after replay, with the counters moved past what was replayed.\<close>

definition replayed_meta :: "replay_state \<Rightarrow> mstore" where
  "replayed_meta p = (if rp_replayed p then advance_seq_past (rp_max_seq p) (advance_offset_past (rp_max_offset p) (rp_meta p))
     else rp_meta p)"

lemma advance_fields [simp]:
  "ms_db (advance_seq_past q ms) = ms_db ms" "ms_db (advance_offset_past off ms) = ms_db ms"
  "rec_view (advance_seq_past q ms) = rec_view ms" "rec_view (advance_offset_past off ms) = rec_view ms"
  "ms_inv C (advance_seq_past q ms) = ms_inv C ms" "ms_inv C (advance_offset_past off ms) = ms_inv C ms"
  "ms_next_seq (advance_seq_past q ms) = max (ms_next_seq ms) (q + 1)" "ms_next_seq (advance_offset_past off ms) = ms_next_seq ms"
  "ms_next_offset (advance_seq_past q ms) = ms_next_offset ms"
  "ms_next_offset (advance_offset_past off ms) = max (ms_next_offset ms) (off + 1)"
  by (simp_all add: advance_seq_past_def advance_offset_past_def rec_view_def ms_inv_def fun_eq_iff)

lemma replayed_counters:
  assumes "replaying C t s ops p" "snap_ok C t n" "log_ok crc t s ops R"
  shows "rec_view (replayed_meta p) off \<noteq> None \<Longrightarrow> off < ms_next_offset (replayed_meta p)"
    "(off, sq, c) \<in> pendings (la_of t) ops \<Longrightarrow> off < ms_next_offset (replayed_meta p) \<and> sq < ms_next_seq (replayed_meta p)"
    "off \<in> deletes ops \<Longrightarrow> off < ms_next_offset (replayed_meta p)"
    "la_of t < ms_next_seq (replayed_meta p)" "ms_db (replayed_meta p) = ms_db t"
    "rec_view (replayed_meta p) = R" "ms_inv C (replayed_meta p)"
proof -
  note r = assms(1) [unfolded replaying_def Let_def] and lo = assms(3) [unfolded log_ok_def]
  have nt: "ms_next_offset t \<le> ms_next_offset (replayed_meta p)" "ms_next_seq t \<le> ms_next_seq (replayed_meta p)"
    using r by (simp_all add: replayed_meta_def le_max_iff_disj)
  have "rec_view (rp_meta p) = spec_log (la_of t) (rec_view t) ops" using r by blast
  then have view: "rec_view (replayed_meta p) = spec_log (la_of t) (rec_view t) ops" by (simp add: replayed_meta_def)
  then show "rec_view (replayed_meta p) = R" using lo by simp
  have "ms_db (rp_meta p) = ms_db t" "ms_inv C (rp_meta p)" using r by blast+
  then show "ms_db (replayed_meta p) = ms_db t" "ms_inv C (replayed_meta p)" by (simp_all add: replayed_meta_def)
  show la: "la_of t < ms_next_seq (replayed_meta p)"
    using assms(2) nt(2) by (auto simp: snap_ok_def intro: order_less_le_trans)
  have pend: "off < ms_next_offset (replayed_meta p) \<and> sq < ms_next_seq (replayed_meta p)"
    if "(off, sq, c) \<in> pendings (la_of t) ops" for off sq c
  proof -
    have rp: "rp_replayed p" using r that by blast
    have le: "off \<le> rp_max_offset p" "sq \<le> rp_max_seq p" using r that by blast+
    have "rp_max_offset p \<noteq> - 1" "rp_max_seq p \<noteq> - 1"
    proof -
      have ne: "o' \<noteq> - 1" "q \<noteq> - 1" if "(o', q, c') \<in> pendings (la_of t) ops" for o' q c' using lo that by blast+
      have "rp_max_offset p = 0 \<or> (\<exists>sq c. (rp_max_offset p, sq, c) \<in> pendings (la_of t) ops)"
        "rp_max_seq p = la_of t \<or> (\<exists>off c. (off, rp_max_seq p, c) \<in> pendings (la_of t) ops)" using r by blast+
      then show "rp_max_offset p \<noteq> - 1" "rp_max_seq p \<noteq> - 1"
        using ne less_not_max [of "la_of t" "ms_next_seq t"] assms(2) by (auto simp: snap_ok_def)
    qed
    then have "off < rp_max_offset p + 1" "sq < rp_max_seq p + 1" using le less_plus_one by blast+
    then show ?thesis using rp by (simp add: replayed_meta_def less_max_iff_disj)
  qed
  then show "(off, sq, c) \<in> pendings (la_of t) ops \<Longrightarrow> off < ms_next_offset (replayed_meta p) \<and> sq < ms_next_seq (replayed_meta p)" .
  have live: "off < ms_next_offset (replayed_meta p)" if "rec_view t off \<noteq> None" for off
    using assms(2) that nt(1) unfolding snap_ok_def rec_view_dom by (meson order_less_le_trans)
  show "rec_view (replayed_meta p) off \<noteq> None \<Longrightarrow> off < ms_next_offset (replayed_meta p)"
    using spec_log_dom [of "la_of t" "rec_view t" ops off] live pend view by metis
  show "off < ms_next_offset (replayed_meta p)" if "off \<in> deletes ops"
  proof -
    from lo that consider "off < ms_next_offset t" | o' q c' where "(o', q, c') \<in> pendings (la_of t) ops" "off \<le> o'" by blast
    then show ?thesis using nt(1) pend by cases (auto intro: order_le_less_trans order_less_le_trans)
  qed
qed

lemma log_seqs_cases: "sq \<in> log_seqs ops \<Longrightarrow> sq \<le> la \<or> (\<exists>off c. (off, sq, c) \<in> pendings la ops)"
  by (force simp: log_seqs_def pendings_def not_less)

lemma replay_dur_inv:
  assumes "bincode_ok L" "ms_open C [] (Opened db) = Inr t" "wal_open wfile = Inr w"
    and "vs_ok (crc32 L) s" "vs_count s = hcount s" "w_version w = WAL_VERSION"
      "take WAL_HEADER_SIZE (w_file w) = header_bytes WAL_VERSION" "snap_ok C t (hcount s)" "log_ok (crc32 L) t s (wal_ops L w) R"
  defines "p \<equiv> replay_log L t s w"
  shows "dur_inv L C (replayed_meta p) (rp_vectors p) (repaired L w) R"
proof -
  have rp: "replaying C t s (wal_ops L w) p" unfolding p_def by (rule replay_log_ok [OF assms(4,5,8,9)])
  note r = rp [unfolded replaying_def Let_def] and parts = disk_parts [OF assms(4) rp]
    and cnt = replayed_counters [OF rp assms(8,9)]
  have pos: "w_pos w = length (w_file w)" using assms(3) by (auto simp: wal_open_Inr_iff header_bytes_parts split: if_splits)
  note w1 = repaired_ok [OF assms(6,7) pos, of L]
  have db: "ms_db t = db" using assms(2) by (auto simp: ms_open_def result_iff Let_def)
  have seqs: "sq < ms_next_seq (replayed_meta p)" if "sq \<in> log_seqs (wal_ops L w)" for sq
    using log_seqs_cases [OF that, of "la_of t"] cnt(2,4) by (meson order_le_less_trans)
  have recs: "unat off < vs_count (rp_vectors p)" if "R off \<noteq> None" for off
    using r cnt(6) that assms(9) unfolding log_ok_def by metis
  have pend: "unat off < vs_count (rp_vectors p) \<and> off < ms_next_offset (replayed_meta p)"
    if "(off, sq, c) \<in> pendings (la_of t) (wal_ops L w)" for off sq c
    using r that cnt(2) [OF that] by blast
  have lg: "log_ok (crc32 L) t (rp_vectors p) (wal_ops L (repaired L w)) R"
    using assms(9) parts w1(2) by (simp add: log_ok_def)
  have sn: "snap_ok C t (hcount (rp_vectors p))" using assms(8) parts by simp
  have hc: "hcount (rp_vectors p) \<le> vs_count (rp_vectors p)" using r parts assms(5) by simp
  have "run_ok L C t (replayed_meta p) (rp_vectors p) (repaired L w) R"
    unfolding run_ok_def w1(2) using parts(1) hc w1(1,3) cnt(1,3,4,6,7) recs pend seqs by auto
  then show ?thesis using assms(1,2) db lg sn cnt(5) unfolding dur_inv_def by auto
qed


section \<open>A running engine can be killed\<close>

lemma log_ok_slots:
  assumes "log_ok crc t vs ops R" "vs_slots vs \<le> vs_slots s"
    and "\<And>off sq c. (off, sq, c) \<in> pendings (la_of t) ops \<Longrightarrow> slot_matches crc s off c = slot_matches crc vs off c"
  shows "log_ok crc t s ops R"
proof -
  note lo = assms(1) [unfolded log_ok_def]
  have "off \<noteq> - 1 \<and> sq \<noteq> - 1 \<and> unat off < vs_slots s \<and> slot_matches crc s off c"
    if "(off, sq, c) \<in> pendings (la_of t) ops" for off sq c
  proof -
    have "off \<noteq> - 1 \<and> sq \<noteq> - 1 \<and> unat off < vs_slots vs \<and> slot_matches crc vs off c" using lo that by blast
    then show ?thesis using assms(2,3) that by auto
  qed
  then have "\<forall>off sq c. (off, sq, c) \<in> pendings (la_of t) ops \<longrightarrow>
      off \<noteq> - 1 \<and> sq \<noteq> - 1 \<and> unat off < vs_slots s \<and> slot_matches crc s off c" by blast
  then show ?thesis unfolding log_ok_def by (intro conjI conjunct1 [OF lo] conjunct2 [OF conjunct2 [OF lo]])
qed

lemma reopen_vectors:
  assumes "vs_wf crc vs" "hcount vs \<le> vs_count vs"
  shows "\<exists>s. vs_open crc (Some (vs_file vs)) (vs_dim vs) n = Inr s \<and> vs_ok crc s \<and> vs_count s = hcount s \<and>
    vs_dim s = vs_dim vs \<and> vs_slots vs \<le> vs_slots s \<and> hcount s = hcount vs \<and>
    (\<forall>off c. slot_matches crc s off c = slot_matches crc vs off c)"
proof -
  let ?v = "vs\<lparr>vs_mapped := True\<rparr>"
  have ok: "vs_ok crc ?v" using assms(1) by (simp add: vs_ok_wf)
  obtain s where s: "vs_open crc (Some (vs_file vs)) (vs_dim vs) n = Inr s" "vs_ok crc s" "vs_file s = vs_file vs"
    "vs_dim s = vs_dim vs" "vs_slots vs \<le> vs_slots s" "vs_count s = min (unat (h_count (file_header ?v))) (vs_slots s)"
    using vs_reopen [OF ok, of n] by auto
  have hc: "hcount s = hcount vs" "unat (h_count (file_header ?v)) = hcount vs" using s(3) by (simp_all add: hcount_def file_header_def)
  have "hcount vs \<le> vs_slots s" using assms(2) s(5) ok by (simp add: vs_ok_def)
  then have "vs_count s = hcount s" using s(6) hc by simp
  then show ?thesis using s hc by (auto simp: slot_matches_def slot_bytes_def)
qed

lemma dur_inv_disk:
  assumes "dur_inv L C ms vs w R"
  shows "disk_inv L C (vs_dim vs) n (disk_of ms vs w) R"
proof -
  obtain t where t: "bincode_ok L" "ms_open C [] (Opened (ms_db ms)) = Inr t" "snap_ok C t (hcount vs)"
    "log_ok (crc32 L) t vs (wal_ops L w) R" "run_ok L C t ms vs w R" using assms by (auto simp: dur_inv_def)
  obtain s where s: "vs_open (crc32 L) (Some (vs_file vs)) (vs_dim vs) n = Inr s" "vs_ok (crc32 L) s" "vs_count s = hcount s"
      "vs_dim s = vs_dim vs" "vs_slots vs \<le> vs_slots s" "hcount s = hcount vs"
      "\<And>off c. slot_matches (crc32 L) s off c = slot_matches (crc32 L) vs off c"
    using reopen_vectors [of "crc32 L" vs n] t(5) by (auto simp: run_ok_def)
  have "wal_open (w_file w) = Inr \<lparr>w_file = w_file w, w_pos = length (w_file w), w_version = WAL_VERSION\<rparr>"
    using t(5) by (intro wal_reopen) (simp add: run_ok_def)
  moreover have "\<lparr>w_file = w_file w, w_pos = length (w_file w), w_version = WAL_VERSION\<rparr> = w"
    using t(5) by (cases w) (simp add: run_ok_def wal_clean_def)
  ultimately have wo: "wal_open (w_file w) = Inr w" by simp
  have "log_ok (crc32 L) t s (wal_ops L w) R" by (rule log_ok_slots [OF t(4) s(5,7)])
  then show ?thesis
    unfolding disk_inv_def disk_of_def using t(1,2,3,5) s wo by (auto simp: run_ok_def wal_clean_def)
qed

section \<open>Writing vectors\<close>

text \<open>What a write to the vector file may do while no vector of the slots outside \<open>A\<close> changes.\<close>

definition vs_frame :: "(bytes \<Rightarrow> u32) \<Rightarrow> point_offset set \<Rightarrow> vstore \<Rightarrow> vstore \<Rightarrow> bool" where
  "vs_frame crc A vs vs' \<longleftrightarrow> vs_wf crc vs' \<and> vs_dim vs' = vs_dim vs \<and> vs_count vs \<le> vs_count vs' \<and>
     vs_slots vs \<le> vs_slots vs' \<and> hcount vs \<le> hcount vs' \<and> hcount vs' \<le> vs_count vs' \<and>
     (\<forall>off. unat off < vs_count vs \<and> off \<notin> A \<longrightarrow> slot_bytes vs' (unat off) = slot_bytes vs (unat off))"

lemma vs_frame_refl: "vs_wf crc vs \<Longrightarrow> hcount vs \<le> vs_count vs \<Longrightarrow> vs_frame crc A vs vs"
  by (simp add: vs_frame_def)

lemma vs_frame_trans: "vs_frame crc A vs vs1 \<Longrightarrow> vs_frame crc B vs1 vs2 \<Longrightarrow> vs_frame crc (A \<union> B) vs vs2"
  by (fastforce simp: vs_frame_def)

lemma set_len_frame:
  assumes "vs_wf crc s" "hcount s \<le> vs_count s" "HEADER_SIZE + vs_slots s * vs_dim s * 4 \<le> len" "len \<le> usize_max"
  shows "vs_frame crc A s (s\<lparr>vs_file := set_len len (vs_file s), vs_mapped := b\<rparr>)"
proof -
  let ?t = "s\<lparr>vs_mapped := True\<rparr>"
  have ok: "vs_ok crc ?t" using assms(1) by (simp add: vs_wf_def)
  have "take HEADER_SIZE (set_len len (vs_file s)) = take HEADER_SIZE (vs_file s)"
    using ok assms(3) by (simp add: set_len_def vs_ok_def)
  moreover have "slot_bytes (s\<lparr>vs_file := set_len len (vs_file s), vs_mapped := b\<rparr>) j = slot_bytes s j" if "j < vs_count s" for j
  proof -
    have "slot_start (vs_dim s) j + vs_dim s * 4 \<le> len \<and> slot_start (vs_dim s) j + vs_dim s * 4 \<le> length (vs_file s)"
      using vs_slot_bounds [OF ok, of j] slot_fits [OF _ assms(3), of j] that ok by (simp add: vs_ok_def)
    then show ?thesis by (simp add: slot_bytes_def read_at_set_len)
  qed
  ultimately show ?thesis
    using set_len_wf(1) [OF assms(1,3,4)] assms(2) by (simp add: vs_frame_def hcount_def file_header_def)
qed

lemma grow_err_frame:
  assumes "vs_wf crc s" "hcount s \<le> vs_count s" "grow_inner crc out s i = (Inl e, s')" "i < usize_max" "vs_slots s \<le> i"
  shows "vs_frame crc A s s'"
proof -
  let ?n = "max (max (i + 1) (saturating_mul (vs_slots s) 2)) 1024"
  let ?len = "HEADER_SIZE + ?n * vs_dim s * 4"
  have i: "(i + 1) mod 2 ^ 64 = i + 1" using assms(4) by (simp add: usize_max_def)
  have le: "HEADER_SIZE + vs_slots s * vs_dim s * 4 \<le> ?len"
    using assms(5) by (intro add_left_mono mult_le_mono1) simp
  have map: "vs_frame crc A s (s\<lparr>vs_mapped := b\<rparr>)" for b
    using assms(1,2) by (simp add: vs_frame_def slot_bytes_def hcount_def file_header_def)
  have "s' = s \<or> (\<exists>b. s' = s\<lparr>vs_mapped := b\<rparr>) \<or>
      ?len \<le> usize_max \<and> s' = s\<lparr>vs_file := set_len ?len (vs_file s), vs_mapped := False\<rparr>"
    using assms(3) i by (auto simp: grow_inner_def Let_def split: option.splits grow_outcome.splits bind_splits)
  then show ?thesis using map vs_frame_refl [OF assms(1,2)] set_len_frame [OF assms(1,2) le] by auto
qed

text \<open>A put that succeeds: the slot it wrote, and the count the header may have been stamped with.\<close>

lemma vs_put_header:
  assumes "vs_ok crc s" "vs_put crc out s off v = (Inr (), s')" "off \<noteq> - 1"
  shows "hcount s' = hcount s \<or> hcount s' = vs_count s"
proof -
  have lt: "unat off < usize_max" using assms(3) by (rule offset_below_max)
  have wv: "file_header (s1\<lparr>vs_file := write_vector (vs_file s1) (vs_dim s1) (unat off) v, vs_count := n\<rparr>) = file_header s1"
    if "vs_ok crc s1" "unat off < vs_slots s1" "length v = vs_dim s1" for s1 n
  proof -
    note b = vs_slot_bounds [OF that(1,2)]
    have "HEADER_SIZE \<le> slot_start (vs_dim s1) (unat off)" using b(1) by simp
    then show ?thesis using b(2) by (simp add: file_header_def write_vector_def take_write_at_after)
  qed
  show ?thesis
  proof (cases "vs_slots s \<le> unat off")
    case True
    obtain s1 where g: "grow_inner crc out s (unat off) = (Inr (), s1)"
      and s': "s' = s1\<lparr>vs_file := write_vector (vs_file s1) (vs_dim s1) (unat off) v,
                 vs_count := max (vs_count s1) ((unat off + 1) mod 2 ^ 64)\<rparr>"
      using assms(2) True by (auto simp: vs_put_def Let_def split: if_splits sum.splits prod.splits)
    note gi = grow_inner_ok [OF assms(1) g lt]
    have "length v = vs_dim s1" using vs_put_ok(3) [OF assms] gi(4) by simp
    from wv [OF gi(1,2) this] have "file_header s' = make_header crc (vs_dim s) (vs_count s)" using gi(7) s' by simp
    moreover have "vs_count s \<le> usize_max" using vs_slots_bound [OF assms(1)] assms(1) by (simp add: vs_ok_def)
    ultimately show ?thesis by (simp add: hcount_def)
  next
    case False
    then have "s' = s\<lparr>vs_file := write_vector (vs_file s) (vs_dim s) (unat off) v,
        vs_count := max (vs_count s) ((unat off + 1) mod 2 ^ 64)\<rparr>"
      using assms(2) by (auto simp: vs_put_def Let_def split: if_splits)
    then show ?thesis using wv [OF assms(1), of "max (vs_count s) ((unat off + 1) mod 2 ^ 64)"] False vs_put_ok(3) [OF assms]
      by (simp add: hcount_def)
  qed
qed

lemma vs_put_frame:
  assumes "vs_wf crc s" "hcount s \<le> vs_count s" "vs_put crc out s off v = (r, s')" "off \<noteq> - 1"
  shows "vs_frame crc {off} s s'"
    "r = Inr () \<Longrightarrow> slot_bytes s' (unat off) = Some (vec_bytes v) \<and> unat off < vs_count s' \<and> length v = vs_dim s"
proof -
  let ?t = "s\<lparr>vs_mapped := True\<rparr>"
  have ok: "vs_ok crc ?t" using assms(1) by (simp add: vs_wf_def)
  have hc: "hcount ?t = hcount s" by (simp add: hcount_def file_header_def)
  have "vs_frame crc {off} s s' \<and> (r = Inr () \<longrightarrow>
      slot_bytes s' (unat off) = Some (vec_bytes v) \<and> unat off < vs_count s' \<and> length v = vs_dim s)"
  proof (cases r)
    case (Inr u)
    then have p: "vs_put crc out s off v = (Inr (), s')" using assms(3) by simp
    note p' = vs_put_remap [OF p]
    note q = vs_put_ok [OF ok p' assms(4)] and h = vs_put_header [OF ok p' assms(4)]
    have sl: "slot_bytes ?t j = slot_bytes s j" for j by (simp add: slot_bytes_def)
    have cs: "vs_count s \<le> vs_slots s" using ok by (simp add: vs_ok_def)
    have "slot_bytes s' (unat j) = slot_bytes s (unat j)" if "unat j < vs_count s" "j \<noteq> off" for j
      using q(4) [of "unat j"] that cs sl by (simp add: word_unat_eq_iff)
    moreover have "hcount s \<le> hcount s'" "hcount s' \<le> vs_count s'" using h hc assms(2) q(5) by auto
    ultimately show ?thesis using q by (auto simp: vs_frame_def vs_ok_wf)
  next
    case (Inl e)
    have "vs_frame crc {off} s s'"
    proof (cases "length v = vs_dim s \<and> vs_slots s \<le> unat off")
      case True
      obtain q s1 where g: "grow_inner crc out s (unat off) = (q, s1)" by fastforce
      show ?thesis
      proof (cases q)
        case (Inl err)
        then have "s1 = s'" using True assms(3) g by (simp add: vs_put_def Let_def)
        then show ?thesis using grow_err_frame [OF assms(1,2) _ offset_below_max [OF assms(4)]] g Inl True by simp
      next
        case (Inr u)
        have gm: "grow_inner crc out ?t (unat off) = (Inr (), s1)"
          using g Inr by (auto simp: grow_inner_def Let_def split: option.splits grow_outcome.splits)
        have ok1: "vs_ok crc s1" "unat off < vs_slots s1"
          using grow_inner_ok [OF ok gm offset_below_max [OF assms(4)]] by simp_all
        then have False
          using True assms(3) g Inr vs_slot_bounds(2) [OF ok1] \<open>r = Inl e\<close>
          by (simp add: vs_put_def Let_def vs_ok_def split: if_splits)
        then show ?thesis ..
      qed
    next
      case False
      then have "s' = s" using assms(3) \<open>r = Inl e\<close> by (auto simp: vs_put_def Let_def split: if_splits)
      then show ?thesis using vs_frame_refl [OF assms(1,2)] by simp
    qed
    then show ?thesis using Inl by simp
  qed
  then show "vs_frame crc {off} s s'"
    "r = Inr () \<Longrightarrow> slot_bytes s' (unat off) = Some (vec_bytes v) \<and> unat off < vs_count s' \<and> length v = vs_dim s" by blast+
qed

lemma vs_flush_frame:
  assumes "vs_wf crc s" "hcount s \<le> vs_count s" "vs_flush crc s = (r, s')"
  shows "vs_frame crc A s s'" "r = Inr () \<Longrightarrow> hcount s' = vs_count s'" "vs_mapped s \<Longrightarrow> r = Inr ()"
proof -
  have "vs_frame crc A s s' \<and> (r = Inr () \<longrightarrow> hcount s' = vs_count s') \<and> (vs_mapped s \<longrightarrow> r = Inr ())"
  proof (cases "vs_mapped s")
    case True
    then have ok: "vs_ok crc s" using assms(1) by (simp add: vs_ok_wf)
    note f = vs_flush_ok [OF ok assms(3)]
    have "slot_bytes s' (unat j) = slot_bytes s (unat j)" if "unat j < vs_count s" for j :: u64
      using f(4) that ok by (simp add: vs_ok_def)
    then show ?thesis using f assms(2) by (simp add: vs_frame_def vs_ok_wf hcount_def)
  next
    case False
    then have "r = Inl Io" "s' = s" using assms(3) by (simp_all add: vs_flush_def)
    then show ?thesis using False vs_frame_refl [OF assms(1,2)] by simp
  qed
  then show "vs_frame crc A s s'" "r = Inr () \<Longrightarrow> hcount s' = vs_count s'" "vs_mapped s \<Longrightarrow> r = Inr ()" by blast+
qed

lemma dur_inv_frame:
  assumes "dur_inv L C ms vs w R" "vs_frame (crc32 L) A vs vs'" "\<And>off. off \<in> A \<Longrightarrow> \<not> off < ms_next_offset ms"
  shows "dur_inv L C ms vs' w R"
proof -
  obtain t where t: "bincode_ok L" "ms_open C [] (Opened (ms_db ms)) = Inr t" "snap_ok C t (hcount vs)"
    "log_ok (crc32 L) t vs (wal_ops L w) R" "run_ok L C t ms vs w R" using assms(1) by (auto simp: dur_inv_def)
  note fr = assms(2) [unfolded vs_frame_def] and ro = t(5) [unfolded run_ok_def]
  have kept: "slot_matches (crc32 L) vs' off c = slot_matches (crc32 L) vs off c"
    if "(off, sq, c') \<in> pendings (la_of t) (wal_ops L w)" for off sq c c'
  proof -
    have "unat off < vs_count vs" "off < ms_next_offset ms" using ro that by blast+
    then show ?thesis using fr assms(3) by (auto simp: slot_matches_def)
  qed
  have "snap_ok C t (hcount vs')" using t(3) fr unfolding snap_ok_def by (meson order_less_le_trans)
  moreover have "log_ok (crc32 L) t vs' (wal_ops L w) R" by (rule log_ok_slots [OF t(4) _ kept]) (use fr in auto)
  moreover have "run_ok L C t ms vs' w R"
  proof -
    have cnt: "vs_count vs \<le> vs_count vs'" using fr by blast
    have "unat off < vs_count vs'" if "R off \<noteq> None" for off using ro that cnt by (meson order_less_le_trans)
    moreover have "unat off < vs_count vs'" if "(off, sq, c) \<in> pendings (la_of t) (wal_ops L w)" for off sq c
    proof -
      have "unat off < vs_count vs" using ro that by blast
      then show ?thesis using cnt by simp
    qed
    ultimately show ?thesis using ro fr unfolding run_ok_def by blast
  qed
  ultimately show ?thesis using t(1,2) unfolding dur_inv_def by blast
qed


lemma dur_inv_E:
  assumes "dur_inv L C ms vs w R"
  obtains t where "bincode_ok L" "ms_open C [] (Opened (ms_db ms)) = Inr t" "snap_ok C t (hcount vs)"
    "log_ok (crc32 L) t vs (wal_ops L w) R" "run_ok L C t ms vs w R"
  using assms by (auto simp: dur_inv_def)

text \<open>Changes of the cache that are not logged: counters that move up, access statistics.\<close>

lemma dur_inv_cache:
  assumes "dur_inv L C ms vs w R" "ms_db ms' = ms_db ms" "ms_inv C ms'" "rec_view ms' = rec_view ms"
    "ms_next_offset ms \<le> ms_next_offset ms'" "ms_next_seq ms \<le> ms_next_seq ms'"
  shows "dur_inv L C ms' vs w R"
proof -
  obtain t where t: "bincode_ok L" "ms_open C [] (Opened (ms_db ms)) = Inr t" "snap_ok C t (hcount vs)"
    "log_ok (crc32 L) t vs (wal_ops L w) R" "run_ok L C t ms vs w R" by (rule dur_inv_E [OF assms(1)])
  note ro = t(5) [unfolded run_ok_def]
  have up: "x < ms_next_offset ms \<Longrightarrow> x < ms_next_offset ms'" "y < ms_next_seq ms \<Longrightarrow> y < ms_next_seq ms'" for x y
    using assms(5,6) by simp_all
  have "unat off < vs_count vs \<and> off < ms_next_offset ms'" if "(off, sq, c) \<in> pendings (la_of t) (wal_ops L w)" for off sq c
  proof -
    have "unat off < vs_count vs \<and> off < ms_next_offset ms" using ro that by blast
    then show ?thesis using up by simp
  qed
  then have "run_ok L C t ms' vs w R" using ro up assms(3,4) unfolding run_ok_def by simp
  then show ?thesis using t assms(2) unfolding dur_inv_def by auto
qed

section \<open>Logging operations\<close>

definition inserts :: "wal_op list \<Rightarrow> (point_offset \<times> u64 \<times> u32 option) set" where
  "inserts ops = {(off, sq, c). \<exists>op \<in> set ops. \<exists>m. op_insert op = Some (off, sq, m, c)}"

lemma pendings_inserts: "(off, sq, c) \<in> pendings la ops \<longleftrightarrow> la < sq \<and> (off, sq, c) \<in> inserts ops"
  by (auto simp: pendings_def inserts_def)

lemma log_seqs_inserts: "sq \<in> log_seqs ops \<longleftrightarrow> (\<exists>off c. (off, sq, c) \<in> inserts ops)"
  by (auto simp: log_seqs_def inserts_def)

lemma spec_log_later: "(\<And>off sq c. (off, sq, c) \<in> inserts ops \<Longrightarrow> la < sq) \<Longrightarrow> spec_log la R ops = spec_log 0 R ops"
proof (induction ops arbitrary: R)
  case (Cons op ops)
  have "la < sq" if "op_insert op = Some (off, sq, m, c)" for off sq m c
    using Cons.prems [of off sq c] that by (auto simp: inserts_def)
  moreover have "(0 :: u64) < sq" if "la < sq" for sq using that by (meson order_le_less_trans word_zero_le)
  ultimately have "spec_step la R op = spec_step 0 R op" by (cases op) auto
  moreover have "la < sq" if "(off, sq, c) \<in> inserts ops" for off sq c
    using Cons.prems [of off sq c] that by (auto simp: inserts_def)
  ultimately show ?case using Cons.IH by simp
qed simp

lemma spec_log_deleted:
  "off \<in> deletes ops \<Longrightarrow> (\<And>sq c. (off, sq, c) \<notin> inserts ops) \<Longrightarrow> spec_log la R ops off = None"
proof (induction ops rule: rev_induct)
  case (snoc op ops)
  have ni: "(off, sq, c) \<notin> inserts ops" "op_insert op \<noteq> Some (off, sq, m, c)" for sq m c
    using snoc.prems(2) [of sq c] by (auto simp: inserts_def)
  show ?case
  proof (cases "off \<in> deletes ops")
    case True
    then have "spec_log la R ops off = None" using snoc.IH ni(1) by blast
    then show ?thesis using ni(2) by (cases op) (auto split: if_splits)
  next
    case False
    then have "op = Delete off" using snoc.prems(1) by (cases op) auto
    then show ?thesis by simp
  qed
qed simp

text \<open>What the engine logs: insertions at fresh offsets and sequence numbers whose vectors are in
  their slots, and deletions of live records.\<close>

definition new_ops :: "(bytes \<Rightarrow> u32) \<Rightarrow> mstore \<Rightarrow> vstore \<Rightarrow> (point_offset \<rightharpoonup> meta_record) \<Rightarrow> u64 \<Rightarrow> u64 \<Rightarrow> wal_op list \<Rightarrow> bool" where
  "new_ops crc ms vs R next_offset next_seq ops \<longleftrightarrow>
     (\<forall>off sq c. (off, sq, c) \<in> inserts ops \<longrightarrow> ms_next_offset ms \<le> off \<and> off < next_offset \<and> ms_next_seq ms \<le> sq \<and>
        sq < next_seq \<and> unat off < vs_count vs \<and> slot_matches crc vs off c) \<and>
     (\<forall>off \<in> deletes ops. R off \<noteq> None)"

lemma new_ops_take: "new_ops crc ms vs R a b ops \<Longrightarrow> new_ops crc ms vs R a b (take k ops)"
proof -
  have "inserts (take k ops) \<subseteq> inserts ops" "deletes (take k ops) \<subseteq> deletes ops"
    by (auto simp: inserts_def deletes_def dest: in_set_takeD)
  then show "new_ops crc ms vs R a b ops \<Longrightarrow> ?thesis" unfolding new_ops_def by blast
qed

lemma log_ok_append:
  assumes "run_ok L C t ms vs w R" "snap_ok C t n" "log_ok (crc32 L) t vs (wal_ops L w) R" "new_ops (crc32 L) ms vs R a b ops"
  shows "log_ok (crc32 L) t vs (wal_ops L w @ ops) (spec_log 0 R ops)"
proof -
  note ro = assms(1) [unfolded run_ok_def] and lo = assms(3) [unfolded log_ok_def] and nw = assms(4) [unfolded new_ops_def]
  let ?R = "spec_log 0 R ops" and ?old = "wal_ops L w" and ?la = "la_of t"
  have seq: "?la < sq" if "(off, sq, c) \<in> inserts ops" for off sq c
    using nw that ro by (meson order_less_le_trans)
  have spec: "spec_log ?la (rec_view t) (?old @ ops) = ?R"
    using lo spec_log_later [of ops ?la R] seq by simp
  have slots: "vs_count vs \<le> vs_slots vs" using ro by (simp add: vs_wf_def vs_ok_def)
  have pend: "off \<noteq> - 1 \<and> sq \<noteq> - 1 \<and> unat off < vs_slots vs \<and> slot_matches (crc32 L) vs off c"
    if "(off, sq, c) \<in> pendings ?la (?old @ ops)" for off sq c
  proof (cases "(off, sq, c) \<in> pendings ?la ?old")
    case True
    then show ?thesis using lo by blast
  next
    case False
    then have "(off, sq, c) \<in> inserts ops" using that by (auto simp: pendings_inserts)
    then have "off < a" "sq < b" "unat off < vs_count vs" "slot_matches (crc32 L) vs off c" using nw by blast+
    then show ?thesis using less_not_max slots by fastforce
  qed
  have bound: "off < ms_next_offset t \<or> (\<exists>o' q c. (o', q, c) \<in> pendings ?la (?old @ ops) \<and> off \<le> o')" if "R off \<noteq> None" for off
  proof -
    have "spec_log ?la (rec_view t) ?old off \<noteq> None" using lo that by simp
    then have "rec_view t off \<noteq> None \<or> (\<exists>sq c. (off, sq, c) \<in> pendings ?la ?old)" by (rule spec_log_dom)
    then show ?thesis
    proof
      assume "rec_view t off \<noteq> None"
      then show ?thesis using assms(2) unfolding snap_ok_def rec_view_dom by blast
    next
      assume "\<exists>sq c. (off, sq, c) \<in> pendings ?la ?old"
      then show ?thesis unfolding pendings_simps by blast
    qed
  qed
  have del: "?R off = None \<and> (off < ms_next_offset t \<or> (\<exists>o' q c. (o', q, c) \<in> pendings ?la (?old @ ops) \<and> off \<le> o'))"
    if "off \<in> deletes (?old @ ops)" for off
  proof -
    have lt: "off < ms_next_offset ms" using that ro nw by auto
    then have fresh: "(off, sq, c) \<notin> inserts ops" for sq c using nw by (meson not_less)
    have "?R off = None"
    proof (cases "off \<in> deletes ops")
      case True
      then show ?thesis using spec_log_deleted fresh by blast
    next
      case False
      then have "R off = None" using that lo by auto
      then show ?thesis using spec_log_dom [of 0 R ops off] fresh pendings_inserts by blast
    qed
    moreover have "off < ms_next_offset t \<or> (\<exists>o' q c. (o', q, c) \<in> pendings ?la (?old @ ops) \<and> off \<le> o')"
    proof (cases "off \<in> deletes ops")
      case True
      then show ?thesis using bound [of off] nw by blast
    next
      case False
      then have "off \<in> deletes ?old" using that by simp
      then have "off < ms_next_offset t \<or> (\<exists>o' q c. (o', q, c) \<in> pendings ?la ?old \<and> off \<le> o')" using lo by blast
      then show ?thesis unfolding pendings_simps by blast
    qed
    ultimately show ?thesis by blast
  qed
  show ?thesis unfolding log_ok_def using spec pend del by blast
qed

lemma dur_inv_append:
  assumes "dur_inv L C ms vs w R" "new_ops (crc32 L) ms vs R (ms_next_offset ms') (ms_next_seq ms') ops"
    and "append_batch L out ops w = (Inr (), w')"
    and "ms_db ms' = ms_db ms" "ms_inv C ms'" "rec_view ms' = spec_log 0 R ops"
      "ms_next_offset ms \<le> ms_next_offset ms'" "ms_next_seq ms \<le> ms_next_seq ms'"
  shows "dur_inv L C ms' vs w' (spec_log 0 R ops)"
proof -
  let ?R = "spec_log 0 R ops"
  obtain t where t: "bincode_ok L" "ms_open C [] (Opened (ms_db ms)) = Inr t" "snap_ok C t (hcount vs)"
    "log_ok (crc32 L) t vs (wal_ops L w) R" "run_ok L C t ms vs w R" by (rule dur_inv_E [OF assms(1)])
  note ro = t(5) [unfolded run_ok_def] and nw = assms(2) [unfolded new_ops_def]
  have lg: "log_ok (crc32 L) t vs (wal_ops L w @ ops) ?R" by (rule log_ok_append [OF t(5,3,4) assms(2)])
  obtain buf where app: "wal_clean L w'" "wal_ops L w' = wal_ops L w @ ops" "w_file w' = w_file w @ buf"
    using append_batch_ok [OF t(1) _ assms(3)] ro by blast
  have hd: "take WAL_HEADER_SIZE (w_file w') = header_bytes WAL_VERSION"
    using app(3) ro by (simp add: wal_clean_def)
  have up: "x < ms_next_offset ms \<Longrightarrow> x < ms_next_offset ms'" "y < ms_next_seq ms \<Longrightarrow> y < ms_next_seq ms'" for x y
    using assms(7,8) by simp_all
  have pend: "unat off < vs_count vs \<and> off < ms_next_offset ms'"
    if "(off, sq, c) \<in> pendings (la_of t) (wal_ops L w) \<or> (off, sq, c) \<in> inserts ops" for off sq c
  proof -
    have "unat off < vs_count vs \<and> off < ms_next_offset ms \<or> unat off < vs_count vs \<and> off < ms_next_offset ms'"
      using ro nw that by blast
    then show ?thesis using up by blast
  qed
  have recs: "unat off < vs_count vs \<and> off < ms_next_offset ms'" if "?R off \<noteq> None" for off
  proof -
    have "R off \<noteq> None \<or> (\<exists>sq c. (off, sq, c) \<in> inserts ops)"
      using spec_log_dom [OF that] by (auto simp: pendings_inserts)
    then show ?thesis using ro up pend by blast
  qed
  have dels: "off < ms_next_offset ms'" if "off \<in> deletes (wal_ops L w) \<or> off \<in> deletes ops" for off
    using that ro nw up by blast
  have seqs: "sq < ms_next_seq ms'" if "sq \<in> log_seqs (wal_ops L w) \<or> sq \<in> log_seqs ops" for sq
    using that
  proof
    assume "sq \<in> log_seqs (wal_ops L w)"
    then show ?thesis using ro up(2) by blast
  next
    assume "sq \<in> log_seqs ops"
    then show ?thesis using nw unfolding log_seqs_inserts by blast
  qed
  have pend': "\<forall>off sq c. (off, sq, c) \<in> pendings (la_of t) (wal_ops L w @ ops) \<longrightarrow>
      unat off < vs_count vs \<and> off < ms_next_offset ms'"
    using pend unfolding pendings_simps Un_iff by (auto simp: pendings_inserts [of _ _ _ _ ops])
  have "run_ok L C t ms' vs w' ?R"
    unfolding run_ok_def app(2) using ro app(1) hd assms(5,6) recs pend' dels seqs up(2) by simp
  then show ?thesis using t(1,2,3) lg app(2) assms(4) unfolding dur_inv_def by auto
qed

text \<open>A kill during the append: the files recover to the old records with a prefix of the batch.\<close>

lemma dur_inv_torn:
  assumes "dur_inv L C ms vs w R" "new_ops (crc32 L) ms vs R a b ops"
    and "append_batch L out ops w = (Inr (), w')" "length (w_file w) \<le> n"
  shows "\<exists>k. disk_inv L C (vs_dim vs) m (disk_of ms vs (w'\<lparr>w_file := take n (w_file w')\<rparr>)) (spec_log 0 R (take k ops))"
proof -
  obtain t where t: "bincode_ok L" "ms_open C [] (Opened (ms_db ms)) = Inr t" "snap_ok C t (hcount vs)"
    "log_ok (crc32 L) t vs (wal_ops L w) R" "run_ok L C t ms vs w R" by (rule dur_inv_E [OF assms(1)])
  note ro = t(5) [unfolded run_ok_def]
  have cl: "wal_clean L w" using ro by blast
  let ?w = "\<lparr>w_file = take n (w_file w'), w_pos = length (take n (w_file w')), w_version = WAL_VERSION\<rparr>"
  obtain buf where app: "wal_clean L w'" "w_file w' = w_file w @ buf" using append_batch_ok [OF t(1) cl assms(3)] by blast
  obtain k where k: "wal_ops L (w'\<lparr>w_file := take n (w_file w')\<rparr>) = wal_ops L w @ take k ops"
    using torn_append_reads [OF t(1) cl assms(3,4)] by blast
  have ops: "wal_ops L ?w = wal_ops L w @ take k ops"
    using k app(1) by (simp add: wal_ops_def wal_iter_new_def wal_clean_def)
  have hd: "take WAL_HEADER_SIZE (take n (w_file w')) = header_bytes WAL_VERSION"
    using app(2) ro assms(4) cl by (simp add: wal_clean_def min_absorb1)
  then have wo: "wal_open (take n (w_file w')) = Inr ?w" by (rule wal_reopen)
  let ?R = "spec_log 0 R (take k ops)"
  obtain D s where D: "ms_open C [] (Opened (ms_db ms)) = Inr t" "vs_open (crc32 L) (Some (vs_file vs)) (vs_dim vs) m = Inr s"
      "vs_ok (crc32 L) s" "vs_count s = hcount s" "vs_dim s = vs_dim vs" "vs_slots vs \<le> vs_slots s" "hcount s = hcount vs"
      "\<And>off c. slot_matches (crc32 L) s off c = slot_matches (crc32 L) vs off c"
    using reopen_vectors [of "crc32 L" vs m] t(2) ro by auto
  have "log_ok (crc32 L) t s (wal_ops L ?w) ?R"
    unfolding ops by (rule log_ok_slots [OF log_ok_append [OF t(5,3,4) new_ops_take [OF assms(2)]] D(6,8)])
  then show ?thesis
    unfolding disk_inv_def disk_of_def using t(1,2,3) D wo hd by (intro exI [of _ k]) auto
qed


section \<open>Flushing and clearing\<close>

lemma ms_flush_cases:
  assumes "ms_inv C s" "ms_flush C out q s = (Inr (), s')"
  shows "s' = s \<and> ms_clean s \<and> last_applied_seq s = Some q \<and> fmdom (ms_records s) = {||} \<or>
    ms_inv C s' \<and> ms_clean s' \<and> ms_records s' = ms_records s \<and>
    ms_next_offset s' = ms_next_offset s \<and> ms_next_seq s' = ms_next_seq s \<and> last_applied_seq s' = Some q \<and>
    load_meta (ms_db s') ''next_offset'' = Some (u64_to_string (ms_next_offset s)) \<and>
    load_meta (ms_db s') ''next_seq'' = Some (u64_to_string (ms_next_seq s))"
proof -
  let ?s1 = "s\<lparr>ms_dirty := {||}, ms_demotion_dirty := {||}, ms_history_dirty := {||}\<rparr>"
  have la: "last_applied_seq ?s1 = last_applied_seq s" by (simp add: last_applied_seq_def)
  show ?thesis
  proof (cases "ms_clean s \<and> last_applied_seq s = Some q \<and> fmdom (ms_records s) = {||}")
    case True
    then have "s' = ?s1" using assms(2) la by (simp add: ms_flush_def Let_def ms_clean_def)
    moreover have "?s1 = s" using True by (cases s) (simp add: ms_clean_def)
    ultimately show ?thesis using True by simp
  next
    case False
    then have "write_snapshot C out (ms_dirty s) (ms_demotion_dirty s) (ms_history_dirty s) q ?s1 = (Inr (), s')"
      using assms(2) la by (auto simp: ms_flush_def Let_def ms_clean_def split: if_splits sum.splits prod.splits)
    from write_snapshot_Inr [OF assms(1) this] show ?thesis by simp
  qed
qed

text \<open>Between the snapshot of the vectors and the truncation of the log, the snapshot holds all
  records and the log replays to nothing on it.\<close>

definition captured :: "meta_codec \<Rightarrow> mstore \<Rightarrow> (point_offset \<rightharpoonup> meta_record) \<Rightarrow> bool" where
  "captured C ms R \<longleftrightarrow> (\<forall>t. ms_open C [] (Opened (ms_db ms)) = Inr t \<longrightarrow> rec_view t = R)"

lemma dur_inv_flush:
  assumes "dur_inv L C ms vs w R" "hcount vs = vs_count vs" "ms_flush C out q ms = (r, ms')"
    and q: "q < ms_next_seq ms" "\<And>sq. sq \<in> log_seqs (wal_ops L w) \<Longrightarrow> sq \<le> q"
  shows "dur_inv L C ms' vs w R" "r = Inr () \<Longrightarrow> captured C ms' R"
    "ms_next_offset ms' = ms_next_offset ms \<and> ms_next_seq ms' = ms_next_seq ms \<and> ms_records ms' = ms_records ms"
proof -
  obtain t where t: "bincode_ok L" "ms_open C [] (Opened (ms_db ms)) = Inr t" "snap_ok C t (hcount vs)"
    "log_ok (crc32 L) t vs (wal_ops L w) R" "run_ok L C t ms vs w R" by (rule dur_inv_E [OF assms(1)])
  note ro = t(5) [unfolded run_ok_def] and lo = t(4) [unfolded log_ok_def]
  have inv: "ms_inv C ms" and view: "rec_view ms = R" using ro by blast+
  have "dur_inv L C ms' vs w R \<and> (r = Inr () \<longrightarrow> captured C ms' R) \<and>
    ms_next_offset ms' = ms_next_offset ms \<and> ms_next_seq ms' = ms_next_seq ms \<and> ms_records ms' = ms_records ms"
  proof (cases r)
    case (Inl e)
    then have "ms' = ms" using assms(3) ms_flush_Inl by blast
    then show ?thesis using assms(1) Inl by simp
  next
    case (Inr u)
    then have fl: "ms_flush C out q ms = (Inr (), ms')" using assms(3) by simp
    have cap: "captured C ms'' R" if "ms_inv C ms''" "ms_clean ms''" "ms_records ms'' = ms_records ms" for ms''
    proof -
      note th = that
      obtain t' where "ms_open C [] (Opened (ms_db ms'')) = Inr t'" "ms_records t' = ms_records ms''"
        using ms_open_clean [OF th(1,2), of "[]"] by blast
      then show ?thesis using view th(3) by (auto simp: captured_def rec_view_def fun_eq_iff)
    qed
    from ms_flush_cases [OF inv fl] show ?thesis
    proof (elim disjE conjE)
      assume "ms' = ms" "ms_clean ms"
      then show ?thesis using cap [of ms] inv assms(1) by simp
    next
      assume m: "ms_inv C ms'" "ms_clean ms'" "ms_records ms' = ms_records ms" "ms_next_offset ms' = ms_next_offset ms"
        "ms_next_seq ms' = ms_next_seq ms" "last_applied_seq ms' = Some q"
        "load_meta (ms_db ms') ''next_offset'' = Some (u64_to_string (ms_next_offset ms))"
        "load_meta (ms_db ms') ''next_seq'' = Some (u64_to_string (ms_next_seq ms))"
      obtain t' where t': "ms_open C [] (Opened (ms_db ms')) = Inr t'" "ms_inv C t'" "ms_db t' = ms_db ms'"
        "ms_records t' = ms_records ms" "ms_next_offset t' = ms_next_offset ms" "ms_next_seq t' = ms_next_seq ms"
        using ms_open_clean [OF m(1,2), of "[]"] m(3,7,8) by auto
      have la: "last_applied_seq t' = Some q" using t'(3) m(6) by (simp add: last_applied_seq_def)
      then have laq: "la_of t' = q" by (simp add: la_of_def)
      have vt: "rec_view t' = R" "rec_view ms' = R" using t'(4) m(3) view by (auto simp: rec_view_def fun_eq_iff)
      have none: "pendings q (wal_ops L w) = {}"
      proof -
        have "\<not> (off, sq, c) \<in> pendings q (wal_ops L w)" for off sq c
          using q(2) [of sq] unfolding pendings_inserts log_seqs_inserts by (meson leD)
        then show ?thesis by (metis equals0I surj_pair)
      qed
      have live: "unat off < vs_count vs \<and> off < ms_next_offset ms" if "fmlookup (ms_records ms) off \<noteq> None" for off
        using ro that unfolding view [symmetric] rec_view_dom by blast
      have "snap_ok C t' (hcount vs)"
        unfolding snap_ok_def t'(4,5,6) laq la assms(2) using t'(2) q(1) live by simp
      moreover have "log_ok (crc32 L) t' vs (wal_ops L w) R"
        unfolding log_ok_def laq vt none t'(5) using spec_log_applied [OF none] lo ro by simp
      moreover have "run_ok L C t' ms' vs w R"
        unfolding run_ok_def laq vt none m(4,5) using ro m(1) q(1) by simp
      ultimately have "dur_inv L C ms' vs w R" using t(1) t'(1) unfolding dur_inv_def by blast
      then show ?thesis using cap [OF m(1,2,3)] m(3,4,5) by simp
    qed
  qed
  then show "dur_inv L C ms' vs w R" "r = Inr () \<Longrightarrow> captured C ms' R"
    "ms_next_offset ms' = ms_next_offset ms \<and> ms_next_seq ms' = ms_next_seq ms \<and> ms_records ms' = ms_records ms" by blast+
qed

definition torn_clear :: "clear_outcome \<Rightarrow> bool" where
  "torn_clear out \<longleftrightarrow> (\<exists>n. out = HeaderTorn n)"

lemma dur_inv_clear:
  assumes "dur_inv L C ms vs w R" "captured C ms R" "\<not> torn_clear out" "clear_log out w = (r, w')"
  shows "dur_inv L C ms vs w' R"
proof -
  obtain t where t: "bincode_ok L" "ms_open C [] (Opened (ms_db ms)) = Inr t" "snap_ok C t (hcount vs)"
    "log_ok (crc32 L) t vs (wal_ops L w) R" "run_ok L C t ms vs w R" by (rule dur_inv_E [OF assms(1)])
  note ro = t(5) [unfolded run_ok_def]
  have cl: "wal_clean L w" using ro by blast
  then have "(wal_clear w)\<lparr>w_version := w_version w\<rparr> = wal_clear w"
    by (simp add: wal_clear_def wal_clean_def)
  then consider "w' = w" | "w' = wal_clear w"
    using assms(3,4) by (cases out) (auto simp: clear_log_def torn_clear_def)
  then show ?thesis
  proof cases
    case 1
    then show ?thesis using assms(1) by simp
  next
    case 2
    have ops: "wal_ops L w' = []" "wal_clean L w'" using wal_clear_clean [of L w] 2 by simp_all
    have hd: "take WAL_HEADER_SIZE (w_file w') = header_bytes WAL_VERSION"
      using 2 by (simp add: wal_clear_def header_bytes_parts)
    have "rec_view t = R" using assms(2) t(2) by (simp add: captured_def)
    then have "log_ok (crc32 L) t vs (wal_ops L w') R" by (simp add: log_ok_def ops)
    moreover have "run_ok L C t ms vs w' R" using ro ops hd by (simp add: run_ok_def)
    ultimately show ?thesis using t(1,2,3) unfolding dur_inv_def by blast
  qed
qed

text \<open>Single values saved beside the counters do not touch what is recovered.\<close>

lemma ms_open_other:
  assumes "ms_open C f (Opened db) = Inr t" "db_records db' = db_records db" "db_demotion db' = db_demotion db"
    "db_history db' = db_history db" "load_meta db' ''next_offset'' = load_meta db ''next_offset''"
    "load_meta db' ''next_seq'' = load_meta db ''next_seq''"
  shows "ms_open C f (Opened db') = Inr (t\<lparr>ms_db := db'\<rparr>)"
proof -
  have "load_records C db' = load_records C db" "load_demotion db' = load_demotion db"
    "load_access_history C db' = load_access_history C db"
    using assms by (simp_all add: load_records_def load_demotion_def load_access_history_def)
  then show ?thesis using assms(1,5,6) unfolding ms_open_def db_open.case Let_def result_iff by force
qed

lemma dur_inv_other:
  assumes "dur_inv L C ms vs w R" "db_records db' = db_records (ms_db ms)" "db_demotion db' = db_demotion (ms_db ms)"
    "db_history db' = db_history (ms_db ms)"
    "\<And>k. k \<in> {''next_offset'', ''next_seq'', ''last_applied_seq''} \<Longrightarrow> load_meta db' k = load_meta (ms_db ms) k"
  shows "dur_inv L C (ms\<lparr>ms_db := db'\<rparr>) vs w R" "captured C ms R \<Longrightarrow> captured C (ms\<lparr>ms_db := db'\<rparr>) R"
proof -
  obtain t where t: "bincode_ok L" "ms_open C [] (Opened (ms_db ms)) = Inr t" "snap_ok C t (hcount vs)"
    "log_ok (crc32 L) t vs (wal_ops L w) R" "run_ok L C t ms vs w R" by (rule dur_inv_E [OF assms(1)])
  let ?t = "t\<lparr>ms_db := db'\<rparr>"
  have o: "ms_open C [] (Opened db') = Inr ?t"
    by (rule ms_open_other [OF t(2)]) (use assms in auto)
  have dbt: "ms_db t = ms_db ms" using t(2) by (auto simp: ms_open_def result_iff Let_def)
  have la: "last_applied_seq ?t = last_applied_seq t" "la_of ?t = la_of t"
    using assms(5) dbt by (simp_all add: last_applied_seq_def la_of_def)
  have inv: "ms_inv C (x\<lparr>ms_db := db'\<rparr>) = ms_inv C x" if "ms_db x = ms_db ms" for x
    using that assms(2-4) by (simp add: ms_inv_def)
  have rv: "rec_view (x\<lparr>ms_db := db'\<rparr>) = rec_view x" for x by (simp add: rec_view_def fun_eq_iff)
  have "snap_ok C ?t (hcount vs)" using t(3) la inv [OF dbt] by (simp add: snap_ok_def)
  moreover have "log_ok (crc32 L) ?t vs (wal_ops L w) R" using t(4) la rv by (simp add: log_ok_def)
  moreover have "run_ok L C ?t (ms\<lparr>ms_db := db'\<rparr>) vs w R" using t(5) la inv rv by (simp add: run_ok_def)
  ultimately show "dur_inv L C (ms\<lparr>ms_db := db'\<rparr>) vs w R" using t(1) o unfolding dur_inv_def by auto
  show "captured C ms R \<Longrightarrow> captured C (ms\<lparr>ms_db := db'\<rparr>) R"
    using o t(2) rv by (simp add: captured_def)
qed


section \<open>Opening restores the records\<close>

lemma persist_replay_ok:
  assumes "dur_inv L C ms vs w R" "vs_mapped vs" "persist_replay L C env q ms vs w = (r, ms', vs', w')"
    and "q < ms_next_seq ms" "\<And>sq. sq \<in> log_seqs (wal_ops L w) \<Longrightarrow> sq \<le> q" "\<not> torn_clear (oe_clear env)"
  shows "dur_inv L C ms' vs' w' R" "vs_dim vs' = vs_dim vs" "vs_mapped vs'" "vs_count vs \<le> vs_count vs'"
    "oe_vsync_ok env \<Longrightarrow> oe_txn env = TxnOk \<Longrightarrow> oe_fsync_ok env \<Longrightarrow> oe_clear env = ClearOk \<Longrightarrow> fst (ms_flush C TxnOk q ms) = Inr () \<Longrightarrow> r = Inr ()"
    "ms_records ms' = ms_records ms"
    "unat (off :: point_offset) < vs_count vs \<Longrightarrow> slot_bytes vs' (unat off) = slot_bytes vs (unat off)"
proof -
  obtain t where t: "run_ok L C t ms vs w R" by (rule dur_inv_E [OF assms(1)])
  then have wf: "vs_wf (crc32 L) vs" "hcount vs \<le> vs_count vs" by (simp_all add: run_ok_def)
  obtain r1 vs1 where f: "vs_flush (crc32 L) vs = (r1, vs1)" by fastforce
  note fr = vs_flush_frame [OF wf f]
  have r1: "r1 = Inr ()" using fr(3) assms(2) by simp
  have d1: "dur_inv L C ms vs1 w R" by (rule dur_inv_frame [OF assms(1) fr(1) [of "{}"]]) simp
  have m1: "vs_mapped vs1" using assms(2) f by (auto simp: vs_flush_def Let_def split: if_splits)
  obtain r2 ms1 where g: "ms_flush C (oe_txn env) q ms = (r2, ms1)" by fastforce
  have fl: "dur_inv L C ms1 vs1 w R" "r2 = Inr () \<Longrightarrow> captured C ms1 R" "ms_records ms1 = ms_records ms"
    using dur_inv_flush [OF d1 fr(2) [OF r1] g assms(4) assms(5)] by blast+
  obtain r3 w1 where c: "clear_log (oe_clear env) w = (r3, w1)" by fastforce
  have d3: "dur_inv L C ms1 vs1 w1 R" if "r2 = Inr ()" by (rule dur_inv_clear [OF fl(1) fl(2) [OF that] assms(6) c])
  have e: "persist_replay L C env q ms vs w = (if \<not> oe_vsync_ok env then (Inl Io, ms, vs1, w) else case r2 of Inl x \<Rightarrow> (Inl x, ms1, vs1, w)
      | Inr _ \<Rightarrow> if oe_fsync_ok env then (r3, ms1, vs1, w1) else (Inl Io, ms1, vs1, w))"
    using f r1 g c by (simp add: persist_replay_def split: sum.split)
  have eq: "ms' = ms \<or> ms' = ms1" "vs' = vs1" using assms(3) e by (auto split: sum.splits if_splits)
  show "dur_inv L C ms' vs' w' R" using assms(3) e fl(1) d1 d3 by (cases r2) (auto split: if_splits)
  show "vs_dim vs' = vs_dim vs" "vs_count vs \<le> vs_count vs'" using eq fr(1) [of "{}"] by (simp_all add: vs_frame_def)
  show "vs_mapped vs'" using eq m1 by simp
  show "ms_records ms' = ms_records ms" using eq fl(3) by auto
  show "unat (off :: point_offset) < vs_count vs \<Longrightarrow> slot_bytes vs' (unat off) = slot_bytes vs (unat off)"
    using eq fr(1) [of "{}"] by (simp add: vs_frame_def)
  assume "oe_vsync_ok env" "oe_txn env = TxnOk" "oe_fsync_ok env" "oe_clear env = ClearOk" "fst (ms_flush C TxnOk q ms) = Inr ()"
  then show "r = Inr ()" using assms(3) e g c by (auto simp: clear_log_def)
qed

text \<open>The records beyond the vectors check never fires, and the missing-metadata check only on a store
  that holds no record.\<close>

lemma check_vectors_ok:
  assumes "dur_inv L C ms vs w R"
  shows "check_vectors fresh n replayed ms vs = Inr () \<or>
    check_vectors fresh n replayed ms vs = Inl (Corrupted ''vectors.bin holds vectors but memory.redb has no records'') \<and>
    fresh \<and> \<not> replayed \<and> 0 < n"
proof -
  obtain t where t: "run_ok L C t ms vs w R" by (rule dur_inv_E [OF assms])
  have live: "unat off < vs_count vs" if "off |\<in>| fmdom (ms_records ms)" for off
  proof -
    have "rec_view ms off \<noteq> None" using that by (simp add: rec_view_def fmlookup_dom_iff)
    then show ?thesis using t unfolding run_ok_def by blast
  qed
  have "foldr max ks 0 \<in> set ks" if "ks \<noteq> []" for ks :: "u64 list"
    using that
  proof (induction ks)
    case (Cons a ks)
    show ?case
    proof (cases "ks = []")
      case True
      have "max a 0 = a" by (simp add: max_def)
      then show ?thesis using True by simp
    qed (use Cons.IH in \<open>auto simp: max_def\<close>)
  qed simp
  then have "unat m < vs_count vs" if "max_live_offset ms = Some m" for m
    using that live sorted_list_of_fset_simps(1) [of "fmdom (ms_records ms)"] unfolding max_live_offset_def Let_def
    by (metis option.distinct(1) option.inject)
  then show ?thesis by (auto simp: check_vectors_def split: option.split)
qed

lemma fresh_empty:
  assumes "is_fresh t" "snap_ok C t n"
  shows "rec_view t = Map.empty"
  using assms by (auto simp: is_fresh_def snap_ok_def rec_view_def fun_eq_iff)

text \<open>Opening: whatever fails on the way, the files left behind recover to the same records; when it
  succeeds, the opened state holds them.\<close>

lemma replay_discarded [simp]:
  "rr_wal_bytes_discarded (rp_report (replay_log L t s w)) = discarded_bytes (snd (read_all L (w_file w) (wal_iter_new w)))"
proof -
  have ins: "rr_wal_bytes_discarded (rp_report (replay_insert crc la before off sq m c p)) = rr_wal_bytes_discarded (rp_report p)"
    for crc la before off sq m c p by (auto simp: replay_insert_def Let_def split: option.split prod.split)
  have step: "rr_wal_bytes_discarded (rp_report (replay_op crc la p op)) = rr_wal_bytes_discarded (rp_report p)" for crc la p op
    by (cases op) (simp_all add: ins)
  have "rr_wal_bytes_discarded (rp_report (foldl (replay_op crc la) p ops)) = rr_wal_bytes_discarded (rp_report p)" for crc la p ops
    by (induction ops arbitrary: p) (simp_all add: step)
  then show ?thesis by (simp add: replay_log_def)
qed

lemma finish_open_current:
  assumes "w_version w = WAL_VERSION"
  shows "finish_open L C env fresh n p w =
     (case (if rp_replayed p then persist_replay L C env (rp_max_seq p) (replayed_meta p) (rp_vectors p) w
                else (Inr (), replayed_meta p, rp_vectors p, w)) of
        (Inl e, ms2, vs2, w2) \<Rightarrow> (Inl e, disk_of ms2 vs2 w2)
      | (Inr _, ms2, vs2, w2) \<Rightarrow>
          (case check_vectors fresh n (rp_replayed p) ms2 vs2 of
             Inl e \<Rightarrow> (Inl e, disk_of ms2 vs2 w2)
           | Inr _ \<Rightarrow> (Inr (ms2, vs2, w2, rp_report p), disk_of ms2 vs2 w2)))"
  by (cases "rp_replayed p") (simp_all add: assms finish_open_def needs_upgrade_def replayed_meta_def Let_def)

lemma open_durable_unfold:
  assumes "ms_open C [] (Opened (dk_db D)) = Inr t" "vs_open (crc32 L) (dk_vec D) d n = Inr s" "wal_open (dk_wal D) = Inr w"
    "oe_db_ok env"
  shows "open_durable L C [] d n env D =
    (if 0 < rr_wal_bytes_discarded (rp_report (replay_log L t s w)) \<and> oe_truncate env = CutFails then (Inl Io, disk_of t s w)
     else if 0 < rr_wal_bytes_discarded (rp_report (replay_log L t s w)) \<and> oe_truncate env = SyncFails then (Inl Io, disk_of t s (repaired L w))
     else finish_open L C env (is_fresh t) (vs_count s) (replay_log L t s w) (repaired L w))"
  using assms unfolding open_durable_def repaired_def by (simp add: Let_def)

text \<open>The state opening goes through before anything is persisted, and what persisting it needs.\<close>

lemma opened_state:
  assumes "disk_inv L C d n D R"
  obtains t s w where "ms_open C [] (Opened (dk_db D)) = Inr t" "vs_open (crc32 L) (dk_vec D) d n = Inr s"
    "wal_open (dk_wal D) = Inr w" "w_version w = WAL_VERSION" "dur_inv L C (replayed_meta (replay_log L t s w)) (rp_vectors (replay_log L t s w)) (repaired L w) R"
    "vs_mapped (rp_vectors (replay_log L t s w))" "w_version (repaired L w) = WAL_VERSION" "vs_dim (rp_vectors (replay_log L t s w)) = d"
    "\<forall>j. slot_bytes (rp_vectors (replay_log L t s w)) j = slot_bytes s j"
    "rp_max_seq (replay_log L t s w) < ms_next_seq (replayed_meta (replay_log L t s w))"
    "\<forall>sq \<in> log_seqs (wal_ops L (repaired L w)). sq \<le> rp_max_seq (replay_log L t s w)"
    "disk_inv L C d n (disk_of t s w) R" "disk_inv L C d n (disk_of t s (repaired L w)) R" "is_fresh t \<longrightarrow> \<not> rp_replayed (replay_log L t s w) \<longrightarrow> R = Map.empty"
proof -
  obtain t s w where o: "bincode_ok L" "ms_open C [] (Opened (dk_db D)) = Inr t" "vs_open (crc32 L) (dk_vec D) d n = Inr s"
    "wal_open (dk_wal D) = Inr w" "vs_ok (crc32 L) s" "vs_count s = hcount s" "vs_dim s = d" "w_version w = WAL_VERSION"
    "take WAL_HEADER_SIZE (w_file w) = header_bytes WAL_VERSION" "snap_ok C t (hcount s)"
    "log_ok (crc32 L) t s (wal_ops L w) R" using assms(1) unfolding disk_inv_def by blast
  let ?p = "replay_log L t s w"
  have dur: "dur_inv L C (replayed_meta ?p) (rp_vectors ?p) (repaired L w) R" by (rule replay_dur_inv [OF o(1,2,4,5,6,8,9,10,11)])
  have rp: "replaying C t s (wal_ops L w) ?p" by (rule replay_log_ok [OF o(5,6,10,11)])
  note r = rp [unfolded replaying_def Let_def] and cnt = replayed_counters [OF rp o(10,11)]
  have pos: "w_pos w = length (w_file w)" using o(4) by (auto simp: wal_open_Inr_iff header_bytes_parts split: if_splits)
  note w1 = repaired_ok [OF o(8,9) pos, of L]
  have m: "vs_mapped (rp_vectors ?p)" "w_version (repaired L w) = WAL_VERSION" "vs_dim (rp_vectors ?p) = d"
    using r o(5,7) w1(1) by (simp_all add: vs_ok_def wal_clean_def)
  have q: "rp_max_seq ?p < ms_next_seq (replayed_meta ?p)"
  proof -
    have "rp_max_seq ?p = la_of t \<or> (\<exists>off c. (off, rp_max_seq ?p, c) \<in> pendings (la_of t) (wal_ops L w))" using r by blast
    then show ?thesis using cnt(2,4) by auto
  qed
  have sq: "sq \<le> rp_max_seq ?p" if "sq \<in> log_seqs (wal_ops L (repaired L w))" for sq
  proof -
    have "la_of t \<le> rp_max_seq ?p"
      "\<And>off c. (off, sq, c) \<in> pendings (la_of t) (wal_ops L w) \<Longrightarrow> sq \<le> rp_max_seq ?p" using r by blast+
    then show ?thesis using log_seqs_cases [of sq "wal_ops L w" "la_of t"] that w1(2) by auto
  qed
  have early: "disk_inv L C d n (disk_of t s w') R"
    if w': "w_version w' = WAL_VERSION" "take WAL_HEADER_SIZE (w_file w') = header_bytes WAL_VERSION" "w_pos w' = length (w_file w')" "wal_ops L w' = wal_ops L w" for w'
  proof -
    obtain s' where s': "vs_open (crc32 L) (Some (vs_file s)) (vs_dim s) n = Inr s'" "vs_ok (crc32 L) s'" "vs_count s' = hcount s'"
        "vs_dim s' = vs_dim s" "vs_slots s \<le> vs_slots s'" "hcount s' = hcount s"
        "\<And>off c. slot_matches (crc32 L) s' off c = slot_matches (crc32 L) s off c"
      using reopen_vectors [of "crc32 L" s n] o(5,6) by (auto simp: vs_ok_wf)
    have db: "ms_db t = dk_db D" using o(2) by (auto simp: ms_open_def result_iff Let_def)
    have "wal_open (w_file w') = Inr \<lparr>w_file = w_file w', w_pos = length (w_file w'), w_version = WAL_VERSION\<rparr>"
      by (rule wal_reopen [OF w'(2)])
    moreover have "\<lparr>w_file = w_file w', w_pos = length (w_file w'), w_version = WAL_VERSION\<rparr> = w'"
      using w'(1,3) by (cases w') simp
    ultimately have wo: "wal_open (w_file w') = Inr w'" by simp
    have "log_ok (crc32 L) t s' (wal_ops L w') R" unfolding w'(4) by (rule log_ok_slots [OF o(11) s'(5,7)])
    then show ?thesis unfolding disk_inv_def disk_of_def using o(1,2,10) o(7) s' w' wo db by auto
  qed
  have fresh: "R = Map.empty" if "is_fresh t" "\<not> rp_replayed ?p"
  proof -
    have "pendings (la_of t) (wal_ops L w) = {}" using r that(2) by blast
    moreover have "rec_view t = Map.empty" by (rule fresh_empty [OF that(1) o(10)])
    moreover have "spec_log (la_of t) (rec_view t) (wal_ops L w) = R" using o(11) by (simp add: log_ok_def)
    ultimately show ?thesis using spec_log_dom [of "la_of t" "rec_view t" "wal_ops L w"] by fastforce
  qed
  have early2: "disk_inv L C d n (disk_of t s w) R" "disk_inv L C d n (disk_of t s (repaired L w)) R"
    using early [OF o(8,9) pos] early [of "repaired L w"] w1 by (simp_all add: wal_clean_def)
  show ?thesis by (rule that [OF o(2,3,4,8) dur m _ q _ early2]) (use replaying_slot [OF rp] sq fresh in auto)
qed

text \<open>An open in which no operation on the durable files fails and every record can be encoded. It
  succeeds, with one exception: a store without records whose vector file counts vectors is
  refused.\<close>

definition good_open :: "meta_codec \<Rightarrow> open_env \<Rightarrow> bool" where
  "good_open C env \<longleftrightarrow> oe_db_ok env \<and> oe_truncate env = TruncateOk \<and> oe_vsync_ok env \<and> oe_txn env = TxnOk \<and> oe_fsync_ok env \<and> oe_clear env = ClearOk \<and>
     encodes_all C"

abbreviation no_records_error :: storage_error where
  "no_records_error \<equiv> Corrupted ''vectors.bin holds vectors but memory.redb has no records''"

lemma vs_open_slots: "vs_open crc (Some (vs_file vs)) (vs_dim vs) n = Inr s \<Longrightarrow> slot_bytes s j = slot_bytes vs j"
  by (auto simp: vs_open_def result_iff Let_def slot_bytes_def split: if_splits)

lemma finish_open_ok:
  assumes dur: "dur_inv L C (replayed_meta p) (rp_vectors p) w R" and m: "vs_mapped (rp_vectors p)" "w_version w = WAL_VERSION"
    and q: "rp_max_seq p < ms_next_seq (replayed_meta p)" "\<And>sq. sq \<in> log_seqs (wal_ops L w) \<Longrightarrow> sq \<le> rp_max_seq p"
    and f: "fresh \<Longrightarrow> \<not> rp_replayed p \<Longrightarrow> R = Map.empty" and out: "\<not> torn_clear (oe_clear env)"
    and run: "finish_open L C env fresh k p w = (r, D')"
  shows "disk_inv L C (vs_dim (rp_vectors p)) n D' R"
    "r = Inr (ms, vs, w', rep) \<Longrightarrow> dur_inv L C ms vs w' R \<and> vs_mapped vs \<and> vs_dim vs = vs_dim (rp_vectors p) \<and> D' = disk_of ms vs w' \<and>
       (\<forall>off. R off \<noteq> None \<longrightarrow> slot_bytes vs (unat off) = slot_bytes (rp_vectors p) (unat off))"
    "good_open C env \<Longrightarrow> (\<exists>x. r = Inr x) \<or> R = Map.empty \<and> r = Inl no_records_error"
    "vs_open (crc32 L) (dk_vec D') (vs_dim (rp_vectors p)) n' = Inr s' \<Longrightarrow> R off \<noteq> None \<Longrightarrow> slot_bytes s' (unat off) = slot_bytes (rp_vectors p) (unat off)"
proof -
  obtain r2 ms2 vs2 w2 where x: "(if rp_replayed p then persist_replay L C env (rp_max_seq p) (replayed_meta p) (rp_vectors p) w
                else (Inr (), replayed_meta p, rp_vectors p, w)) = (r2, ms2, vs2, w2)" by (metis surj_pair)
  obtain t' where t': "run_ok L C t' (replayed_meta p) (rp_vectors p) w R" using dur_inv_E [OF dur] by blast
  have inv: "ms_inv C (replayed_meta p)" "rec_view (replayed_meta p) = R" using t' unfolding run_ok_def by blast+
  have live: "unat off < vs_count (rp_vectors p)" if "R off \<noteq> None" for off using t' that unfolding run_ok_def by blast
  have "dur_inv L C ms2 vs2 w2 R \<and> vs_mapped vs2 \<and> vs_dim vs2 = vs_dim (rp_vectors p) \<and>
      (\<forall>off. R off \<noteq> None \<longrightarrow> slot_bytes vs2 (unat off) = slot_bytes (rp_vectors p) (unat off)) \<and> (good_open C env \<longrightarrow> r2 = Inr ())"
  proof (cases "rp_replayed p")
    case True
    then have pr: "persist_replay L C env (rp_max_seq p) (replayed_meta p) (rp_vectors p) w = (r2, ms2, vs2, w2)" using x by simp
    note ok = persist_replay_ok [OF dur m(1) pr q out]
    have "r2 = Inr ()" if "good_open C env"
      using ok(5) ms_flush_succeeds that unfolding good_open_def by blast
    then show ?thesis using ok(1,2,3) ok(7) live by blast
  qed (use x dur m in auto)
  then have y: "dur_inv L C ms2 vs2 w2 R" "vs_mapped vs2" "vs_dim vs2 = vs_dim (rp_vectors p)"
    and sl: "\<And>off. R off \<noteq> None \<Longrightarrow> slot_bytes vs2 (unat off) = slot_bytes (rp_vectors p) (unat off)"
    and good: "good_open C env \<Longrightarrow> r2 = Inr ()" by blast+
  have d2: "disk_inv L C (vs_dim (rp_vectors p)) n (disk_of ms2 vs2 w2) R" using dur_inv_disk [OF y(1), of n] y(3) by simp
  note chk = check_vectors_ok [OF y(1), of fresh k "rp_replayed p"]
  have e: "finish_open L C env fresh k p w = (case r2 of Inl e \<Rightarrow> (Inl e, disk_of ms2 vs2 w2)
      | Inr _ \<Rightarrow> (case check_vectors fresh k (rp_replayed p) ms2 vs2 of
             Inl e \<Rightarrow> (Inl e, disk_of ms2 vs2 w2)
           | Inr _ \<Rightarrow> (Inr (ms2, vs2, w2, rp_report p), disk_of ms2 vs2 w2)))"
    unfolding finish_open_current [OF m(2)] x by (cases r2) simp_all
  have D': "D' = disk_of ms2 vs2 w2" using run e by (auto split: sum.splits)
  then show "disk_inv L C (vs_dim (rp_vectors p)) n D' R" using d2 by simp
  show "dur_inv L C ms vs w' R \<and> vs_mapped vs \<and> vs_dim vs = vs_dim (rp_vectors p) \<and> D' = disk_of ms vs w' \<and>
       (\<forall>off. R off \<noteq> None \<longrightarrow> slot_bytes vs (unat off) = slot_bytes (rp_vectors p) (unat off))" if "r = Inr (ms, vs, w', rep)"
  proof -
    have "ms = ms2" "vs = vs2" "w' = w2" using run e that by (auto split: sum.splits)
    then show ?thesis using y sl D' by blast
  qed
  show "(\<exists>x. r = Inr x) \<or> R = Map.empty \<and> r = Inl no_records_error" if "good_open C env"
    using chk f good [OF that] run e by auto
  show "slot_bytes s' (unat off) = slot_bytes (rp_vectors p) (unat off)"
    if o: "vs_open (crc32 L) (dk_vec D') (vs_dim (rp_vectors p)) n' = Inr s'" and live: "R off \<noteq> None"
  proof -
    have "vs_open (crc32 L) (Some (vs_file vs2)) (vs_dim vs2) n' = Inr s'" using o y(3) by (simp add: D' disk_of_def)
    from vs_open_slots [OF this] show ?thesis using sl [OF live] by simp
  qed
qed

lemma open_durable_ok:
  assumes "disk_inv L C d n D R" "open_durable L C [] d n env D = (r, D')" "\<not> torn_clear (oe_clear env)"
  shows "disk_inv L C d n D' R"
    "r = Inr (ms, vs, w, rep) \<Longrightarrow> dur_inv L C ms vs w R \<and> vs_mapped vs \<and> vs_dim vs = d \<and> D' = disk_of ms vs w \<and>
       (\<forall>s off. vs_open (crc32 L) (dk_vec D) d n = Inr s \<longrightarrow> R off \<noteq> None \<longrightarrow> slot_bytes vs (unat off) = slot_bytes s (unat off))"
    "good_open C env \<Longrightarrow> (\<exists>x. r = Inr x) \<or> R = Map.empty \<and> r = Inl no_records_error"
    "vs_open (crc32 L) (dk_vec D) d n = Inr s \<Longrightarrow> vs_open (crc32 L) (dk_vec D') d n = Inr s' \<Longrightarrow> R off \<noteq> None \<Longrightarrow>
       slot_bytes s' (unat off) = slot_bytes s (unat off)"
proof -
  obtain t s w0 where o: "ms_open C [] (Opened (dk_db D)) = Inr t" "vs_open (crc32 L) (dk_vec D) d n = Inr s"
      "wal_open (dk_wal D) = Inr w0" "w_version w0 = WAL_VERSION"
    and dur: "dur_inv L C (replayed_meta (replay_log L t s w0)) (rp_vectors (replay_log L t s w0)) (repaired L w0) R"
    and m: "vs_mapped (rp_vectors (replay_log L t s w0))" "w_version (repaired L w0) = WAL_VERSION"
    and dm: "vs_dim (rp_vectors (replay_log L t s w0)) = d"
    and sl: "\<forall>j. slot_bytes (rp_vectors (replay_log L t s w0)) j = slot_bytes s j"
    and q: "rp_max_seq (replay_log L t s w0) < ms_next_seq (replayed_meta (replay_log L t s w0))"
      "\<forall>sq \<in> log_seqs (wal_ops L (repaired L w0)). sq \<le> rp_max_seq (replay_log L t s w0)"
    and e: "disk_inv L C d n (disk_of t s w0) R" "disk_inv L C d n (disk_of t s (repaired L w0)) R"
    and f: "is_fresh t \<longrightarrow> \<not> rp_replayed (replay_log L t s w0) \<longrightarrow> R = Map.empty"
    by (rule opened_state [OF assms(1)])
  note fin = finish_open_ok [OF dur m q(1) q(2) [rule_format] f [rule_format] assms(3), unfolded dm sl [rule_format]]
  consider "\<not> oe_db_ok env" | "oe_db_ok env" "oe_truncate env \<noteq> TruncateOk" "r = Inl Io" "D' = disk_of t s w0 \<or> D' = disk_of t s (repaired L w0)"
    | "oe_db_ok env" "finish_open L C env (is_fresh t) (vs_count s) (replay_log L t s w0) (repaired L w0) = (r, D')"
    using open_durable_unfold [OF o(1-3), of env] assms(2) by (metis prod.inject truncate_outcome.distinct(1,3))
  note c = this
  have no_db: "D' = D \<and> (\<exists>e. r = Inl e)" if "\<not> oe_db_ok env"
    using assms(2) that by (auto simp: open_durable_def ms_open_def)
  show "disk_inv L C d n D' R"
    by (cases rule: c) (use no_db assms(1) e fin(1) in auto)
  show "r = Inr (ms, vs, w, rep) \<Longrightarrow> dur_inv L C ms vs w R \<and> vs_mapped vs \<and> vs_dim vs = d \<and> D' = disk_of ms vs w \<and>
       (\<forall>s off. vs_open (crc32 L) (dk_vec D) d n = Inr s \<longrightarrow> R off \<noteq> None \<longrightarrow> slot_bytes vs (unat off) = slot_bytes s (unat off))"
    by (cases rule: c) (use no_db fin(2) o(2) in auto)
  show "good_open C env \<Longrightarrow> (\<exists>x. r = Inr x) \<or> R = Map.empty \<and> r = Inl no_records_error"
    by (cases rule: c) (use fin(3) in \<open>auto simp: good_open_def\<close>)
  show "slot_bytes s' (unat off) = slot_bytes s0 (unat off)"
    if "vs_open (crc32 L) (dk_vec D) d n = Inr s0" "vs_open (crc32 L) (dk_vec D') d n = Inr s'" "R off \<noteq> None" for s0
  proof (cases rule: c)
    case 2
    have "vs_dim s = d" using o(2) by (auto simp: vs_open_def new_with_capacity_def result_iff Let_def split: option.splits if_splits)
    then show ?thesis using vs_open_slots [of "crc32 L" s n s'] 2 that o(2) by (auto simp: disk_of_def)
  qed (use no_db that fin(4) o(2) in auto)
qed

end
