(* ===== verification/Text_Index.thy ===== *)
theory Text_Index
  imports Offset_Index
begin

text \<open>
  The full-text index of \<open>turbomemory_storage/src/text_index.rs\<close>, a wrapper around Tantivy. Tantivy
  itself is not modelled: its index is the sequence of operations given to the writer, of which a
  commit makes a prefix durable and a reload of the reader makes the committed prefix visible. A
  deletion by term removes the documents added before it. Parsing a query and running it on the
  visible documents are arguments, as are the outcomes of the calls.

  \<open>text_search_fresh\<close> states what a caller relies on: after \<open>commit_if_pending\<close> a search sees
  exactly the documents that were added and not removed since, as long as no batch failed halfway.
\<close>

section \<open>Tantivy as the wrapper sees it\<close>

type_synonym doc = "point_offset \<times> string"

datatype tantivy_op = AddDocument point_offset string | DeleteTerm point_offset | DeleteAll

fun docs_step :: "doc list \<Rightarrow> tantivy_op \<Rightarrow> doc list" where
  "docs_step ds (AddDocument off text) = ds @ [(off, text)]"
| "docs_step ds (DeleteTerm off) = filter (\<lambda>(o', text). o' \<noteq> off) ds"
| "docs_step ds DeleteAll = []"

definition docs_of :: "tantivy_op list \<Rightarrow> doc list" where
  "docs_of ops = foldl docs_step [] ops"

record tantivy_lib =
  tl_query :: "string \<Rightarrow> (doc list \<Rightarrow> doc list option) option"

definition query_ok :: "tantivy_lib \<Rightarrow> bool" where
  "query_ok T \<longleftrightarrow> (\<forall>q run ds hits. tl_query T q = Some run \<longrightarrow> run ds = Some hits \<longrightarrow> set hits \<subseteq> set ds)"

section \<open>The wrapper\<close>

record text_index =
  ti_log :: "tantivy_op list"
  ti_committed :: nat
  ti_visible :: nat
  ti_pending :: u64

datatype text_open = Created | Emptied | TextOpenFails

text \<open>\<open>open\<close>: \<open>Created\<close> after the old directory is gone, \<open>Emptied\<close> when it could not be removed and
  the old index, which holds \<open>old\<close>, is cleared instead.\<close>

definition ti_open :: "text_open \<Rightarrow> tantivy_op list \<Rightarrow> text_index result" where
  "ti_open out old =
     (case out of
        Created \<Rightarrow> Inr \<lparr>ti_log = [], ti_committed = 0, ti_visible = 0, ti_pending = 0\<rparr>
      | Emptied \<Rightarrow> Inr \<lparr>ti_log = old @ [DeleteAll], ti_committed = length old + 1, ti_visible = length old + 1, ti_pending = 0\<rparr>
      | TextOpenFails \<Rightarrow> Inl (IndexError ''tantivy''))"

text \<open>\<open>fails = Some i\<close>: the writer refuses the document at position \<open>i\<close>. The pending counter is only
  raised after the whole batch.\<close>

definition ti_add_batch :: "nat option \<Rightarrow> doc list \<Rightarrow> text_index \<Rightarrow> unit result \<times> text_index" where
  "ti_add_batch fails docs x =
     (if docs = [] then (Inr (), x)
      else let add = map (\<lambda>(off, text). AddDocument off text) in
        case fails of
          Some i \<Rightarrow>
            if i < length docs then (Inl (IndexError ''tantivy add''), x\<lparr>ti_log := ti_log x @ add (take i docs)\<rparr>)
            else (Inr (), x\<lparr>ti_log := ti_log x @ add docs, ti_pending := ti_pending x + word_of_nat (length docs)\<rparr>)
        | None \<Rightarrow> (Inr (), x\<lparr>ti_log := ti_log x @ add docs, ti_pending := ti_pending x + word_of_nat (length docs)\<rparr>))"

definition ti_add :: "nat option \<Rightarrow> point_offset \<Rightarrow> string \<Rightarrow> text_index \<Rightarrow> unit result \<times> text_index" where
  "ti_add fails off text x = ti_add_batch fails [(off, text)] x"

definition ti_remove :: "point_offset \<Rightarrow> text_index \<Rightarrow> text_index" where
  "ti_remove off x = x\<lparr>ti_log := ti_log x @ [DeleteTerm off], ti_pending := ti_pending x + 1\<rparr>"

datatype commit_outcome = CommitOk | TantivyCommitFails | ReloadFails

definition ti_commit :: "commit_outcome \<Rightarrow> text_index \<Rightarrow> unit result \<times> text_index" where
  "ti_commit out x =
     (case out of
        TantivyCommitFails \<Rightarrow> (Inl (IndexError ''tantivy commit''), x)
      | ReloadFails \<Rightarrow> (Inl (IndexError ''tantivy reload''), x\<lparr>ti_committed := length (ti_log x)\<rparr>)
      | CommitOk \<Rightarrow> (Inr (), x\<lparr>ti_committed := length (ti_log x), ti_visible := length (ti_log x), ti_pending := 0\<rparr>))"

definition ti_commit_if_pending :: "commit_outcome \<Rightarrow> text_index \<Rightarrow> unit result \<times> text_index" where
  "ti_commit_if_pending out x = (if 0 < ti_pending x then ti_commit out x else (Inr (), x))"

definition ti_flush :: "commit_outcome \<Rightarrow> text_index \<Rightarrow> unit result \<times> text_index" where
  "ti_flush out x = ti_commit out x"

definition visible_docs :: "text_index \<Rightarrow> doc list" where
  "visible_docs x = docs_of (take (ti_visible x) (ti_log x))"

definition ti_num_docs :: "text_index \<Rightarrow> nat" where
  "ti_num_docs x = length (visible_docs x)"

definition ti_search :: "tantivy_lib \<Rightarrow> string \<Rightarrow> text_index \<Rightarrow> u32 fset result" where
  "ti_search T q x =
     (case tl_query T q of
        None \<Rightarrow> Inl (InvalidArgument ''text query'')
      | Some run \<Rightarrow>
          (case run (visible_docs x) of
             None \<Rightarrow> Inl (IndexError ''tantivy search'')
           | Some hits \<Rightarrow> Inr (fold (\<lambda>(off, _) bm. finsert (bm_offset off) bm) hits {||})))"

section \<open>What a search sees\<close>

lemma docs_of_simps [simp]:
  "docs_of [] = []" "docs_of (ops @ [op]) = docs_step (docs_of ops) op"
  by (simp_all add: docs_of_def)

lemma docs_of_adds [simp]: "docs_of (ops @ map (\<lambda>(off, text). AddDocument off text) ds) = docs_of ops @ ds"
proof (induction ds rule: rev_induct)
  case (snoc d ds)
  obtain off tx where "d = (off, tx)" by fastforce
  then show ?case using snoc docs_of_simps(2) [of "ops @ map (\<lambda>(off, text). AddDocument off text) ds" "AddDocument off tx"]
    by simp
qed simp

text \<open>The steps of the wrapper between two opens, and the documents a caller has in mind.\<close>

datatype text_step = TAddBatch "nat option" "doc list" | TRemove point_offset | TCommit commit_outcome | TCommitIfPending commit_outcome

fun text_run :: "text_step list \<Rightarrow> text_index \<Rightarrow> text_index" where
  "text_run [] x = x"
| "text_run (TAddBatch f ds # ss) x = text_run ss (snd (ti_add_batch f ds x))"
| "text_run (TRemove off # ss) x = text_run ss (ti_remove off x)"
| "text_run (TCommit out # ss) x = text_run ss (snd (ti_commit out x))"
| "text_run (TCommitIfPending out # ss) x = text_run ss (snd (ti_commit_if_pending out x))"

fun text_docs :: "text_step list \<Rightarrow> doc list \<Rightarrow> doc list" where
  "text_docs [] ds = ds"
| "text_docs (TAddBatch f new # ss) ds =
     text_docs ss (ds @ (case f of None \<Rightarrow> new | Some i \<Rightarrow> take i new))"
| "text_docs (TRemove off # ss) ds = text_docs ss (filter (\<lambda>(o', text). o' \<noteq> off) ds)"
| "text_docs (TCommit out # ss) ds = text_docs ss ds"
| "text_docs (TCommitIfPending out # ss) ds = text_docs ss ds"

fun step_weight :: "text_step \<Rightarrow> nat" where
  "step_weight (TAddBatch f ds) = length ds"
| "step_weight (TRemove off) = 1"
| "step_weight (TCommit out) = 0"
| "step_weight (TCommitIfPending out) = 0"

fun step_whole :: "text_step \<Rightarrow> bool" where
  "step_whole (TAddBatch f ds) = (case f of None \<Rightarrow> True | Some i \<Rightarrow> length ds \<le> i)"
| "step_whole _ = True"

definition ti_inv :: "text_index \<Rightarrow> doc list \<Rightarrow> nat \<Rightarrow> bool" where
  "ti_inv x ds n \<longleftrightarrow> ti_visible x \<le> length (ti_log x) \<and> unat (ti_pending x) = length (ti_log x) - ti_visible x \<and>
     length (ti_log x) - ti_visible x \<le> n \<and> docs_of (ti_log x) = ds"

lemma unat_add_small: "unat a + k < 2 ^ 64 \<Longrightarrow> unat (a + word_of_nat k :: u64) = unat a + k"
  by (simp add: unat_word_ariths unat_of_nat)

lemma unat_inc_small: "unat a + 1 < 2 ^ 64 \<Longrightarrow> unat (a + 1 :: u64) = unat a + 1"
  using unat_add_small [of a 1] by simp

lemma ti_inv_add:
  assumes "ti_inv x ds n" "n + length new < 2 ^ 64" "case f of None \<Rightarrow> True | Some i \<Rightarrow> length new \<le> i"
  shows "ti_inv (snd (ti_add_batch f new x)) (ds @ new) (n + length new)"
proof -
  have "snd (ti_add_batch f new x) = x\<lparr>ti_log := ti_log x @ map (\<lambda>(off, text). AddDocument off text) new,
      ti_pending := ti_pending x + word_of_nat (length new)\<rparr>"
    using assms(3) by (auto simp: ti_add_batch_def Let_def split: option.splits)
  then show ?thesis using assms(1,2) by (auto simp: ti_inv_def unat_add_small)
qed

lemma ti_inv_remove:
  assumes "ti_inv x ds n" "n + 1 < 2 ^ 64"
  shows "ti_inv (ti_remove off x) (filter (\<lambda>(o', text). o' \<noteq> off) ds) (n + 1)"
  using assms by (auto simp: ti_inv_def ti_remove_def unat_inc_small)

lemma ti_inv_commit: "ti_inv x ds n \<Longrightarrow> ti_inv (snd (ti_commit out x)) ds n"
  by (cases out) (auto simp: ti_inv_def ti_commit_def)

lemma ti_inv_commit_if: "ti_inv x ds n \<Longrightarrow> ti_inv (snd (ti_commit_if_pending out x)) ds n"
  by (simp add: ti_commit_if_pending_def ti_inv_commit)

lemma ti_inv_run:
  "ti_inv x ds n \<Longrightarrow> list_all step_whole ss \<Longrightarrow> n + sum_list (map step_weight ss) < 2 ^ 64 \<Longrightarrow>
   ti_inv (text_run ss x) (text_docs ss ds) (n + sum_list (map step_weight ss))"
proof (induction ss arbitrary: x ds n)
  case (Cons s ss)
  show ?case
  proof (cases s)
    case (TAddBatch f new)
    have "(case f of None \<Rightarrow> new | Some i \<Rightarrow> take i new) = new" using Cons.prems(2) TAddBatch by (auto split: option.splits)
    then show ?thesis
      using Cons.IH [OF ti_inv_add [OF Cons.prems(1)], of new f] Cons.prems(2,3) TAddBatch by (simp add: add.assoc)
  next
    case (TRemove off)
    then show ?thesis using Cons.IH [OF ti_inv_remove [OF Cons.prems(1)], of off] Cons.prems(2,3) by simp
  next
    case (TCommit out)
    then show ?thesis using Cons.IH [OF ti_inv_commit [OF Cons.prems(1)]] Cons.prems(2,3) by simp
  next
    case (TCommitIfPending out)
    then show ?thesis using Cons.IH [OF ti_inv_commit_if [OF Cons.prems(1)]] Cons.prems(2,3) by simp
  qed
qed simp

lemma ti_open_inv: "ti_open out old = Inr x \<Longrightarrow> ti_inv x [] 0"
  by (auto simp: ti_open_def ti_inv_def split: text_open.splits)

lemma hits_fold: "k |\<in>| fold (\<lambda>(off, _) bm. finsert (bm_offset off) bm) hits B \<longleftrightarrow>
    k |\<in>| B \<or> (\<exists>d \<in> set hits. k = bm_offset (fst d))"
  by (induction hits arbitrary: B) auto

text \<open>C15. After any sequence of batches, removals and commits on a fresh text index (none of the
  batches failing halfway and fewer than 2^64 operations), a \<open>commit_if_pending\<close> that succeeds makes
  every document that was added and not removed since visible and nothing else, so a search returns
  offsets of such documents only.\<close>

theorem text_search_fresh:
  assumes "ti_open o1 old = Inr x" "list_all step_whole ss" "sum_list (map step_weight ss) < 2 ^ 64"
    and "ti_commit_if_pending out (text_run ss x) = (Inr (), y)"
  shows "visible_docs y = text_docs ss [] \<and>
    (query_ok T \<longrightarrow> ti_search T q y = Inr hits \<longrightarrow> k |\<in>| hits \<longrightarrow> (\<exists>off text. (off, text) \<in> set (text_docs ss []) \<and> k = bm_offset off))"
proof -
  have inv: "ti_inv (text_run ss x) (text_docs ss []) (sum_list (map step_weight ss))"
    using ti_inv_run [OF ti_open_inv [OF assms(1)] assms(2)] assms(3) by simp
  have "ti_inv y (text_docs ss []) (sum_list (map step_weight ss)) \<and> ti_visible y = length (ti_log y)"
  proof (cases "0 < ti_pending (text_run ss x)")
    case True
    then have c: "ti_commit out (text_run ss x) = (Inr (), y)" using assms(4) by (simp add: ti_commit_if_pending_def)
    then show ?thesis using ti_inv_commit [OF inv, of out] by (cases out) (auto simp: ti_commit_def)
  next
    case False
    then have "y = text_run ss x" "ti_pending (text_run ss x) = 0"
      using assms(4) word_neq_0_conv by (auto simp: ti_commit_if_pending_def)
    then show ?thesis using inv by (simp add: ti_inv_def)
  qed
  then have vis: "visible_docs y = text_docs ss []" by (simp add: visible_docs_def ti_inv_def)
  have "\<exists>off text. (off, text) \<in> set (text_docs ss []) \<and> k = bm_offset off"
    if T: "query_ok T" "ti_search T q y = Inr hits" "k |\<in>| hits"
  proof -
    obtain run ds where "tl_query T q = Some run" "run (visible_docs y) = Some ds"
      "hits = fold (\<lambda>(off, _) bm. finsert (bm_offset off) bm) ds {||}"
      using T by (auto simp: ti_search_def split: option.splits)
    then show ?thesis using T(1,3) vis by (force simp: query_ok_def hits_fold)
  qed
  then show ?thesis using vis by blast
qed

definition demo_tantivy :: tantivy_lib where
  "demo_tantivy = \<lparr>tl_query = (\<lambda>q. if q = [] then None else Some (\<lambda>ds. Some (filter (\<lambda>(off, text). text = q) ds)))\<rparr>"

theorem text_search_fresh_witness:
  "\<exists>x y. ti_open Created [] = Inr x \<and>
     ti_commit_if_pending CommitOk (text_run [TAddBatch None [(4, ''rust''), (5, ''go'')], TCommit CommitOk, TRemove 4, TAddBatch None [(9, ''rust'')]] x) = (Inr (), y) \<and>
     visible_docs y = [(5, ''go''), (9, ''rust'')] \<and> ti_search demo_tantivy ''rust'' y = Inr {|9|} \<and>
     (\<exists>off text. (off, text) \<in> set [(5, ''go''), (9, ''rust'')] \<and> 9 = bm_offset off)"
proof -
  let ?ss = "[TAddBatch None [(4, ''rust''), (5, ''go'')], TCommit CommitOk, TRemove 4, TAddBatch None [(9, ''rust'')]]"
  obtain x where x: "ti_open Created [] = Inr x" by (simp add: ti_open_def)
  obtain y where y: "ti_commit_if_pending CommitOk (text_run ?ss x) = (Inr (), y)"
    by (cases "0 < ti_pending (text_run ?ss x)") (auto simp: ti_commit_if_pending_def ti_commit_def simp del: text_run.simps)
  have pre: "list_all step_whole ?ss" "sum_list (map step_weight ?ss) < 2 ^ 64" by simp_all
  note th = text_search_fresh [OF x pre y]
  have v: "visible_docs y = [(5, ''go''), (9, ''rust'')]" using th by simp
  have q: "query_ok demo_tantivy" by (auto simp: query_ok_def demo_tantivy_def split: if_splits)
  have s: "ti_search demo_tantivy ''rust'' y = Inr {|9|}"
    unfolding ti_search_def v by (simp add: demo_tantivy_def bm_offset_def)
  from th q s v have "\<exists>off text. (off, text) \<in> set [(5, ''go''), (9, ''rust'')] \<and> (9 :: u32) = bm_offset off"
    by (metis fsingletonI)
  then show ?thesis using x y v s by blast
qed

end
