(* ===== verification/Activation.thy ===== *)
theory Activation
  imports Graph_Belief
begin

text \<open>
  \<open>SpreadingActivation\<close> of \<open>turbomemory_graph/src/activation.rs\<close>: the cognitive graph and the BM25
  index under one roof. The write operations keep the two in step (\<open>sa_inv\<close>): the documents of the
  lexical index are exactly the memory nodes of the graph.
\<close>

section \<open>State and write operations\<close>

record spreading_config =
  sc_semantic_alpha :: f32
  sc_lexical_alpha :: f32
  sc_decay :: f32
  sc_iterations :: nat
  sc_seed_hops_from :: nat
  sc_expansion_max_candidates :: nat
  sc_concept_expansion :: bool

record activation =
  sa_graph :: mgraph
  sa_bm25 :: bm25
  sa_config :: spreading_config

text \<open>\<open>key.strip_prefix("mem:").unwrap_or(key)\<close>\<close>

definition strip_mem :: "string \<Rightarrow> string" where
  "strip_mem key = (if take 4 key = ''mem:'' then drop 4 key else key)"

definition sa_new :: "(string \<Rightarrow> string list) \<Rightarrow> mgraph \<Rightarrow> spreading_config \<Rightarrow> activation" where
  "sa_new words g c =
     \<lparr>sa_graph = g,
      sa_bm25 = foldl (\<lambda>b (key, n). bm25_add words (strip_mem key) (nd_text n) b) bm25_new (iter_memory_nodes g),
      sa_config = c\<rparr>"

definition sa_add_memory_scoped :: "(string \<Rightarrow> string) \<Rightarrow> (string \<Rightarrow> string list) \<Rightarrow> string \<Rightarrow> string \<Rightarrow> string list \<Rightarrow> f32
    \<Rightarrow> string option \<Rightarrow> activation \<Rightarrow> activation" where
  "sa_add_memory_scoped lower words mid text concepts importance scope a =
     a\<lparr>sa_graph := add_memory_scoped lower mid text concepts importance scope (sa_graph a),
       sa_bm25 := bm25_add words mid text (sa_bm25 a)\<rparr>"

definition sa_add_concepts_to_memory :: "(string \<Rightarrow> string) \<Rightarrow> string \<Rightarrow> string list \<Rightarrow> f32 \<Rightarrow> activation \<Rightarrow> bool \<times> activation" where
  "sa_add_concepts_to_memory lower mid concepts importance a =
     (case add_concepts_to_memory lower mid concepts importance (sa_graph a) of (b, g) \<Rightarrow> (b, a\<lparr>sa_graph := g\<rparr>))"

definition sa_remove_memory :: "string \<Rightarrow> activation \<Rightarrow> activation" where
  "sa_remove_memory mid a =
     a\<lparr>sa_graph := remove_memory mid (sa_graph a), sa_bm25 := bm25_remove mid (sa_bm25 a)\<rparr>"

definition sa_reinforce :: "string \<Rightarrow> u64 \<Rightarrow> activation \<Rightarrow> activation" where
  "sa_reinforce mid now a = a\<lparr>sa_graph := reinforce mid now (sa_graph a)\<rparr>"

definition sa_decay_edges :: "(f64 \<Rightarrow> f64 \<Rightarrow> f64) \<Rightarrow> u64 \<Rightarrow> u64 \<Rightarrow> activation \<Rightarrow> activation" where
  "sa_decay_edges powf now half_life a = a\<lparr>sa_graph := decay_edges powf now half_life (sa_graph a)\<rparr>"

definition sa_add_refinement :: "string \<Rightarrow> string \<Rightarrow> f32 \<Rightarrow> activation \<Rightarrow> bool \<times> activation" where
  "sa_add_refinement old_id new_id weight a =
     (case add_refinement old_id new_id weight (sa_graph a) of (b, g) \<Rightarrow> (b, a\<lparr>sa_graph := g\<rparr>))"

definition sa_add_contradiction :: "string \<Rightarrow> string \<Rightarrow> f32 \<Rightarrow> f32 \<Rightarrow> activation \<Rightarrow> bool \<times> activation" where
  "sa_add_contradiction old_id new_id weight weaken a =
     (case add_contradiction old_id new_id weight weaken (sa_graph a) of (b, g) \<Rightarrow> (b, a\<lparr>sa_graph := g\<rparr>))"

section \<open>The graph and the lexical index agree\<close>

definition memory_ids :: "mgraph \<Rightarrow> string set" where
  "memory_ids g = {mid. get_node_id (as_str (Memory mid)) g \<noteq> None}"

definition sa_inv :: "activation \<Rightarrow> bool" where
  "sa_inv a \<longleftrightarrow> graph_ok (sa_graph a) \<and> bm25_inv (sa_bm25 a) \<and> fset (fmdom (bm_docs (sa_bm25 a))) = memory_ids (sa_graph a)"

lemma bm25_add_docs [simp]: "fmdom (bm_docs (bm25_add words doc text b)) = finsert doc (fmdom (bm_docs b))"
  by (auto simp: bm25_add_def add_term_freqs_def remove_term_freqs_def Let_def split: option.splits)

lemma bm25_remove_docs [simp]: "fmdom (bm_docs (bm25_remove doc b)) = fmdom (bm_docs b) |-| {|doc|}"
proof (cases "fmlookup (bm_docs b) doc")
  case None
  then have "doc |\<notin>| fmdom (bm_docs b)" by (simp add: fmdom_notI)
  then show ?thesis using None by (auto simp: bm25_remove_def)
qed (simp add: bm25_remove_def remove_term_freqs_def Let_def)

lemma chain_memory_lookup: "get_node_id k (chain_memory mid mem imp scope g) = get_node_id k g"
  by (simp add: chain_memory_def add_int_edge_def push_edge_def Let_def split: option.splits)

lemma add_memory_ids: "memory_ids (add_memory_scoped lower mid text concepts importance scope g) = insert mid (memory_ids g)"
proof -
  obtain mem g1 where i: "intern_node (as_str (Memory mid)) KMemory mid text (importance_factor importance) g = (mem, g1)" by fastforce
  have "get_node_id (as_str (Memory x)) (add_memory_scoped lower mid text concepts importance scope g) =
      get_node_id (as_str (Memory x)) g1" for x
    using i by (simp add: add_memory_scoped_def Let_def chain_memory_lookup foldl_link_lookup)
  then show ?thesis using intern_node_lookup [OF i] by (auto simp: memory_ids_def)
qed

lemma remove_memory_ids: "memory_ids (remove_memory mid g) = memory_ids g - {mid}"
  by (auto simp: memory_ids_def remove_memory_lookup)

lemma strip_mem_key: "strip_mem (as_str (Memory mid)) = mid"
  by (simp add: strip_mem_def as_str.simps)

lemma iter_memory_keys:
  assumes "graph_ok g"
  shows "strip_mem ` fst ` set (iter_memory_nodes g) = memory_ids g"
proof -
  let ?it = "g_interner g"
  have ok: "interner_ok ?it" using assms by (simp add: graph_ok_def)
  have key: "k = as_str (Memory (n_external_id n)) \<and> get_node_id k g \<noteq> None" if "(i, k, n) \<in> set (memory_nodes ?it)" for i k n
  proof -
    from that obtain j where j: "j < length (in_id_to_key ?it)" "k = in_id_to_key ?it ! j" "n = in_id_to_node ?it ! j"
        "fmlookup (in_key_to_id ?it) k = Some (word_of_nat j)" "n_kind n = KMemory"
      by (auto simp: memory_nodes_def in_iter_def in_set_enumerate_eq)
    have "key_fits k (in_id_to_node ?it ! unat (word_of_nat j :: u32))" "length (in_id_to_key ?it) \<le> 2 ^ 32"
      using ok j(4) unfolding interner_ok_def by blast+
    moreover have "unat (word_of_nat j :: u32) = j" using j(1) calculation(2) by (simp add: unat_of_nat)
    ultimately have "key_fits k n" using j(3) by simp
    then have "k = as_str (Memory (n_external_id n))" using j(5) unfolding key_fits_def by blast
    then show ?thesis using j(4) by (simp add: get_node_id_def in_resolve_def)
  qed
  have "mid \<in> strip_mem ` fst ` set (iter_memory_nodes g)" if "mid \<in> memory_ids g" for mid
  proof -
    note th = that
    obtain i where i: "fmlookup (in_key_to_id ?it) (as_str (Memory mid)) = Some i"
      using th unfolding memory_ids_def get_node_id_def in_resolve_def by blast
    then have u: "unat i < length (in_id_to_key ?it)" "in_id_to_key ?it ! unat i = as_str (Memory mid)"
        "key_fits (as_str (Memory mid)) (in_id_to_node ?it ! unat i)"
      using ok unfolding interner_ok_def by blast+
    have "n_kind (in_id_to_node ?it ! unat i) = KMemory" using u(3) unfolding key_fits_def by blast
    then have "(i, as_str (Memory mid), in_id_to_node ?it ! unat i) \<in> set (memory_nodes ?it)"
      using u i by (force simp: memory_nodes_def in_iter_def in_set_enumerate_eq)
    then show ?thesis by (force simp: iter_memory_nodes_def strip_mem_key)
  qed
  moreover have "x \<in> memory_ids g" if "x \<in> strip_mem ` fst ` set (iter_memory_nodes g)" for x
    using that key by (fastforce simp: iter_memory_nodes_def strip_mem_key memory_ids_def)
  ultimately show ?thesis by blast
qed

lemma foldl_bm25_add:
  "bm25_inv b \<Longrightarrow> bm25_inv (foldl (\<lambda>b (key, n). bm25_add words (strip_mem key) (nd_text n) b) b ns) \<and>
   fset (fmdom (bm_docs (foldl (\<lambda>b (key, n). bm25_add words (strip_mem key) (nd_text n) b) b ns))) =
     fset (fmdom (bm_docs b)) \<union> strip_mem ` fst ` set ns"
proof (induction ns arbitrary: b)
  case (Cons x ns)
  obtain key n where "x = (key, n)" by fastforce
  then show ?case using Cons.IH [OF bm25_add_inv [OF Cons.prems]] by simp
qed simp

lemma sa_new_inv: "graph_ok g \<Longrightarrow> sa_inv (sa_new words g c)"
  using foldl_bm25_add [OF bm25_new_inv, of words "iter_memory_nodes g"] iter_memory_keys [of g]
  by (simp add: sa_inv_def sa_new_def bm25_new_def)

lemma sa_add_inv:
  assumes "sa_inv a" "in_size (sa_graph (sa_add_memory_scoped lower words mid text concepts importance scope a)) \<le> 2 ^ 32"
  shows "sa_inv (sa_add_memory_scoped lower words mid text concepts importance scope a)"
  using assms add_memory_scoped_grows [of "sa_graph a" lower mid "text" concepts importance scope]
  by (auto simp: sa_inv_def sa_add_memory_scoped_def bm25_add_inv add_memory_ids grows_def)

lemma sa_remove_inv: "sa_inv a \<Longrightarrow> sa_inv (sa_remove_memory mid a)"
  by (auto simp: sa_inv_def sa_remove_memory_def remove_memory_ok bm25_remove_inv remove_memory_ids)

end
