(* ===== verification/Storage_Engine.thy ===== *)
theory Storage_Engine
  imports Engine_Durability Payload_Index Scope_Index Text_Index Activation Optimizer Access_Counters Graph_Snapshot "HOL-Library.Product_Lexorder"
begin

text \<open>
  The storage engine: its state, the write path of \<open>turbomemory_storage/src/engine/write.rs\<close>, the
  worker that applies a write to the indexes (\<open>update_worker.rs\<close>), the reads and the flush of
  \<open>engine/mod.rs\<close>. A write holds the write lock and the shared side of the flush barrier from the
  id check to the index update, and a flush the exclusive side, so writes and flushes are modelled
  as steps that run one after the other. The worker applies one batch at a time and the caller waits
  for its answer, so \<open>submit_and_wait\<close> is the call of \<open>apply_batch\<close>.

  Results of file operations are arguments (\<open>write_env\<close>, \<open>flush_env\<close>); so are the JSON checks, the
  concept extractor, lower-casing and word splitting (\<open>engine_lib\<close>).
\<close>

section \<open>The state\<close>

record engine_lib =
  el_wal :: wal_lib
  el_codec :: meta_codec
  el_json :: json_lib
  el_ignored_any :: "string \<Rightarrow> bool"
  el_merge_concepts :: "string list \<Rightarrow> string \<Rightarrow> vocab \<Rightarrow> string list"
  el_lower :: "string \<Rightarrow> string"
  el_words :: "string \<Rightarrow> string list"
  el_snap :: snap_codec
  el_graph_json :: "bytes \<Rightarrow> mgraph option"

record engine =
  en_sync_writes :: bool
  en_meta :: mstore
  en_vectors :: vstore
  en_segments :: holder
  en_graph :: activation
  en_ccs :: "string option"
  en_id_index :: "(string, point_offset) fmap"
  en_payload_index :: payload_index
  en_scope_index :: scope_index
  en_text_index :: text_index
  en_wal :: wal
  en_counters :: access_counters
  en_budget :: budget
  en_recovery :: recovery_report

abbreviation en_dim :: "engine \<Rightarrow> nat" where
  "en_dim e \<equiv> cfg_dimension (sh_config (en_segments e))"

section \<open>Preparing a record\<close>

record write_input =
  wi_id :: string
  wi_text :: string
  wi_embedding :: "f32 list"
  wi_importance :: f32
  wi_concepts :: "string list"
  wi_payload :: "string option"
  wi_scope :: "string option"
  wi_source_role :: "string option"

record prepared_record =
  pr_id :: string
  pr_text :: string
  pr_embedding :: "f32 list"
  pr_importance :: f32
  pr_concepts :: "string list"
  pr_payload :: "string option"
  pr_scope :: "string option"
  pr_source_role :: "string option"

definition into_record :: "u64 \<Rightarrow> prepared_record \<Rightarrow> u64 \<Rightarrow> mem_record" where
  "into_record now p sq =
     \<lparr>r_id = pr_id p, r_text = pr_text p, r_embedding = pr_embedding p, r_importance = pr_importance p,
      r_concepts = pr_concepts p, r_created_at = now, r_insert_seq = sq, r_access_count = 0, r_last_accessed = 0,
      r_tier = Hot, r_payload = pr_payload p, r_scope = pr_scope p, r_source_role = pr_source_role p\<rparr>"

definition core_result :: "turbo_error + 'a \<Rightarrow> 'a result" where
  "core_result r = (case r of Inl e \<Rightarrow> Inl (Core e) | Inr x \<Rightarrow> Inr x)"

definition prepare :: "engine_lib \<Rightarrow> nat \<Rightarrow> vocab \<Rightarrow> write_input \<Rightarrow> prepared_record result" where
  "prepare L d vocab inp =
     (if wi_id inp = [] then Inl (InvalidArgument ''id must not be empty'')
      else rbind (core_result (validate_dimension (wi_embedding inp) d)) (\<lambda>_.
        if \<not> f32_is_finite (wi_importance inp) then Inl (InvalidArgument ''importance_score must be finite'')
        else if (case wi_payload inp of None \<Rightarrow> False | Some p \<Rightarrow> \<not> el_ignored_any L p)
        then Inl (InvalidArgument ''invalid payload JSON'')
        else rbind (core_result (normalize (wi_embedding inp))) (\<lambda>emb.
          Inr \<lparr>pr_id = wi_id inp, pr_text = wi_text inp, pr_embedding = emb, pr_importance = wi_importance inp,
               pr_concepts = el_merge_concepts L (wi_concepts inp) (wi_text inp) vocab, pr_payload = wi_payload inp,
               pr_scope = wi_scope inp, pr_source_role = wi_source_role inp\<rparr>)))"

section \<open>Logging\<close>

text \<open>The outcomes of one write: the clock as each record of the write reads it, growing the vector file for the \<open>i\<close>-th vector, the sync of
  the vectors, the append and the sync of the log, and the position of the document the text index
  refuses.\<close>

record write_env =
  we_now :: "nat \<Rightarrow> u64"
  we_grow :: "nat \<Rightarrow> grow_outcome"
  we_vsync_ok :: bool
  we_append :: write_outcome
  we_fsync_ok :: bool
  we_text :: "nat option"

definition log_ops :: "engine_lib \<Rightarrow> write_env \<Rightarrow> wal_op list \<Rightarrow> engine \<Rightarrow> unit result \<times> engine" where
  "log_ops L env ops e =
     (case append_batch (el_wal L) (we_append env) ops (en_wal e) of
        (Inl er, w) \<Rightarrow> (Inl er, e\<lparr>en_wal := w\<rparr>)
      | (Inr _, w) \<Rightarrow>
          (if en_sync_writes e \<and> \<not> we_fsync_ok env then Inl Io else Inr (), e\<lparr>en_wal := w\<rparr>))"

definition sync_vectors_if_configured :: "write_env \<Rightarrow> point_offset \<Rightarrow> point_offset \<Rightarrow> engine \<Rightarrow> unit result" where
  "sync_vectors_if_configured env first lst e =
     (if \<not> en_sync_writes e then Inr ()
      else rbind (vs_sync_range (en_vectors e) first lst) (\<lambda>_. if we_vsync_ok env then Inr () else Inl Io))"

section \<open>Applying a batch to the indexes\<close>

text \<open>The loop over the id, payload and scope indexes, which stops at a payload that does not parse.\<close>

fun apply_indexes :: "engine_lib \<Rightarrow> (point_offset \<times> mem_record) list \<Rightarrow> engine \<Rightarrow> unit result \<times> engine" where
  "apply_indexes L [] e = (Inr (), e)"
| "apply_indexes L ((off, r) # rs) e =
     (let e1 = e\<lparr>en_id_index := fmupd (r_id r) off (en_id_index e)\<rparr> in
      case pi_add (el_json L) off (r_payload r) (en_payload_index e1) of
        (Inl er, x) \<Rightarrow> (Inl er, e1\<lparr>en_payload_index := x\<rparr>)
      | (Inr _, x) \<Rightarrow>
          apply_indexes L rs (e1\<lparr>en_payload_index := x, en_scope_index := si_add off (r_scope r) (en_scope_index e1)\<rparr>))"

definition apply_graph :: "engine_lib \<Rightarrow> (point_offset \<times> mem_record) list \<Rightarrow> activation \<Rightarrow> activation" where
  "apply_graph L rs a =
     fold (\<lambda>(off, r). sa_add_memory_scoped (el_lower L) (el_words L) (r_id r) (r_text r) (r_concepts r) (r_importance r) (r_scope r)) rs a"

fun apply_segments :: "(point_offset \<times> mem_record) list \<Rightarrow> bool \<Rightarrow> holder \<Rightarrow> bool result \<times> holder" where
  "apply_segments [] needs_seal h = (Inr needs_seal, h)"
| "apply_segments ((off, r) # rs) needs_seal h =
     (case holder_insert off r h of
        (Inl er, h1) \<Rightarrow> (Inl er, h1)
      | (Inr full, h1) \<Rightarrow> apply_segments rs (needs_seal \<or> full) h1)"

definition apply_batch :: "engine_lib \<Rightarrow> write_env \<Rightarrow> (point_offset \<times> mem_record) list \<Rightarrow> engine \<Rightarrow> unit result \<times> engine" where
  "apply_batch L env rs e =
     (let e1 = e\<lparr>en_meta := put_batch rs (en_meta e)\<rparr> in
      case apply_indexes L rs e1 of
        (Inl er, e2) \<Rightarrow> (Inl er, e2)
      | (Inr _, e2) \<Rightarrow>
          (case ti_add_batch (we_text env) (map (\<lambda>(off, r). (off, r_text r)) rs) (en_text_index e2) of
             (Inl er, x) \<Rightarrow> (Inl er, e2\<lparr>en_text_index := x\<rparr>)
           | (Inr _, x) \<Rightarrow>
               (let e3 = e2\<lparr>en_text_index := x, en_graph := apply_graph L rs (en_graph e2)\<rparr> in
                case apply_segments rs False (en_segments e3) of
                  (Inl er, h) \<Rightarrow> (Inl er, e3\<lparr>en_segments := h\<rparr>)
                | (Inr needs_seal, h) \<Rightarrow> (Inr (), e3\<lparr>en_segments := (if needs_seal then seal_hot h else h)\<rparr>))))"

section \<open>Insert\<close>

definition insert_op :: "engine_lib \<Rightarrow> point_offset \<times> mem_record \<Rightarrow> wal_op" where
  "insert_op L = (\<lambda>(off, r). Insert off (r_insert_seq r) (meta_of_record r) (Some (vector_crc (crc32 (el_wal L)) (r_embedding r))))"

definition insert_with_payload_role :: "engine_lib \<Rightarrow> write_env \<Rightarrow> write_input \<Rightarrow> engine \<Rightarrow> bool result \<times> engine" where
  "insert_with_payload_role L env inp e =
     (case prepare L (en_dim e) (g_vocab (sa_graph (en_graph e))) inp of
        Inl er \<Rightarrow> (Inl er, e)
      | Inr p \<Rightarrow>
          if wi_id inp |\<in>| fmdom (en_id_index e) then (Inl (DuplicateId (wi_id inp)), e)
          else let (off, ms1) = allocate_offset (en_meta e); (sq, ms2) = allocate_seq ms1;
                   r = into_record (we_now env 0) p sq; e1 = e\<lparr>en_meta := ms2\<rparr> in
            case vs_put (crc32 (el_wal L)) (we_grow env 0) (en_vectors e1) off (r_embedding r) of
              (Inl er, vs) \<Rightarrow> (Inl er, e1\<lparr>en_vectors := vs\<rparr>)
            | (Inr _, vs) \<Rightarrow>
                (let e2 = e1\<lparr>en_vectors := vs\<rparr> in
                 case sync_vectors_if_configured env off off e2 of
                   Inl er \<Rightarrow> (Inl er, e2)
                 | Inr _ \<Rightarrow>
                     (case log_ops L env [insert_op L (off, r)] e2 of
                        (Inl er, e3) \<Rightarrow> (Inl er, e3)
                      | (Inr _, e3) \<Rightarrow>
                          (case apply_batch L env [(off, r)] e3 of
                             (Inl er, e4) \<Rightarrow> (Inl er, e4)
                           | (Inr _, e4) \<Rightarrow> (Inr True, e4)))))"

section \<open>Batch insert\<close>

text \<open>\<open>payloads.get(i).cloned().flatten()\<close>\<close>

definition get_flat :: "'a option list \<Rightarrow> nat \<Rightarrow> 'a option" where
  "get_flat xs i = (if i < length xs then xs ! i else None)"

record batch_input =
  bi_ids :: "string list"
  bi_texts :: "string list"
  bi_embeddings :: "f32 list list"
  bi_importances :: "f32 list"
  bi_concepts :: "string list list"
  bi_payloads :: "string option list"
  bi_scopes :: "string option list"
  bi_source_roles :: "string option list"

definition batch_lengths_ok :: "batch_input \<Rightarrow> bool" where
  "batch_lengths_ok b \<longleftrightarrow>
     (let n = length (bi_ids b) in
      length (bi_texts b) = n \<and> length (bi_embeddings b) = n \<and> length (bi_importances b) = n \<and> length (bi_concepts b) = n \<and>
      (bi_payloads b = [] \<or> length (bi_payloads b) = n) \<and> (bi_scopes b = [] \<or> length (bi_scopes b) = n) \<and>
      (bi_source_roles b = [] \<or> length (bi_source_roles b) = n))"

definition batch_item :: "batch_input \<Rightarrow> nat \<Rightarrow> write_input" where
  "batch_item b i =
     \<lparr>wi_id = bi_ids b ! i, wi_text = bi_texts b ! i, wi_embedding = bi_embeddings b ! i, wi_importance = bi_importances b ! i,
      wi_concepts = bi_concepts b ! i, wi_payload = get_flat (bi_payloads b) i, wi_scope = get_flat (bi_scopes b) i,
      wi_source_role = get_flat (bi_source_roles b) i\<rparr>"

fun prepare_all :: "engine_lib \<Rightarrow> nat \<Rightarrow> vocab \<Rightarrow> write_input list \<Rightarrow> string fset \<Rightarrow> prepared_record list \<Rightarrow> prepared_record list result" where
  "prepare_all L d vocab [] seen acc = Inr acc"
| "prepare_all L d vocab (inp # inps) seen acc =
     (case prepare L d vocab inp of
        Inl er \<Rightarrow> Inl er
      | Inr p \<Rightarrow>
          if wi_id inp |\<in>| seen then prepare_all L d vocab inps seen acc
          else prepare_all L d vocab inps (finsert (wi_id inp) seen) (acc @ [p]))"

fun allocate_records :: "(nat \<Rightarrow> u64) \<Rightarrow> prepared_record list \<Rightarrow> mstore \<Rightarrow> (point_offset \<times> mem_record) list \<times> mstore" where
  "allocate_records now [] ms = ([], ms)"
| "allocate_records now (p # ps) ms =
     (let (off, ms1) = allocate_offset ms; (sq, ms2) = allocate_seq ms1; (rs, ms3) = allocate_records (\<lambda>i. now (Suc i)) ps ms2
      in ((off, into_record (now 0) p sq) # rs, ms3))"

fun put_vectors :: "(bytes \<Rightarrow> u32) \<Rightarrow> (nat \<Rightarrow> grow_outcome) \<Rightarrow> nat \<Rightarrow> (point_offset \<times> mem_record) list \<Rightarrow> vstore \<Rightarrow> unit result \<times> vstore" where
  "put_vectors crc grow i [] vs = (Inr (), vs)"
| "put_vectors crc grow i ((off, r) # rs) vs =
     (case vs_put crc (grow i) vs off (r_embedding r) of
        (Inl er, vs1) \<Rightarrow> (Inl er, vs1)
      | (Inr _, vs1) \<Rightarrow> put_vectors crc grow (Suc i) rs vs1)"

definition insert_batch_with_payload_role :: "engine_lib \<Rightarrow> write_env \<Rightarrow> batch_input \<Rightarrow> engine \<Rightarrow> nat result \<times> engine" where
  "insert_batch_with_payload_role L env b e =
     (if bi_ids b = [] then (Inr 0, e)
      else if \<not> batch_lengths_ok b then (Inl (InvalidArgument ''batch arrays have mismatched lengths''), e)
      else case prepare_all L (en_dim e) (g_vocab (sa_graph (en_graph e))) (map (batch_item b) [0..<length (bi_ids b)]) {||} [] of
        Inl er \<Rightarrow> (Inl er, e)
      | Inr prepared \<Rightarrow>
          (let fresh = filter (\<lambda>p. pr_id p |\<notin>| fmdom (en_id_index e)) prepared in
           if fresh = [] then (Inr 0, e)
           else let (rs, ms) = allocate_records (we_now env) fresh (en_meta e); e1 = e\<lparr>en_meta := ms\<rparr> in
             case put_vectors (crc32 (el_wal L)) (we_grow env) 0 rs (en_vectors e1) of
               (Inl er, vs) \<Rightarrow> (Inl er, e1\<lparr>en_vectors := vs\<rparr>)
             | (Inr _, vs) \<Rightarrow>
                 (let e2 = e1\<lparr>en_vectors := vs\<rparr> in
                  case sync_vectors_if_configured env (fst (hd rs)) (fst (last rs)) e2 of
                    Inl er \<Rightarrow> (Inl er, e2)
                  | Inr _ \<Rightarrow>
                      (case log_ops L env (map (insert_op L) rs) e2 of
                         (Inl er, e3) \<Rightarrow> (Inl er, e3)
                       | (Inr _, e3) \<Rightarrow>
                           (case apply_batch L env rs e3 of
                              (Inl er, e4) \<Rightarrow> (Inl er, e4)
                            | (Inr _, e4) \<Rightarrow> (Inr (length rs), e4))))))"

section \<open>Delete and update\<close>

definition remove_from_indexes :: "engine_lib \<Rightarrow> string \<Rightarrow> point_offset \<Rightarrow> engine \<Rightarrow> engine" where
  "remove_from_indexes L i off e =
     (let e1 = (case ms_get (en_meta e) off of
                  None \<Rightarrow> e
                | Some m \<Rightarrow>
                    e\<lparr>en_payload_index := pi_remove (el_json L) off (m_payload m) (en_payload_index e),
                      en_scope_index := si_remove off (m_scope m) (en_scope_index e),
                      en_text_index := ti_remove off (en_text_index e)\<rparr>)
      in e1\<lparr>en_meta := ms_remove off (en_meta e1), en_id_index := fmdrop i (en_id_index e1),
            en_graph := sa_remove_memory i (en_graph e1)\<rparr>)"

definition delete_where :: "engine_lib \<Rightarrow> write_env \<Rightarrow> string \<Rightarrow> (point_offset \<Rightarrow> bool) \<Rightarrow> engine \<Rightarrow> bool result \<times> engine" where
  "delete_where L env i matches e =
     (case fmlookup (en_id_index e) i of
        None \<Rightarrow> (Inr False, e)
      | Some off \<Rightarrow>
          if \<not> matches off then (Inr False, e)
          else case log_ops L env [Delete off] e of
            (Inl er, e1) \<Rightarrow> (Inl er, e1)
          | (Inr _, e1) \<Rightarrow> (Inr True, remove_from_indexes L i off e1))"

definition delete_by_id :: "engine_lib \<Rightarrow> write_env \<Rightarrow> string \<Rightarrow> engine \<Rightarrow> bool result \<times> engine" where
  "delete_by_id L env i e = delete_where L env i (\<lambda>_. True) e"

definition delete_by_id_at :: "engine_lib \<Rightarrow> write_env \<Rightarrow> string \<Rightarrow> point_offset \<Rightarrow> engine \<Rightarrow> bool result \<times> engine" where
  "delete_by_id_at L env i off e = delete_where L env i (\<lambda>current. current = off) e"

definition replace_op :: "engine_lib \<Rightarrow> point_offset \<Rightarrow> point_offset \<Rightarrow> mem_record \<Rightarrow> wal_op" where
  "replace_op L old off r =
     Replace old off (r_insert_seq r) (meta_of_record r) (vector_crc (crc32 (el_wal L)) (r_embedding r))"

text \<open>\<open>update_with_payload_role\<close> looks the id up before it takes the lock and again under it; in
  sequence both look-ups see the same index.\<close>

definition update_with_payload_role :: "engine_lib \<Rightarrow> write_env \<Rightarrow> write_input \<Rightarrow> engine \<Rightarrow> bool result \<times> engine" where
  "update_with_payload_role L env inp e =
     (case fmlookup (en_id_index e) (wi_id inp) of
        None \<Rightarrow> (Inr False, e)
      | Some old \<Rightarrow>
          (case prepare L (en_dim e) (g_vocab (sa_graph (en_graph e))) inp of
             Inl er \<Rightarrow> (Inl er, e)
           | Inr p \<Rightarrow>
               (let (off, ms1) = allocate_offset (en_meta e); (sq, ms2) = allocate_seq ms1;
                    r = into_record (we_now env 0) p sq; e1 = e\<lparr>en_meta := ms2\<rparr> in
                case vs_put (crc32 (el_wal L)) (we_grow env 0) (en_vectors e1) off (r_embedding r) of
                  (Inl er, vs) \<Rightarrow> (Inl er, e1\<lparr>en_vectors := vs\<rparr>)
                | (Inr _, vs) \<Rightarrow>
                    (let e2 = e1\<lparr>en_vectors := vs\<rparr> in
                     case sync_vectors_if_configured env off off e2 of
                       Inl er \<Rightarrow> (Inl er, e2)
                     | Inr _ \<Rightarrow>
                         (case log_ops L env [replace_op L old off r] e2 of
                            (Inl er, e3) \<Rightarrow> (Inl er, e3)
                          | (Inr _, e3) \<Rightarrow>
                              (case apply_batch L env [(off, r)] (remove_from_indexes L (wi_id inp) old e3) of
                                 (Inl er, e4) \<Rightarrow> (Inl er, e4)
                               | (Inr _, e4) \<Rightarrow> (Inr True, e4)))))))"

section \<open>Reads\<close>

definition next_insert_seq :: "engine \<Rightarrow> u64" where
  "next_insert_seq e = ms_next_seq (en_meta e)"

definition contains_id :: "string \<Rightarrow> engine \<Rightarrow> bool" where
  "contains_id i e \<longleftrightarrow> i |\<in>| fmdom (en_id_index e)"

definition scope_ids :: "string \<Rightarrow> engine \<Rightarrow> string list" where
  "scope_ids scope e =
     map snd (sort (List.map_filter (\<lambda>k. map_option (\<lambda>m. (m_insert_seq m, m_id m)) (ms_get (en_meta e) (ucast k)))
       (sorted_list_of_fset (si_exact scope (en_scope_index e)))))"

definition engine_scopes :: "engine \<Rightarrow> string list" where
  "engine_scopes e = si_scopes (en_scope_index e)"

definition get_payload :: "string \<Rightarrow> engine \<Rightarrow> string option" where
  "get_payload i e =
     (case fmlookup (en_id_index e) i of
        None \<Rightarrow> None
      | Some off \<Rightarrow> (case ms_get (en_meta e) off of None \<Rightarrow> None | Some m \<Rightarrow> m_payload m))"

definition get_record :: "engine \<Rightarrow> point_offset \<Rightarrow> mem_record option" where
  "get_record e off =
     (case ms_get (en_meta e) off of
        None \<Rightarrow> None
      | Some m \<Rightarrow> map_option (with_embedding m) (vs_get (en_vectors e) off))"

definition find_record_by_id :: "string \<Rightarrow> engine \<Rightarrow> mem_record option" where
  "find_record_by_id i e = Option.bind (fmlookup (en_id_index e) i) (get_record e)"

definition find_meta_by_id :: "string \<Rightarrow> engine \<Rightarrow> meta_record option" where
  "find_meta_by_id i e = Option.bind (fmlookup (en_id_index e) i) (ms_get (en_meta e))"

definition engine_record_count :: "engine \<Rightarrow> u64" where
  "engine_record_count e = ms_record_count (en_meta e)"

definition bump_access :: "u64 \<Rightarrow> point_offset \<Rightarrow> engine \<Rightarrow> engine" where
  "bump_access now off e = e\<lparr>en_counters := bump off now (en_counters e)\<rparr>"

definition bump_access_by_id :: "u64 \<Rightarrow> string \<Rightarrow> engine \<Rightarrow> engine" where
  "bump_access_by_id now i e = (case fmlookup (en_id_index e) i of None \<Rightarrow> e | Some off \<Rightarrow> bump_access now off e)"

definition reinforce_graph_ids :: "u64 \<Rightarrow> string list \<Rightarrow> engine \<Rightarrow> engine" where
  "reinforce_graph_ids now is e = e\<lparr>en_graph := fold (\<lambda>i. sa_reinforce i now) is (en_graph e)\<rparr>"

section \<open>Flush\<close>

record flush_env =
  fe_seals :: "nat \<Rightarrow> seal_env"
  fe_fsync_ok :: bool
  fe_vsync_ok :: bool
  fe_text :: commit_outcome
  fe_txn :: txn_outcome
  fe_gone :: "string \<Rightarrow> bool"
  fe_has_dir :: "string \<Rightarrow> bool"
  fe_graph_txn :: txn_outcome
  fe_json_txn :: txn_outcome
  fe_ccs_txn :: txn_outcome
  fe_clear :: clear_outcome

definition save_ccs :: "txn_outcome \<Rightarrow> engine \<Rightarrow> unit result \<times> engine" where
  "save_ccs out e =
     (case en_ccs e of
        None \<Rightarrow> (Inr (), e)
      | Some json \<Rightarrow> (case save_meta out ''ccs'' json (en_meta e) of (r, ms) \<Rightarrow> (r, e\<lparr>en_meta := ms\<rparr>)))"

definition save_graph :: "engine_lib \<Rightarrow> txn_outcome \<Rightarrow> txn_outcome \<Rightarrow> engine \<Rightarrow> unit result \<times> engine" where
  "save_graph L out1 out2 e =
     (case to_snapshot_bytes (el_snap L) (sa_graph (en_graph e)) of
        None \<Rightarrow> (Inl Serialize, e)
      | Some bs \<Rightarrow>
          (case save_meta_bytes out1 ''graph'' bs (en_meta e) of
             (Inl er, ms) \<Rightarrow> (Inl er, e\<lparr>en_meta := ms\<rparr>)
           | (Inr _, ms) \<Rightarrow> (case remove_meta out2 ''graph'' ms of (r, ms1) \<Rightarrow> (r, e\<lparr>en_meta := ms1\<rparr>))))"

text \<open>The parts of \<open>flush\<close>: building what is queued and draining the counters; the durable snapshot
  of vectors and metadata; segment files, graph and compressed state; dropping the log.\<close>

definition flush_build :: "flush_env \<Rightarrow> engine \<Rightarrow> storage_error option \<times> engine" where
  "flush_build env e =
     (case process_seals (fe_seals env) 0 (en_vectors e) (en_budget e) (en_segments e) of
        (er, b, h) \<Rightarrow>
          (case drain_into (en_counters e) (en_meta e) of
             (a, ms) \<Rightarrow> (er, e\<lparr>en_budget := b, en_segments := h, en_counters := a, en_meta := ms\<rparr>)))"

definition flush_snapshot :: "engine_lib \<Rightarrow> flush_env \<Rightarrow> engine \<Rightarrow> unit result \<times> engine" where
  "flush_snapshot L env e =
     (if \<not> fe_fsync_ok env then (Inl Io, e)
      else case vs_flush (crc32 (el_wal L)) (en_vectors e) of
        (Inl er, vs) \<Rightarrow> (Inl er, e\<lparr>en_vectors := vs\<rparr>)
      | (Inr _, vs) \<Rightarrow>
          (let e1 = e\<lparr>en_vectors := vs\<rparr> in
           if \<not> fe_vsync_ok env then (Inl Io, e1)
           else case ti_flush (fe_text env) (en_text_index e1) of
             (Inl er, x) \<Rightarrow> (Inl er, e1\<lparr>en_text_index := x\<rparr>)
           | (Inr _, x) \<Rightarrow>
               (case ms_flush (el_codec L) (fe_txn env) (sat_sub64 (ms_next_seq (en_meta e1)) 1) (en_meta e1) of
                  (r, ms) \<Rightarrow> (r, e1\<lparr>en_text_index := x, en_meta := ms\<rparr>))))"

definition flush_rest :: "engine_lib \<Rightarrow> flush_env \<Rightarrow> engine \<Rightarrow> unit result \<times> engine" where
  "flush_rest L env e =
     (case holder_flush (fe_gone env) (fe_has_dir env) (en_segments e) of
        (Inl er, h) \<Rightarrow> (Inl er, e\<lparr>en_segments := h\<rparr>)
      | (Inr _, h) \<Rightarrow>
          (case save_graph L (fe_graph_txn env) (fe_json_txn env) (e\<lparr>en_segments := h\<rparr>) of
             (Inl er, e1) \<Rightarrow> (Inl er, e1)
           | (Inr _, e1) \<Rightarrow>
               (case save_ccs (fe_ccs_txn env) e1 of
                  (Inl er, e2) \<Rightarrow> (Inl er, e2)
                | (Inr _, e2) \<Rightarrow>
                    (case clear_log (fe_clear env) (en_wal e2) of (r, w) \<Rightarrow> (r, e2\<lparr>en_wal := w\<rparr>)))))"

definition engine_flush :: "engine_lib \<Rightarrow> flush_env \<Rightarrow> engine \<Rightarrow> unit result \<times> engine" where
  "engine_flush L env e =
     (case flush_build env e of (seal_error, e1) \<Rightarrow>
        (case flush_snapshot L env e1 of
           (Inl er, e2) \<Rightarrow> (Inl er, e2)
         | (Inr _, e2) \<Rightarrow>
             (case flush_rest L env e2 of
                (Inl er, e3) \<Rightarrow> (Inl er, e3)
              | (Inr _, e3) \<Rightarrow> (case seal_error of Some er \<Rightarrow> (Inl er, e3) | None \<Rightarrow> (Inr (), e3)))))"

end
