(* ===== verification/Engine_Invariants.thy ===== *)
theory Engine_Invariants
  imports Storage_Engine
begin

text \<open>
  What every write and every flush of the engine keeps. First the durable half: the files of a
  running engine recover to exactly the records it holds (\<open>eng_dur\<close>). Then the indexes: the id,
  payload and scope indexes are exact for the live records and every live record is in a listed
  segment (\<open>eng_idx\<close>, \<open>eng_seg\<close>).
\<close>

section \<open>The commit section of a write\<close>

text \<open>What insert, batch insert and update share: vectors, sync, log, indexes.\<close>

definition commit_path :: "engine_lib \<Rightarrow> write_env \<Rightarrow> (point_offset \<times> mem_record) list \<Rightarrow> wal_op list \<Rightarrow> (engine \<Rightarrow> engine)
    \<Rightarrow> mstore \<Rightarrow> engine \<Rightarrow> unit result \<times> engine" where
  "commit_path L env rs ops pre ms e =
     (case put_vectors (crc32 (el_wal L)) (we_grow env) 0 rs (en_vectors e) of
        (Inl er, vs) \<Rightarrow> (Inl er, e\<lparr>en_meta := ms, en_vectors := vs\<rparr>)
      | (Inr _, vs) \<Rightarrow>
          (case sync_vectors_if_configured env (fst (hd rs)) (fst (last rs)) (e\<lparr>en_meta := ms, en_vectors := vs\<rparr>) of
             Inl er \<Rightarrow> (Inl er, e\<lparr>en_meta := ms, en_vectors := vs\<rparr>)
           | Inr _ \<Rightarrow>
               (case log_ops L env ops (e\<lparr>en_meta := ms, en_vectors := vs\<rparr>) of
                  (Inl er, e3) \<Rightarrow> (Inl er, e3)
                | (Inr _, e3) \<Rightarrow> apply_batch L env rs (pre e3))))"

definition answer :: "'a \<Rightarrow> unit result \<times> engine \<Rightarrow> 'a result \<times> engine" where
  "answer x p = (case p of (Inl er, e) \<Rightarrow> (Inl er, e) | (Inr _, e) \<Rightarrow> (Inr x, e))"

lemma answer_simps [simp]:
  "answer x (Inl er, e) = (Inl er, e)" "answer x (Inr u, e) = (Inr x, e)"
  "answer x (case_sum f g s) = case_sum (\<lambda>a. answer x (f a)) (\<lambda>b. answer x (g b)) s"
  "answer x (case_prod h q) = case_prod (\<lambda>a b. answer x (h a b)) q"
  by (simp_all add: answer_def split: sum.split prod.split)

lemma answer_fold: "(case q of (Inl er, e) \<Rightarrow> (Inl er, e) | (Inr _, e) \<Rightarrow> (Inr x, e)) = answer x q"
  by (simp add: answer_def)

lemma commit_single:
  "commit_path L env [(off, r)] ops pre ms e =
     (case vs_put (crc32 (el_wal L)) (we_grow env 0) (en_vectors e) off (r_embedding r) of
        (Inl er, vs) \<Rightarrow> (Inl er, e\<lparr>en_meta := ms, en_vectors := vs\<rparr>)
      | (Inr _, vs) \<Rightarrow>
          (case sync_vectors_if_configured env off off (e\<lparr>en_meta := ms, en_vectors := vs\<rparr>) of
             Inl er \<Rightarrow> (Inl er, e\<lparr>en_meta := ms, en_vectors := vs\<rparr>)
           | Inr _ \<Rightarrow>
               (case log_ops L env ops (e\<lparr>en_meta := ms, en_vectors := vs\<rparr>) of
                  (Inl er, e3) \<Rightarrow> (Inl er, e3)
                | (Inr _, e3) \<Rightarrow> apply_batch L env [(off, r)] (pre e3))))"
  by (cases "vs_put (crc32 (el_wal L)) (we_grow env 0) (en_vectors e) off (r_embedding r)")
     (auto simp: commit_path_def split: sum.split)

lemmas answer_single = arg_cong [OF commit_single, of "answer x" for x, unfolded answer_simps]
lemmas answer_commit = arg_cong [OF commit_path_def, of "answer x" for x, unfolded answer_simps]

lemma alloc_one:
  "(let (off, ms1) = allocate_offset ms; (sq, ms2) = allocate_seq ms1 in f off sq ms2) =
   f (ms_next_offset ms) (ms_next_seq ms) (ms\<lparr>ms_next_offset := ms_next_offset ms + 1, ms_next_seq := ms_next_seq ms + 1\<rparr>)"
  by (simp add: allocate_offset_def allocate_seq_def)

lemma insert_as_commit:
  "insert_with_payload_role L env inp e =
     (case prepare L (en_dim e) (g_vocab (sa_graph (en_graph e))) inp of
        Inl er \<Rightarrow> (Inl er, e)
      | Inr p \<Rightarrow>
          if wi_id inp |\<in>| fmdom (en_id_index e) then (Inl (DuplicateId (wi_id inp)), e)
          else case allocate_records (we_now env) [p] (en_meta e) of
            (rs, ms) \<Rightarrow> answer True (commit_path L env rs (map (insert_op L) rs) (\<lambda>e. e) ms e))"
  unfolding insert_with_payload_role_def answer_fold alloc_one unfolding Let_def
  by (cases "prepare L (en_dim e) (g_vocab (sa_graph (en_graph e))) inp")
     (simp_all add: answer_single allocate_offset_def allocate_seq_def Let_def)

lemma batch_as_commit:
  "insert_batch_with_payload_role L env b e =
     (if bi_ids b = [] then (Inr 0, e)
      else if \<not> batch_lengths_ok b then (Inl (InvalidArgument ''batch arrays have mismatched lengths''), e)
      else case prepare_all L (en_dim e) (g_vocab (sa_graph (en_graph e))) (map (batch_item b) [0..<length (bi_ids b)]) {||} [] of
        Inl er \<Rightarrow> (Inl er, e)
      | Inr prepared \<Rightarrow>
          (let fresh = filter (\<lambda>p. pr_id p |\<notin>| fmdom (en_id_index e)) prepared in
           if fresh = [] then (Inr 0, e)
           else case allocate_records (we_now env) fresh (en_meta e) of
             (rs, ms) \<Rightarrow> answer (length rs) (commit_path L env rs (map (insert_op L) rs) (\<lambda>e. e) ms e)))"
  unfolding insert_batch_with_payload_role_def answer_fold alloc_one unfolding Let_def
  by (cases "prepare_all L (en_dim e) (g_vocab (sa_graph (en_graph e))) (map (batch_item b) [0..<length (bi_ids b)]) {||} []")
     (simp_all add: answer_commit Let_def split_def)

lemma update_as_commit:
  "update_with_payload_role L env inp e =
     (case fmlookup (en_id_index e) (wi_id inp) of
        None \<Rightarrow> (Inr False, e)
      | Some old \<Rightarrow>
          (case prepare L (en_dim e) (g_vocab (sa_graph (en_graph e))) inp of
             Inl er \<Rightarrow> (Inl er, e)
           | Inr p \<Rightarrow>
               (case allocate_records (we_now env) [p] (en_meta e) of
                  (rs, ms) \<Rightarrow> answer True (commit_path L env rs (map (\<lambda>(off, r). replace_op L old off r) rs)
                    (remove_from_indexes L (wi_id inp) old) ms e))))"
  unfolding update_with_payload_role_def answer_fold alloc_one unfolding Let_def
  by (cases "fmlookup (en_id_index e) (wi_id inp)"; cases "prepare L (en_dim e) (g_vocab (sa_graph (en_graph e))) inp")
     (simp_all add: answer_single allocate_offset_def allocate_seq_def Let_def)

text \<open>How a commit can end: before the log, at the sync of the log, or with the batch applied.\<close>

lemma commit_cases:
  assumes "commit_path L env rs ops pre ms e = (r, e')" "w_pos (en_wal e) = length (w_file (en_wal e))"
    and "\<not> en_sync_writes e \<or> we_fsync_ok env"
    and v: "put_vectors (crc32 (el_wal L)) (we_grow env) 0 rs (en_vectors e) = (rv, vs)"
  obtains (unlogged) er where "r = Inl er" "e' = e\<lparr>en_meta := ms, en_vectors := vs\<rparr>"
  | (logged) w where "rv = Inr ()" "append_batch (el_wal L) (we_append env) ops (en_wal e) = (Inr (), w)"
      "apply_batch L env rs (pre (e\<lparr>en_meta := ms, en_vectors := vs, en_wal := w\<rparr>)) = (r, e')"
proof -
  let ?e = "e\<lparr>en_meta := ms, en_vectors := vs\<rparr>"
  obtain ra w where a: "append_batch (el_wal L) (we_append env) ops (en_wal e) = (ra, w)" by fastforce
  have keep: "w = en_wal e" if "ra = Inl er" for er using append_batch_error_unchanged [OF assms(2)] a that by blast
  have lg: "log_ops L env ops ?e = (case ra of Inl er \<Rightarrow> (Inl er, ?e) | Inr _ \<Rightarrow> (Inr (), ?e\<lparr>en_wal := w\<rparr>))"
    using a assms(3) keep by (auto simp: log_ops_def split: sum.split)
  obtain sy where sy: "sync_vectors_if_configured env (fst (hd rs)) (fst (last rs)) ?e = sy" by simp
  consider er where "rv = Inl er" | er where "rv = Inr ()" "sy = Inl er" | er where "rv = Inr ()" "sy = Inr ()" "ra = Inl er"
    | "rv = Inr ()" "sy = Inr ()" "ra = Inr ()"
    by (metis old.sum.exhaust old.unit.exhaust)
  then show ?thesis
  proof cases
    case (2 er)
    then have "(r, e') = (Inl er, ?e)" using assms(1) v sy by (simp add: commit_path_def)
    then show ?thesis using unlogged by blast
  qed (use assms(1) v lg a sy in \<open>auto simp: commit_path_def intro: unlogged logged\<close>)
qed

section \<open>Offsets, sequence numbers and vectors of a batch\<close>

definition room :: "mstore \<Rightarrow> nat \<Rightarrow> bool" where
  "room ms n \<longleftrightarrow> unat (ms_next_offset ms) + n < 2 ^ 64 \<and> unat (ms_next_seq ms) + n < 2 ^ 64"

definition numbered :: "mstore \<Rightarrow> mstore \<Rightarrow> (point_offset \<times> mem_record) list \<Rightarrow> bool" where
  "numbered ms ms' rs \<longleftrightarrow> distinct (map fst rs) \<and> (\<forall>off r. (off, r) \<in> set rs \<longrightarrow>
     ms_next_offset ms \<le> off \<and> off < ms_next_offset ms' \<and> ms_next_seq ms \<le> r_insert_seq r \<and> r_insert_seq r < ms_next_seq ms')"

lemma allocate_ok:
  assumes "allocate_records now ps ms = (rs, ms')" "room ms (length ps)"
  shows "numbered ms ms' rs \<and> ms_db ms' = ms_db ms \<and> ms_records ms' = ms_records ms \<and> ms_inv C ms' = ms_inv C ms \<and>
    unat (ms_next_offset ms') = unat (ms_next_offset ms) + length ps \<and> unat (ms_next_seq ms') = unat (ms_next_seq ms) + length ps \<and>
    map (\<lambda>x. (r_id (snd x), r_payload (snd x), r_embedding (snd x))) rs = map (\<lambda>p. (pr_id p, pr_payload p, pr_embedding p)) ps"
  using assms
proof (induction ps arbitrary: now ms rs)
  case Nil
  then show ?case by (simp add: numbered_def)
next
  case (Cons p ps)
  let ?ms = "ms\<lparr>ms_next_offset := ms_next_offset ms + 1, ms_next_seq := ms_next_seq ms + 1\<rparr>"
  let ?r = "into_record (now 0) p (ms_next_seq ms)"
  obtain rs1 where rs: "allocate_records (\<lambda>i. now (Suc i)) ps ?ms = (rs1, ms')" "rs = (ms_next_offset ms, ?r) # rs1"
    using Cons.prems(1) by (auto simp: allocate_offset_def allocate_seq_def Let_def split: prod.splits)
  have inc: "unat (ms_next_offset ms + 1) = unat (ms_next_offset ms) + 1" "unat (ms_next_seq ms + 1) = unat (ms_next_seq ms) + 1"
    using Cons.prems(2) by (simp_all add: room_def unat_inc_small)
  have "room ?ms (length ps)" using Cons.prems(2) inc by (simp add: room_def)
  note IH = Cons.IH [OF rs(1) this]
  have inv: "ms_inv C ?ms = ms_inv C ms" by (simp add: ms_inv_def)
  have lt: "ms_next_offset ms < ms_next_offset ?ms" "ms_next_offset ms < ms_next_offset ms'" "ms_next_seq ms < ms_next_seq ms'"
      "ms_next_offset ms \<le> ms_next_offset ?ms" "ms_next_seq ms \<le> ms_next_seq ?ms"
    using IH inc by (simp_all add: word_less_nat_alt word_le_nat_alt)
  have num: "numbered ms ms' rs"
  proof -
    have n1: "numbered ?ms ms' rs1" using IH by blast
    have "ms_next_offset ms \<notin> fst ` set rs1"
    proof
      assume "ms_next_offset ms \<in> fst ` set rs1"
      then obtain r where "(ms_next_offset ms, r) \<in> set rs1" by force
      then have "ms_next_offset ?ms \<le> ms_next_offset ms" using n1 unfolding numbered_def by blast
      then show False using lt(1) by simp
    qed
    moreover have "ms_next_offset ms \<le> off \<and> off < ms_next_offset ms' \<and> ms_next_seq ms \<le> r_insert_seq r \<and> r_insert_seq r < ms_next_seq ms'"
      if "(off, r) \<in> set rs" for off r
    proof (cases "(off, r) \<in> set rs1")
      case True
      then have "ms_next_offset ?ms \<le> off" "off < ms_next_offset ms'" "ms_next_seq ?ms \<le> r_insert_seq r" "r_insert_seq r < ms_next_seq ms'"
        using n1 unfolding numbered_def by blast+
      then show ?thesis using lt(4,5) order_trans by blast
    next
      case False
      then have "off = ms_next_offset ms" "r = ?r" using that rs(2) by auto
      then show ?thesis using lt by (simp add: into_record_def)
    qed
    ultimately show ?thesis using n1 rs(2) unfolding numbered_def by simp
  qed
  then show ?case using IH inc inv rs(2) by (simp add: into_record_def)
qed

lemma put_vectors_frame:
  assumes "put_vectors crc grow i rs vs = (r, vs')" "vs_wf crc vs" "hcount vs \<le> vs_count vs" "\<And>off. off \<in> fst ` set rs \<Longrightarrow> off \<noteq> - 1"
  shows "vs_frame crc (fst ` set rs) vs vs'"
    "r = Inr () \<Longrightarrow> distinct (map fst rs) \<Longrightarrow> (off, x) \<in> set rs \<Longrightarrow>
       slot_bytes vs' (unat off) = Some (vec_bytes (r_embedding x)) \<and> unat off < vs_count vs' \<and> length (r_embedding x) = vs_dim vs"
proof -
  have "vs_frame crc (fst ` set rs) vs vs' \<and> (r = Inr () \<longrightarrow> distinct (map fst rs) \<longrightarrow> (\<forall>off x. (off, x) \<in> set rs \<longrightarrow>
       slot_bytes vs' (unat off) = Some (vec_bytes (r_embedding x)) \<and> unat off < vs_count vs' \<and> length (r_embedding x) = vs_dim vs))"
    using assms
  proof (induction rs arbitrary: i vs)
    case Nil
    then show ?case by (simp add: vs_frame_refl)
  next
    case (Cons y rs)
    obtain o1 x1 where y: "y = (o1, x1)" by fastforce
    obtain r1 vs1 where p: "vs_put crc (grow i) vs o1 (r_embedding x1) = (r1, vs1)" by fastforce
    have ne: "o1 \<noteq> - 1" using Cons.prems(4) y by simp
    note fr = vs_put_frame [OF Cons.prems(2,3) p ne]
    show ?case
    proof (cases r1)
      case (Inl er)
      then have "r = Inl er" "vs' = vs1" using Cons.prems(1) y p by simp_all
      moreover have "vs_frame crc (fst ` set (y # rs)) vs vs1"
        using fr(1) y unfolding vs_frame_def by auto
      ultimately show ?thesis by simp
    next
      case (Inr u)
      then have q: "put_vectors crc grow (Suc i) rs vs1 = (r, vs')" using Cons.prems(1) y p by simp
      have v1: "vs_wf crc vs1" "hcount vs1 \<le> vs_count vs1" "vs_dim vs1 = vs_dim vs" using fr(1) by (simp_all add: vs_frame_def)
      note IH = Cons.IH [OF q v1(1,2)]
      have f2: "vs_frame crc (fst ` set rs) vs1 vs'" using IH Cons.prems(4) by simp
      have fr2: "vs_frame crc (fst ` set (y # rs)) vs vs'" using vs_frame_trans [OF fr(1) f2] y by simp
      have "slot_bytes vs' (unat off) = Some (vec_bytes (r_embedding x)) \<and> unat off < vs_count vs' \<and> length (r_embedding x) = vs_dim vs"
        if "r = Inr ()" "distinct (map fst (y # rs))" "(off, x) \<in> set (y # rs)" for off x
      proof (cases "(off, x) \<in> set rs")
        case True
        then show ?thesis using IH Cons.prems(4) that(1,2) v1(3) by auto
      next
        case False
        then have e: "off = o1" "x = x1" using that(3) y by simp_all
        have s1: "slot_bytes vs1 (unat o1) = Some (vec_bytes (r_embedding x1))" "unat o1 < vs_count vs1" "length (r_embedding x1) = vs_dim vs"
          using fr(2) Inr by simp_all
        have "o1 \<notin> fst ` set rs" using that(2) y by simp
        then have "slot_bytes vs' (unat o1) = slot_bytes vs1 (unat o1)" using f2 s1(2) unfolding vs_frame_def by blast
        moreover have "vs_count vs1 \<le> vs_count vs'" using f2 by (simp add: vs_frame_def)
        ultimately show ?thesis using e s1 by simp
      qed
      then show ?thesis using fr2 by blast
    qed
  qed
  then show "vs_frame crc (fst ` set rs) vs vs'"
    "r = Inr () \<Longrightarrow> distinct (map fst rs) \<Longrightarrow> (off, x) \<in> set rs \<Longrightarrow>
       slot_bytes vs' (unat off) = Some (vec_bytes (r_embedding x)) \<and> unat off < vs_count vs' \<and> length (r_embedding x) = vs_dim vs"
    by blast+
qed

section \<open>The durable half\<close>

definition eng_dur :: "engine_lib \<Rightarrow> engine \<Rightarrow> bool" where
  "eng_dur L e \<longleftrightarrow> dur_inv (el_wal L) (el_codec L) (en_meta e) (en_vectors e) (en_wal e) (rec_view (en_meta e))"

lemma dur_inv_facts:
  assumes "dur_inv L C ms vs w R"
  shows "vs_wf (crc32 L) vs" "hcount vs \<le> vs_count vs" "w_pos w = length (w_file w)" "ms_inv C ms" "rec_view ms = R" "0 < ms_next_seq ms"
    "R off \<noteq> None \<Longrightarrow> unat off < vs_count vs \<and> off < ms_next_offset ms" "sq \<in> log_seqs (wal_ops L w) \<Longrightarrow> sq < ms_next_seq ms"
proof -
  obtain t where "run_ok L C t ms vs w R" by (rule dur_inv_E [OF assms])
  note r = this [unfolded run_ok_def]
  show "vs_wf (crc32 L) vs" "hcount vs \<le> vs_count vs" "ms_inv C ms" "rec_view ms = R"
    "R off \<noteq> None \<Longrightarrow> unat off < vs_count vs \<and> off < ms_next_offset ms" "sq \<in> log_seqs (wal_ops L w) \<Longrightarrow> sq < ms_next_seq ms" using r by blast+
  have "la_of t < ms_next_seq ms" "wal_clean L w" using r by blast+
  then show "0 < ms_next_seq ms" "w_pos w = length (w_file w)" by (auto simp: wal_clean_def order_le_less_trans)
qed

lemma apply_indexes_frame:
  "apply_indexes L rs e = (r, e') \<Longrightarrow> \<exists>i p s. e' = e\<lparr>en_id_index := i, en_payload_index := p, en_scope_index := s\<rparr>"
proof (induction rs arbitrary: e)
  case Nil
  have "e = e\<lparr>en_id_index := en_id_index e, en_payload_index := en_payload_index e, en_scope_index := en_scope_index e\<rparr>" by simp
  moreover have "e' = e" using Nil by simp
  ultimately show ?case by metis
next
  case (Cons x rs)
  obtain off q where x: "x = (off, q)" by fastforce
  let ?e = "e\<lparr>en_id_index := fmupd (r_id q) off (en_id_index e)\<rparr>"
  obtain rp y where p: "pi_add (el_json L) off (r_payload q) (en_payload_index e) = (rp, y)" by fastforce
  show ?case
  proof (cases rp)
    case (Inl er)
    then have "e' = e\<lparr>en_id_index := fmupd (r_id q) off (en_id_index e), en_payload_index := y\<rparr>"
      using Cons.prems x p by (simp add: Let_def)
    moreover have "e\<lparr>en_id_index := fmupd (r_id q) off (en_id_index e), en_payload_index := y\<rparr> =
        e\<lparr>en_id_index := fmupd (r_id q) off (en_id_index e), en_payload_index := y, en_scope_index := en_scope_index e\<rparr>" by simp
    ultimately show ?thesis by metis
  next
    case (Inr u)
    let ?e2 = "?e\<lparr>en_payload_index := y, en_scope_index := si_add off (r_scope q) (en_scope_index e)\<rparr>"
    have "apply_indexes L rs ?e2 = (r, e')" using Cons.prems x p Inr by (simp add: Let_def)
    from Cons.IH [OF this] show ?thesis by force
  qed
qed

lemma apply_batch_frame:
  assumes "apply_batch L env rs e = (r, e')"
  shows "en_vectors e' = en_vectors e" "en_wal e' = en_wal e" "en_meta e' = put_batch rs (en_meta e)"
    "en_sync_writes e' = en_sync_writes e"
proof -
  let ?e1 = "e\<lparr>en_meta := put_batch rs (en_meta e)\<rparr>"
  obtain r2 e2 where i: "apply_indexes L rs ?e1 = (r2, e2)" by fastforce
  obtain a b c where e2: "e2 = ?e1\<lparr>en_id_index := a, en_payload_index := b, en_scope_index := c\<rparr>"
    using apply_indexes_frame [OF i] by blast
  have "en_vectors e' = en_vectors e2 \<and> en_wal e' = en_wal e2 \<and> en_meta e' = en_meta e2 \<and> en_sync_writes e' = en_sync_writes e2"
    using assms i by (auto simp: apply_batch_def Let_def split: sum.splits prod.splits)
  then show "en_vectors e' = en_vectors e" "en_wal e' = en_wal e" "en_meta e' = put_batch rs (en_meta e)"
    "en_sync_writes e' = en_sync_writes e" using e2 by simp_all
qed

lemma put_batch_fields [simp]:
  "ms_db (put_batch rs ms) = ms_db ms" "ms_next_offset (put_batch rs ms) = ms_next_offset ms" "ms_next_seq (put_batch rs ms) = ms_next_seq ms"
  "ms_inv C ms \<Longrightarrow> ms_inv C (put_batch rs ms)"
  unfolding put_batch_fold by (induction rs arbitrary: ms) (auto simp: ms_put_inv)

text \<open>A commit whose operations insert the batch's records, after whatever \<open>pre\<close> removes.\<close>

definition ops_for :: "engine_lib \<Rightarrow> (point_offset \<times> mem_record) list \<Rightarrow> wal_op list \<Rightarrow> bool" where
  "ops_for L rs ops \<longleftrightarrow> deletes ops = {} \<and> (\<forall>off sq c. (off, sq, c) \<in> inserts ops \<longrightarrow>
     (\<exists>r. (off, r) \<in> set rs \<and> sq = r_insert_seq r \<and> c = Some (vector_crc (crc32 (el_wal L)) (r_embedding r))))"

lemma commit_new_ops:
  assumes "ops_for L rs ops" "numbered ms ms' rs"
    and "\<And>off x. (off, x) \<in> set rs \<Longrightarrow> slot_bytes vs (unat off) = Some (vec_bytes (r_embedding x)) \<and> unat off < vs_count vs"
  shows "new_ops (crc32 (el_wal L)) ms vs R (ms_next_offset ms') (ms_next_seq ms') ops"
proof -
  have "ms_next_offset ms \<le> off \<and> off < ms_next_offset ms' \<and> ms_next_seq ms \<le> sq \<and> sq < ms_next_seq ms' \<and>
      unat off < vs_count vs \<and> slot_matches (crc32 (el_wal L)) vs off c" if i: "(off, sq, c) \<in> inserts ops" for off sq c
  proof -
    obtain r where r: "(off, r) \<in> set rs" "sq = r_insert_seq r" "c = Some (vector_crc (crc32 (el_wal L)) (r_embedding r))"
      using assms(1) i unfolding ops_for_def by blast
    have "ms_next_offset ms \<le> off \<and> off < ms_next_offset ms' \<and> ms_next_seq ms \<le> r_insert_seq r \<and> r_insert_seq r < ms_next_seq ms'"
      using assms(2) r(1) unfolding numbered_def by blast
    then show ?thesis using r assms(3) [OF r(1)] by (simp add: slot_matches_def vector_crc_def)
  qed
  then show ?thesis using assms(1) unfolding new_ops_def ops_for_def by blast
qed

lemma commit_dur:
  assumes dur: "eng_dur L e" and num: "numbered (en_meta e) ms rs"
    and ms: "ms_db ms = ms_db (en_meta e)" "ms_records ms = ms_records (en_meta e)" "ms_inv (el_codec L) ms"
      "ms_next_offset (en_meta e) \<le> ms_next_offset ms" "ms_next_seq (en_meta e) \<le> ms_next_seq ms"
    and run: "commit_path L env rs ops pre ms e = (r, e')" and sync: "\<not> en_sync_writes e \<or> we_fsync_ok env"
    and ops: "ops_for L rs ops"
    and pre: "\<And>x. en_vectors (pre x) = en_vectors x \<and> en_wal (pre x) = en_wal x"
      "\<And>x. en_meta x = ms \<Longrightarrow> ms_db (en_meta (pre x)) = ms_db ms \<and> ms_inv (el_codec L) (en_meta (pre x)) \<and>
         ms_next_offset (en_meta (pre x)) = ms_next_offset ms \<and> ms_next_seq (en_meta (pre x)) = ms_next_seq ms \<and>
         rec_view (put_batch rs (en_meta (pre x))) = spec_log 0 (rec_view ms) ops"
  shows "eng_dur L e'" "rec_view (en_meta e') = rec_view (en_meta e) \<or> rec_view (en_meta e') = spec_log 0 (rec_view (en_meta e)) ops"
proof -
  let ?C = "el_codec L" and ?W = "el_wal L"
  let ?R = "rec_view (en_meta e)"
  have d: "dur_inv ?W ?C (en_meta e) (en_vectors e) (en_wal e) ?R" using dur by (simp add: eng_dur_def)
  note f = dur_inv_facts [OF d]
  obtain rv vs where v: "put_vectors (crc32 ?W) (we_grow env) 0 rs (en_vectors e) = (rv, vs)" by fastforce
  have ne: "off \<noteq> - 1 \<and> \<not> off < ms_next_offset (en_meta e)" if "off \<in> fst ` set rs" for off
  proof -
    note th = that
    obtain x where "(off, x) \<in> set rs" using th by force
    then have "off < ms_next_offset ms" "ms_next_offset (en_meta e) \<le> off" using num unfolding numbered_def by blast+
    then show ?thesis using less_not_max by auto
  qed
  note fr = put_vectors_frame [OF v f(1,2)]
  have fr1: "vs_frame (crc32 ?W) (fst ` set rs) (en_vectors e) vs" using fr(1) ne by blast
  have d1: "dur_inv ?W ?C (en_meta e) vs (en_wal e) ?R" by (rule dur_inv_frame [OF d fr1]) (use ne in blast)
  have rv: "rec_view ms = ?R" using ms(2) by (simp add: rec_view_def fun_eq_iff)
  have "eng_dur L e' \<and> (rec_view (en_meta e') = ?R \<or> rec_view (en_meta e') = spec_log 0 ?R ops)"
  proof (cases rule: commit_cases [OF run f(3) sync v])
    case (1 er)
    have "dur_inv ?W ?C ms vs (en_wal e) ?R" by (rule dur_inv_cache [OF d1 ms(1,3) rv ms(4,5)])
    then show ?thesis using 1 rv by (simp add: eng_dur_def)
  next
    case (2 w)
    let ?x = "e\<lparr>en_meta := ms, en_vectors := vs, en_wal := w\<rparr>"
    note ab = apply_batch_frame [OF 2(3)]
    have st: "slot_bytes vs (unat off) = Some (vec_bytes (r_embedding x)) \<and> unat off < vs_count vs" if "(off, x) \<in> set rs" for off x
      using fr(2) [OF _ 2(1) _ that] ne num unfolding numbered_def by blast
    let ?m = "put_batch rs (en_meta (pre ?x))"
    have m: "ms_db ?m = ms_db (en_meta e)" "ms_inv ?C ?m" "ms_next_offset ?m = ms_next_offset ms" "ms_next_seq ?m = ms_next_seq ms"
        "rec_view ?m = spec_log 0 ?R ops" using pre(2) [of ?x] ms(1) rv by simp_all
    have nw: "new_ops (crc32 ?W) (en_meta e) vs ?R (ms_next_offset ?m) (ms_next_seq ?m) ops"
      unfolding m(3,4) by (rule commit_new_ops [OF ops num st])
    have "dur_inv ?W ?C ?m vs w (spec_log 0 ?R ops)"
      by (rule dur_inv_append [OF d1 nw 2(2) m(1,2,5)]) (use m(3,4) ms(4,5) in simp_all)
    then show ?thesis using ab pre(1) [of ?x] m(5) by (simp add: eng_dur_def)
  qed
  then show "eng_dur L e'" "rec_view (en_meta e') = ?R \<or> rec_view (en_meta e') = spec_log 0 ?R ops" by blast+
qed

lemma inserts_simps [simp]:
  "inserts [] = {}" "inserts (Insert off sq m c # ops) = insert (off, sq, c) (inserts ops)"
  "inserts (Replace old off sq m c' # ops) = insert (off, sq, Some c') (inserts ops)"
  "inserts (Delete off # ops) = inserts ops"
  by (auto simp: inserts_def)

lemma ops_for_inserts: "ops_for L rs (map (insert_op L) rs)"
proof -
  have "deletes (map (insert_op L) rs) = {}" by (induction rs) (auto simp: insert_op_def)
  moreover have "\<exists>r. (off, r) \<in> set rs \<and> sq = r_insert_seq r \<and> c = Some (vector_crc (crc32 (el_wal L)) (r_embedding r))"
    if "(off, sq, c) \<in> inserts (map (insert_op L) rs)" for off sq c
    using that by (force simp: insert_op_def inserts_def)
  ultimately show ?thesis by (simp add: ops_for_def)
qed

lemma put_batch_spec:
  "(\<And>off r. (off, r) \<in> set rs \<Longrightarrow> 0 < r_insert_seq r) \<Longrightarrow>
   rec_view (put_batch rs ms) = spec_log 0 (rec_view ms) (map (insert_op L) rs)"
  unfolding put_batch_fold
proof (induction rs arbitrary: ms)
  case (Cons x rs)
  obtain off r where x: "x = (off, r)" by fastforce
  have "0 < r_insert_seq r" by (rule Cons.prems [of off]) (simp add: x)
  moreover have "\<And>off r. (off, r) \<in> set rs \<Longrightarrow> 0 < r_insert_seq r" by (rule Cons.prems) auto
  ultimately show ?case using Cons.IH [of "ms_put off r ms"] x by (simp add: insert_op_def fun_upd_def)
qed simp

lemma numbered_pos:
  assumes "numbered ms ms' rs" "0 < ms_next_seq ms" "(off, r) \<in> set rs"
  shows "0 < r_insert_seq r"
proof -
  have "ms_next_seq ms \<le> r_insert_seq r" using assms(1,3) unfolding numbered_def by blast
  then show ?thesis using assms(2) by (rule order_less_le_trans [rotated])
qed

text \<open>Storing new records: insert and batch insert.\<close>

lemma commit_inserts_dur:
  assumes "eng_dur L e" "allocate_records now ps (en_meta e) = (rs, ms)" "room (en_meta e) (length ps)"
    and "commit_path L env rs (map (insert_op L) rs) (\<lambda>e. e) ms e = (r, e')" "\<not> en_sync_writes e \<or> we_fsync_ok env"
  shows "eng_dur L e'" "rec_view (en_meta e') = rec_view (en_meta e) \<or> rec_view (en_meta e') = spec_log 0 (rec_view (en_meta e)) (map (insert_op L) rs)"
proof -
  note al = allocate_ok [OF assms(2,3), of "el_codec L"]
  have d: "dur_inv (el_wal L) (el_codec L) (en_meta e) (en_vectors e) (en_wal e) (rec_view (en_meta e))" using assms(1) by (simp add: eng_dur_def)
  note f = dur_inv_facts [OF d]
  have num: "numbered (en_meta e) ms rs" using al by blast
  have le: "ms_next_offset (en_meta e) \<le> ms_next_offset ms" "ms_next_seq (en_meta e) \<le> ms_next_seq ms"
    using al by (simp_all add: word_le_nat_alt)
  have m: "ms_db ms = ms_db (en_meta e)" "ms_records ms = ms_records (en_meta e)" "ms_inv (el_codec L) ms" using al f(4) by blast+
  have sp: "rec_view (put_batch rs ms) = spec_log 0 (rec_view ms) (map (insert_op L) rs)"
    by (rule put_batch_spec) (rule numbered_pos [OF num f(6)])
  note c = commit_dur [OF assms(1) num m le assms(4,5) ops_for_inserts]
  show "eng_dur L e'" "rec_view (en_meta e') = rec_view (en_meta e) \<or> rec_view (en_meta e') = spec_log 0 (rec_view (en_meta e)) (map (insert_op L) rs)"
    by (rule c; use m(3) sp in simp)+
qed

lemma remove_from_indexes_frame:
  "en_vectors (remove_from_indexes L i off e) = en_vectors e" "en_wal (remove_from_indexes L i off e) = en_wal e"
  "en_meta (remove_from_indexes L i off e) = ms_remove off (en_meta e)"
  "en_sync_writes (remove_from_indexes L i off e) = en_sync_writes e"
  "en_segments (remove_from_indexes L i off e) = en_segments e"
  by (simp_all add: remove_from_indexes_def Let_def split: option.split)

lemma commit_replace_dur:
  assumes "eng_dur L e" "allocate_records now [p] (en_meta e) = (rs, ms)" "room (en_meta e) 1"
    and "commit_path L env rs (map (\<lambda>(off, r). replace_op L old off r) rs) (remove_from_indexes L i old) ms e = (r, e')"
      "\<not> en_sync_writes e \<or> we_fsync_ok env"
  shows "eng_dur L e'" "rec_view (en_meta e') = rec_view (en_meta e) \<or>
    rec_view (en_meta e') = spec_log 0 (rec_view (en_meta e)) (map (\<lambda>(off, r). replace_op L old off r) rs)"
proof -
  have one: "room (en_meta e) (length [p])" using assms(3) by simp
  note al = allocate_ok [OF assms(2) one, of "el_codec L"]
  have d: "dur_inv (el_wal L) (el_codec L) (en_meta e) (en_vectors e) (en_wal e) (rec_view (en_meta e))" using assms(1) by (simp add: eng_dur_def)
  note f = dur_inv_facts [OF d]
  have num: "numbered (en_meta e) ms rs" using al by blast
  have le: "ms_next_offset (en_meta e) \<le> ms_next_offset ms" "ms_next_seq (en_meta e) \<le> ms_next_seq ms"
    using al by (simp_all add: word_le_nat_alt)
  have m: "ms_db ms = ms_db (en_meta e)" "ms_records ms = ms_records (en_meta e)" "ms_inv (el_codec L) ms" using al f(4) by blast+
  obtain off x where rs: "rs = [(off, x)]"
    using assms(2) by (auto simp: allocate_offset_def allocate_seq_def Let_def)
  have pos: "0 < r_insert_seq x" by (rule numbered_pos [OF num f(6)]) (simp add: rs)
  have ops: "ops_for L rs (map (\<lambda>(off, r). replace_op L old off r) rs)"
    by (auto simp: rs ops_for_def replace_op_def)
  have sp: "rec_view (put_batch rs (ms_remove old ms)) = spec_log 0 (rec_view ms) (map (\<lambda>(off, r). replace_op L old off r) rs)"
    using pos by (simp add: rs put_batch_fold replace_op_def)
  note c = commit_dur [OF assms(1) num m le assms(4,5) ops]
  show "eng_dur L e'" "rec_view (en_meta e') = rec_view (en_meta e) \<or>
      rec_view (en_meta e') = spec_log 0 (rec_view (en_meta e)) (map (\<lambda>(off, r). replace_op L old off r) rs)"
    by (rule c; use m(3) sp in \<open>simp add: remove_from_indexes_frame ms_remove_inv\<close>)+
qed

lemma delete_dur:
  assumes "eng_dur L e" "delete_where L env i matches e = (r, e')" "\<not> en_sync_writes e \<or> we_fsync_ok env"
    and live: "\<And>off. fmlookup (en_id_index e) i = Some off \<Longrightarrow> fmlookup (ms_records (en_meta e)) off \<noteq> None"
  shows "eng_dur L e'"
proof -
  let ?R = "rec_view (en_meta e)"
  have d: "dur_inv (el_wal L) (el_codec L) (en_meta e) (en_vectors e) (en_wal e) ?R" using assms(1) by (simp add: eng_dur_def)
  note f = dur_inv_facts [OF d]
  show ?thesis
  proof (cases "\<exists>off. fmlookup (en_id_index e) i = Some off \<and> matches off")
    case False
    then have "e' = e" using assms(2) by (auto simp: delete_where_def split: option.splits)
    then show ?thesis using assms(1) by simp
  next
    case True
    then obtain off where off: "fmlookup (en_id_index e) i = Some off" "matches off" by blast
    obtain ra w where a: "append_batch (el_wal L) (we_append env) [Delete off] (en_wal e) = (ra, w)" by fastforce
    show ?thesis
    proof (cases ra)
      case (Inl er)
      then have "w = en_wal e" using append_batch_error_unchanged [OF f(3)] a by blast
      then have "e' = e" using assms(2) off a Inl by (simp add: delete_where_def log_ops_def)
      then show ?thesis using assms(1) by simp
    next
      case (Inr u)
      then have a: "append_batch (el_wal L) (we_append env) [Delete off] (en_wal e) = (Inr (), w)" using a by simp
      have e': "e' = remove_from_indexes L i off (e\<lparr>en_wal := w\<rparr>)"
        using assms(2,3) off a by (auto simp: delete_where_def log_ops_def)
      have "?R off \<noteq> None" using live [OF off(1)] by (simp add: rec_view_def)
      then have nw: "new_ops (crc32 (el_wal L)) (en_meta e) (en_vectors e) ?R (ms_next_offset (ms_remove off (en_meta e)))
          (ms_next_seq (ms_remove off (en_meta e))) [Delete off]" by (simp add: new_ops_def)
      have "dur_inv (el_wal L) (el_codec L) (ms_remove off (en_meta e)) (en_vectors e) w (spec_log 0 ?R [Delete off])"
        by (rule dur_inv_append [OF d nw a]) (simp_all add: ms_remove_inv f(4))
      then show ?thesis by (simp add: eng_dur_def e' remove_from_indexes_frame)
    qed
  qed
qed

section \<open>Flush keeps the durable half\<close>

lemma append_history_fields [simp]:
  "ms_db (append_access_history off ts n ms) = ms_db ms" "ms_next_offset (append_access_history off ts n ms) = ms_next_offset ms"
  "ms_next_seq (append_access_history off ts n ms) = ms_next_seq ms" "ms_records (append_access_history off ts n ms) = ms_records ms"
  by (simp_all add: append_access_history_def Let_def)

definition same_store :: "meta_codec \<Rightarrow> mstore \<Rightarrow> mstore \<Rightarrow> bool" where
  "same_store C ms ms' \<longleftrightarrow> ms_db ms' = ms_db ms \<and> ms_next_offset ms' = ms_next_offset ms \<and> ms_next_seq ms' = ms_next_seq ms \<and>
     rec_view ms' = rec_view ms \<and> (ms_inv C ms \<longrightarrow> ms_inv C ms')"

lemma drain_entry_same: "same_store C ms (drain_entry n off x ms)"
proof -
  have v: "rec_view (append_access_history o' ts k s) = rec_view s" for o' ts k s by (simp add: rec_view_def fun_eq_iff)
  have "(rec_view ms)(off \<mapsto> core_meta (m\<lparr>m_access_count := a, m_last_accessed := b\<rparr>)) = rec_view ms" if "ms_get ms off = Some m" for m a b
    using that by (auto simp: rec_view_def ms_get_def core_meta_def fun_eq_iff)
  moreover have "ms_db (put_meta off m ms) = ms_db ms" "ms_next_offset (put_meta off m ms) = ms_next_offset ms"
    "ms_next_seq (put_meta off m ms) = ms_next_seq ms" for m by (simp_all add: put_meta_def Let_def)
  ultimately show ?thesis
    by (auto simp: same_store_def drain_entry_def Let_def v append_access_history_inv put_meta_inv split: option.split)
qed

lemma drain_into_same:
  assumes "drain_into a ms = (a', ms')"
  shows "same_store C ms ms'"
proof -
  have "same_store C ms (fold (\<lambda>(off, x). drain_entry n off x) items ms)" for n items
  proof (induction items arbitrary: ms)
    case (Cons y items)
    obtain off x where "y = (off, x)" by fastforce
    then show ?case using Cons.IH [of "drain_entry n off x ms"] drain_entry_same [of C ms n off x] by (auto simp: same_store_def)
  qed (simp add: same_store_def)
  then show ?thesis using assms by (auto simp: drain_into_def)
qed

lemma flush_build_dur:
  assumes "eng_dur L e" "flush_build env e = (er, e')"
  shows "eng_dur L e'" "en_vectors e' = en_vectors e" "en_wal e' = en_wal e" "rec_view (en_meta e') = rec_view (en_meta e)"
    "same_store (el_codec L) (en_meta e) (en_meta e')"
proof -
  obtain a ms where d: "drain_into (en_counters e) (en_meta e) = (a, ms)" by fastforce
  have e': "en_meta e' = ms" "en_vectors e' = en_vectors e" "en_wal e' = en_wal e"
    using assms(2) d by (auto simp: flush_build_def split: prod.splits)
  note s = drain_into_same [OF d, of "el_codec L"]
  have r: "rec_view ms = rec_view (en_meta e)" using s by (simp add: same_store_def)
  have du: "dur_inv (el_wal L) (el_codec L) (en_meta e) (en_vectors e) (en_wal e) (rec_view (en_meta e))" using assms(1) by (simp add: eng_dur_def)
  have "dur_inv (el_wal L) (el_codec L) ms (en_vectors e) (en_wal e) (rec_view (en_meta e))"
    by (rule dur_inv_cache [OF du]) (use s dur_inv_facts(4) [OF du] in \<open>simp_all add: same_store_def\<close>)
  then show "eng_dur L e'" using r e' by (simp add: eng_dur_def)
  show "en_vectors e' = en_vectors e" "en_wal e' = en_wal e" using e' by simp_all
  show "rec_view (en_meta e') = rec_view (en_meta e)" "same_store (el_codec L) (en_meta e) (en_meta e')" using r s e' by simp_all
qed

lemma ms_records_view: "ms_records ms' = ms_records ms \<Longrightarrow> rec_view ms' = rec_view ms"
  by (simp add: rec_view_def fun_eq_iff)

lemma flush_snapshot_dur:
  assumes "eng_dur L e" "flush_snapshot L env e = (r, e')"
  shows "eng_dur L e'" "r = Inr () \<Longrightarrow> captured (el_codec L) (en_meta e') (rec_view (en_meta e'))" "en_wal e' = en_wal e"
    "rec_view (en_meta e') = rec_view (en_meta e)" "vs_frame (crc32 (el_wal L)) {} (en_vectors e) (en_vectors e')"
proof -
  let ?C = "el_codec L" and ?W = "el_wal L" and ?q = "sat_sub64 (ms_next_seq (en_meta e)) 1" and ?R = "rec_view (en_meta e)"
  have d: "dur_inv ?W ?C (en_meta e) (en_vectors e) (en_wal e) ?R" using assms(1) by (simp add: eng_dur_def)
  note f = dur_inv_facts [OF d]
  obtain rv vs where v: "vs_flush (crc32 ?W) (en_vectors e) = (rv, vs)" by fastforce
  note fr = vs_flush_frame [OF f(1,2) v]
  have d1: "dur_inv ?W ?C (en_meta e) vs (en_wal e) ?R" by (rule dur_inv_frame [OF d fr(1) [of "{}"]]) simp
  obtain rm ms where g: "ms_flush ?C (fe_txn env) ?q (en_meta e) = (rm, ms)" by fastforce
  have q: "?q < ms_next_seq (en_meta e)"
    using f(6) by (simp add: sat_sub64_def word_le_nat_alt word_less_nat_alt unat_sub_if_size)
  have fl: "dur_inv ?W ?C ms vs (en_wal e) ?R" "rm = Inr () \<Longrightarrow> captured ?C ms ?R" "ms_records ms = ms_records (en_meta e)" if "rv = Inr ()"
    using dur_inv_flush [OF d1 fr(2) [OF that] g q less_le_pred [OF f(8)]] by blast+
  obtain rt x where t: "ti_flush (fe_text env) (en_text_index e) = (rt, x)" by fastforce
  have fr0: "vs_frame (crc32 ?W) {} (en_vectors e) (en_vectors e)" by (rule vs_frame_refl [OF f(1,2)])
  let ?good = "fe_fsync_ok env \<and> rv = Inr () \<and> fe_vsync_ok env \<and> rt = Inr ()"
  have bad: "(\<exists>er. r = Inl er) \<and> en_meta e' = en_meta e \<and> en_wal e' = en_wal e \<and> (en_vectors e' = en_vectors e \<or> en_vectors e' = vs)" if "\<not> ?good"
    using assms(2) v t that by (auto simp: flush_snapshot_def Let_def split: if_splits sum.splits)
  have good: "r = rm \<and> e' = e\<lparr>en_vectors := vs, en_text_index := x, en_meta := ms\<rparr>" if ?good
    using assms(2) v t g that by (simp add: flush_snapshot_def Let_def)
  have "eng_dur L e' \<and> (r = Inr () \<longrightarrow> captured ?C (en_meta e') (rec_view (en_meta e'))) \<and> en_wal e' = en_wal e \<and>
      rec_view (en_meta e') = ?R \<and> vs_frame (crc32 ?W) {} (en_vectors e) (en_vectors e')"
  proof (cases ?good)
    case True
    then show ?thesis using good [OF True] fl fr(1) ms_records_view [OF fl(3)] by (auto simp: eng_dur_def)
  next
    case False
    then show ?thesis using bad [OF False] d d1 fr0 fr(1) by (auto simp: eng_dur_def)
  qed
  then show "eng_dur L e'" "r = Inr () \<Longrightarrow> captured (el_codec L) (en_meta e') (rec_view (en_meta e'))" "en_wal e' = en_wal e"
    "rec_view (en_meta e') = rec_view (en_meta e)" "vs_frame (crc32 (el_wal L)) {} (en_vectors e) (en_vectors e')" by blast+
qed

text \<open>Values saved beside the snapshot: the graph and the compressed state.\<close>

definition other_keys :: "mstore \<Rightarrow> mstore \<Rightarrow> bool" where
  "other_keys ms ms' \<longleftrightarrow> (\<exists>db'. ms' = ms\<lparr>ms_db := db'\<rparr> \<and> db_records db' = db_records (ms_db ms) \<and>
     db_demotion db' = db_demotion (ms_db ms) \<and> db_history db' = db_history (ms_db ms) \<and>
     (\<forall>k \<in> {''next_offset'', ''next_seq'', ''last_applied_seq''}. load_meta db' k = load_meta (ms_db ms) k))"

lemma other_keys_refl: "other_keys ms ms"
  unfolding other_keys_def by (rule exI [of _ "ms_db ms"]) simp

lemma other_keys_trans: "other_keys a b \<Longrightarrow> other_keys b c \<Longrightarrow> other_keys a c"
  unfolding other_keys_def by force

lemma other_keys_dur:
  assumes "dur_inv W C ms vs w R" "other_keys ms ms'"
  shows "dur_inv W C ms' vs w R" "captured C ms R \<Longrightarrow> captured C ms' R" "ms_records ms' = ms_records ms"
proof -
  obtain db' where db: "ms' = ms\<lparr>ms_db := db'\<rparr>" "db_records db' = db_records (ms_db ms)" "db_demotion db' = db_demotion (ms_db ms)"
      "db_history db' = db_history (ms_db ms)" "\<forall>k \<in> {''next_offset'', ''next_seq'', ''last_applied_seq''}. load_meta db' k = load_meta (ms_db ms) k"
    using assms(2) unfolding other_keys_def by blast
  note o = dur_inv_other [OF assms(1) db(2,3,4) db(5) [rule_format]]
  show "dur_inv W C ms' vs w R" "captured C ms R \<Longrightarrow> captured C ms' R" "ms_records ms' = ms_records ms" using o db(1) by simp_all
qed

lemma save_other:
  "k \<notin> {''next_offset'', ''next_seq'', ''last_applied_seq''} \<Longrightarrow> save_meta out k v ms = (r, ms') \<Longrightarrow> other_keys ms ms'"
  "save_meta_bytes out k' b ms = (r, ms') \<Longrightarrow> other_keys ms ms'"
  "k \<notin> {''next_offset'', ''next_seq'', ''last_applied_seq''} \<Longrightarrow> remove_meta out k ms = (r, ms') \<Longrightarrow> other_keys ms ms'"
proof -
  have set: "other_keys ms (ms\<lparr>ms_db := (ms_db ms)\<lparr>db_meta := m\<rparr>\<rparr>)"
    if "\<forall>k \<in> {''next_offset'', ''next_seq'', ''last_applied_seq''}. fmlookup m k = fmlookup (db_meta (ms_db ms)) k" for m
    unfolding other_keys_def by (rule exI [of _ "(ms_db ms)\<lparr>db_meta := m\<rparr>"]) (use that in \<open>simp add: load_meta_def\<close>)
  show "k \<notin> {''next_offset'', ''next_seq'', ''last_applied_seq''} \<Longrightarrow> save_meta out k v ms = (r, ms') \<Longrightarrow> other_keys ms ms'"
    using set [of "fmupd k v (db_meta (ms_db ms))"] by (auto simp: save_meta_def other_keys_refl split: if_splits)
  show "k \<notin> {''next_offset'', ''next_seq'', ''last_applied_seq''} \<Longrightarrow> remove_meta out k ms = (r, ms') \<Longrightarrow> other_keys ms ms'"
    using set [of "fmdrop k (db_meta (ms_db ms))"] by (auto simp: remove_meta_def other_keys_refl split: if_splits)
  have "other_keys ms (ms\<lparr>ms_db := (ms_db ms)\<lparr>db_meta_bin := m\<rparr>\<rparr>)" for m
    unfolding other_keys_def by (rule exI [of _ "(ms_db ms)\<lparr>db_meta_bin := m\<rparr>"]) (simp add: load_meta_def)
  then show "save_meta_bytes out k' b ms = (r, ms') \<Longrightarrow> other_keys ms ms'"
    by (auto simp: save_meta_bytes_def other_keys_refl split: if_splits)
qed

lemma save_graph_other:
  assumes "save_graph L out1 out2 e = (r, e')"
  shows "\<exists>ms. e' = e\<lparr>en_meta := ms\<rparr> \<and> other_keys (en_meta e) ms"
proof (cases "to_snapshot_bytes (el_snap L) (sa_graph (en_graph e))")
  case None
  then have "e' = e\<lparr>en_meta := en_meta e\<rparr>" using assms by (simp add: save_graph_def)
  then show ?thesis using other_keys_refl by blast
next
  case (Some bs)
  obtain r1 ms1 where s: "save_meta_bytes out1 ''graph'' bs (en_meta e) = (r1, ms1)" by fastforce
  obtain r2 ms2 where m: "remove_meta out2 ''graph'' ms1 = (r2, ms2)" by fastforce
  have "other_keys (en_meta e) ms1" "other_keys ms1 ms2" using save_other(2) [OF s] save_other(3) [OF _ m] by simp_all
  then have "other_keys (en_meta e) ms1" "other_keys (en_meta e) ms2" using other_keys_trans by blast+
  moreover have "e' = e\<lparr>en_meta := ms1\<rparr> \<or> e' = e\<lparr>en_meta := ms2\<rparr>"
    using assms s m Some by (auto simp: save_graph_def split: sum.splits)
  ultimately show ?thesis by blast
qed

lemma save_ccs_other:
  assumes "save_ccs out e = (r, e')"
  shows "\<exists>ms. e' = e\<lparr>en_meta := ms\<rparr> \<and> other_keys (en_meta e) ms"
proof (cases "en_ccs e")
  case None
  then have "e' = e\<lparr>en_meta := en_meta e\<rparr>" using assms by (simp add: save_ccs_def)
  then show ?thesis using other_keys_refl by blast
next
  case (Some j)
  obtain r1 ms1 where s: "save_meta out ''ccs'' j (en_meta e) = (r1, ms1)" by fastforce
  have "other_keys (en_meta e) ms1" using save_other(1) [OF _ s] by simp
  then show ?thesis using assms Some s by (auto simp: save_ccs_def)
qed

lemma flush_rest_form:
  assumes "flush_rest L env e = (r, e')"
  shows "\<exists>h ms w. e' = e\<lparr>en_segments := h, en_meta := ms, en_wal := w\<rparr> \<and> other_keys (en_meta e) ms \<and>
    (w = en_wal e \<or> (\<exists>rc. clear_log (fe_clear env) (en_wal e) = (rc, w))) \<and>
    h = snd (holder_flush (fe_gone env) (fe_has_dir env) (en_segments e))"
proof -
  obtain rh h where h: "holder_flush (fe_gone env) (fe_has_dir env) (en_segments e) = (rh, h)" by fastforce
  let ?e = "e\<lparr>en_segments := h\<rparr>"
  obtain rg e1 where g: "save_graph L (fe_graph_txn env) (fe_json_txn env) ?e = (rg, e1)" by fastforce
  obtain ms1 where ms1: "e1 = ?e\<lparr>en_meta := ms1\<rparr>" "other_keys (en_meta e) ms1" using save_graph_other [OF g] by auto
  obtain rc e2 where c: "save_ccs (fe_ccs_txn env) e1 = (rc, e2)" by fastforce
  obtain ms2 where ms2: "e2 = e1\<lparr>en_meta := ms2\<rparr>" "other_keys ms1 ms2" using save_ccs_other [OF c] ms1 by auto
  have ms2': "other_keys (en_meta e) ms2" using other_keys_trans [OF ms1(2) ms2(2)] .
  obtain rw w where w: "clear_log (fe_clear env) (en_wal e) = (rw, w)" by fastforce
  have fin: ?thesis if "e' = e\<lparr>en_segments := h, en_meta := m, en_wal := v\<rparr>" "other_keys (en_meta e) m" "v = en_wal e \<or> v = w" for m v
    by (rule exI [of _ h], rule exI [of _ m], rule exI [of _ v]) (use that h w in auto)
  consider "e' = ?e" | "e' = e1" | "e' = e2" | "e' = e2\<lparr>en_wal := w\<rparr>"
  proof (cases rh)
    case (Inr u)
    note rh = this
    show ?thesis
    proof (cases rg)
      case (Inr u)
      have "e' = e2 \<or> e' = e2\<lparr>en_wal := w\<rparr>"
        using assms rh Inr h g c w ms1(1) ms2(1) by (cases rc) (simp_all add: flush_rest_def)
      then show ?thesis using that by blast
    next
      case (Inl er)
      then have "e' = e1" using assms rh h g by (simp add: flush_rest_def)
      then show ?thesis using that(2) by blast
    qed
  next
    case (Inl er)
    then have "e' = ?e" using assms h by (simp add: flush_rest_def)
    then show ?thesis using that(1) by blast
  qed
  then show ?thesis
  proof cases
    case 1
    show ?thesis by (rule fin [where m = "en_meta e" and v = "en_wal e"]) (use 1 other_keys_refl in simp_all)
  next
    case 2
    show ?thesis by (rule fin [where m = ms1 and v = "en_wal e"]) (use 2 ms1 in simp_all)
  next
    case 3
    show ?thesis by (rule fin [where m = ms2 and v = "en_wal e"]) (use 3 ms1 ms2 ms2' in simp_all)
  next
    case 4
    show ?thesis by (rule fin [where m = ms2 and v = w]) (use 4 ms1 ms2 ms2' in simp_all)
  qed
qed

lemma flush_rest_dur:
  assumes "eng_dur L e" "captured (el_codec L) (en_meta e) (rec_view (en_meta e))" "flush_rest L env e = (r, e')" "\<not> torn_clear (fe_clear env)"
  shows "eng_dur L e'" "ms_records (en_meta e') = ms_records (en_meta e)" "en_vectors e' = en_vectors e"
proof -
  obtain h ms w where f: "e' = e\<lparr>en_segments := h, en_meta := ms, en_wal := w\<rparr>" "other_keys (en_meta e) ms"
    "w = en_wal e \<or> (\<exists>rc. clear_log (fe_clear env) (en_wal e) = (rc, w))" using flush_rest_form [OF assms(3)] by blast
  have d: "dur_inv (el_wal L) (el_codec L) (en_meta e) (en_vectors e) (en_wal e) (rec_view (en_meta e))" using assms(1) by (simp add: eng_dur_def)
  note o = other_keys_dur [OF d f(2)]
  have rv: "rec_view ms = rec_view (en_meta e)" by (rule ms_records_view [OF o(3)])
  have "dur_inv (el_wal L) (el_codec L) ms (en_vectors e) w (rec_view (en_meta e))"
    using f(3) o(1) dur_inv_clear [OF o(1) o(2) [OF assms(2)] assms(4)] by blast
  then show "eng_dur L e'" using f(1) rv by (simp add: eng_dur_def)
  show "ms_records (en_meta e') = ms_records (en_meta e)" "en_vectors e' = en_vectors e" using f(1) o(3) by simp_all
qed

lemma flush_dur:
  assumes "eng_dur L e" "engine_flush L env e = (r, e')" "\<not> torn_clear (fe_clear env)"
  shows "eng_dur L e'" "rec_view (en_meta e') = rec_view (en_meta e)" "vs_frame (crc32 (el_wal L)) {} (en_vectors e) (en_vectors e')"
proof -
  obtain er e1 where b: "flush_build env e = (er, e1)" by fastforce
  note fb = flush_build_dur [OF assms(1) b]
  obtain r2 e2 where s: "flush_snapshot L env e1 = (r2, e2)" by fastforce
  note fs = flush_snapshot_dur [OF fb(1) s]
  obtain r3 e3 where t: "flush_rest L env e2 = (r3, e3)" by fastforce
  note ft = flush_rest_dur [OF fs(1) fs(2) t assms(3)]
  have "(r2 \<noteq> Inr () \<and> e' = e2) \<or> (r2 = Inr () \<and> e' = e3)"
    using assms(2) b s t by (auto simp: engine_flush_def split: sum.splits option.splits)
  then show "eng_dur L e'" "rec_view (en_meta e') = rec_view (en_meta e)" "vs_frame (crc32 (el_wal L)) {} (en_vectors e) (en_vectors e')"
    using fs ft fb ms_records_view [OF ft(2)] by auto
qed

end
