(* ===== verification/Engine_Indexes.thy ===== *)
theory Engine_Indexes
  imports Engine_Invariants
begin

text \<open>
  The in-memory half of the engine: the id, payload and scope indexes are exact for the live records
  (\<open>eng_idx\<close>), and every live record is in a listed segment unless applying its write failed after
  the log was written (\<open>eng_seg\<close>).
\<close>

section \<open>Indexes over a map of live records\<close>

definition ids_for :: "(point_offset \<rightharpoonup> meta_record) \<Rightarrow> (string, point_offset) fmap \<Rightarrow> bool" where
  "ids_for M ids \<longleftrightarrow> (\<forall>i off. fmlookup ids i = Some off \<longleftrightarrow> (\<exists>m. M off = Some m \<and> m_id m = i))"

definition keys_for :: "json_lib \<Rightarrow> (point_offset \<rightharpoonup> meta_record) \<Rightarrow> payload_index \<Rightarrow> scope_index \<Rightarrow> bool" where
  "keys_for J M x s \<longleftrightarrow> pi_rep J (\<lambda>k. map_option m_payload (M (ucast k))) x \<and> si_rep (\<lambda>k. map_option m_scope (M (ucast k))) s"

lemma ids_for_add: "ids_for M ids \<Longrightarrow> M off = None \<Longrightarrow> fmlookup ids (m_id m) = None \<Longrightarrow> ids_for (M(off \<mapsto> m)) (fmupd (m_id m) off ids)"
  by (auto simp: ids_for_def) (metis option.distinct(1) option.inject)+

lemma ids_for_remove: "ids_for M ids \<Longrightarrow> fmlookup ids i = Some off \<Longrightarrow> ids_for (M(off := None)) (fmdrop i ids)"
  by (auto simp: ids_for_def) (metis option.inject)+

lemma key_ucast:
  assumes "unat (off :: point_offset) < 2 ^ 32"
  shows "(ucast (k :: u32) = off) = (k = bm_offset off)"
proof -
  have "take_bit 32 (unat off) = unat off" using assms by (simp add: take_bit_eq_mod)
  then have "unat (ucast (bm_offset off) :: point_offset) = unat off"
    by (simp add: bm_offset_def unsigned_ucast_eq unsigned_take_bit_eq)
  then have "ucast (bm_offset off) = off" by (simp add: word_unat_eq_iff)
  then show ?thesis by auto
qed

lemma pi_add_keyed: "snd (pi_add J off p x) = pi_add_key J (bm_offset off) p x" "pi_remove J off p x = pi_remove_key J (bm_offset off) p x"
  by (simp_all add: pi_add_key_def pi_remove_key_def pi_add_scalars pi_remove_scalars)

lemma keys_for_add:
  assumes "keys_for J M x s" "M off = None" "unat off < 2 ^ 32"
  shows "keys_for J (M(off \<mapsto> m)) (snd (pi_add J off (m_payload m) x)) (si_add off (m_scope m) s)"
proof -
  have k: "(\<lambda>k. map_option f ((M(off \<mapsto> m)) (ucast k))) = (\<lambda>k. map_option f (M (ucast k)))(bm_offset off \<mapsto> f m)" for f :: "meta_record \<Rightarrow> 'z"
    using key_ucast [OF assms(3)] by (auto simp: fun_eq_iff)
  have none: "map_option f (M (ucast (bm_offset off))) = None" for f :: "meta_record \<Rightarrow> 'z"
    using key_ucast [OF assms(3), of "bm_offset off"] assms(2) by simp
  show ?thesis
    using assms(1) none unfolding keys_for_def k pi_add_keyed si_add_keyed by (simp add: pi_rep_add si_rep_add)
qed

lemma keys_for_remove:
  assumes "keys_for J M x s" "M off = Some m" "unat off < 2 ^ 32"
  shows "keys_for J (M(off := None)) (pi_remove J off (m_payload m) x) (si_remove off (m_scope m) s)"
proof -
  have k: "(\<lambda>k. map_option f ((M(off := None)) (ucast k))) = (\<lambda>k. map_option f (M (ucast k)))(bm_offset off := None)" for f :: "meta_record \<Rightarrow> 'z"
    using key_ucast [OF assms(3)] by (auto simp: fun_eq_iff)
  have some: "M (ucast (bm_offset off)) = Some m"
    using key_ucast [OF assms(3), of "bm_offset off"] assms(2) by simp
  show ?thesis
    using assms(1) pi_rep_remove [of J "\<lambda>k. map_option m_payload (M (ucast k))" x "bm_offset off" "m_payload m"]
      si_rep_remove [of "\<lambda>k. map_option m_scope (M (ucast k))" s "bm_offset off" "m_scope m"] some
    unfolding keys_for_def k pi_add_keyed si_add_keyed by simp
qed

section \<open>The indexes of an engine\<close>

abbreviation en_records :: "engine \<Rightarrow> point_offset \<rightharpoonup> meta_record" where
  "en_records e \<equiv> fmlookup (ms_records (en_meta e))"

definition small :: "mstore \<Rightarrow> bool" where
  "small ms \<longleftrightarrow> unat (ms_next_offset ms) \<le> 2 ^ 32"

definition eng_idx :: "engine_lib \<Rightarrow> engine \<Rightarrow> bool" where
  "eng_idx L e \<longleftrightarrow> ids_for (en_records e) (en_id_index e) \<and>
     (small (en_meta e) \<longrightarrow> keys_for (el_json L) (en_records e) (en_payload_index e) (en_scope_index e))"

definition parses :: "json_lib \<Rightarrow> string option \<Rightarrow> bool" where
  "parses J p \<longleftrightarrow> (case p of None \<Rightarrow> True | Some s \<Rightarrow> json_from_str J s \<noteq> None)"

lemma pi_add_parses: "parses J p \<Longrightarrow> fst (pi_add J off p x) = Inr ()"
  by (auto simp: parses_def pi_add_def Let_def split: option.splits json.splits)

fun add_all :: "(point_offset \<times> mem_record) list \<Rightarrow> (point_offset \<rightharpoonup> meta_record) \<Rightarrow> (point_offset \<rightharpoonup> meta_record)" where
  "add_all [] M = M"
| "add_all ((off, r) # rs) M = add_all rs (M(off \<mapsto> meta_of_record r))"

lemma add_all_dom: "add_all rs M off \<noteq> None \<longleftrightarrow> M off \<noteq> None \<or> off \<in> fst ` set rs"
  by (induction rs M rule: add_all.induct) (auto simp: fun_upd_def)

lemma put_batch_records: "fmlookup (ms_records (put_batch rs ms)) = add_all rs (fmlookup (ms_records ms))"
  unfolding put_batch_fold
proof (induction rs arbitrary: ms)
  case (Cons x rs)
  obtain off r where x: "x = (off, r)" by fastforce
  have "fmlookup (ms_records (ms_put off r ms)) = (fmlookup (ms_records ms))(off \<mapsto> meta_of_record r)"
    by (simp add: ms_put_def put_meta_def Let_def fun_eq_iff)
  then show ?case using Cons.IH [of "ms_put off r ms"] x by (simp add: fun_upd_def)
qed simp

lemma apply_indexes_ok:
  assumes "ids_for M (en_id_index e)" "keys_ok \<longrightarrow> keys_for (el_json L) M (en_payload_index e) (en_scope_index e)"
    and "distinct (map fst rs)" "\<And>off. off \<in> fst ` set rs \<Longrightarrow> M off = None \<and> (keys_ok \<longrightarrow> unat off < 2 ^ 32)"
    and "distinct (map (r_id \<circ> snd) rs)" "\<And>i. i \<in> (r_id \<circ> snd) ` set rs \<Longrightarrow> fmlookup (en_id_index e) i = None"
    and "\<And>p. p \<in> (r_payload \<circ> snd) ` set rs \<Longrightarrow> parses (el_json L) p"
  shows "\<exists>e'. apply_indexes L rs e = (Inr (), e') \<and> ids_for (add_all rs M) (en_id_index e') \<and>
    (keys_ok \<longrightarrow> keys_for (el_json L) (add_all rs M) (en_payload_index e') (en_scope_index e'))"
  using assms
proof (induction rs arbitrary: e M)
  case (Cons y rs)
  obtain off r where y: "y = (off, r)" by fastforce
  obtain q x where p: "pi_add (el_json L) off (r_payload r) (en_payload_index e) = (q, x)" by fastforce
  have q: "q = Inr ()" using pi_add_parses [of "el_json L" "r_payload r" off "en_payload_index e"] Cons.prems(7) [of "r_payload r"] p y by simp
  let ?e = "e\<lparr>en_id_index := fmupd (r_id r) off (en_id_index e), en_payload_index := x,
      en_scope_index := si_add off (r_scope r) (en_scope_index e)\<rparr>"
  let ?M = "M(off \<mapsto> meta_of_record r)"
  have off: "M off = None" "keys_ok \<longrightarrow> unat off < 2 ^ 32" "fmlookup (en_id_index e) (r_id r) = None"
    using Cons.prems(4) [of off] Cons.prems(6) [of "r_id r"] y by simp_all
  have ids: "ids_for ?M (en_id_index ?e)" using ids_for_add [OF Cons.prems(1) off(1), of "meta_of_record r"] off(3) by simp
  have keys: "keys_ok \<longrightarrow> keys_for (el_json L) ?M (en_payload_index ?e) (en_scope_index ?e)"
    using keys_for_add [of "el_json L" M "en_payload_index e" "en_scope_index e" off "meta_of_record r"] Cons.prems(2) off p by simp
  have "\<exists>e'. apply_indexes L rs ?e = (Inr (), e') \<and> ids_for (add_all rs ?M) (en_id_index e') \<and>
    (keys_ok \<longrightarrow> keys_for (el_json L) (add_all rs ?M) (en_payload_index e') (en_scope_index e'))"
  proof (rule Cons.IH [OF ids keys])
    show "distinct (map fst rs)" "distinct (map (r_id \<circ> snd) rs)" using Cons.prems(3,5) by (simp_all add: comp_def)
    show "?M o' = None \<and> (keys_ok \<longrightarrow> unat o' < 2 ^ 32)" if "o' \<in> fst ` set rs" for o'
      using Cons.prems(3,4) that y by auto
    show "fmlookup (en_id_index ?e) i = None" if "i \<in> (r_id \<circ> snd) ` set rs" for i
      using Cons.prems(5,6) that y by (auto simp: image_iff)
    show "parses (el_json L) p" if "p \<in> (r_payload \<circ> snd) ` set rs" for p using Cons.prems(7) that by auto
  qed
  then show ?case using p q y by (simp add: Let_def)
qed simp

section \<open>Segments\<close>

lemma apply_segments_ok:
  "holder_inv h \<Longrightarrow> apply_segments rs ns h = (r, h') \<Longrightarrow>
   holder_inv h' \<and> listed h \<subseteq> listed h' \<and> listed h' \<subseteq> listed h \<union> fst ` set rs \<and> (\<forall>b. r = Inr b \<longrightarrow> fst ` set rs \<subseteq> listed h')"
proof (induction rs arbitrary: ns h)
  case (Cons y rs)
  obtain off x where y: "y = (off, x)" by fastforce
  obtain q h1 where q: "holder_insert off x h = (q, h1)" by fastforce
  have ok: "holder_ok h" "hot_mirror h" using Cons.prems(1) by (simp_all add: holder_inv_def)
  note i = holder_insert_ok [OF ok q]
  show ?case
  proof (cases q)
    case (Inl er)
    then show ?thesis using Cons.prems(2) y q i by (auto simp: holder_inv_def)
  next
    case (Inr full)
    then have "apply_segments rs (ns \<or> full) h1 = (r, h')" using Cons.prems(2) y q by simp
    from Cons.IH [OF _ this] i show ?thesis using Inr y by (auto simp: holder_inv_def)
  qed
qed simp

lemma seal_failed_ok:
  assumes "holder_inv h" "j_plain j < length (sh_store h)" "j_offsets j = offsets_at h (j_plain j)"
    and "seal_install out2 gone vs j (Inl er) h = (r, h')"
  shows "holder_inv h' \<and> listed h' = listed h \<union> set (j_offsets j)"
proof -
  let ?h1 = "remove_sealing_plain (j_plain j) h"
  have wf: "holder_wf h" using assms(1) by (simp add: holder_inv_def holder_ok_def)
  note rm = remove_sealing_covers [OF wf, of "j_plain j"]
  have wf1: "holder_wf ?h1" and at: "offsets_at ?h1 (j_plain j) = j_offsets j" "j_plain j < length (sh_store ?h1)"
    using rm assms(2,3) store_growsD [of h ?h1 "j_plain j"] by auto
  have sub: "listed ?h1 \<subseteq> listed h" by (auto simp: listed_lists set_searchable remove_sealing_plain_def)
  have "h' = push_sealing_plain (j_plain j) ?h1" using assms(4) by (simp add: seal_install_def)
  then have "holder_ok h' \<and> listed h' = listed h \<union> set (j_offsets j) \<and> store_grows h h'"
    using push_sealing_covers [OF wf1 at(2)] rm sub at(1) assms(3) store_grows_trans [of h ?h1 h'] by auto
  then show ?thesis using assms(1) store_grows_inv by auto
qed

lemma unmapped_build:
  assumes "\<not> vs_mapped vs"
  shows "\<exists>er. build_segment out vs j = Inl er"
proof -
  have "vs_get vs off = None" for off using assms by (simp add: vs_get_def Let_def)
  then have "read_vectors_for_offsets offs vs = []" for offs
    by (induction offs) (simp_all add: read_vectors_for_offsets_def map_filter_simps)
  then show ?thesis by (simp add: build_segment_def)
qed

lemma process_one_seal_unmapped:
  assumes "holder_inv h" "\<not> vs_mapped vs" "process_one_seal env vs b h = (r, b', h')"
  shows "holder_inv h' \<and> listed h' = listed h"
proof -
  obtain pick b1 h1 where st: "seal_start (se_cas env) b h = (pick, b1, h1)" by (metis surj_pair)
  note s = seal_start_ok [OF assms(1) st]
  show ?thesis
  proof (cases pick)
    case (Work j)
    obtain er where er: "build_segment (se_build env) vs j = Inl er" using unmapped_build [OF assms(2)] by blast
    obtain r2 h2 where i: "seal_install (se_compact env) (se_gone env) vs j (Inl er) h1 = (r2, h2)" by fastforce
    have h': "h' = h2" using assms(3) st Work i er by (simp add: process_one_seal_def)
    have j: "j_plain j \<in> set (searchable_segments h1)" "j_offsets j = offsets_at h1 (j_plain j)"
      using s Work by (auto simp: set_searchable)
    then have "set (j_offsets j) \<subseteq> listed h1" "j_plain j < length (sh_store h1)"
      using s by (auto simp: listed_lists holder_inv_def holder_ok_def holder_wf_def)
    with seal_failed_ok [OF _ _ j(2) i] s h' show ?thesis by (auto simp: sup_absorb1)
  qed (use s st assms(3) in \<open>simp_all add: process_one_seal_def\<close>)
qed

lemma process_seals_ok:
  "holder_inv h \<Longrightarrow> all_stored vs (listed h) \<or> \<not> vs_mapped vs \<Longrightarrow> process_seals envs i vs b h = (er, b', h') \<Longrightarrow>
   holder_inv h' \<and> listed h' = listed h"
proof (induction envs i vs b h rule: process_seals.induct)
  case (1 envs i vs b h)
  obtain r b1 h1 where p: "process_one_seal (envs i) vs b h = (r, b1, h1)" by (metis surj_pair)
  have ok: "holder_inv h1 \<and> listed h1 = listed h"
    using 1(2,3) process_one_seal_ok [OF 1(2) _ p] process_one_seal_unmapped [OF 1(2) _ p] by blast
  show ?case
  proof (cases "r = Inr True")
    case True
    then have "process_seals envs (Suc i) vs b1 h1 = (er, b', h')" using 1(4) p by (simp add: process_seals.simps [of envs i])
    then show ?thesis using 1(1) [OF p [symmetric] True refl] ok 1(3) by (simp add: True)
  next
    case False
    then have "h' = h1" using 1(4) p by (cases r) (auto simp: process_seals.simps [of envs i] split: if_splits)
    then show ?thesis using ok by simp
  qed
qed

section \<open>What a write keeps\<close>

definition eng_seg :: "point_offset set \<Rightarrow> engine \<Rightarrow> bool" where
  "eng_seg lost e \<longleftrightarrow> holder_inv (en_segments e) \<and>
     (\<forall>off. en_records e off \<noteq> None \<longrightarrow> off \<in> listed (en_segments e) \<union> lost) \<and>
     (\<forall>off \<in> listed (en_segments e). unat off < vs_count (en_vectors e))"

lemma apply_batch_idx:
  assumes "ids_for M (en_id_index e)" "small (en_meta e) \<longrightarrow> keys_for (el_json L) M (en_payload_index e) (en_scope_index e)"
    and "en_records e = M" "distinct (map fst rs)" "\<And>off. off \<in> fst ` set rs \<Longrightarrow> M off = None \<and> (small (en_meta e) \<longrightarrow> unat off < 2 ^ 32)"
    and "distinct (map (r_id \<circ> snd) rs)" "\<And>i. i \<in> (r_id \<circ> snd) ` set rs \<Longrightarrow> fmlookup (en_id_index e) i = None"
    and "\<And>p. p \<in> (r_payload \<circ> snd) ` set rs \<Longrightarrow> parses (el_json L) p" "apply_batch L env rs e = (r, e')"
  shows "eng_idx L e'"
proof -
  let ?e1 = "e\<lparr>en_meta := put_batch rs (en_meta e)\<rparr>"
  have "\<exists>e2. apply_indexes L rs ?e1 = (Inr (), e2) \<and> ids_for (add_all rs M) (en_id_index e2) \<and>
      (small (en_meta e) \<longrightarrow> keys_for (el_json L) (add_all rs M) (en_payload_index e2) (en_scope_index e2))"
    by (rule apply_indexes_ok) (use assms(1-8) in simp_all)
  then obtain e2 where i: "apply_indexes L rs ?e1 = (Inr (), e2)" "ids_for (add_all rs M) (en_id_index e2)"
      "small (en_meta e) \<longrightarrow> keys_for (el_json L) (add_all rs M) (en_payload_index e2) (en_scope_index e2)" by blast
  have "en_id_index e' = en_id_index e2 \<and> en_payload_index e' = en_payload_index e2 \<and> en_scope_index e' = en_scope_index e2"
    using assms(9) i(1) by (auto simp: apply_batch_def Let_def split: sum.splits prod.splits)
  moreover have "en_records e' = add_all rs M" "small (en_meta e') = small (en_meta e)"
    using apply_batch_frame(3) [OF assms(9)] put_batch_records assms(3) by (simp_all add: small_def)
  ultimately show ?thesis using i(2,3) by (simp add: eng_idx_def)
qed

lemma apply_batch_seg:
  assumes "holder_inv (en_segments e)" "apply_batch L env rs e = (r, e')"
  shows "holder_inv (en_segments e') \<and> listed (en_segments e) \<subseteq> listed (en_segments e') \<and>
    listed (en_segments e') \<subseteq> listed (en_segments e) \<union> fst ` set rs \<and> (r = Inr () \<longrightarrow> fst ` set rs \<subseteq> listed (en_segments e'))"
proof -
  let ?e1 = "e\<lparr>en_meta := put_batch rs (en_meta e)\<rparr>"
  obtain r2 e2 where i: "apply_indexes L rs ?e1 = (r2, e2)" by fastforce
  have s2: "en_segments e2 = en_segments e" using apply_indexes_frame [OF i] by auto
  obtain r3 h where a: "apply_segments rs False (en_segments e) = (r3, h)" by fastforce
  note ap = apply_segments_ok [OF assms(1) a]
  have sl: "holder_inv (seal_hot h) \<and> listed (seal_hot h) = listed h" using seal_hot_ok [of h] ap by (auto simp: holder_inv_def)
  have "(r \<noteq> Inr () \<and> en_segments e' = en_segments e) \<or> (en_segments e' = h \<and> (r = Inr () \<longrightarrow> (\<exists>b. r3 = Inr b)))
      \<or> (en_segments e' = seal_hot h \<and> (\<exists>b. r3 = Inr b))"
    using assms(2) i a s2 by (auto simp: apply_batch_def Let_def split: sum.splits prod.splits if_splits)
  then show ?thesis using ap sl assms(1) by (elim disjE conjE exE) auto
qed

lemma commit_idx_seg:
  assumes dur: "eng_dur L e" and idx: "eng_idx L e" and seg: "eng_seg lost e" and num: "numbered (en_meta e) ms rs"
    and ms: "ms_records ms = ms_records (en_meta e)" "ms_next_offset (en_meta e) \<le> ms_next_offset ms"
    and run: "commit_path L env rs ops pre ms e = (r, e')" and sync: "\<not> en_sync_writes e \<or> we_fsync_ok env"
    and ids: "distinct (map (r_id \<circ> snd) rs)" and pay: "\<And>p. p \<in> (r_payload \<circ> snd) ` set rs \<Longrightarrow> parses (el_json L) p"
    and pre: "\<And>vs w. let x = pre (e\<lparr>en_meta := ms, en_vectors := vs, en_wal := w\<rparr>) in
         ids_for M (en_id_index x) \<and> (small ms \<longrightarrow> keys_for (el_json L) M (en_payload_index x) (en_scope_index x)) \<and>
         en_records x = M \<and> ms_next_offset (en_meta x) = ms_next_offset ms \<and> en_segments x = en_segments e \<and> en_vectors x = vs \<and>
         (\<forall>i \<in> (r_id \<circ> snd) ` set rs. fmlookup (en_id_index x) i = None)"
    and sub: "\<And>off. M off \<noteq> None \<Longrightarrow> en_records e off \<noteq> None"
  shows "eng_idx L e'" "eng_seg (if r = Inr () then lost else lost \<union> fst ` set rs) e'"
proof -
  have d: "dur_inv (el_wal L) (el_codec L) (en_meta e) (en_vectors e) (en_wal e) (rec_view (en_meta e))" using dur by (simp add: eng_dur_def)
  note f = dur_inv_facts [OF d]
  obtain rv vs where v: "put_vectors (crc32 (el_wal L)) (we_grow env) 0 rs (en_vectors e) = (rv, vs)" by fastforce
  have new: "off \<noteq> - 1 \<and> off < ms_next_offset ms \<and> en_records e off = None" if o: "off \<in> fst ` set rs" for off
  proof -
    obtain x where "(off, x) \<in> set rs" using o by force
    then have "off < ms_next_offset ms" "ms_next_offset (en_meta e) \<le> off" using num unfolding numbered_def by blast+
    moreover have "rec_view (en_meta e) off = None" using f(7) [of off] calculation(2) leD by blast
    ultimately show ?thesis using less_not_max rec_view_dom by blast
  qed
  note fr = put_vectors_frame [OF v f(1,2)]
  have cnt: "vs_count (en_vectors e) \<le> vs_count vs" using fr(1) new by (simp add: vs_frame_def)
  have sm: "small ms \<Longrightarrow> small (en_meta e)" using ms(2) by (auto simp: small_def word_le_nat_alt)
  have "eng_idx L e' \<and> eng_seg (if r = Inr () then lost else lost \<union> fst ` set rs) e'"
  proof (cases rule: commit_cases [OF run f(3) sync v])
    case (1 er)
    then have "eng_idx L e'" using idx ms(1) sm by (simp add: eng_idx_def)
    moreover have "eng_seg (lost \<union> fst ` set rs) e'" using 1 seg ms(1) cnt by (auto simp: eng_seg_def)
    ultimately show ?thesis using 1 by simp
  next
    case (2 w)
    let ?x = "pre (e\<lparr>en_meta := ms, en_vectors := vs, en_wal := w\<rparr>)"
    have p: "ids_for M (en_id_index ?x)" "small ms \<longrightarrow> keys_for (el_json L) M (en_payload_index ?x) (en_scope_index ?x)"
        "en_records ?x = M" "ms_next_offset (en_meta ?x) = ms_next_offset ms" "en_segments ?x = en_segments e" "en_vectors ?x = vs"
      using pre [where vs = vs and w = w] unfolding Let_def by blast+
    have p7: "fmlookup (en_id_index ?x) i = None" if "i \<in> (r_id \<circ> snd) ` set rs" for i
      using pre [where vs = vs and w = w] that unfolding Let_def by metis
    have smx: "small (en_meta ?x) = small ms" using p(4) by (simp add: small_def)
    have di: "distinct (map fst rs)" using num by (simp add: numbered_def)
    have nw: "M off = None \<and> (small (en_meta ?x) \<longrightarrow> unat off < 2 ^ 32)" if o: "off \<in> fst ` set rs" for off
    proof -
      have "M off = None" using new [OF o] sub by blast
      moreover have "unat off < 2 ^ 32" if "small ms" using new [OF o] that by (simp add: small_def word_less_nat_alt)
      ultimately show ?thesis using smx by blast
    qed
    have ix: "eng_idx L e'"
      by (rule apply_batch_idx [OF p(1) _ p(3) di nw ids p7 pay 2(3)]) (use p(2) smx in simp_all)
    have hi: "holder_inv (en_segments ?x)" using seg p(5) by (simp add: eng_seg_def)
    note sg = apply_batch_seg [OF hi 2(3)] and ab = apply_batch_frame [OF 2(3)]
    have "en_records e' = add_all rs M" using ab(3) put_batch_records p(3) by simp
    then have rec: "en_records e' off \<noteq> None \<Longrightarrow> en_records e off \<noteq> None \<or> off \<in> fst ` set rs" for off
      using add_all_dom [of rs M off] sub by auto
    have st: "unat off < vs_count vs" if o: "off \<in> fst ` set rs" for off
    proof -
      obtain y where "(off, y) \<in> set rs" using o by force
      then show ?thesis using fr(2) [OF _ 2(1) di] new by blast
    qed
    have "off \<in> listed (en_segments e') \<union> (if r = Inr () then lost else lost \<union> fst ` set rs)" if "en_records e' off \<noteq> None" for off
      using rec [OF that] seg sg p(5) unfolding eng_seg_def by auto
    moreover have "unat off < vs_count (en_vectors e')" if "off \<in> listed (en_segments e')" for off
    proof -
      have "off \<in> listed (en_segments e) \<or> off \<in> fst ` set rs" using sg p(5) that by auto
      moreover have "unat off < vs_count vs" if "off \<in> listed (en_segments e)"
        using seg that cnt unfolding eng_seg_def by (meson order_less_le_trans)
      ultimately show ?thesis using st ab(1) p(6) by auto
    qed
    ultimately show ?thesis using ix sg by (simp add: eng_seg_def)
  qed
  then show "eng_idx L e'" "eng_seg (if r = Inr () then lost else lost \<union> fst ` set rs) e'" by blast+
qed

section \<open>The invariant and the write operations\<close>

definition eng_inv :: "engine_lib \<Rightarrow> point_offset set \<Rightarrow> engine \<Rightarrow> bool" where
  "eng_inv L lost e \<longleftrightarrow> eng_dur L e \<and> eng_idx L e \<and> eng_seg lost e"

text \<open>The offsets a failed write may have logged without finishing the indexes.\<close>

definition lost_after :: "'a result \<Rightarrow> point_offset set \<Rightarrow> engine \<Rightarrow> engine \<Rightarrow> point_offset set" where
  "lost_after r lost e e' = (case r of Inr _ \<Rightarrow> lost
     | Inl _ \<Rightarrow> lost \<union> {off. ms_next_offset (en_meta e) \<le> off \<and> off < ms_next_offset (en_meta e')})"

definition payload_agrees :: "engine_lib \<Rightarrow> write_input \<Rightarrow> bool" where
  "payload_agrees L inp \<longleftrightarrow> (\<forall>p. wi_payload inp = Some p \<longrightarrow> el_ignored_any L p \<longrightarrow> json_from_str (el_json L) p \<noteq> None)"

lemma prepare_Inr:
  assumes "prepare L d v inp = Inr p"
  shows "pr_id p = wi_id inp" "pr_payload p = wi_payload inp" "payload_agrees L inp \<Longrightarrow> parses (el_json L) (pr_payload p)"
proof -
  from assms show "pr_id p = wi_id inp" "pr_payload p = wi_payload inp"
    by (auto simp: prepare_def result_iff split: if_splits)
  from assms have "case wi_payload inp of None \<Rightarrow> True | Some q \<Rightarrow> el_ignored_any L q"
    by (auto simp: prepare_def result_iff split: if_splits option.splits)
  then show "payload_agrees L inp \<Longrightarrow> parses (el_json L) (pr_payload p)"
    using \<open>pr_payload p = wi_payload inp\<close> by (auto simp: parses_def payload_agrees_def split: option.splits)
qed

lemma eng_seg_mono: "eng_seg lost e \<Longrightarrow> lost \<subseteq> lost' \<Longrightarrow> eng_seg lost' e"
  by (auto simp: eng_seg_def)

lemma commit_next_offset:
  assumes "commit_path L env rs ops pre ms e = (r, e')" "w_pos (en_wal e) = length (w_file (en_wal e))"
    and "\<not> en_sync_writes e \<or> we_fsync_ok env" "\<And>x. ms_next_offset (en_meta (pre x)) = ms_next_offset (en_meta x)"
  shows "ms_next_offset (en_meta e') = ms_next_offset ms"
proof -
  obtain rv vs where v: "put_vectors (crc32 (el_wal L)) (we_grow env) 0 rs (en_vectors e) = (rv, vs)" by fastforce
  show ?thesis
  proof (cases rule: commit_cases [OF assms(1,2,3) v])
    case (2 w)
    then show ?thesis using apply_batch_frame(3) [OF 2(3)] assms(4) by simp
  qed simp
qed

lemma answerE:
  assumes "answer x p = (r, e')"
  obtains q where "p = (q, e')" "(\<exists>er. r = Inl er) \<longleftrightarrow> q \<noteq> Inr ()"
proof -
  obtain q e1 where p: "p = (q, e1)" by fastforce
  show ?thesis by (rule that [of q]) (use assms p in \<open>cases q; auto\<close>)+
qed

lemma lost_after_seg:
  assumes "eng_seg (if q = Inr () then lost else lost \<union> A) e'" "(\<exists>er. r = Inl er) \<longleftrightarrow> q \<noteq> Inr ()"
    and "A \<subseteq> {off. ms_next_offset (en_meta e) \<le> off \<and> off < ms_next_offset (en_meta e')}"
  shows "eng_seg (lost_after r lost e e') e'"
proof (rule eng_seg_mono [OF assms(1)])
  show "(if q = Inr () then lost else lost \<union> A) \<subseteq> lost_after r lost e e'"
    using assms(2,3) by (cases r) (auto simp: lost_after_def)
qed

text \<open>Insert and batch insert, from the records that were prepared.\<close>

lemma commit_inserts_inv:
  assumes inv: "eng_inv L lost e" and al: "allocate_records now ps (en_meta e) = (rs, ms)" "room (en_meta e) (length ps)"
    and run: "answer x (commit_path L env rs (map (insert_op L) rs) (\<lambda>e. e) ms e) = (r, e')" and sync: "\<not> en_sync_writes e \<or> we_fsync_ok env"
    and ps: "distinct (map pr_id ps)" "\<And>p. p \<in> set ps \<Longrightarrow> fmlookup (en_id_index e) (pr_id p) = None \<and> parses (el_json L) (pr_payload p)"
  shows "eng_inv L (lost_after r lost e e') e'"
proof -
  obtain q where c: "commit_path L env rs (map (insert_op L) rs) (\<lambda>e. e) ms e = (q, e')" and q: "(\<exists>er. r = Inl er) \<longleftrightarrow> q \<noteq> Inr ()"
    using answerE [OF run] by blast
  have i: "eng_dur L e" "eng_idx L e" "eng_seg lost e" using inv by (simp_all add: eng_inv_def)
  have d: "dur_inv (el_wal L) (el_codec L) (en_meta e) (en_vectors e) (en_wal e) (rec_view (en_meta e))" using i(1) by (simp add: eng_dur_def)
  note f = dur_inv_facts [OF d] and a = allocate_ok [OF al, of "el_codec L"]
  have num: "numbered (en_meta e) ms rs" and ms: "ms_records ms = ms_records (en_meta e)" using a by blast+
  have le: "ms_next_offset (en_meta e) \<le> ms_next_offset ms" using a by (simp add: word_le_nat_alt)
  have mp: "map (\<lambda>x. (r_id (snd x), r_payload (snd x), r_embedding (snd x))) rs = map (\<lambda>p. (pr_id p, pr_payload p, pr_embedding p)) ps"
    using a by blast
  have mi: "map (r_id \<circ> snd) rs = map pr_id ps" "map (r_payload \<circ> snd) rs = map pr_payload ps"
    using arg_cong [OF mp, of "map fst"] arg_cong [OF mp, of "map (fst \<circ> snd)"] by (simp_all add: comp_def)
  have si: "(r_id \<circ> snd) ` set rs = pr_id ` set ps" "(r_payload \<circ> snd) ` set rs = pr_payload ` set ps"
    using arg_cong [OF mi(1), of set] arg_cong [OF mi(2), of set] by simp_all
  have di: "distinct (map (r_id \<circ> snd) rs)" using mi(1) ps(1) by simp
  have pay: "parses (el_json L) p" if "p \<in> (r_payload \<circ> snd) ` set rs" for p using that ps(2) unfolding si by blast
  have nid: "\<forall>i \<in> (r_id \<circ> snd) ` set rs. fmlookup (en_id_index e) i = None" using ps(2) unfolding si by auto
  have sm: "small ms \<Longrightarrow> small (en_meta e)" using le by (auto simp: small_def word_le_nat_alt)
  have pre: "let x = e\<lparr>en_meta := ms, en_vectors := vs, en_wal := w\<rparr> in
      ids_for (en_records e) (en_id_index x) \<and> (small ms \<longrightarrow> keys_for (el_json L) (en_records e) (en_payload_index x) (en_scope_index x)) \<and>
      en_records x = en_records e \<and> ms_next_offset (en_meta x) = ms_next_offset ms \<and> en_segments x = en_segments e \<and> en_vectors x = vs \<and>
      (\<forall>i \<in> (r_id \<circ> snd) ` set rs. fmlookup (en_id_index x) i = None)" for vs w
    using i(2) ms sm nid by (simp add: Let_def eng_idx_def)
  note ci = commit_idx_seg [OF i num ms le c sync di pay pre]
  have "eng_idx L e'" "eng_seg (if q = Inr () then lost else lost \<union> fst ` set rs) e'" by (rule ci; simp)+
  moreover have "fst ` set rs \<subseteq> {off. ms_next_offset (en_meta e) \<le> off \<and> off < ms_next_offset (en_meta e')}"
    using num commit_next_offset [OF c f(3) sync] unfolding numbered_def by force
  ultimately have "eng_seg (lost_after r lost e e') e'" using lost_after_seg [OF _ q] by blast
  then show ?thesis using commit_inserts_dur(1) [OF i(1) al c sync] \<open>eng_idx L e'\<close> by (simp add: eng_inv_def)
qed

lemma insert_inv:
  assumes "eng_inv L lost e" "insert_with_payload_role L env inp e = (r, e')" "room (en_meta e) 1"
    and "\<not> en_sync_writes e \<or> we_fsync_ok env" "payload_agrees L inp"
  shows "eng_inv L (lost_after r lost e e') e'"
proof -
  have same: "eng_inv L (lost_after r lost e e') e'" if "e' = e"
    using assms(1) that eng_seg_mono [of lost e "lost_after r lost e e"] by (auto simp: eng_inv_def lost_after_def split: sum.splits)
  show ?thesis
  proof (cases "prepare L (en_dim e) (g_vocab (sa_graph (en_graph e))) inp")
    case (Inl er)
    then show ?thesis using assms(2) same by (simp add: insert_as_commit)
  next
    case (Inr p)
    note pr = prepare_Inr [OF Inr]
    show ?thesis
    proof (cases "wi_id inp |\<in>| fmdom (en_id_index e)")
      case True
      then show ?thesis using assms(2) same Inr by (simp add: insert_as_commit)
    next
      case False
      obtain rs ms where al: "allocate_records (we_now env) [p] (en_meta e) = (rs, ms)" by fastforce
      have run: "answer True (commit_path L env rs (map (insert_op L) rs) (\<lambda>e. e) ms e) = (r, e')"
        using assms(2) Inr False al unfolding insert_as_commit by simp
      show ?thesis
        by (rule commit_inserts_inv [OF assms(1) al _ run assms(4)]) (use assms(3,5) pr False in \<open>auto simp: fmlookup_dom_iff\<close>)
    qed
  qed
qed

lemma prepare_all_props:
  "prepare_all L d v inps seen acc = Inr ps \<Longrightarrow> distinct (map pr_id acc) \<Longrightarrow> pr_id ` set acc \<subseteq> fset seen \<Longrightarrow>
   distinct (map pr_id ps) \<and> (\<forall>p \<in> set ps. p \<in> set acc \<or> (\<exists>inp \<in> set inps. prepare L d v inp = Inr p))"
proof (induction inps arbitrary: seen acc)
  case (Cons inp inps)
  obtain p where p: "prepare L d v inp = Inr p" using Cons.prems(1) by (cases "prepare L d v inp") simp_all
  have i: "pr_id p = wi_id inp" by (rule prepare_Inr(1) [OF p])
  show ?case
  proof (cases "wi_id inp |\<in>| seen")
    case True
    then have "prepare_all L d v inps seen acc = Inr ps" using Cons.prems(1) p by simp
    from Cons.IH [OF this Cons.prems(2,3)] show ?thesis by auto
  next
    case False
    then have a: "prepare_all L d v inps (finsert (wi_id inp) seen) (acc @ [p]) = Inr ps" using Cons.prems(1) p by simp
    have "distinct (map pr_id (acc @ [p]))" "pr_id ` set (acc @ [p]) \<subseteq> fset (finsert (wi_id inp) seen)"
      using Cons.prems(2,3) False i by auto
    from Cons.IH [OF a this] show ?thesis using p by auto
  qed
qed simp

lemma batch_inv:
  assumes "eng_inv L lost e" "insert_batch_with_payload_role L env b e = (r, e')" "room (en_meta e) (length (bi_ids b))"
    and "\<not> en_sync_writes e \<or> we_fsync_ok env" "\<And>i. i < length (bi_ids b) \<Longrightarrow> payload_agrees L (batch_item b i)"
  shows "eng_inv L (lost_after r lost e e') e'"
proof -
  let ?v = "g_vocab (sa_graph (en_graph e))" and ?inps = "map (batch_item b) [0..<length (bi_ids b)]"
  have same: "eng_inv L (lost_after r lost e e') e'" if "e' = e"
    using assms(1) that eng_seg_mono [of lost e "lost_after r lost e e"] by (auto simp: eng_inv_def lost_after_def split: sum.splits)
  show ?thesis
  proof (cases "bi_ids b = [] \<or> \<not> batch_lengths_ok b")
    case True
    then have "e' = e" using assms(2) by (cases "bi_ids b = []") (simp_all add: batch_as_commit)
    then show ?thesis by (rule same)
  next
    case False
    show ?thesis
    proof (cases "prepare_all L (en_dim e) ?v ?inps {||} []")
      case (Inl er)
      then have "e' = e" using assms(2) False by (simp add: batch_as_commit)
      then show ?thesis by (rule same)
    next
      case (Inr ps)
      let ?fresh = "filter (\<lambda>p. pr_id p |\<notin>| fmdom (en_id_index e)) ps"
      have pp: "distinct (map pr_id ps)" "\<forall>p \<in> set ps. \<exists>inp \<in> set ?inps. prepare L (en_dim e) ?v inp = Inr p"
        using prepare_all_props [OF Inr] by auto
      have len: "length ps \<le> length (bi_ids b)"
      proof -
        have "pr_id ` set ps \<subseteq> wi_id ` set ?inps" using pp(2) prepare_Inr(1) by fastforce
        then have "card (pr_id ` set ps) \<le> card (set (map wi_id ?inps))" by (intro card_mono) auto
        also have "\<dots> \<le> length (map wi_id ?inps)" by (rule card_length)
        finally show ?thesis using distinct_card [OF pp(1)] by simp
      qed
      show ?thesis
      proof (cases "?fresh = []")
        case True
        then have "e' = e" using assms(2) False Inr by (simp add: batch_as_commit)
        then show ?thesis by (rule same)
      next
        case nonempty: False
        obtain rs ms where al: "allocate_records (we_now env) ?fresh (en_meta e) = (rs, ms)" by fastforce
        have run: "answer (length rs) (commit_path L env rs (map (insert_op L) rs) (\<lambda>e. e) ms e) = (r, e')"
          using assms(2) False Inr nonempty al by (simp add: batch_as_commit)
        have "length ?fresh \<le> length (bi_ids b)" using len length_filter_le order_trans by blast
        then have rm: "room (en_meta e) (length ?fresh)" using assms(3) by (auto simp: room_def)
        have di: "distinct (map pr_id ?fresh)" by (rule distinct_map_filter [OF pp(1)])
        have ok: "fmlookup (en_id_index e) (pr_id p) = None \<and> parses (el_json L) (pr_payload p)" if "p \<in> set ?fresh" for p
        proof -
          note th = that
          then obtain k where "k < length (bi_ids b)" "prepare L (en_dim e) ?v (batch_item b k) = Inr p" using pp(2) by force
          then show ?thesis using prepare_Inr(3) assms(5) th by (auto simp: fmlookup_dom_iff)
        qed
        show ?thesis by (rule commit_inserts_inv [OF assms(1) al rm run assms(4) di ok])
      qed
    qed
  qed
qed

lemma remove_idx:
  assumes "ids_for M (en_id_index e)" "small (en_meta e) \<longrightarrow> keys_for (el_json L) M (en_payload_index e) (en_scope_index e)"
    and "en_records e = M" "fmlookup (en_id_index e) i = Some off" "small (en_meta e) \<longrightarrow> unat off < 2 ^ 32"
  shows "ids_for (M(off := None)) (en_id_index (remove_from_indexes L i off e))"
    "small (en_meta e) \<longrightarrow> keys_for (el_json L) (M(off := None)) (en_payload_index (remove_from_indexes L i off e))
       (en_scope_index (remove_from_indexes L i off e))"
    "en_records (remove_from_indexes L i off e) = M(off := None)"
proof -
  obtain m where m: "M off = Some m" using assms(1,4) by (auto simp: ids_for_def)
  then have g: "ms_get (en_meta e) off = Some m" using assms(3) by (simp add: ms_get_def)
  show "ids_for (M(off := None)) (en_id_index (remove_from_indexes L i off e))"
    using ids_for_remove [OF assms(1,4)] g by (simp add: remove_from_indexes_def Let_def)
  show "small (en_meta e) \<longrightarrow> keys_for (el_json L) (M(off := None)) (en_payload_index (remove_from_indexes L i off e))
       (en_scope_index (remove_from_indexes L i off e))"
    using keys_for_remove [of "el_json L" M "en_payload_index e" "en_scope_index e" off m] m assms(2,5) g
    by (simp add: remove_from_indexes_def Let_def)
  show "en_records (remove_from_indexes L i off e) = M(off := None)"
    using assms(3) by (simp add: remove_from_indexes_frame ms_remove_def Let_def fun_eq_iff)
qed

lemma live_small:
  assumes "eng_dur L e" "en_records e off \<noteq> None"
  shows "small (en_meta e) \<longrightarrow> unat off < 2 ^ 32" "unat off < vs_count (en_vectors e)" "off < ms_next_offset (en_meta e)"
proof -
  have d: "dur_inv (el_wal L) (el_codec L) (en_meta e) (en_vectors e) (en_wal e) (rec_view (en_meta e))" using assms(1) by (simp add: eng_dur_def)
  have "unat off < vs_count (en_vectors e) \<and> off < ms_next_offset (en_meta e)"
    using dur_inv_facts(7) [OF d, of off] assms(2) by (simp add: rec_view_def)
  then show "small (en_meta e) \<longrightarrow> unat off < 2 ^ 32" "unat off < vs_count (en_vectors e)" "off < ms_next_offset (en_meta e)"
    by (simp_all add: small_def word_less_nat_alt)
qed

lemma ids_live: "eng_idx L e \<Longrightarrow> fmlookup (en_id_index e) i = Some off \<Longrightarrow> en_records e off \<noteq> None"
  by (auto simp: eng_idx_def ids_for_def)

lemma delete_inv:
  assumes "eng_inv L lost e" "delete_where L env i matches e = (r, e')" "\<not> en_sync_writes e \<or> we_fsync_ok env"
  shows "eng_inv L lost e'"
proof -
  have inv: "eng_dur L e" "eng_idx L e" "eng_seg lost e" using assms(1) by (simp_all add: eng_inv_def)
  have dur: "eng_dur L e'" by (rule delete_dur [OF inv(1) assms(2,3)]) (rule ids_live [OF inv(2)])
  have d: "dur_inv (el_wal L) (el_codec L) (en_meta e) (en_vectors e) (en_wal e) (rec_view (en_meta e))" using inv(1) by (simp add: eng_dur_def)
  note f = dur_inv_facts [OF d]
  show ?thesis
  proof (cases "e' = e")
    case False
    then obtain off w where off: "fmlookup (en_id_index e) i = Some off" and e': "e' = remove_from_indexes L i off (e\<lparr>en_wal := w\<rparr>)"
    proof -
      obtain off where off: "fmlookup (en_id_index e) i = Some off" "matches off"
        using assms(2) False by (auto simp: delete_where_def split: option.splits if_splits)
      obtain ra w where a: "append_batch (el_wal L) (we_append env) [Delete off] (en_wal e) = (ra, w)" by fastforce
      have "w = en_wal e" if "ra = Inl er" for er using append_batch_error_unchanged [OF f(3)] a that by blast
      then have "e' = remove_from_indexes L i off (e\<lparr>en_wal := w\<rparr>)"
        using assms(2,3) off a False by (cases ra) (auto simp: delete_where_def log_ops_def)
      then show ?thesis using that off by blast
    qed
    let ?e = "e\<lparr>en_wal := w\<rparr>"
    note l = live_small [OF inv(1) ids_live [OF inv(2) off]]
    have rm: "ids_for ((en_records e)(off := None)) (en_id_index e')"
        "small (en_meta e) \<longrightarrow> keys_for (el_json L) ((en_records e)(off := None)) (en_payload_index e') (en_scope_index e')"
        "en_records e' = (en_records e)(off := None)"
      using remove_idx [of "en_records e" ?e L i off] inv(2) off l(1) unfolding e' by (simp_all add: eng_idx_def)
    have "small (en_meta e') = small (en_meta e)" by (simp add: e' remove_from_indexes_frame small_def)
    then have "eng_idx L e'" using rm by (simp add: eng_idx_def)
    moreover have "eng_seg lost e'" using inv(3) rm(3) by (simp add: eng_seg_def e' remove_from_indexes_frame)
    ultimately show ?thesis using dur by (simp add: eng_inv_def)
  qed (use assms(1) in simp)
qed

lemma update_inv:
  assumes "eng_inv L lost e" "update_with_payload_role L env inp e = (r, e')" "room (en_meta e) 1"
    and "\<not> en_sync_writes e \<or> we_fsync_ok env" "payload_agrees L inp"
  shows "eng_inv L (lost_after r lost e e') e'"
proof -
  have inv: "eng_dur L e" "eng_idx L e" "eng_seg lost e" using assms(1) by (simp_all add: eng_inv_def)
  have same: "eng_inv L (lost_after r lost e e') e'" if "e' = e"
    using assms(1) that eng_seg_mono [of lost e "lost_after r lost e e"] by (auto simp: eng_inv_def lost_after_def split: sum.splits)
  show ?thesis
  proof (cases "fmlookup (en_id_index e) (wi_id inp)")
    case None
    then show ?thesis using assms(2) same by (simp add: update_as_commit)
  next
    case old: (Some old)
    show ?thesis
    proof (cases "prepare L (en_dim e) (g_vocab (sa_graph (en_graph e))) inp")
      case (Inl er)
      then show ?thesis using assms(2) same old by (simp add: update_as_commit)
    next
      case (Inr p)
      note pr = prepare_Inr [OF Inr]
      obtain rs ms where al: "allocate_records (we_now env) [p] (en_meta e) = (rs, ms)" by fastforce
      let ?ops = "map (\<lambda>(off, r). replace_op L old off r) rs" and ?pre = "remove_from_indexes L (wi_id inp) old"
      obtain q where c: "commit_path L env rs ?ops ?pre ms e = (q, e')" and q: "(\<exists>er. r = Inl er) \<longleftrightarrow> q \<noteq> Inr ()"
        using assms(2) old Inr al by (simp add: update_as_commit) (metis answerE)
      have one: "room (en_meta e) (length [p])" using assms(3) by simp
      note a = allocate_ok [OF al one, of "el_codec L"]
      have d: "dur_inv (el_wal L) (el_codec L) (en_meta e) (en_vectors e) (en_wal e) (rec_view (en_meta e))" using inv(1) by (simp add: eng_dur_def)
      note f = dur_inv_facts [OF d]
      have num: "numbered (en_meta e) ms rs" and ms: "ms_records ms = ms_records (en_meta e)" using a by blast+
      have le: "ms_next_offset (en_meta e) \<le> ms_next_offset ms" using a by (simp add: word_le_nat_alt)
      obtain off x where rs: "rs = [(off, x)]" "r_id x = wi_id inp" "r_payload x = wi_payload inp"
        using al pr(1,2) by (auto simp: allocate_offset_def allocate_seq_def Let_def into_record_def)
      have sm: "small ms \<Longrightarrow> small (en_meta e)" using le by (auto simp: small_def word_le_nat_alt)
      note l = live_small [OF inv(1) ids_live [OF inv(2) old]]
      let ?M = "(en_records e)(old := None)"
      have pre: "let x = ?pre (e\<lparr>en_meta := ms, en_vectors := vs, en_wal := w\<rparr>) in
          ids_for ?M (en_id_index x) \<and> (small ms \<longrightarrow> keys_for (el_json L) ?M (en_payload_index x) (en_scope_index x)) \<and>
          en_records x = ?M \<and> ms_next_offset (en_meta x) = ms_next_offset ms \<and> en_segments x = en_segments e \<and> en_vectors x = vs \<and>
          (\<forall>i \<in> (r_id \<circ> snd) ` set rs. fmlookup (en_id_index x) i = None)" for vs w
      proof -
        let ?x = "e\<lparr>en_meta := ms, en_vectors := vs, en_wal := w\<rparr>"
        have rm: "ids_for ?M (en_id_index (?pre ?x))" "small ms \<longrightarrow> keys_for (el_json L) ?M (en_payload_index (?pre ?x)) (en_scope_index (?pre ?x))"
            "en_records (?pre ?x) = ?M"
          using remove_idx [of "en_records e" ?x L "wi_id inp" old] inv(2) old l(1) sm ms by (simp_all add: eng_idx_def)
        have "fmlookup (en_id_index (?pre ?x)) (wi_id inp) = None"
          by (simp add: remove_from_indexes_def Let_def split: option.split)
        then show ?thesis using rm rs by (simp add: Let_def remove_from_indexes_frame)
      qed
      have di: "distinct (map (r_id \<circ> snd) rs)" by (simp add: rs)
      have pay: "parses (el_json L) y" if "y \<in> (r_payload \<circ> snd) ` set rs" for y
        using that rs pr(2,3) assms(5) by simp
      note ci = commit_idx_seg [OF inv num ms le c assms(4) di pay pre]
      have ix: "eng_idx L e'" "eng_seg (if q = Inr () then lost else lost \<union> fst ` set rs) e'" by (rule ci; simp split: if_splits)+
      have "fst ` set rs \<subseteq> {off. ms_next_offset (en_meta e) \<le> off \<and> off < ms_next_offset (en_meta e')}"
        using num commit_next_offset [OF c f(3) assms(4)] unfolding numbered_def by (force simp: remove_from_indexes_frame)
      then have "eng_seg (lost_after r lost e e') e'" using lost_after_seg [OF ix(2) q] by blast
      moreover have "eng_dur L e'" by (rule commit_replace_dur(1) [OF inv(1) al assms(3) c assms(4)])
      ultimately show ?thesis using ix(1) by (simp add: eng_inv_def)
    qed
  qed
qed

section \<open>Flush keeps the indexes\<close>

lemma core_meta_fields [simp]: "m_id (core_meta m) = m_id m" "m_payload (core_meta m) = m_payload m" "m_scope (core_meta m) = m_scope m"
  by (simp_all add: core_meta_def)

lemma view_idx:
  assumes "rec_view ms' = rec_view ms"
  shows "ids_for (fmlookup (ms_records ms')) ids = ids_for (fmlookup (ms_records ms)) ids"
    "keys_for J (fmlookup (ms_records ms')) x s = keys_for J (fmlookup (ms_records ms)) x s"
    "fmlookup (ms_records ms') off = None \<longleftrightarrow> fmlookup (ms_records ms) off = None"
proof -
  have v: "map_option core_meta (fmlookup (ms_records ms') off) = map_option core_meta (fmlookup (ms_records ms) off)" for off
    using fun_cong [OF assms, of off] by (simp add: rec_view_def)
  have f: "map_option f (fmlookup (ms_records ms') off) = map_option f (fmlookup (ms_records ms) off)" if "\<And>m. f (core_meta m) = f m" for f :: "meta_record \<Rightarrow> 'z" and off
    using arg_cong [OF v [of off], of "map_option f"] that by (simp add: option.map_comp comp_def)
  have "(\<exists>m. fmlookup (ms_records ms') off = Some m \<and> m_id m = i) \<longleftrightarrow> (\<exists>m. fmlookup (ms_records ms) off = Some m \<and> m_id m = i)" for off i
    using f [of m_id off] by (cases "fmlookup (ms_records ms') off"; cases "fmlookup (ms_records ms) off") auto
  then show "ids_for (fmlookup (ms_records ms')) ids = ids_for (fmlookup (ms_records ms)) ids" by (simp add: ids_for_def)
  show "keys_for J (fmlookup (ms_records ms')) x s = keys_for J (fmlookup (ms_records ms)) x s"
    using f [of m_payload] f [of m_scope] by (simp add: keys_for_def)
  show "fmlookup (ms_records ms') off = None \<longleftrightarrow> fmlookup (ms_records ms) off = None"
    using v [of off] by (cases "fmlookup (ms_records ms') off"; cases "fmlookup (ms_records ms) off") auto
qed

lemma cleanup_listed: "holder_inv (cleanup_pending_dirs gone h) = holder_inv h" "listed (cleanup_pending_dirs gone h) = listed h"
  by (simp_all add: cleanup_pending_dirs_def holder_inv_def holder_ok_def holder_wf_def hot_plain_def hot_mirror_def the_hot_def
      seg_at_def searchable_segments_def listed_def refs_offsets_def)

lemma all_stored_listed:
  assumes "eng_dur L e" "eng_seg lost e"
  shows "all_stored (en_vectors e) (listed (en_segments e)) \<or> \<not> vs_mapped (en_vectors e)"
proof (cases "vs_mapped (en_vectors e)")
  case True
  have d: "dur_inv (el_wal L) (el_codec L) (en_meta e) (en_vectors e) (en_wal e) (rec_view (en_meta e))" using assms(1) by (simp add: eng_dur_def)
  have "vs_wf (crc32 (el_wal L)) (en_vectors e)" by (rule dur_inv_facts(1) [OF d])
  then have ok: "vs_ok (crc32 (el_wal L)) (en_vectors e)" using True by (simp add: vs_ok_wf)
  have "vs_get (en_vectors e) off \<noteq> None" if "off \<in> listed (en_segments e)" for off
  proof -
    have u: "unat off < vs_count (en_vectors e)" using assms(2) that by (simp add: eng_seg_def)
    then have "unat off < vs_slots (en_vectors e)" using ok by (simp add: vs_ok_def)
    from vs_slot_bounds [OF ok this] show ?thesis using u True by (simp add: vs_get_def Let_def read_at_def)
  qed
  then show ?thesis by (simp add: all_stored_def)
qed simp

lemma flush_fields:
  assumes "engine_flush L env e = (r, e')"
  shows "en_id_index e' = en_id_index e" "en_payload_index e' = en_payload_index e" "en_scope_index e' = en_scope_index e"
    "\<exists>er b h. process_seals (fe_seals env) 0 (en_vectors e) (en_budget e) (en_segments e) = (er, b, h) \<and>
       (en_segments e' = h \<or> en_segments e' = snd (holder_flush (fe_gone env) (fe_has_dir env) h))"
    "en_sync_writes e' = en_sync_writes e"
proof -
  obtain er e1 where b: "flush_build env e = (er, e1)" by fastforce
  obtain r2 e2 where s: "flush_snapshot L env e1 = (r2, e2)" by fastforce
  obtain r3 e3 where t: "flush_rest L env e2 = (r3, e3)" by fastforce
  obtain q bd h where p: "process_seals (fe_seals env) 0 (en_vectors e) (en_budget e) (en_segments e) = (q, bd, h)" by (metis surj_pair)
  have f1: "en_id_index e1 = en_id_index e \<and> en_payload_index e1 = en_payload_index e \<and> en_scope_index e1 = en_scope_index e \<and>
      en_segments e1 = h \<and> en_sync_writes e1 = en_sync_writes e"
    using b p by (auto simp: flush_build_def split: prod.splits)
  have f2: "en_id_index e2 = en_id_index e1 \<and> en_payload_index e2 = en_payload_index e1 \<and> en_scope_index e2 = en_scope_index e1 \<and>
      en_segments e2 = en_segments e1 \<and> en_sync_writes e2 = en_sync_writes e1"
    using s by (auto simp: flush_snapshot_def Let_def split: prod.splits sum.splits if_splits)
  obtain ms w where f3: "e3 = e2\<lparr>en_segments := snd (holder_flush (fe_gone env) (fe_has_dir env) (en_segments e2)), en_meta := ms, en_wal := w\<rparr>"
    using flush_rest_form [OF t] by blast
  have "e' = e2 \<or> e' = e3" using assms b s t by (auto simp: engine_flush_def split: sum.splits option.splits)
  then show "en_id_index e' = en_id_index e" "en_payload_index e' = en_payload_index e" "en_scope_index e' = en_scope_index e"
    "\<exists>er b h. process_seals (fe_seals env) 0 (en_vectors e) (en_budget e) (en_segments e) = (er, b, h) \<and>
       (en_segments e' = h \<or> en_segments e' = snd (holder_flush (fe_gone env) (fe_has_dir env) h))"
    "en_sync_writes e' = en_sync_writes e"
    using f1 f2 f3 p by auto
qed

lemma flush_next_offset:
  assumes "eng_dur L e" "engine_flush L env e = (r, e')" "\<not> torn_clear (fe_clear env)"
  shows "ms_next_offset (en_meta e') = ms_next_offset (en_meta e)"
proof -
  obtain er e1 where b: "flush_build env e = (er, e1)" by fastforce
  note fb = flush_build_dur [OF assms(1) b]
  obtain r2 e2 where s: "flush_snapshot L env e1 = (r2, e2)" by fastforce
  obtain r3 e3 where t: "flush_rest L env e2 = (r3, e3)" by fastforce
  have d: "dur_inv (el_wal L) (el_codec L) (en_meta e1) (en_vectors e1) (en_wal e1) (rec_view (en_meta e1))" using fb(1) by (simp add: eng_dur_def)
  have inv: "ms_inv (el_codec L) (en_meta e1)" by (rule dur_inv_facts(4) [OF d])
  have fl: "ms_next_offset (snd (ms_flush (el_codec L) out q (en_meta e1))) = ms_next_offset (en_meta e1)" for out q
  proof (cases "ms_flush (el_codec L) out q (en_meta e1)")
    case (Pair rm ms)
    show ?thesis
    proof (cases rm)
      case (Inl er)
      then show ?thesis using ms_flush_Inl Pair by (metis snd_conv)
    next
      case (Inr u)
      then show ?thesis using ms_flush_cases [OF inv, of out q ms] Pair by auto
    qed
  qed
  have "ms_next_offset (en_meta e2) = ms_next_offset (en_meta e1)"
    using s fl by (auto simp: flush_snapshot_def Let_def split: prod.splits sum.splits if_splits) (metis snd_conv)+
  moreover have "ms_next_offset (en_meta e3) = ms_next_offset (en_meta e2)"
    using flush_rest_form [OF t] by (auto simp: other_keys_def)
  moreover have "e' = e2 \<or> e' = e3" using assms b s t by (auto simp: engine_flush_def split: sum.splits option.splits)
  ultimately show ?thesis using fb(5) by (auto simp: same_store_def)
qed

lemma flush_inv:
  assumes "eng_inv L lost e" "engine_flush L env e = (r, e')" "\<not> torn_clear (fe_clear env)"
  shows "eng_inv L lost e'"
proof -
  have inv: "eng_dur L e" "eng_idx L e" "eng_seg lost e" using assms(1) by (simp_all add: eng_inv_def)
  note fd = flush_dur [OF inv(1) assms(2,3)] and ff = flush_fields [OF assms(2)]
  have "small (en_meta e') = small (en_meta e)" using flush_next_offset [OF inv(1) assms(2,3)] by (simp add: small_def)
  then have ix: "eng_idx L e'" using inv(2) ff view_idx(1,2) [OF fd(2)] by (simp add: eng_idx_def)
  obtain er b h where p: "process_seals (fe_seals env) 0 (en_vectors e) (en_budget e) (en_segments e) = (er, b, h)"
      "en_segments e' = h \<or> en_segments e' = snd (holder_flush (fe_gone env) (fe_has_dir env) h)" using ff(4) by blast
  have h: "holder_inv h \<and> listed h = listed (en_segments e)"
    using process_seals_ok [OF _ all_stored_listed [OF inv(1,3)] p(1)] inv(3) by (simp add: eng_seg_def)
  have hf: "snd (holder_flush g d h) = cleanup_pending_dirs g h" for g d by (simp add: holder_flush_def Let_def)
  have "holder_inv (en_segments e') \<and> listed (en_segments e') = listed (en_segments e)" using p(2) h hf cleanup_listed by auto
  moreover have "vs_count (en_vectors e) \<le> vs_count (en_vectors e')" using fd(3) by (simp add: vs_frame_def)
  moreover have "en_records e' off \<noteq> None \<Longrightarrow> en_records e off \<noteq> None" for off using view_idx(3) [OF fd(2)] by simp
  ultimately have "eng_seg lost e'" using inv(3) unfolding eng_seg_def by (metis order_less_le_trans)
  then show ?thesis using fd(1) ix by (simp add: eng_inv_def)
qed

end
