(* ===== verification/Engine_Open.thy ===== *)
theory Engine_Open
  imports Engine_Indexes
begin

text \<open>
  \<open>StorageEngine::open\<close> of \<open>engine/mod.rs\<close>: after the metadata, the vectors and the log were recovered
  (\<open>open_durable\<close>) it rebuilds the payload, scope, text and id indexes, restores or rebuilds the graph,
  and loads the persisted segments, dropping directories that are unfinished, unreadable or covered
  by others; the remaining records go to a new Hot segment.

  What the segment directories hold and the outcomes of directory operations are arguments
  (\<open>rebuild_env\<close>); so are the orders in which Rust's hash containers are iterated.
\<close>

section \<open>Configuration and directories\<close>

datatype quantizer_kind = Scalar u8 | Sign | TurboQuantMse u8 | TurboQuantProd u8 | RaBitQ u8

fun requires_pow2_dim :: "quantizer_kind \<Rightarrow> bool" where
  "requires_pow2_dim (TurboQuantMse bits) = True"
| "requires_pow2_dim (TurboQuantProd bits) = True"
| "requires_pow2_dim _ = False"

record store_config =
  st_segments :: seg_config
  st_initial_capacity :: nat
  st_warm_quantizer :: quantizer_kind
  st_cold_quantizer :: quantizer_kind
  st_sync_writes :: bool
  st_actr_history :: nat
  st_max_builds :: nat
  st_max_build_memory :: "nat option"
  st_spreading :: spreading_config

text \<open>One directory below a tier's directory: its name, whether it has a manifest, the result of
  opening its segment, and whether it can be removed.\<close>

record seg_dir =
  sd_path :: string
  sd_manifest :: bool
  sd_open :: "segment result"
  sd_removable :: bool

datatype dir_listing = NoDir | ReadDirFails | Entries "seg_dir list"

record rebuild_env =
  re_order :: "(point_offset \<times> meta_record) list \<Rightarrow> (point_offset \<times> meta_record) list"
  re_stale_order :: "string list \<Rightarrow> string list"
  re_text_open :: text_open
  re_text_old :: "tantivy_op list"
  re_text_refused :: "nat \<Rightarrow> bool"
  re_text_commit :: commit_outcome
  re_ccs :: "string \<Rightarrow> string option"
  re_sealed :: dir_listing
  re_warm :: dir_listing
  re_cold :: dir_listing
  re_names :: "string \<Rightarrow> string list option"

text \<open>\<open>usize::is_power_of_two\<close>\<close>

definition is_power_of_two :: "nat \<Rightarrow> bool" where
  "is_power_of_two n \<longleftrightarrow> n \<in> set (map ((^) 2) [0..<64])"

definition check_quantizers :: "store_config \<Rightarrow> unit result" where
  "check_quantizers c =
     (if \<exists>kind \<in> set [st_warm_quantizer c, st_cold_quantizer c].
           requires_pow2_dim kind \<and> \<not> is_power_of_two (cfg_dimension (st_segments c))
      then Inl (InvalidArgument ''quantizer requires a power-of-two dimension'') else Inr ())"

section \<open>The indexes\<close>

definition meta_records :: "rebuild_env \<Rightarrow> mstore \<Rightarrow> (point_offset \<times> meta_record) list" where
  "meta_records env ms = re_order env (table_items (ms_records ms))"

definition rebuild_scopes :: "(point_offset \<times> meta_record) list \<Rightarrow> scope_index" where
  "rebuild_scopes rs = fold (\<lambda>(off, m). si_add off (m_scope m)) rs si_new"

fun add_texts :: "(nat \<Rightarrow> bool) \<Rightarrow> nat \<Rightarrow> (point_offset \<times> meta_record) list \<Rightarrow> text_index \<Rightarrow> text_index result" where
  "add_texts refused i [] x = Inr x"
| "add_texts refused i ((off, m) # rs) x =
     (case ti_add (if refused i then Some 0 else None) off (m_text m) x of
        (Inl er, x1) \<Rightarrow> Inl er
      | (Inr _, x1) \<Rightarrow> add_texts refused (Suc i) rs x1)"

definition rebuild_text :: "rebuild_env \<Rightarrow> (point_offset \<times> meta_record) list \<Rightarrow> text_index result" where
  "rebuild_text env rs =
     rbind (ti_open (re_text_open env) (re_text_old env)) (\<lambda>x.
     rbind (add_texts (re_text_refused env) 0 rs x) (\<lambda>x1.
     case ti_commit (re_text_commit env) x1 of (Inl er, x2) \<Rightarrow> Inl er | (Inr _, x2) \<Rightarrow> Inr x2))"

definition records_vec :: "vstore \<Rightarrow> (point_offset \<times> meta_record) list \<Rightarrow> (point_offset \<times> mem_record) list" where
  "records_vec vs rs =
     List.map_filter (\<lambda>(off, m). map_option (\<lambda>v. (off, with_embedding m v)) (vs_get vs off))
       (sort_key (\<lambda>(off, m). (m_created_at m, m_insert_seq m)) rs)"

definition collect_ids :: "(point_offset \<times> mem_record) list \<Rightarrow> (string, point_offset) fmap" where
  "collect_ids rs = fold (\<lambda>(off, r). fmupd (r_id r) off) rs fmempty"

section \<open>The graph\<close>

definition add_records :: "engine_lib \<Rightarrow> (point_offset \<times> mem_record) list \<Rightarrow> mgraph \<Rightarrow> mgraph" where
  "add_records L rs g =
     fold (\<lambda>(off, r). add_memory_scoped (el_lower L) (r_id r) (r_text r) (r_concepts r) (r_importance r) (r_scope r)) rs g"

definition build_graph :: "engine_lib \<Rightarrow> (point_offset \<times> mem_record) list \<Rightarrow> spreading_config \<Rightarrow> activation" where
  "build_graph L rs c = sa_new (el_words L) (add_records L rs graph_new) c"

definition parse_graph :: "engine_lib \<Rightarrow> bytes \<Rightarrow> mgraph option" where
  "parse_graph L bs =
     (if is_snapshot_bytes bs
      then case from_snapshot_bytes (el_snap L) bs of Inl er \<Rightarrow> None | Inr g \<Rightarrow> Some g
      else el_graph_json L bs)"

text \<open>The saved graph without the memories whose record is gone, and with those it lacks.\<close>

definition rebuild_graph :: "engine_lib \<Rightarrow> (string list \<Rightarrow> string list) \<Rightarrow> (point_offset \<times> mem_record) list \<Rightarrow> bytes option \<Rightarrow> spreading_config
    \<Rightarrow> activation \<times> nat" where
  "rebuild_graph L order rs saved_graph c =
     (case Option.bind saved_graph (parse_graph L) of
        None \<Rightarrow> (build_graph L rs c, 0)
      | Some g \<Rightarrow>
          (let existing = remdups (map (\<lambda>(k, _). strip_mem k) (iter_memory_nodes g));
               live_ids = set (map (\<lambda>(off, r). r_id r) rs);
               stale = order (filter (\<lambda>i. i \<notin> live_ids) existing);
               kept = set existing - set stale;
               g1 = fold remove_memory stale g;
               g2 = add_records L (filter (\<lambda>(off, r). r_id r \<notin> kept) rs) g1
           in (sa_new (el_words L) g2 c, length stale)))"

text \<open>\<open>load_meta_bytes("graph").or_else(load_meta_str("graph"))\<close>; a stored string is its bytes.\<close>

definition saved_graph_bytes :: "mstore \<Rightarrow> bytes option" where
  "saved_graph_bytes ms =
     (case load_meta_bytes ms ''graph'' of
        Some bs \<Rightarrow> Some bs
      | None \<Rightarrow> map_option (map (\<lambda>c. of_char c)) (load_meta (ms_db ms) ''graph''))"

section \<open>The segments\<close>

fun load_paths :: "seg_dir list \<Rightarrow> recovery_report \<Rightarrow> (seg_dir \<times> segment) list \<Rightarrow> (seg_dir \<times> segment) list \<times> recovery_report" where
  "load_paths [] rep loaded = (loaded, rep)"
| "load_paths (sd # sds) rep loaded =
     (if \<not> sd_manifest sd then
        load_paths sds (if sd_removable sd then rep\<lparr>rr_segment_dirs_removed := rr_segment_dirs_removed rep + 1\<rparr> else rep) loaded
      else case sd_open sd of
        Inr s \<Rightarrow> load_paths sds rep (loaded @ [(sd, s)])
      | Inl er \<Rightarrow> load_paths sds (rep\<lparr>rr_segments_discarded := rr_segments_discarded rep + 1\<rparr>) loaded)"

definition load_segment_dirs :: "dir_listing \<Rightarrow> recovery_report \<Rightarrow> ((seg_dir \<times> segment) list \<times> recovery_report) result" where
  "load_segment_dirs listing rep =
     (case listing of
        NoDir \<Rightarrow> Inr ([], rep)
      | ReadDirFails \<Rightarrow> Inl Io
      | Entries sds \<Rightarrow> Inr (load_paths (sort_key sd_path sds) rep []))"

definition remove_superseded_dir :: "seg_dir \<Rightarrow> recovery_report \<Rightarrow> recovery_report" where
  "remove_superseded_dir sd rep =
     (if sd_removable sd then rep\<lparr>rr_segment_dirs_removed := rr_segment_dirs_removed rep + 1\<rparr> else rep)"

text \<open>Keeping the Warm segments that are not inside the Cold ones.\<close>

fun keep_warm :: "point_offset set \<Rightarrow> (seg_dir \<times> segment) list \<Rightarrow> recovery_report \<Rightarrow> segment list \<times> recovery_report" where
  "keep_warm cold [] rep = ([], rep)"
| "keep_warm cold ((sd, s) # xs) rep =
     (if \<forall>off \<in> set (seg_offsets s). off \<in> cold then keep_warm cold xs (remove_superseded_dir sd rep)
      else case keep_warm cold xs rep of (ss, rep1) \<Rightarrow> (s # ss, rep1))"

text \<open>Keeping the sealed Hot segments, largest first, that are not inside those kept before.\<close>

fun keep_sealed :: "point_offset set \<Rightarrow> (seg_dir \<times> segment) list \<Rightarrow> recovery_report \<Rightarrow> segment list \<times> point_offset set \<times> recovery_report" where
  "keep_sealed hot [] rep = ([], hot, rep)"
| "keep_sealed hot ((sd, s) # xs) rep =
     (if \<forall>off \<in> set (seg_offsets s). off \<in> hot then keep_sealed hot xs (remove_superseded_dir sd rep)
      else case keep_sealed (hot \<union> set (seg_offsets s)) xs rep of (ss, hot1, rep1) \<Rightarrow> (s # ss, hot1, rep1))"

definition sealed_order :: "(seg_dir \<times> segment) list \<Rightarrow> (seg_dir \<times> segment) list" where
  "sealed_order xs = sort_key (\<lambda>(sd, s). (- int (length (seg_offsets s)), sd_path sd)) xs"

definition load_segments :: "store_config \<Rightarrow> rebuild_env \<Rightarrow> (point_offset \<times> mem_record) list \<Rightarrow> recovery_report
    \<Rightarrow> (holder \<times> recovery_report) result" where
  "load_segments c env rs rep =
     rbind (load_segment_dirs (re_sealed env) rep) (\<lambda>(sealed_loaded, rep1).
     rbind (load_segment_dirs (re_warm env) rep1) (\<lambda>(warm_loaded, rep2).
     rbind (load_segment_dirs (re_cold env) rep2) (\<lambda>(cold_loaded, rep3).
       let cold_segments = map snd cold_loaded;
           cold_offsets = (\<Union>s \<in> set cold_segments. set (seg_offsets s));
           (warm_segments, rep4) = keep_warm cold_offsets warm_loaded rep3;
           (sealed_segments, hot_offsets, rep5) = keep_sealed {} (sealed_order sealed_loaded) rep4;
           sealed_offsets = cold_offsets \<union> (\<Union>s \<in> set warm_segments. set (seg_offsets s)) \<union> hot_offsets
       in case from_records (st_segments c) (re_names env) rs sealed_offsets of
            (Inl er, h) \<Rightarrow> Inl er
          | (Inr _, h) \<Rightarrow> Inr (fold add_cold cold_segments (fold add_warm warm_segments (fold add_sealed_hot sealed_segments h)), rep5))))"

section \<open>Open\<close>

definition rebuild_engine :: "engine_lib \<Rightarrow> store_config \<Rightarrow> rebuild_env \<Rightarrow> mstore \<times> vstore \<times> wal \<times> recovery_report \<Rightarrow> engine result" where
  "rebuild_engine L c env = (\<lambda>(ms, vs, w, rep).
     (let rs = meta_records env ms in
      rbind (rebuild_text env rs) (\<lambda>ti.
        let rv = records_vec vs rs;
            (graph, pruned) = rebuild_graph L (re_stale_order env) rv (saved_graph_bytes ms) (st_spreading c)
        in rbind (load_segments c env rv (rep\<lparr>rr_graph_nodes_pruned := rr_graph_nodes_pruned rep + pruned\<rparr>)) (\<lambda>(h, rep1).
          Inr \<lparr>en_sync_writes = st_sync_writes c, en_meta = ms, en_vectors = vs, en_segments = h, en_graph = graph,
               en_ccs = Option.bind (load_meta (ms_db ms) ''ccs'') (re_ccs env), en_id_index = collect_ids rv,
               en_payload_index = from_meta_records_iter (el_json L) rs, en_scope_index = rebuild_scopes rs,
               en_text_index = ti, en_wal = w, en_counters = ac_new (st_actr_history c),
               en_budget = budget_new (st_max_builds c) (st_max_build_memory c), en_recovery = rep1\<rparr>))))"

definition engine_open :: "engine_lib \<Rightarrow> store_config \<Rightarrow> open_env \<Rightarrow> rebuild_env \<Rightarrow> disk \<Rightarrow> engine result \<times> disk" where
  "engine_open L c oenv renv D =
     (case check_quantizers c of
        Inl er \<Rightarrow> (Inl er, D)
      | Inr _ \<Rightarrow>
          (case open_durable (el_wal L) (el_codec L) [] (cfg_dimension (st_segments c)) (st_initial_capacity c) oenv D of
             (Inl er, D1) \<Rightarrow> (Inl er, D1)
           | (Inr x, D1) \<Rightarrow> (rebuild_engine L c renv x, D1)))"


section \<open>The rebuilt indexes are exact\<close>

definition orders_ok :: "rebuild_env \<Rightarrow> bool" where
  "orders_ok env \<longleftrightarrow> (\<forall>rs. mset (re_order env rs) = mset rs) \<and> (\<forall>is. mset (re_stale_order env is) = mset is)"

lemma meta_records_ok:
  assumes "orders_ok env"
  shows "distinct (map fst (meta_records env ms))" "map_of (meta_records env ms) = fmlookup (ms_records ms)"
proof -
  have m: "mset (meta_records env ms) = mset (table_items (ms_records ms))" using assms by (simp add: orders_ok_def meta_records_def)
  have "mset (map fst (meta_records env ms)) = mset (map fst (table_items (ms_records ms)))" using m by simp
  then show d: "distinct (map fst (meta_records env ms))"
    using distinct_table_items [of "ms_records ms"] mset_eq_imp_distinct_iff by blast
  have "set (meta_records env ms) = set (table_items (ms_records ms))" using m by (rule mset_eq_setD)
  then show "map_of (meta_records env ms) = fmlookup (ms_records ms)"
    using map_of_inject_set [OF d distinct_table_items] map_of_table_items by metis
qed

lemma keys_for_fold:
  assumes "distinct (map fst rs)" "\<And>off. off \<in> fst ` set rs \<Longrightarrow> unat off < 2 ^ 32 \<and> M off = None" "keys_for J M x s"
  shows "keys_for J (M ++ map_of rs) (fold (\<lambda>(off, m) x. snd (pi_add J off (m_payload m) x)) rs x) (fold (\<lambda>(off, m). si_add off (m_scope m)) rs s)"
  using assms
proof (induction rs arbitrary: M x s)
  case (Cons p rs)
  obtain off m where p: "p = (off, m)" by fastforce
  have "keys_for J (M(off \<mapsto> m)) (snd (pi_add J off (m_payload m) x)) (si_add off (m_scope m) s)"
    using Cons.prems p by (auto intro: keys_for_add)
  note new = this
  have "keys_for J (M(off \<mapsto> m) ++ map_of rs) (fold (\<lambda>(off, m) x. snd (pi_add J off (m_payload m) x)) (p # rs) x)
      (fold (\<lambda>(off, m). si_add off (m_scope m)) (p # rs) s)"
    unfolding p fold_simps prod.case
  proof (rule Cons.IH [OF _ _ new])
    show "distinct (map fst rs)" using Cons.prems(1) by simp
    show "unat o' < 2 ^ 32 \<and> (M(off \<mapsto> m)) o' = None" if "o' \<in> fst ` set rs" for o'
      using Cons.prems(1,2) that p by auto
  qed
  moreover have "map_of rs off = None" using Cons.prems(1) p by (simp add: map_of_eq_None_iff)
  then have "M(off \<mapsto> m) ++ map_of rs = M ++ map_of (p # rs)" by (simp add: p map_add_upd_left domIff)
  ultimately show ?case by metis
qed simp

lemma keys_for_empty: "keys_for J Map.empty pi_new si_new"
  by (simp add: keys_for_def pi_rep_def pi_new_def si_rep_def si_new_def si_exact_def)

lemma rebuilt_keys:
  assumes "distinct (map fst rs)" "\<And>off. off \<in> fst ` set rs \<Longrightarrow> unat off < 2 ^ 32"
  shows "keys_for J (map_of rs) (from_meta_records_iter J rs) (rebuild_scopes rs)"
  using keys_for_fold [OF assms(1) _ keys_for_empty, of J] assms(2) by (simp add: from_meta_records_iter_def rebuild_scopes_def)

definition unique_ids :: "(point_offset \<rightharpoonup> meta_record) \<Rightarrow> bool" where
  "unique_ids R \<longleftrightarrow> (\<forall>a b m n. R a = Some m \<longrightarrow> R b = Some n \<longrightarrow> m_id m = m_id n \<longrightarrow> a = b)"

lemma ids_for_unique: "ids_for M ids \<Longrightarrow> unique_ids M"
  by (auto simp: ids_for_def unique_ids_def) (metis option.inject)

lemma collect_ids_lookup:
  assumes "distinct (map (r_id \<circ> snd) rs)"
  shows "fmlookup (collect_ids rs) i = Some off \<longleftrightarrow> (\<exists>r. (off, r) \<in> set rs \<and> r_id r = i)"
proof -
  have "fmlookup (fold (\<lambda>(off, r). fmupd (r_id r) off) rs ids) i = Some off \<longleftrightarrow>
      (\<exists>r. (off, r) \<in> set rs \<and> r_id r = i) \<or> (i \<notin> (r_id \<circ> snd) ` set rs \<and> fmlookup ids i = Some off)" for ids
    using assms
  proof (induction rs arbitrary: ids)
    case (Cons p rs)
    obtain o' r where p: "p = (o', r)" by fastforce
    then have "r_id r \<notin> (r_id \<circ> snd) ` set rs" "distinct (map (r_id \<circ> snd) rs)" using Cons.prems by (simp_all add: comp_def)
    note ih = Cons.IH [OF this(2), of "fmupd (r_id r) o' ids"]
    show ?case using ih p \<open>r_id r \<notin> (r_id \<circ> snd) ` set rs\<close> by (cases "i = r_id r") (auto simp: image_iff)
  qed simp
  from this [of fmempty] show ?thesis by (simp add: collect_ids_def)
qed

lemma set_map_filter: "set (List.map_filter g xs) = {y. \<exists>x \<in> set xs. g x = Some y}"
  by (induction xs) (auto simp: List.map_filter_def)

lemma set_records_vec:
  "set (records_vec vs rs) = {(off, with_embedding m v) |off m v. (off, m) \<in> set rs \<and> vs_get vs off = Some v}"
  unfolding records_vec_def set_map_filter set_sort by (auto intro: rev_bexI)

lemma with_embedding_parts [simp]: "r_id (with_embedding m v) = m_id m" "r_embedding (with_embedding m v) = v"
  by (simp_all add: with_embedding_def)

lemma distinct_keys_map_filter:
  "distinct (map f xs) \<Longrightarrow> (\<And>x y. g x = Some y \<Longrightarrow> h y = f x) \<Longrightarrow> distinct (map h (List.map_filter g xs))"
proof (induction xs)
  case (Cons x xs)
  have "f x \<notin> h ` set (List.map_filter g xs)" using Cons.prems by (auto simp: set_map_filter)
  then show ?case using Cons by (auto simp: List.map_filter_def)
qed (simp add: List.map_filter_def)

text \<open>Every live record has its vector, and ids are unique: the rebuilt id index is exact.\<close>

lemma rebuilt_ids:
  assumes "distinct (map fst rs)" "unique_ids (map_of rs)" "\<And>off. off \<in> fst ` set rs \<Longrightarrow> vs_get vs off \<noteq> None"
  shows "ids_for (map_of rs) (collect_ids (records_vec vs rs))" "fst ` set (records_vec vs rs) = fst ` set rs"
proof -
  have of: "map_of rs off = Some m \<longleftrightarrow> (off, m) \<in> set rs" for off m using assms(1) by (simp add: map_of_eq_Some_iff)
  have "distinct (map (m_id \<circ> snd) rs)"
    unfolding distinct_map using assms(1,2) of by (auto simp: distinct_map inj_on_def unique_ids_def)
      (metis fst_conv snd_conv inj_onD prod.collapse)+
  moreover have "mset (map (m_id \<circ> snd) (sort_key k rs)) = mset (map (m_id \<circ> snd) rs)" for k :: "point_offset \<times> meta_record \<Rightarrow> u64 \<times> u64"
    by simp
  ultimately have "distinct (map (m_id \<circ> snd) (sort_key k rs))" for k :: "point_offset \<times> meta_record \<Rightarrow> u64 \<times> u64"
    using mset_eq_imp_distinct_iff by blast
  then have d: "distinct (map (r_id \<circ> snd) (records_vec vs rs))"
    unfolding records_vec_def by (rule distinct_keys_map_filter) auto
  show "ids_for (map_of rs) (collect_ids (records_vec vs rs))"
    unfolding ids_for_def collect_ids_lookup [OF d] of set_records_vec using assms(3) by force
  show "fst ` set (records_vec vs rs) = fst ` set rs"
    unfolding set_records_vec using assms(3) by force
qed

section \<open>The loaded segments cover the records\<close>

definition loaded_from :: "dir_listing \<Rightarrow> segment set" where
  "loaded_from listing = (case listing of Entries sds \<Rightarrow> {s. \<exists>sd \<in> set sds. sd_open sd = Inr s} | _ \<Rightarrow> {})"

definition loaded_offsets :: "rebuild_env \<Rightarrow> point_offset set" where
  "loaded_offsets env = (\<Union>s \<in> loaded_from (re_sealed env) \<union> loaded_from (re_warm env) \<union> loaded_from (re_cold env). set (seg_offsets s))"

lemma load_paths_from: "s \<in> snd ` set (fst (load_paths sds rep loaded)) \<Longrightarrow> s \<in> snd ` set loaded \<or> (\<exists>sd \<in> set sds. sd_open sd = Inr s)"
proof (induction sds arbitrary: rep loaded)
  case (Cons sd sds)
  show ?case
  proof (cases "sd_manifest sd \<and> (\<exists>s. sd_open sd = Inr s)")
    case True
    then obtain s' where "sd_manifest sd" "sd_open sd = Inr s'" by blast
    then show ?thesis using Cons.IH [of rep "loaded @ [(sd, s')]"] Cons.prems by auto
  next
    case False
    then obtain rep' where "load_paths (sd # sds) rep loaded = load_paths sds rep' loaded" by (cases "sd_manifest sd"; cases "sd_open sd") (metis load_paths.simps(2) sum.case(1) | simp)+
    then show ?thesis using Cons.IH [of rep' loaded] Cons.prems by auto
  qed
qed simp

lemma load_dirs_from:
  assumes "load_segment_dirs listing rep = Inr (xs, rep1)"
  shows "snd ` set xs \<subseteq> loaded_from listing"
proof (cases listing)
  case (Entries sds)
  then have "fst (load_paths (sort_key sd_path sds) rep []) = xs" using assms by (simp add: load_segment_dirs_def)
  then show ?thesis using load_paths_from [of _ "sort_key sd_path sds" rep "[]"] Entries by (auto simp: loaded_from_def)
qed (use assms in \<open>simp_all add: load_segment_dirs_def\<close>)

lemma keep_warm_sub: "set (fst (keep_warm cold xs rep)) \<subseteq> snd ` set xs"
proof (induction xs arbitrary: rep)
  case (Cons x xs)
  obtain sd s where x: "x = (sd, s)" by fastforce
  show ?case using Cons.IH [of rep] Cons.IH [of "remove_superseded_dir sd rep"] x
    by (cases "keep_warm cold xs rep") auto
qed simp

lemma keep_sealed_ok:
  "keep_sealed hot xs rep = (ss, hot1, rep1) \<Longrightarrow> set ss \<subseteq> snd ` set xs \<and> hot1 = hot \<union> (\<Union>s \<in> set ss. set (seg_offsets s))"
proof (induction xs arbitrary: hot rep ss hot1 rep1)
  case (Cons x xs)
  obtain sd s where x: "x = (sd, s)" by fastforce
  show ?case
  proof (cases "\<forall>off \<in> set (seg_offsets s). off \<in> hot")
    case True
    then show ?thesis using Cons.IH [of hot "remove_superseded_dir sd rep"] Cons.prems x by auto
  next
    case False
    obtain ss' h' rep' where k: "keep_sealed (hot \<union> set (seg_offsets s)) xs rep = (ss', h', rep')" by (metis surj_pair)
    then have "ss = s # ss'" "hot1 = h'" using Cons.prems False x by (simp_all only: keep_sealed.simps) simp_all
    then show ?thesis using Cons.IH [OF k] x by auto
  qed
qed simp

lemma fold_add_segments:
  assumes "holder_inv h" "\<And>s h. holder_inv h \<Longrightarrow> holder_inv (f s h) \<and> listed (f s h) = set (seg_offsets s) \<union> listed h \<and> sh_config (f s h) = sh_config h"
  shows "holder_inv (fold f ss h) \<and> listed (fold f ss h) = (\<Union>s \<in> set ss. set (seg_offsets s)) \<union> listed h \<and> sh_config (fold f ss h) = sh_config h"
  using assms(1)
proof (induction ss arbitrary: h)
  case (Cons s ss)
  then show ?case using Cons.IH [of "f s h"] assms(2) [of h s] by auto
qed simp

lemma add_one_segment:
  assumes "holder_inv h"
  shows "holder_inv (add_sealed_hot s h) \<and> listed (add_sealed_hot s h) = set (seg_offsets s) \<union> listed h \<and> sh_config (add_sealed_hot s h) = sh_config h"
    "holder_inv (add_warm s h) \<and> listed (add_warm s h) = set (seg_offsets s) \<union> listed h \<and> sh_config (add_warm s h) = sh_config h"
    "holder_inv (add_cold s h) \<and> listed (add_cold s h) = set (seg_offsets s) \<union> listed h \<and> sh_config (add_cold s h) = sh_config h"
proof -
  have "holder_wf h" using assms by (simp add: holder_inv_def holder_ok_def)
  note a = add_covers [OF this] store_grows_inv [OF assms]
  then show "holder_inv (add_sealed_hot s h) \<and> listed (add_sealed_hot s h) = set (seg_offsets s) \<union> listed h \<and> sh_config (add_sealed_hot s h) = sh_config h"
    "holder_inv (add_warm s h) \<and> listed (add_warm s h) = set (seg_offsets s) \<union> listed h \<and> sh_config (add_warm s h) = sh_config h"
    "holder_inv (add_cold s h) \<and> listed (add_cold s h) = set (seg_offsets s) \<union> listed h \<and> sh_config (add_cold s h) = sh_config h"
    by (simp_all add: store_grows_def)
qed

lemma add_all_segments:
  assumes "holder_inv h" "h' = fold add_cold cs (fold add_warm ws (fold add_sealed_hot ss h))"
  shows "holder_inv h'" "sh_config h' = sh_config h"
    "listed h' = (\<Union>s \<in> set cs. set (seg_offsets s)) \<union> (\<Union>s \<in> set ws. set (seg_offsets s)) \<union> (\<Union>s \<in> set ss. set (seg_offsets s)) \<union> listed h"
proof -
  note s = fold_add_segments [of h add_sealed_hot ss, OF assms(1) add_one_segment(1)]
  note w = fold_add_segments [of "fold add_sealed_hot ss h" add_warm ws, OF _ add_one_segment(2)]
  note c = fold_add_segments [of "fold add_warm ws (fold add_sealed_hot ss h)" add_cold cs, OF _ add_one_segment(3)]
  show "holder_inv h'" "sh_config h' = sh_config h"
    "listed h' = (\<Union>s \<in> set cs. set (seg_offsets s)) \<union> (\<Union>s \<in> set ws. set (seg_offsets s)) \<union> (\<Union>s \<in> set ss. set (seg_offsets s)) \<union> listed h"
    using s w c assms(2) by auto
qed

text \<open>The rebuilt holder lists every record and nothing but records and loaded offsets.\<close>

lemma from_records_loop_only:
  "holder_inv h \<Longrightarrow> from_records_loop rs sealed h = (r, h') \<Longrightarrow> listed h' \<subseteq> listed h \<union> fst ` set rs"
proof (induction rs arbitrary: h)
  case (Cons x rs)
  obtain off rec where x: "x = (off, rec)" by fastforce
  obtain q h1 where q: "holder_insert off rec h = (q, h1)" by fastforce
  have i: "holder_inv h1" "listed h1 \<subseteq> insert off (listed h)"
    using holder_insert_ok [OF _ _ q] Cons.prems(1) by (auto simp: holder_inv_def split: sum.splits)
  have s: "holder_inv (seal_hot h1) \<and> listed (seal_hot h1) = listed h1"
    using seal_hot_ok [of h1] i(1) by (auto simp: holder_inv_def)
  show ?case
  proof (cases "off \<in> sealed")
    case True
    then show ?thesis using Cons x by auto
  next
    case False
    show ?thesis
    proof (cases q)
      case (Inr full)
      then have "from_records_loop rs sealed (if full then seal_hot h1 else h1) = (r, h')" using Cons.prems(2) False q x by simp
      then show ?thesis using Cons.IH [of "if full then seal_hot h1 else h1"] i s x by (auto split: if_splits)
    qed (use Cons.prems(2) False q x i in auto)
  qed
qed simp

lemma load_segments_ok:
  assumes "load_segments c env rs rep = Inr (h, rep')"
  shows "holder_inv h" "sh_config h = st_segments c" "fst ` set rs \<subseteq> listed h" "listed h \<subseteq> fst ` set rs \<union> loaded_offsets env"
proof -
  obtain sl r1 wl r2 cl r3 where l: "load_segment_dirs (re_sealed env) rep = Inr (sl, r1)"
      "load_segment_dirs (re_warm env) r1 = Inr (wl, r2)" "load_segment_dirs (re_cold env) r2 = Inr (cl, r3)"
    using assms by (auto simp: load_segments_def result_iff)
  let ?co = "\<Union>s \<in> set (map snd cl). set (seg_offsets s)"
  obtain ws r4 where w: "keep_warm ?co wl r3 = (ws, r4)" by fastforce
  obtain ss ho r5 where k: "keep_sealed {} (sealed_order sl) r4 = (ss, ho, r5)" by (metis surj_pair)
  let ?so = "?co \<union> (\<Union>s \<in> set ws. set (seg_offsets s)) \<union> ho"
  obtain q h0 where f: "from_records (st_segments c) (re_names env) rs ?so = (q, h0)" by fastforce
  have e: "load_segments c env rs rep = (case (q, h0) of (Inl er, h) \<Rightarrow> Inl er
      | (Inr _, h) \<Rightarrow> Inr (fold add_cold (map snd cl) (fold add_warm ws (fold add_sealed_hot ss h)), r5))"
    by (simp only: load_segments_def l rbind_simps prod.case Let_def w k f)
  have q: "q = Inr ()" and h: "h = fold add_cold (map snd cl) (fold add_warm ws (fold add_sealed_hot ss h0))"
    using assms unfolding e by (cases q; simp)+
  have n: "holder_inv h0" "sh_config h0 = st_segments c" "fst ` set rs - ?so \<subseteq> listed h0" "listed h0 \<subseteq> fst ` set rs"
    using from_records_loop_ok [OF holder_new_inv(1) f [unfolded from_records_def]]
      from_records_loop_only [OF holder_new_inv(1) f [unfolded from_records_def]] q holder_new_inv(2,3) by auto
  note a = add_all_segments [OF n(1) h]
  have ks: "set ss \<subseteq> snd ` set sl" "ho = (\<Union>s \<in> set ss. set (seg_offsets s))"
    using keep_sealed_ok [OF k] by (auto simp: sealed_order_def)
  have ls: "listed h = ?so \<union> listed h0" using a(3) ks(2) by auto
  have "set ws \<subseteq> snd ` set wl" using keep_warm_sub [of ?co wl r3] w by simp
  then have "set ws \<subseteq> loaded_from (re_warm env)" "set ss \<subseteq> loaded_from (re_sealed env)" "set (map snd cl) \<subseteq> loaded_from (re_cold env)"
    using ks(1) load_dirs_from [OF l(1)] load_dirs_from [OF l(2)] load_dirs_from [OF l(3)] by auto
  then have "?so \<subseteq> loaded_offsets env" unfolding loaded_offsets_def ks(2) by (intro Un_least UN_mono UN_least) blast+
  then show "holder_inv h" "sh_config h = st_segments c" "fst ` set rs \<subseteq> listed h" "listed h \<subseteq> fst ` set rs \<union> loaded_offsets env"
    using a(1,2) n ls by auto
qed

section \<open>The opened engine\<close>

lemma map_of_dom: "map_of rs off \<noteq> None \<longleftrightarrow> off \<in> fst ` set rs"
  by (simp add: map_of_eq_None_iff)

lemma length_bytes_vec: "length (bytes_vec bs) = length bs div 4"
  by (induction bs rule: bytes_vec.induct) simp_all

lemma vs_get_live: "vs_wf crc vs \<Longrightarrow> vs_mapped vs \<Longrightarrow> unat off < vs_count vs \<Longrightarrow> \<exists>v. vs_get vs off = Some v \<and> length v = vs_dim vs"
proof -
  assume a: "vs_wf crc vs" "vs_mapped vs" "unat off < vs_count vs"
  then have ok: "vs_ok crc vs" by (simp add: vs_ok_wf)
  then have "unat off < vs_slots vs" using a(3) by (simp add: vs_ok_def)
  from slot_bytes_Some [OF ok this] obtain bs where "slot_bytes vs (unat off) = Some bs" "length bs = 4 * vs_dim vs" by blast
  then show ?thesis using a by (simp add: vs_get_def Let_def slot_bytes_def length_bytes_vec)
qed

lemma unique_ids_view: "unique_ids (rec_view ms) \<longleftrightarrow> unique_ids (fmlookup (ms_records ms))"
  by (auto simp: unique_ids_def rec_view_def)

lemma rebuild_form:
  assumes "rebuild_engine L c env (ms, vs, w, rep) = Inr e"
  obtains rep0 h rep1 where "load_segments c env (records_vec vs (meta_records env ms)) rep0 = Inr (h, rep1)"
    "en_meta e = ms" "en_vectors e = vs" "en_wal e = w" "en_segments e = h" "en_sync_writes e = st_sync_writes c"
    "en_id_index e = collect_ids (records_vec vs (meta_records env ms))"
    "en_payload_index e = from_meta_records_iter (el_json L) (meta_records env ms)" "en_scope_index e = rebuild_scopes (meta_records env ms)"
proof -
  let ?rv = "records_vec vs (meta_records env ms)"
  obtain g n where g: "rebuild_graph L (re_stale_order env) ?rv (saved_graph_bytes ms) (st_spreading c) = (g, n)" by fastforce
  from assms obtain ti where ti: "rebuild_text env (meta_records env ms) = Inr ti"
    by (cases "rebuild_text env (meta_records env ms)") (simp_all add: rebuild_engine_def Let_def)
  from assms obtain h rep1 where h: "load_segments c env ?rv (rep\<lparr>rr_graph_nodes_pruned := rr_graph_nodes_pruned rep + n\<rparr>) = Inr (h, rep1)"
    by (cases "load_segments c env ?rv (rep\<lparr>rr_graph_nodes_pruned := rr_graph_nodes_pruned rep + n\<rparr>)") (auto simp: rebuild_engine_def Let_def ti g)
  show thesis using that [OF h] assms by (auto simp: rebuild_engine_def Let_def ti g h)
qed

lemma rebuild_inv:
  assumes dur: "dur_inv (el_wal L) (el_codec L) ms vs w R" and m: "vs_mapped vs" and o: "orders_ok env" and u: "unique_ids R"
    and seg: "\<forall>off \<in> loaded_offsets env. unat off < vs_count vs"
    and run: "rebuild_engine L c env (ms, vs, w, rep) = Inr e"
  shows "eng_inv L {} e" "en_meta e = ms" "en_vectors e = vs" "en_wal e = w" "sh_config (en_segments e) = st_segments c" "en_sync_writes e = st_sync_writes c"
proof -
  let ?rs = "meta_records env ms" and ?rv = "records_vec vs (meta_records env ms)"
  note f = dur_inv_facts [OF dur] and mr = meta_records_ok [OF o, of ms]
  obtain rep0 h rep1 where h: "load_segments c env ?rv rep0 = Inr (h, rep1)"
    and e: "en_meta e = ms" "en_vectors e = vs" "en_wal e = w" "en_segments e = h" "en_sync_writes e = st_sync_writes c" "en_id_index e = collect_ids ?rv"
      "en_payload_index e = from_meta_records_iter (el_json L) ?rs" "en_scope_index e = rebuild_scopes ?rs"
    by (rule rebuild_form [OF run])
  have live: "unat off < vs_count vs \<and> off < ms_next_offset ms" if "off \<in> fst ` set ?rs" for off
    using that f(7) [of off] mr(2) map_of_dom [of ?rs off] by (simp add: f(5) [symmetric] rec_view_def)
  have got: "vs_get vs off \<noteq> None" if "off \<in> fst ` set ?rs" for off using vs_get_live [OF f(1) m] live [OF that] by fastforce
  have un: "unique_ids (map_of ?rs)" using u f(5) mr(2) unique_ids_view by metis
  note ids = rebuilt_ids [OF mr(1) un got]
  have "unat off < 2 ^ 32" if "small ms" "off \<in> fst ` set ?rs" for off
    using that live by (auto simp: small_def word_less_nat_alt dest!: live)
  then have "small ms \<longrightarrow> keys_for (el_json L) (map_of ?rs) (from_meta_records_iter (el_json L) ?rs) (rebuild_scopes ?rs)"
    using rebuilt_keys [OF mr(1)] by blast
  then have "eng_idx L e" using ids(1) mr(2) e by (simp add: eng_idx_def)
  moreover have "eng_dur L e" using dur f(5) e by (simp add: eng_dur_def)
  moreover have "eng_seg {} e"
  proof -
    note ls = load_segments_ok [OF h]
    have "off \<in> listed h" if "en_records e off \<noteq> None" for off
      using that ls(3) ids(2) mr(2) map_of_dom [of ?rs off] e(1) by auto
    moreover have "unat off < vs_count vs" if "off \<in> listed h" for off
    proof -
      have "off \<in> fst ` set ?rs \<or> off \<in> loaded_offsets env" using that ls(4) ids(2) by blast
      then show ?thesis using live [of off] seg by blast
    qed
    ultimately show ?thesis using ls(1) e by (simp add: eng_seg_def)
  qed
  ultimately show "eng_inv L {} e" by (simp add: eng_inv_def)
  show "en_meta e = ms" "en_vectors e = vs" "en_wal e = w" "sh_config (en_segments e) = st_segments c" "en_sync_writes e = st_sync_writes c"
    using e load_segments_ok(2) [OF h] by simp_all
qed

definition engine_disk :: "engine \<Rightarrow> disk" where
  "engine_disk e = disk_of (en_meta e) (en_vectors e) (en_wal e)"

abbreviation st_disk_inv :: "engine_lib \<Rightarrow> store_config \<Rightarrow> disk \<Rightarrow> (point_offset \<rightharpoonup> meta_record) \<Rightarrow> bool" where
  "st_disk_inv L c D R \<equiv> disk_inv (el_wal L) (el_codec L) (cfg_dimension (st_segments c)) (st_initial_capacity c) D R"

text \<open>What is needed of the segment directories: the segments hold offsets whose vectors are stored.\<close>

definition segs_stored :: "rebuild_env \<Rightarrow> engine result \<Rightarrow> bool" where
  "segs_stored env r \<longleftrightarrow> (\<forall>e. r = Inr e \<longrightarrow> (\<forall>off \<in> loaded_offsets env. unat off < vs_count (en_vectors e)))"

lemma engine_open_ok:
  assumes "st_disk_inv L c D R" "engine_open L c oenv renv D = (r, D')" "\<not> torn_clear (oe_clear oenv)" "orders_ok renv" "unique_ids R" "segs_stored renv r"
  shows "st_disk_inv L c D' R"
    "r = Inr e \<Longrightarrow> eng_inv L {} e \<and> rec_view (en_meta e) = R \<and> vs_mapped (en_vectors e) \<and> D' = engine_disk e \<and>
       vs_dim (en_vectors e) = cfg_dimension (st_segments c) \<and> sh_config (en_segments e) = st_segments c \<and> en_sync_writes e = st_sync_writes c \<and>
       (\<forall>s off. vs_open (crc32 (el_wal L)) (dk_vec D) (cfg_dimension (st_segments c)) (st_initial_capacity c) = Inr s \<longrightarrow>
          R off \<noteq> None \<longrightarrow> slot_bytes (en_vectors e) (unat off) = slot_bytes s (unat off))"
    "vs_open (crc32 (el_wal L)) (dk_vec D) (cfg_dimension (st_segments c)) (st_initial_capacity c) = Inr s \<Longrightarrow>
     vs_open (crc32 (el_wal L)) (dk_vec D') (cfg_dimension (st_segments c)) (st_initial_capacity c) = Inr s' \<Longrightarrow>
     R off \<noteq> None \<Longrightarrow> slot_bytes s' (unat off) = slot_bytes s (unat off)"
proof -
  let ?d = "cfg_dimension (st_segments c)"
  obtain q D1 where q: "open_durable (el_wal L) (el_codec L) [] ?d (st_initial_capacity c) oenv D = (q, D1)" by fastforce
  note od = open_durable_ok [OF assms(1) q assms(3)]
  have ok: "D' = D \<or> D' = D1" using assms(2) q by (auto simp: engine_open_def split: sum.splits)
  then show "st_disk_inv L c D' R" using assms(1) od(1) by auto
  show "slot_bytes s' (unat off) = slot_bytes s (unat off)"
    if "vs_open (crc32 (el_wal L)) (dk_vec D) ?d (st_initial_capacity c) = Inr s" "vs_open (crc32 (el_wal L)) (dk_vec D') ?d (st_initial_capacity c) = Inr s'"
      "R off \<noteq> None" using ok od(4) that by auto
  show "eng_inv L {} e \<and> rec_view (en_meta e) = R \<and> vs_mapped (en_vectors e) \<and> D' = engine_disk e \<and>
       vs_dim (en_vectors e) = ?d \<and> sh_config (en_segments e) = st_segments c \<and> en_sync_writes e = st_sync_writes c \<and>
       (\<forall>s off. vs_open (crc32 (el_wal L)) (dk_vec D) ?d (st_initial_capacity c) = Inr s \<longrightarrow>
          R off \<noteq> None \<longrightarrow> slot_bytes (en_vectors e) (unat off) = slot_bytes s (unat off))" if r: "r = Inr e"
  proof -
    obtain ms vs w rep where x: "q = Inr (ms, vs, w, rep)" "rebuild_engine L c renv (ms, vs, w, rep) = Inr e" "D' = D1"
      using assms(2) q r by (cases q; cases "check_quantizers c") (auto simp: engine_open_def split: prod.splits)
    have o: "dur_inv (el_wal L) (el_codec L) ms vs w R" "vs_mapped vs" "vs_dim vs = ?d" "D1 = disk_of ms vs w"
      "\<forall>s off. vs_open (crc32 (el_wal L)) (dk_vec D) ?d (st_initial_capacity c) = Inr s \<longrightarrow> R off \<noteq> None \<longrightarrow> slot_bytes vs (unat off) = slot_bytes s (unat off)"
      using od(2) [OF x(1)] by blast+
    have v: "en_vectors e = vs" by (rule rebuild_form [OF x(2)])
    have s: "\<forall>off \<in> loaded_offsets renv. unat off < vs_count vs" using assms(6) r v by (simp add: segs_stored_def)
    note rb = rebuild_inv [OF o(1,2) assms(4,5) s x(2)]
    show ?thesis using rb o x(3) dur_inv_facts(5) [OF o(1)] by (simp add: engine_disk_def)
  qed
qed

text \<open>When no file operation fails the open succeeds, unless it finds vectors and no records.\<close>

definition good_rebuild :: "rebuild_env \<Rightarrow> bool" where
  "good_rebuild env \<longleftrightarrow> re_text_open env \<noteq> TextOpenFails \<and> (\<forall>i. \<not> re_text_refused env i) \<and> re_text_commit env = CommitOk \<and>
     re_sealed env \<noteq> ReadDirFails \<and> re_warm env \<noteq> ReadDirFails \<and> re_cold env \<noteq> ReadDirFails"

lemma add_texts_succeeds: "(\<And>i. \<not> refused i) \<Longrightarrow> \<exists>x'. add_texts refused i rs x = Inr x'"
  by (induction rs arbitrary: i x) (auto simp: ti_add_def ti_add_batch_def Let_def)

lemma rebuild_text_succeeds:
  assumes "good_rebuild env"
  shows "\<exists>ti. rebuild_text env rs = Inr ti"
proof -
  obtain x where x: "ti_open (re_text_open env) (re_text_old env) = Inr x"
    using assms by (cases "re_text_open env") (auto simp: good_rebuild_def ti_open_def)
  obtain x1 where "add_texts (re_text_refused env) 0 rs x = Inr x1" using add_texts_succeeds assms unfolding good_rebuild_def by blast
  then show ?thesis using assms x by (simp add: rebuild_text_def good_rebuild_def ti_commit_def)
qed

lemma load_dirs_succeeds: "listing \<noteq> ReadDirFails \<Longrightarrow> \<exists>xs rep1. load_segment_dirs listing rep = Inr (xs, rep1)"
  by (cases listing) (auto simp: load_segment_dirs_def)

lemma from_records_succeeds:
  "holder_inv h \<Longrightarrow> \<forall>(off, r) \<in> set rs. length (r_embedding r) = cfg_dimension (sh_config h) \<Longrightarrow> fst (from_records_loop rs sealed h) = Inr ()"
proof (induction rs arbitrary: h)
  case (Cons x rs)
  obtain off rec where x: "x = (off, rec)" by fastforce
  obtain q h1 where q: "holder_insert off rec h = (q, h1)" by fastforce
  have "hs_dim (the_hot h) = length (r_embedding rec)" using Cons.prems x by (simp add: holder_inv_def hot_mirror_def)
  then obtain full where full: "q = Inr full" using q by (simp add: holder_insert_def hot_insert_def validate_dimension_def) metis
  have i: "holder_inv h1" "sh_config h1 = sh_config h"
    using holder_insert_ok [OF _ _ q] Cons.prems(1) by (auto simp: holder_inv_def split: sum.splits)
  have s: "holder_inv (seal_hot h1) \<and> sh_config (seal_hot h1) = sh_config h"
    using seal_hot_ok [of h1] i by (auto simp: holder_inv_def)
  show ?case using Cons.IH [of h] Cons.IH [of "if full then seal_hot h1 else h1"] Cons.prems i s q full x by auto
qed simp

lemma load_segments_succeeds:
  assumes "good_rebuild env" "\<forall>(off, r) \<in> set rs. length (r_embedding r) = cfg_dimension (st_segments c)"
  shows "\<exists>x. load_segments c env rs rep = Inr x"
proof -
  obtain sl r1 where 1: "load_segment_dirs (re_sealed env) rep = Inr (sl, r1)" using load_dirs_succeeds assms(1) by (meson good_rebuild_def)
  obtain wl r2 where 2: "load_segment_dirs (re_warm env) r1 = Inr (wl, r2)" using load_dirs_succeeds assms(1) by (meson good_rebuild_def)
  obtain cl r3 where 3: "load_segment_dirs (re_cold env) r2 = Inr (cl, r3)" using load_dirs_succeeds assms(1) by (meson good_rebuild_def)
  let ?co = "\<Union>s \<in> set (map snd cl). set (seg_offsets s)"
  obtain ws r4 where w: "keep_warm ?co wl r3 = (ws, r4)" by fastforce
  obtain ss ho r5 where k: "keep_sealed {} (sealed_order sl) r4 = (ss, ho, r5)" by (metis surj_pair)
  obtain q h0 where f: "from_records (st_segments c) (re_names env) rs (?co \<union> (\<Union>s \<in> set ws. set (seg_offsets s)) \<union> ho) = (q, h0)" by fastforce
  have "q = Inr ()"
    using from_records_succeeds [OF holder_new_inv(1), of rs "st_segments c" "re_names env"] assms(2) f
    by (metis fst_conv from_records_def holder_new_inv(3))
  then show ?thesis by (simp only: load_segments_def 1 2 3 rbind_simps prod.case Let_def w k f) simp
qed

lemma rebuild_succeeds:
  assumes "good_rebuild env" "vs_wf crc vs" "vs_mapped vs" "vs_dim vs = cfg_dimension (st_segments c)"
  shows "\<exists>e. rebuild_engine L c env (ms, vs, w, rep) = Inr e"
proof -
  let ?rv = "records_vec vs (meta_records env ms)"
  obtain g n where g: "rebuild_graph L (re_stale_order env) ?rv (saved_graph_bytes ms) (st_spreading c) = (g, n)" by fastforce
  obtain ti where ti: "rebuild_text env (meta_records env ms) = Inr ti" using rebuild_text_succeeds [OF assms(1)] by blast
  have "length v = vs_dim vs" if "vs_get vs off = Some v" for v off
  proof -
    have "unat off < vs_count vs" using that by (simp add: vs_get_def Let_def split: if_splits)
    then show ?thesis using vs_get_live [OF assms(2,3)] that by fastforce
  qed
  then have "\<forall>(off, r) \<in> set ?rv. length (r_embedding r) = cfg_dimension (st_segments c)"
    unfolding set_records_vec using assms(4) by auto
  from load_segments_succeeds [OF assms(1) this] obtain h rep1 where
    "load_segments c env ?rv (rep\<lparr>rr_graph_nodes_pruned := rr_graph_nodes_pruned rep + n\<rparr>) = Inr (h, rep1)" by fastforce
  then show ?thesis by (simp add: rebuild_engine_def Let_def ti g)
qed

definition nothing_fails :: "engine_lib \<Rightarrow> store_config \<Rightarrow> open_env \<Rightarrow> rebuild_env \<Rightarrow> bool" where
  "nothing_fails L c oenv renv \<longleftrightarrow> good_open (el_codec L) oenv \<and> good_rebuild renv \<and> check_quantizers c = Inr ()"

lemma engine_open_succeeds:
  assumes "st_disk_inv L c D R" "nothing_fails L c oenv renv"
  shows "(\<exists>e D'. engine_open L c oenv renv D = (Inr e, D')) \<or> R = Map.empty \<and> fst (engine_open L c oenv renv D) = Inl no_records_error"
proof -
  obtain q D1 where q: "open_durable (el_wal L) (el_codec L) [] (cfg_dimension (st_segments c)) (st_initial_capacity c) oenv D = (q, D1)" by fastforce
  have g: "good_open (el_codec L) oenv" "good_rebuild renv" "check_quantizers c = Inr ()" using assms(2) by (simp_all add: nothing_fails_def)
  then have nt: "\<not> torn_clear (oe_clear oenv)" by (simp add: good_open_def torn_clear_def)
  note od = open_durable_ok [OF assms(1) q nt]
  consider (opened) ms vs w rep where "q = Inr (ms, vs, w, rep)" | (refused) "R = Map.empty" "q = Inl no_records_error"
    using od(3) [OF g(1)] by (metis surj_pair)
  then show ?thesis
  proof cases
    case opened
    have o: "vs_wf (crc32 (el_wal L)) vs" "vs_mapped vs" "vs_dim vs = cfg_dimension (st_segments c)"
      using od(2) [OF opened] dur_inv_facts(1) by blast+
    from rebuild_succeeds [OF g(2) o] show ?thesis using q opened g(3) by (auto simp: engine_open_def)
  qed (use q g(3) in \<open>auto simp: engine_open_def\<close>)
qed

end
