(* ===== verification/Engine_System.thy ===== *)
theory Engine_System
  imports Engine_Open
begin

text \<open>
  The engine as its callers see it: a map from ids to records with their vectors (\<open>stored\<close>) that
  inserts, updates and deletes change, that a kill of the process and a later open keep, and that
  every read agrees with. \<open>reach\<close> is the system over time: a process that opens the files, runs
  operations whose file operations may fail, and is killed at any point.
\<close>

section \<open>The contents of an engine\<close>

definition cell :: "engine \<Rightarrow> point_offset \<Rightarrow> (meta_record \<times> f32 list) option" where
  "cell e off = (case rec_view (en_meta e) off of None \<Rightarrow> None | Some m \<Rightarrow> map_option (Pair m) (vs_stored (en_vectors e) off))"

definition stored :: "engine \<Rightarrow> string \<Rightarrow> (meta_record \<times> f32 list) option" where
  "stored e i = Option.bind (fmlookup (en_id_index e) i) (cell e)"

lemma eng_dur_E: "eng_dur L e \<Longrightarrow> dur_inv (el_wal L) (el_codec L) (en_meta e) (en_vectors e) (en_wal e) (rec_view (en_meta e))"
  by (simp add: eng_dur_def)

lemma vs_stored_live: "vs_wf crc vs \<Longrightarrow> unat off < vs_count vs \<Longrightarrow> \<exists>v. vs_stored vs off = Some v"
  using vs_get_live [of crc "vs\<lparr>vs_mapped := True\<rparr>" off] by (auto simp: vs_stored_def vs_wf_def)

lemma cell_live:
  assumes "eng_dur L e"
  shows "rec_view (en_meta e) off = Some m \<longleftrightarrow> (\<exists>v. cell e off = Some (m, v))"
proof
  note f = dur_inv_facts [OF eng_dur_E [OF assms]]
  assume m: "rec_view (en_meta e) off = Some m"
  then have "unat off < vs_count (en_vectors e)" using f(7) [of off] by simp
  from vs_stored_live [OF f(1) this] show "\<exists>v. cell e off = Some (m, v)" using m by (auto simp: cell_def)
qed (auto simp: cell_def split: option.splits)

lemma id_of_live: "eng_idx L e \<Longrightarrow> rec_view (en_meta e) off = Some m \<Longrightarrow> fmlookup (en_id_index e) (m_id m) = Some off"
  by (auto simp: eng_idx_def ids_for_def rec_view_def)

text \<open>The map by ids is the map by offsets: the id index is exact.\<close>

lemma stored_iff:
  assumes "eng_dur L e" "eng_idx L e"
  shows "stored e i = Some (m, v) \<longleftrightarrow> (\<exists>off. cell e off = Some (m, v) \<and> m_id m = i)"
proof -
  have ids: "fmlookup (en_id_index e) i = Some off \<longleftrightarrow> (\<exists>m. rec_view (en_meta e) off = Some m \<and> m_id m = i)" for off
    using assms(2) by (auto simp: eng_idx_def ids_for_def rec_view_def)
  have "fmlookup (en_id_index e) i = Some off" if "cell e off = Some (m, v)" "m_id m = i" for off
    using ids cell_live [OF assms(1)] that by blast
  moreover have "m_id m = i" if "fmlookup (en_id_index e) i = Some off" "cell e off = Some (m, v)" for off
    using ids cell_live [OF assms(1)] that by (metis option.inject)
  ultimately show ?thesis by (auto simp: stored_def bind_eq_Some_conv)
qed

lemma stored_same:
  assumes "eng_dur L e" "eng_idx L e" "eng_dur L e'" "eng_idx L e'" "\<And>off. cell e' off = cell e off"
  shows "stored e' = stored e"
proof
  fix i show "stored e' i = stored e i"
    using stored_iff [OF assms(1,2), of i] stored_iff [OF assms(3,4), of i] assms(5) by (metis option.exhaust prod.exhaust)
qed

text \<open>Adding records under new ids.\<close>

definition entry_of :: "mem_record \<Rightarrow> meta_record \<times> f32 list" where
  "entry_of r = (core_meta (meta_of_record r), r_embedding r)"

lemma stored_add:
  assumes e: "eng_dur L e" "eng_idx L e" and e': "eng_dur L e'" "eng_idx L e'"
    and d: "distinct (map (r_id \<circ> snd) rs)"
    and new: "\<And>off x. (off, x) \<in> set rs \<Longrightarrow> cell e off = None \<and> cell e' off = Some (entry_of x)"
    and old: "\<And>off. off \<notin> fst ` set rs \<Longrightarrow> cell e' off = cell e off"
    and ids: "\<And>off x. (off, x) \<in> set rs \<Longrightarrow> fmlookup (en_id_index e) (r_id x) = None"
  shows "stored e' = stored e ++ map_of (map (\<lambda>(off, x). (r_id x, entry_of x)) rs)"
proof
  fix i
  have idm: "m_id (fst (entry_of x)) = r_id x" for x by (simp add: entry_of_def meta_of_record_def)
  have dd: "distinct (map fst (map (\<lambda>(off, x). (r_id x, entry_of x)) rs))" using d by (simp add: comp_def case_prod_beta)
  show "stored e' i = (stored e ++ map_of (map (\<lambda>(off, x). (r_id x, entry_of x)) rs)) i"
  proof (cases "\<exists>off x. (off, x) \<in> set rs \<and> r_id x = i")
    case True
    then obtain off x where x: "(off, x) \<in> set rs" "r_id x = i" by blast
    have "stored e' i = Some (entry_of x)"
      using stored_iff [OF e', of i "fst (entry_of x)" "snd (entry_of x)"] new [OF x(1)] idm x(2) by auto
    moreover have "map_of (map (\<lambda>(off, x). (r_id x, entry_of x)) rs) i = Some (entry_of x)"
      using x by (subst map_of_eq_Some_iff [OF dd]) force
    ultimately show ?thesis by simp
  next
    case False
    then have "map_of (map (\<lambda>(off, x). (r_id x, entry_of x)) rs) i = None" by (force simp: map_of_eq_None_iff)
    moreover have "stored e' i = stored e i"
    proof -
      have "(\<exists>off. cell e' off = Some (m, v) \<and> m_id m = i) \<longleftrightarrow> (\<exists>off. cell e off = Some (m, v) \<and> m_id m = i)" for m v
        using False new old idm by (metis (no_types, lifting) fst_conv imageE option.distinct(1) option.inject prod.collapse)
      then show ?thesis using stored_iff [OF e] stored_iff [OF e'] by (metis option.exhaust prod.exhaust)
    qed
    ultimately show ?thesis by (simp add: map_add_def)
  qed
qed

text \<open>Replacing the record of an id, and deleting it.\<close>

lemma stored_replace:
  assumes e: "eng_dur L e" "eng_idx L e" and e': "eng_dur L e'" "eng_idx L e'"
    and old: "fmlookup (en_id_index e) i = Some off" and rest: "\<And>o'. o' \<noteq> off \<Longrightarrow> o' \<noteq> new \<Longrightarrow> cell e' o' = cell e o'"
    and gone: "cell e' off = None" and c: "new \<noteq> off" "cell e new = None" "cell e' new = Some (entry_of x)" "r_id x = i"
  shows "stored e' = (stored e)(i \<mapsto> entry_of x)"
proof
  fix j
  have idm: "m_id (fst (entry_of x)) = i" using c(4) by (simp add: entry_of_def meta_of_record_def)
  obtain m v where mv: "cell e off = Some (m, v)" "m_id m = i"
    using old e cell_live [OF e(1), of off] by (force simp: eng_idx_def ids_for_def rec_view_def)
  show "stored e' j = ((stored e)(i \<mapsto> entry_of x)) j"
  proof (cases "j = i")
    case True
    then show ?thesis using stored_iff [OF e', of i "fst (entry_of x)" "snd (entry_of x)"] c(3) idm by auto
  next
    case False
    have "(\<exists>o'. cell e' o' = Some (n, u) \<and> m_id n = j) \<longleftrightarrow> (\<exists>o'. cell e o' = Some (n, u) \<and> m_id n = j)" for n u
      using False rest gone c idm mv by (metis fst_conv option.distinct(1) option.inject)
    then have "stored e' j = stored e j" using stored_iff [OF e] stored_iff [OF e'] by (metis option.exhaust prod.exhaust)
    then show ?thesis using False by simp
  qed
qed

lemma stored_delete:
  assumes e: "eng_dur L e" "eng_idx L e" and e': "eng_dur L e'" "eng_idx L e'"
    and old: "fmlookup (en_id_index e) i = Some off" and rest: "\<And>o'. o' \<noteq> off \<Longrightarrow> cell e' o' = cell e o'" and gone: "cell e' off = None"
  shows "stored e' = (stored e)(i := None)"
proof
  fix j
  obtain m v where mv: "cell e off = Some (m, v)" "m_id m = i"
    using old e cell_live [OF e(1), of off] by (force simp: eng_idx_def ids_for_def rec_view_def)
  have one: "o' = off" if "cell e o' = Some (n, u)" "m_id n = i" for o' n u
  proof -
    have "rec_view (en_meta e) o' = Some n" using cell_live [OF e(1)] that(1) by blast
    then have "fmlookup (en_id_index e) i = Some o'" using id_of_live [OF e(2)] that(2) by blast
    then show ?thesis using old by simp
  qed
  have "(\<exists>o'. cell e' o' = Some (n, u) \<and> m_id n = j) \<longleftrightarrow> j \<noteq> i \<and> (\<exists>o'. cell e o' = Some (n, u) \<and> m_id n = j)" for n u
    using rest gone mv one by (metis option.distinct(1) option.inject prod.inject)
  then show "stored e' j = ((stored e)(i := None)) j"
    using stored_iff [OF e, of j] stored_iff [OF e', of j] by (cases "j = i") (metis fun_upd_apply option.exhaust prod.exhaust)+
qed

section \<open>What the operations do to the contents\<close>

lemma stored_frame:
  assumes "vs_wf crc vs" "vs_frame crc A vs vs'" "unat off < vs_count vs" "off \<notin> A"
  shows "vs_stored vs' off = vs_stored vs off"
proof -
  have "vs_wf crc vs'" "unat off < vs_count vs'" "slot_bytes vs' (unat off) = slot_bytes vs (unat off)"
    using assms(2-4) by (auto simp: vs_frame_def)
  then show ?thesis using vs_stored_slot [OF assms(1)] vs_stored_slot [of crc vs'] assms(3) by simp
qed

lemma cell_frame:
  assumes "eng_dur L e" "vs_frame (crc32 (el_wal L)) A (en_vectors e) (en_vectors e')" "off \<notin> A"
    and "rec_view (en_meta e') off = rec_view (en_meta e) off"
  shows "cell e' off = cell e off"
proof (cases "rec_view (en_meta e) off")
  case (Some m)
  note f = dur_inv_facts [OF eng_dur_E [OF assms(1)]]
  have "unat off < vs_count (en_vectors e)" using f(7) [of off] Some by simp
  from stored_frame [OF f(1) assms(2) this assms(3)] show ?thesis using assms(4) Some by (simp add: cell_def)
qed (use assms(4) in \<open>simp add: cell_def\<close>)

lemma commit_effect:
  assumes dur: "eng_dur L e" and num: "numbered (en_meta e) ms rs" and ms: "ms_records ms = ms_records (en_meta e)"
    and run: "commit_path L env rs ops pre ms e = (r, e')" and sync: "\<not> en_sync_writes e \<or> we_fsync_ok env"
    and pre: "\<And>x. en_vectors (pre x) = en_vectors x"
  shows "vs_frame (crc32 (el_wal L)) (fst ` set rs) (en_vectors e) (en_vectors e')"
    and "(\<exists>er. r = Inl er) \<and> rec_view (en_meta e') = rec_view (en_meta e) \<or>
      (\<exists>vs w. en_meta e' = put_batch rs (en_meta (pre (e\<lparr>en_meta := ms, en_vectors := vs, en_wal := w\<rparr>))) \<and>
         (\<forall>off x. (off, x) \<in> set rs \<longrightarrow> vs_stored (en_vectors e') off = Some (r_embedding x)))"
proof -
  note f = dur_inv_facts [OF eng_dur_E [OF dur]]
  obtain rv vs where v: "put_vectors (crc32 (el_wal L)) (we_grow env) 0 rs (en_vectors e) = (rv, vs)" by fastforce
  have ne: "off \<noteq> - 1" if "off \<in> fst ` set rs" for off
  proof -
    note th = that
    obtain x where "(off, x) \<in> set rs" using th by force
    then have "off < ms_next_offset ms" using num unfolding numbered_def by blast
    then show ?thesis by (rule less_not_max)
  qed
  note fr = put_vectors_frame [OF v f(1,2) ne]
  have wf: "vs_wf (crc32 (el_wal L)) vs" using fr(1) by (simp add: vs_frame_def)
  have "vs_frame (crc32 (el_wal L)) (fst ` set rs) (en_vectors e) (en_vectors e') \<and>
     ((\<exists>er. r = Inl er) \<and> rec_view (en_meta e') = rec_view (en_meta e) \<or>
      (\<exists>vs w. en_meta e' = put_batch rs (en_meta (pre (e\<lparr>en_meta := ms, en_vectors := vs, en_wal := w\<rparr>))) \<and>
         (\<forall>off x. (off, x) \<in> set rs \<longrightarrow> vs_stored (en_vectors e') off = Some (r_embedding x))))"
  proof (cases rule: commit_cases [OF run f(3) sync v])
    case (1 er)
    then show ?thesis using fr(1) ms by (simp add: rec_view_def fun_eq_iff)
  next
    case (2 w)
    note ab = apply_batch_frame [OF 2(3)]
    have vs: "en_vectors e' = vs" using ab(1) pre by simp
    have "vs_stored vs off = Some (r_embedding x)" if "(off, x) \<in> set rs" for off x
      using fr(2) [OF _ 2(1) _ that] num vs_stored_slot [OF wf, of off] by (simp add: numbered_def)
    then show ?thesis using fr(1) vs ab(3) by blast
  qed
  then show "vs_frame (crc32 (el_wal L)) (fst ` set rs) (en_vectors e) (en_vectors e')"
    and "(\<exists>er. r = Inl er) \<and> rec_view (en_meta e') = rec_view (en_meta e) \<or>
      (\<exists>vs w. en_meta e' = put_batch rs (en_meta (pre (e\<lparr>en_meta := ms, en_vectors := vs, en_wal := w\<rparr>))) \<and>
         (\<forall>off x. (off, x) \<in> set rs \<longrightarrow> vs_stored (en_vectors e') off = Some (r_embedding x)))" by blast+
qed

lemma put_batch_view:
  "rec_view (put_batch rs ms) off = (case map_of (rev rs) off of Some x \<Rightarrow> Some (core_meta (meta_of_record x)) | None \<Rightarrow> rec_view ms off)"
proof -
  have "add_all rs M off = (case map_of (rev rs) off of Some x \<Rightarrow> Some (meta_of_record x) | None \<Rightarrow> M off)" for M
    by (induction rs arbitrary: M) (auto simp: map_add_def split: option.splits)
  then show ?thesis unfolding rec_view_def put_batch_records by (simp split: option.split)
qed

lemma map_of_rev_distinct: "distinct (map fst rs) \<Longrightarrow> map_of (rev rs) off = Some x \<longleftrightarrow> (off, x) \<in> set rs"
  using map_of_eq_Some_iff [of "rev rs" off x] by (simp add: rev_map [symmetric])

text \<open>A commit of new records under new ids.\<close>

lemma commit_inserts_effect:
  assumes inv: "eng_inv L lost e" "eng_inv L lost' e'" and num: "numbered (en_meta e) ms rs" and ms: "ms_records ms = ms_records (en_meta e)"
    and run: "commit_path L env rs ops (\<lambda>e. e) ms e = (r, e')" and sync: "\<not> en_sync_writes e \<or> we_fsync_ok env"
    and ids: "distinct (map (r_id \<circ> snd) rs)" "\<And>off x. (off, x) \<in> set rs \<Longrightarrow> fmlookup (en_id_index e) (r_id x) = None"
  shows "(\<exists>er. r = Inl er) \<and> stored e' = stored e \<or> stored e' = stored e ++ map_of (map (\<lambda>(off, x). (r_id x, entry_of x)) rs)"
proof -
  have i: "eng_dur L e" "eng_idx L e" "eng_dur L e'" "eng_idx L e'" using inv by (simp_all add: eng_inv_def)
  note ce = commit_effect [OF i(1) num ms run sync refl]
  have d: "distinct (map fst rs)" using num by (simp add: numbered_def)
  have fresh: "rec_view (en_meta e) off = None" if "off \<in> fst ` set rs" for off
  proof (rule ccontr)
    note th = that
    assume "rec_view (en_meta e) off \<noteq> None"
    then have "off < ms_next_offset (en_meta e)" using dur_inv_facts(7) [OF eng_dur_E [OF i(1)]] by blast
    moreover obtain x where "(off, x) \<in> set rs" using th by force
    then have "ms_next_offset (en_meta e) \<le> off" using num unfolding numbered_def by blast
    ultimately show False by simp
  qed
  show ?thesis
    using ce(2)
  proof
    assume c: "(\<exists>er. r = Inl er) \<and> rec_view (en_meta e') = rec_view (en_meta e)"
    have "cell e' off = cell e off" for off
      using cell_frame [OF i(1) ce(1), of off] c fresh [of off] by (cases "off \<in> fst ` set rs") (auto simp: cell_def)
    then show ?thesis using stored_same [OF i] c by blast
  next
    assume "\<exists>vs w. en_meta e' = put_batch rs (en_meta (e\<lparr>en_meta := ms, en_vectors := vs, en_wal := w\<rparr>)) \<and>
        (\<forall>off x. (off, x) \<in> set rs \<longrightarrow> vs_stored (en_vectors e') off = Some (r_embedding x))"
    then have m: "en_meta e' = put_batch rs ms" and v: "\<And>off x. (off, x) \<in> set rs \<Longrightarrow> vs_stored (en_vectors e') off = Some (r_embedding x)" by auto
    have view: "rec_view (en_meta e') off = (case map_of (rev rs) off of Some x \<Rightarrow> Some (core_meta (meta_of_record x)) | None \<Rightarrow> rec_view (en_meta e) off)" for off
      unfolding m put_batch_view ms_records_view [OF ms] ..
    have new: "cell e off = None \<and> cell e' off = Some (entry_of x)" if "(off, x) \<in> set rs" for off x
    proof -
      have "map_of (rev rs) off = Some x" using map_of_rev_distinct [OF d] that by blast
      moreover have "rec_view (en_meta e) off = None" using fresh that by force
      ultimately show ?thesis using view v [OF that] by (simp add: cell_def entry_of_def)
    qed
    have old: "cell e' off = cell e off" if "off \<notin> fst ` set rs" for off
    proof -
      have "map_of (rev rs) off = None" using that by (simp add: map_of_eq_None_iff)
      then show ?thesis using cell_frame [OF i(1) ce(1) that] view by simp
    qed
    have "stored e' = stored e ++ map_of (map (\<lambda>(off, x). (r_id x, entry_of x)) rs)"
      by (rule stored_add [OF i ids(1) new old ids(2)])
    then show ?thesis ..
  qed
qed

text \<open>An insert stores the prepared record under its id, or nothing.\<close>

lemma allocate_single:
  "allocate_records now [p] ms = ([(ms_next_offset ms, into_record (now 0) p (ms_next_seq ms))],
     ms\<lparr>ms_next_offset := ms_next_offset ms + 1, ms_next_seq := ms_next_seq ms + 1\<rparr>)"
  by (simp add: allocate_offset_def allocate_seq_def Let_def)

definition new_entry :: "write_env \<Rightarrow> prepared_record \<Rightarrow> engine \<Rightarrow> meta_record \<times> f32 list" where
  "new_entry env p e = entry_of (into_record (we_now env 0) p (ms_next_seq (en_meta e)))"

abbreviation prepare_in :: "engine_lib \<Rightarrow> engine \<Rightarrow> write_input \<Rightarrow> prepared_record result" where
  "prepare_in L e \<equiv> prepare L (en_dim e) (g_vocab (sa_graph (en_graph e)))"

abbreviation prepare_batch_in :: "engine_lib \<Rightarrow> engine \<Rightarrow> batch_input \<Rightarrow> prepared_record list result" where
  "prepare_batch_in L e b \<equiv> prepare_all L (en_dim e) (g_vocab (sa_graph (en_graph e))) (map (batch_item b) [0..<length (bi_ids b)]) {||} []"

lemma insert_effect:
  assumes inv: "eng_inv L lost e" and run: "insert_with_payload_role L env inp e = (r, e')" and rm: "room (en_meta e) 1"
    and sync: "\<not> en_sync_writes e \<or> we_fsync_ok env" and pay: "payload_agrees L inp"
  shows "(\<exists>er. r = Inl er) \<and> stored e' = stored e \<or>
      (\<exists>p. prepare_in L e inp = Inr p \<and> contains_id (wi_id inp) e = False \<and> stored e' = (stored e)(wi_id inp \<mapsto> new_entry env p e) \<and>
         (r = Inr True \<or> (\<exists>er. r = Inl er)))"
    "vs_dim (en_vectors e') = vs_dim (en_vectors e)"
proof -
  have "((\<exists>er. r = Inl er) \<and> stored e' = stored e \<or>
      (\<exists>p. prepare_in L e inp = Inr p \<and> contains_id (wi_id inp) e = False \<and> stored e' = (stored e)(wi_id inp \<mapsto> new_entry env p e) \<and>
         (r = Inr True \<or> (\<exists>er. r = Inl er)))) \<and> vs_dim (en_vectors e') = vs_dim (en_vectors e)"
  proof (cases "\<exists>p. prepare_in L e inp = Inr p \<and> wi_id inp |\<notin>| fmdom (en_id_index e)")
    case False
    then have "e' = e \<and> (\<exists>er. r = Inl er)" using run unfolding insert_as_commit by (cases "prepare_in L e inp") (auto split: if_splits)
    then show ?thesis by simp
  next
    case True
    then obtain p where p: "prepare_in L e inp = Inr p" "wi_id inp |\<notin>| fmdom (en_id_index e)" by blast
    note pr = prepare_Inr [OF p(1)]
    obtain rs ms where al: "allocate_records (we_now env) [p] (en_meta e) = (rs, ms)" by fastforce
    note a = allocate_ok [OF al, of "el_codec L"]
    have num: "numbered (en_meta e) ms rs" "ms_records ms = ms_records (en_meta e)" using a rm by simp_all
    have run1: "answer True (commit_path L env rs (map (insert_op L) rs) (\<lambda>e. e) ms e) = (r, e')"
      using run p al unfolding insert_as_commit by simp
    obtain q where c: "commit_path L env rs (map (insert_op L) rs) (\<lambda>e. e) ms e = (q, e')" and q: "r = (case q of Inl er \<Rightarrow> Inl er | Inr _ \<Rightarrow> Inr True)"
      using run1 by (cases "commit_path L env rs (map (insert_op L) rs) (\<lambda>e. e) ms e") (auto simp: answer_def split: sum.splits)
    have rs: "rs = [(ms_next_offset (en_meta e), into_record (we_now env 0) p (ms_next_seq (en_meta e)))]" using al unfolding allocate_single by simp
    have i: "r_id (into_record (we_now env 0) p sq) = wi_id inp" for sq using pr(1) by (simp add: into_record_def)
    have dur: "eng_dur L e" using inv by (simp add: eng_inv_def)
    have none: "fmlookup (en_id_index e) (wi_id inp) = None" using p(2) by (simp add: fmdom_notD)
    have ids: "distinct (map (r_id \<circ> snd) rs)" "\<And>off x. (off, x) \<in> set rs \<Longrightarrow> fmlookup (en_id_index e) (r_id x) = None"
      using none by (auto simp: rs i)
    note eff = commit_inserts_effect [OF inv insert_inv [OF inv run rm sync pay] num c sync ids]
    have "vs_dim (en_vectors e') = vs_dim (en_vectors e)"
      using commit_effect(1) [OF dur num c sync refl] by (simp add: vs_frame_def)
    then show ?thesis using eff q p none by (cases q) (auto simp: rs i new_entry_def contains_id_def)
  qed
  then show "(\<exists>er. r = Inl er) \<and> stored e' = stored e \<or>
      (\<exists>p. prepare_in L e inp = Inr p \<and> contains_id (wi_id inp) e = False \<and> stored e' = (stored e)(wi_id inp \<mapsto> new_entry env p e) \<and>
         (r = Inr True \<or> (\<exists>er. r = Inl er)))"
    "vs_dim (en_vectors e') = vs_dim (en_vectors e)" by blast+
qed

text \<open>A batch stores every record that is not there yet, or none.\<close>

definition batch_entries :: "write_env \<Rightarrow> prepared_record list \<Rightarrow> engine \<Rightarrow> (string \<times> meta_record \<times> f32 list) list" where
  "batch_entries env ps e =
     map (\<lambda>(off, x). (r_id x, entry_of x)) (fst (allocate_records (we_now env) (filter (\<lambda>p. \<not> contains_id (pr_id p) e) ps) (en_meta e)))"

lemma batch_run:
  assumes "insert_batch_with_payload_role L env b e = (r, e')"
  obtains (unchanged) "e' = e" "(\<exists>ps. prepare_batch_in L e b = Inr ps \<and> batch_entries env ps e = [] \<and> r = Inr 0) \<or> (\<exists>er. r = Inl er)"
  | (commit) ps rs ms q where "prepare_batch_in L e b = Inr ps"
    "allocate_records (we_now env) (filter (\<lambda>p. \<not> contains_id (pr_id p) e) ps) (en_meta e) = (rs, ms)"
    "commit_path L env rs (map (insert_op L) rs) (\<lambda>e. e) ms e = (q, e')" "r = (case q of Inl er \<Rightarrow> Inl er | Inr _ \<Rightarrow> Inr (length rs))"
    "distinct (map pr_id ps)" "length ps \<le> length (bi_ids b)"
proof (cases "bi_ids b = [] \<or> \<not> batch_lengths_ok b \<or> (\<exists>er. prepare_batch_in L e b = Inl er)")
  case True
  then have "e' = e \<and> (bi_ids b = [] \<and> r = Inr 0 \<or> (\<exists>er. r = Inl er))"
    using assms by (cases "bi_ids b = []"; cases "batch_lengths_ok b"; cases "prepare_batch_in L e b") (auto simp: batch_as_commit)
  then show ?thesis using unchanged by (auto simp: batch_entries_def)
next
  case False
  then obtain ps where ps: "prepare_batch_in L e b = Inr ps" by (cases "prepare_batch_in L e b") auto
  let ?fresh = "filter (\<lambda>p. \<not> contains_id (pr_id p) e) ps"
  have pp: "distinct (map pr_id ps)" "\<forall>p \<in> set ps. \<exists>inp \<in> set (map (batch_item b) [0..<length (bi_ids b)]). prepare_in L e inp = Inr p"
    using prepare_all_props [OF ps] by auto
  have len: "length ps \<le> length (bi_ids b)"
  proof -
    let ?inps = "map (batch_item b) [0..<length (bi_ids b)]"
    have "pr_id ` set ps \<subseteq> wi_id ` set ?inps" using pp(2) prepare_Inr(1) by fastforce
    then have "card (pr_id ` set ps) \<le> card (set (map wi_id ?inps))" by (intro card_mono) auto
    also have "\<dots> \<le> length (map wi_id ?inps)" by (rule card_length)
    finally show ?thesis using distinct_card [OF pp(1)] by simp
  qed
  show ?thesis
  proof (cases "?fresh = []")
    case True
    then have "e' = e" "r = Inr 0" using assms False ps by (simp_all add: batch_as_commit contains_id_def)
    then show ?thesis using unchanged True ps by (simp add: batch_entries_def)
  next
    case fresh: False
    obtain rs ms where al: "allocate_records (we_now env) ?fresh (en_meta e) = (rs, ms)" by fastforce
    have "answer (length rs) (commit_path L env rs (map (insert_op L) rs) (\<lambda>e. e) ms e) = (r, e')"
      using assms False ps fresh al by (simp add: batch_as_commit contains_id_def)
    then obtain q where "commit_path L env rs (map (insert_op L) rs) (\<lambda>e. e) ms e = (q, e')" "r = (case q of Inl er \<Rightarrow> Inl er | Inr _ \<Rightarrow> Inr (length rs))"
      by (cases "commit_path L env rs (map (insert_op L) rs) (\<lambda>e. e) ms e") (auto simp: answer_def split: sum.splits)
    then show ?thesis using commit ps al pp(1) len by blast
  qed
qed

lemma batch_effect:
  assumes inv: "eng_inv L lost e" and run: "insert_batch_with_payload_role L env b e = (r, e')" and rm: "room (en_meta e) (length (bi_ids b))"
    and sync: "\<not> en_sync_writes e \<or> we_fsync_ok env" and pay: "\<And>i. i < length (bi_ids b) \<Longrightarrow> payload_agrees L (batch_item b i)"
  shows "(\<exists>er. r = Inl er) \<and> stored e' = stored e \<or>
      (\<exists>ps. prepare_batch_in L e b = Inr ps \<and> stored e' = stored e ++ map_of (batch_entries env ps e) \<and>
         (r = Inr (length (batch_entries env ps e)) \<or> (\<exists>er. r = Inl er)))"
    "vs_dim (en_vectors e') = vs_dim (en_vectors e)"
proof -
  have "((\<exists>er. r = Inl er) \<and> stored e' = stored e \<or>
      (\<exists>ps. prepare_batch_in L e b = Inr ps \<and> stored e' = stored e ++ map_of (batch_entries env ps e) \<and>
         (r = Inr (length (batch_entries env ps e)) \<or> (\<exists>er. r = Inl er)))) \<and> vs_dim (en_vectors e') = vs_dim (en_vectors e)"
  proof (cases rule: batch_run [OF run])
    case (2 ps rs ms q)
    note commit = 2
    let ?fresh = "filter (\<lambda>p. \<not> contains_id (pr_id p) e) ps"
    have "length ?fresh \<le> length (bi_ids b)" using commit(6) length_filter_le order_trans by blast
    then have rm': "room (en_meta e) (length ?fresh)" using rm by (auto simp: room_def)
    note a = allocate_ok [OF commit(2) rm', of "el_codec L"]
    have num: "numbered (en_meta e) ms rs" "ms_records ms = ms_records (en_meta e)" using a by blast+
    have mp: "map (r_id \<circ> snd) rs = map pr_id ?fresh" using arg_cong [of _ _ "map fst"] a by (simp add: comp_def) (metis (no_types, lifting) map_map comp_def fst_conv list.map_cong0)
    have dur: "eng_dur L e" using inv by (simp add: eng_inv_def)
    have ids: "distinct (map (r_id \<circ> snd) rs)" unfolding mp by (rule distinct_map_filter [OF commit(5)])
    have new: "fmlookup (en_id_index e) (r_id x) = None" if "(off, x) \<in> set rs" for off x
    proof -
      have "r_id x \<in> set (map (r_id \<circ> snd) rs)" using that by force
      then show ?thesis unfolding mp by (auto simp: contains_id_def fmdom_notD)
    qed
    note eff = commit_inserts_effect [OF inv batch_inv [OF inv run rm sync pay] num commit(3) sync ids new]
    have "vs_dim (en_vectors e') = vs_dim (en_vectors e)"
      using commit_effect(1) [OF dur num commit(3) sync refl] by (simp add: vs_frame_def)
    moreover have "batch_entries env ps e = map (\<lambda>(off, x). (r_id x, entry_of x)) rs" by (simp add: batch_entries_def commit(2))
    ultimately show ?thesis using eff commit(1,4) by (cases q) auto
  qed auto
  then show "(\<exists>er. r = Inl er) \<and> stored e' = stored e \<or>
      (\<exists>ps. prepare_batch_in L e b = Inr ps \<and> stored e' = stored e ++ map_of (batch_entries env ps e) \<and>
         (r = Inr (length (batch_entries env ps e)) \<or> (\<exists>er. r = Inl er)))"
    "vs_dim (en_vectors e') = vs_dim (en_vectors e)" by blast+
qed

text \<open>An update replaces the record of its id, or changes nothing.\<close>

lemma update_effect:
  assumes inv: "eng_inv L lost e" and run: "update_with_payload_role L env inp e = (r, e')" and rm: "room (en_meta e) 1"
    and sync: "\<not> en_sync_writes e \<or> we_fsync_ok env" and pay: "payload_agrees L inp"
  shows "(r = Inr False \<and> \<not> contains_id (wi_id inp) e \<or> (\<exists>er. r = Inl er)) \<and> stored e' = stored e \<or>
      (\<exists>p. prepare_in L e inp = Inr p \<and> contains_id (wi_id inp) e \<and> stored e' = (stored e)(wi_id inp \<mapsto> new_entry env p e) \<and>
         (r = Inr True \<or> (\<exists>er. r = Inl er)))"
    "vs_dim (en_vectors e') = vs_dim (en_vectors e)"
proof -
  let ?same = "(r = Inr False \<and> \<not> contains_id (wi_id inp) e \<or> (\<exists>er. r = Inl er)) \<and> stored e' = stored e"
  let ?new = "\<exists>p. prepare_in L e inp = Inr p \<and> contains_id (wi_id inp) e \<and> stored e' = (stored e)(wi_id inp \<mapsto> new_entry env p e) \<and>
         (r = Inr True \<or> (\<exists>er. r = Inl er))"
  have "(?same \<or> ?new) \<and> vs_dim (en_vectors e') = vs_dim (en_vectors e)"
  proof (cases "\<exists>old p. fmlookup (en_id_index e) (wi_id inp) = Some old \<and> prepare_in L e inp = Inr p")
    case False
    then have "e' = e \<and> (r = Inr False \<and> \<not> contains_id (wi_id inp) e \<or> (\<exists>er. r = Inl er))" using run unfolding update_as_commit
      by (cases "fmlookup (en_id_index e) (wi_id inp)"; cases "prepare_in L e inp") (auto simp: contains_id_def fmdom_notI)
    then show ?thesis by simp
  next
    case True
    then obtain old p where p: "prepare_in L e inp = Inr p" and old: "fmlookup (en_id_index e) (wi_id inp) = Some old" by blast
    note pr = prepare_Inr [OF p]
    have i: "eng_dur L e" "eng_idx L e" using inv by (simp_all add: eng_inv_def)
    have inv': "eng_inv L (lost_after r lost e e') e'" by (rule update_inv [OF inv run rm sync pay])
    then have i': "eng_dur L e'" "eng_idx L e'" by (simp_all add: eng_inv_def)
    obtain rs ms where al: "allocate_records (we_now env) [p] (en_meta e) = (rs, ms)" by fastforce
    let ?off = "ms_next_offset (en_meta e)" and ?x = "into_record (we_now env 0) p (ms_next_seq (en_meta e))"
    let ?pre = "remove_from_indexes L (wi_id inp) old"
    note a = allocate_ok [OF al, of "el_codec L"]
    have num: "numbered (en_meta e) ms rs" "ms_records ms = ms_records (en_meta e)" using a rm by simp_all
    have rs: "rs = [(?off, ?x)]" using al unfolding allocate_single by simp
    obtain q where c: "commit_path L env rs (map (\<lambda>(off, r). replace_op L old off r) rs) ?pre ms e = (q, e')"
        and q: "r = (case q of Inl er \<Rightarrow> Inl er | Inr _ \<Rightarrow> Inr True)"
      using run p old al unfolding update_as_commit
      by (cases "commit_path L env rs (map (\<lambda>(off, r). replace_op L old off r) rs) ?pre ms e") (auto simp: answer_def split: sum.splits)
    have prev: "en_vectors (?pre x) = en_vectors x" for x by (simp add: remove_from_indexes_frame)
    note ce = commit_effect [OF i(1) num c sync prev]
    have live: "rec_view (en_meta e) old \<noteq> None" using ids_live [OF i(2) old] by (simp add: rec_view_def)
    have lt: "old < ?off" using live_small(3) [OF i(1) ids_live [OF i(2) old]] .
    have none: "rec_view (en_meta e) ?off = None" using dur_inv_facts(7) [OF eng_dur_E [OF i(1)], of ?off] by (cases "rec_view (en_meta e) ?off") auto
    have dim: "vs_dim (en_vectors e') = vs_dim (en_vectors e)" using ce(1) by (simp add: vs_frame_def)
    from ce(2) show ?thesis
    proof
      assume s: "(\<exists>er. q = Inl er) \<and> rec_view (en_meta e') = rec_view (en_meta e)"
      have "cell e' off = cell e off" for off
        using cell_frame [OF i(1) ce(1), of off] s none by (cases "off = ?off") (auto simp: cell_def rs)
      then show ?thesis using stored_same [OF i i'] s q dim by auto
    next
      assume "\<exists>vs w. en_meta e' = put_batch rs (en_meta (?pre (e\<lparr>en_meta := ms, en_vectors := vs, en_wal := w\<rparr>))) \<and>
        (\<forall>off x. (off, x) \<in> set rs \<longrightarrow> vs_stored (en_vectors e') off = Some (r_embedding x))"
      then have m: "en_meta e' = put_batch rs (ms_remove old ms)" and v: "vs_stored (en_vectors e') ?off = Some (r_embedding ?x)"
        by (auto simp: remove_from_indexes_frame rs)
      have view: "rec_view (en_meta e') = (rec_view (en_meta e))(old := None, ?off \<mapsto> core_meta (meta_of_record ?x))"
        unfolding m by (rule ext) (simp add: put_batch_view rs ms_records_view [OF num(2)])
      have "stored e' = (stored e)(wi_id inp \<mapsto> entry_of ?x)"
      proof (rule stored_replace [OF i i' old])
        show "cell e' o' = cell e o'" if "o' \<noteq> old" "o' \<noteq> ?off" for o'
          using cell_frame [OF i(1) ce(1), of o'] that view by (simp add: rs)
        show "cell e' old = None" "cell e' ?off = Some (entry_of ?x)" "cell e ?off = None" "?off \<noteq> old"
          using view lt v none by (auto simp: cell_def entry_of_def)
        show "r_id ?x = wi_id inp" using pr(1) by (simp add: into_record_def)
      qed
      then show ?thesis using q p old dim by (cases q) (auto simp: new_entry_def contains_id_def fmdomI)
    qed
  qed
  then show "?same \<or> ?new" "vs_dim (en_vectors e') = vs_dim (en_vectors e)" by blast+
qed

lemma delete_effect:
  assumes inv: "eng_inv L lost e" and run: "delete_where L env i matches e = (r, e')" and sync: "\<not> en_sync_writes e \<or> we_fsync_ok env"
  shows "r = Inr True \<and> stored e' = (stored e)(i := None) \<and> contains_id i e \<or>
      (r = Inr False \<and> (\<forall>off. fmlookup (en_id_index e) i = Some off \<longrightarrow> \<not> matches off) \<or> (\<exists>er. r = Inl er)) \<and> stored e' = stored e"
    "en_vectors e' = en_vectors e"
proof -
  have d: "eng_dur L e" "eng_idx L e" using inv by (simp_all add: eng_inv_def)
  have d': "eng_dur L e'" "eng_idx L e'" using delete_inv [OF inv run sync] by (simp_all add: eng_inv_def)
  note f = dur_inv_facts [OF eng_dur_E [OF d(1)]]
  have "(r = Inr True \<and> stored e' = (stored e)(i := None) \<and> contains_id i e \<or>
      (r = Inr False \<and> (\<forall>off. fmlookup (en_id_index e) i = Some off \<longrightarrow> \<not> matches off) \<or> (\<exists>er. r = Inl er)) \<and> stored e' = stored e) \<and> en_vectors e' = en_vectors e"
  proof (cases "\<exists>off. fmlookup (en_id_index e) i = Some off \<and> matches off")
    case False
    then show ?thesis using run by (auto simp: delete_where_def split: option.splits)
  next
    case True
    then obtain off where off: "fmlookup (en_id_index e) i = Some off" "matches off" by blast
    obtain ra w where a: "append_batch (el_wal L) (we_append env) [Delete off] (en_wal e) = (ra, w)" by fastforce
    show ?thesis
    proof (cases ra)
      case (Inl er)
      then have "w = en_wal e" using append_batch_error_unchanged [OF f(3)] a by blast
      then show ?thesis using run off a Inl by (auto simp: delete_where_def log_ops_def)
    next
      case (Inr u)
      then have r: "r = Inr True" "e' = remove_from_indexes L i off (e\<lparr>en_wal := w\<rparr>)"
        using run off a sync by (auto simp: delete_where_def log_ops_def)
      have v: "en_vectors e' = en_vectors e" "rec_view (en_meta e') = (rec_view (en_meta e))(off := None)"
        by (simp_all add: r(2) remove_from_indexes_frame)
      have "stored e' = (stored e)(i := None)"
        by (rule stored_delete [OF d d' off(1)]) (simp_all add: cell_def v cong: option.case_cong)
      then show ?thesis using r(1) v(1) off(1) by (auto simp: contains_id_def fmdomI)
    qed
  qed
  then show "r = Inr True \<and> stored e' = (stored e)(i := None) \<and> contains_id i e \<or>
      (r = Inr False \<and> (\<forall>off. fmlookup (en_id_index e) i = Some off \<longrightarrow> \<not> matches off) \<or> (\<exists>er. r = Inl er)) \<and> stored e' = stored e"
    "en_vectors e' = en_vectors e" by blast+
qed

lemma flush_effect:
  assumes inv: "eng_inv L lost e" and run: "engine_flush L env e = (r, e')" and "\<not> torn_clear (fe_clear env)"
  shows "stored e' = stored e" "vs_dim (en_vectors e') = vs_dim (en_vectors e)"
proof -
  have d: "eng_dur L e" "eng_idx L e" using inv by (simp_all add: eng_inv_def)
  have d': "eng_dur L e'" "eng_idx L e'" using flush_inv [OF inv run assms(3)] by (simp_all add: eng_inv_def)
  note fd = flush_dur [OF d(1) run assms(3)]
  show "stored e' = stored e" by (rule stored_same [OF d d']) (rule cell_frame [OF d(1) fd(3)]; simp add: fd(2))
  show "vs_dim (en_vectors e') = vs_dim (en_vectors e)" using fd(3) by (simp add: vs_frame_def)
qed

section \<open>Kill and reopen\<close>

text \<open>The files hold the records \<open>R\<close> with the vectors \<open>V\<close>.\<close>

definition disk_holds :: "engine_lib \<Rightarrow> store_config \<Rightarrow> disk \<Rightarrow> (point_offset \<rightharpoonup> meta_record) \<Rightarrow> (point_offset \<rightharpoonup> f32 list) \<Rightarrow> bool" where
  "disk_holds L c D R V \<longleftrightarrow> st_disk_inv L c D R \<and> unique_ids R \<and>
     (\<forall>s off. vs_open (crc32 (el_wal L)) (dk_vec D) (cfg_dimension (st_segments c)) (st_initial_capacity c) = Inr s \<longrightarrow> R off \<noteq> None \<longrightarrow>
        map_option bytes_vec (slot_bytes s (unat off)) = V off)"

definition open_allowed :: "rebuild_env \<Rightarrow> engine result \<Rightarrow> bool" where
  "open_allowed renv r \<longleftrightarrow> orders_ok renv \<and> segs_stored renv r"

text \<open>Clearing the log may leave a part of its header. The next open writes the header again, so such
  files hold the same as files with an empty log.\<close>

definition torn_header :: "disk \<Rightarrow> disk \<Rightarrow> bool" where
  "torn_header D D' \<longleftrightarrow> D' = D \<or> (\<exists>n. dk_wal D = header_bytes WAL_VERSION \<and> D' = D\<lparr>dk_wal := take n (header_bytes WAL_VERSION)\<rparr>)"

lemma torn_wal_open: "wal_open (take n (header_bytes WAL_VERSION)) = wal_open (header_bytes WAL_VERSION)"
proof (cases "WAL_HEADER_SIZE \<le> n")
  case True
  then show ?thesis by (simp add: header_bytes_parts)
next
  case False
  have h: "wal_open (header_bytes WAL_VERSION) = Inr \<lparr>w_file = header_bytes WAL_VERSION, w_pos = WAL_HEADER_SIZE, w_version = WAL_VERSION\<rparr>"
    using wal_reopen [of "header_bytes WAL_VERSION"] by (simp add: header_bytes_parts)
  have "length (take n (header_bytes WAL_VERSION)) < WAL_HEADER_SIZE" using False by simp
  then have "wal_open (take n (header_bytes WAL_VERSION)) = Inr \<lparr>w_file = header_bytes WAL_VERSION, w_pos = WAL_HEADER_SIZE, w_version = WAL_VERSION\<rparr>"
    unfolding wal_open_def by (rule if_P)
  then show ?thesis unfolding h .
qed

lemma torn_holds: "torn_header D D' \<Longrightarrow> disk_holds L c D R V \<Longrightarrow> disk_holds L c D' R V"
  by (auto simp: torn_header_def disk_holds_def disk_inv_def torn_wal_open)

lemma persist_torn:
  assumes "oe_clear env = HeaderTorn n" "persist_replay L C env q ms vs w = (r, ms', vs', w')"
  shows "\<exists>w''. persist_replay L C (env\<lparr>oe_clear := ClearSyncFails\<rparr>) q ms vs w = (r, ms', vs', w'') \<and>
     (w'' = w' \<or> r = Inl Io \<and> w_file w'' = header_bytes WAL_VERSION \<and> w_file w' = take n (header_bytes WAL_VERSION))"
  using assms by (auto simp: persist_replay_def clear_log_def wal_clear_def split: prod.splits sum.splits if_splits)

lemma finish_torn:
  assumes "oe_clear env = HeaderTorn n" "finish_open L C env fresh k p w = (r, D')"
  shows "\<exists>D. finish_open L C (env\<lparr>oe_clear := ClearSyncFails\<rparr>) fresh k p w = (r, D) \<and> torn_header D D'"
proof (cases "rp_replayed p \<or> needs_upgrade w")
  case True
  let ?ms = "advance_seq_past (rp_max_seq p) (advance_offset_past (rp_max_offset p) (rp_meta p))"
  obtain q ms vs w1 where pr: "persist_replay L C env (rp_max_seq p) ?ms (rp_vectors p) w = (q, ms, vs, w1)" by (metis surj_pair)
  from persist_torn [OF assms(1) this] obtain w2 where
    w2: "persist_replay L C (env\<lparr>oe_clear := ClearSyncFails\<rparr>) (rp_max_seq p) ?ms (rp_vectors p) w = (q, ms, vs, w2)"
      "w2 = w1 \<or> q = Inl Io \<and> w_file w2 = header_bytes WAL_VERSION \<and> w_file w1 = take n (header_bytes WAL_VERSION)" by blast
  show ?thesis
  proof (cases q)
    case (Inl er)
    then have "finish_open L C (env\<lparr>oe_clear := ClearSyncFails\<rparr>) fresh k p w = (r, disk_of ms vs w2)" "D' = disk_of ms vs w1"
      using assms(2) pr w2(1) True by (auto simp: finish_open_def)
    then show ?thesis using w2(2) by (auto simp: torn_header_def disk_of_def)
  next
    case (Inr u)
    then show ?thesis using assms(2) pr w2 True by (auto simp: finish_open_def torn_header_def)
  qed
qed (use assms(2) in \<open>auto simp: finish_open_def torn_header_def\<close>)

lemma open_torn:
  assumes "engine_open L c oenv renv D = (r, D')"
  obtains oenv' D1 where "\<not> torn_clear (oe_clear oenv')" "engine_open L c oenv' renv D = (r, D1)" "torn_header D1 D'"
proof (cases "torn_clear (oe_clear oenv)")
  case True
  then obtain n where n: "oe_clear oenv = HeaderTorn n" by (auto simp: torn_clear_def)
  let ?o = "oenv\<lparr>oe_clear := ClearSyncFails\<rparr>"
  have same: "torn_header D D" for D by (simp add: torn_header_def)
  have "\<exists>D1. open_durable (el_wal L) (el_codec L) [] d k ?o D = (q, D1) \<and> torn_header D1 D2"
    if "open_durable (el_wal L) (el_codec L) [] d k oenv D = (q, D2)" for d k q D2
    using that finish_torn [OF n] same by (fastforce simp: open_durable_def Let_def split: sum.splits if_splits)
  then have "\<exists>D1. engine_open L c ?o renv D = (r, D1) \<and> torn_header D1 D'"
    using assms same by (fastforce simp: engine_open_def split: sum.splits prod.splits)
  then show thesis using that [of ?o] by (auto simp: torn_clear_def)
qed (use that [OF _ assms] in \<open>simp add: torn_header_def\<close>)

definition cell_of :: "(point_offset \<rightharpoonup> meta_record) \<Rightarrow> (point_offset \<rightharpoonup> f32 list) \<Rightarrow> point_offset \<Rightarrow> (meta_record \<times> f32 list) option" where
  "cell_of R V off = (case R off of None \<Rightarrow> None | Some m \<Rightarrow> map_option (Pair m) (V off))"

lemma cell_of_engine: "cell e = cell_of (rec_view (en_meta e)) (vs_stored (en_vectors e))"
  by (simp add: fun_eq_iff cell_def cell_of_def)

lemma holds_open:
  assumes "disk_holds L c D R V" "engine_open L c oenv renv D = (r, D')" "open_allowed renv r"
  shows "disk_holds L c D' R V"
    "r = Inr e \<Longrightarrow> eng_inv L {} e \<and> vs_mapped (en_vectors e) \<and> vs_dim (en_vectors e) = cfg_dimension (st_segments c) \<and> cell e = cell_of R V"
proof -
  let ?open = "\<lambda>D. vs_open (crc32 (el_wal L)) (dk_vec D) (cfg_dimension (st_segments c)) (st_initial_capacity c)"
  have h: "st_disk_inv L c D R" "unique_ids R" and v: "\<And>s off. ?open D = Inr s \<Longrightarrow> R off \<noteq> None \<Longrightarrow> map_option bytes_vec (slot_bytes s (unat off)) = V off"
    using assms(1) by (auto simp: disk_holds_def)
  have al: "orders_ok renv" "segs_stored renv r" using assms(3) by (simp_all add: open_allowed_def)
  obtain oenv' D1 where run: "\<not> torn_clear (oe_clear oenv')" "engine_open L c oenv' renv D = (r, D1)" "torn_header D1 D'" using open_torn [OF assms(2)] .
  note o = engine_open_ok [OF h(1) run(2,1) al(1) h(2) al(2)]
  obtain s where s: "?open D = Inr s" using h(1) by (auto simp: disk_inv_def)
  have "disk_holds L c D1 R V" unfolding disk_holds_def using o(1) h(2) o(3) [OF s] v [OF s] by metis
  then show "disk_holds L c D' R V" by (rule torn_holds [OF run(3)])
  show "eng_inv L {} e \<and> vs_mapped (en_vectors e) \<and> vs_dim (en_vectors e) = cfg_dimension (st_segments c) \<and> cell e = cell_of R V" if r: "r = Inr e"
  proof -
    have e: "eng_inv L {} e" "rec_view (en_meta e) = R" "vs_mapped (en_vectors e)" "vs_dim (en_vectors e) = cfg_dimension (st_segments c)"
      "\<And>off. R off \<noteq> None \<Longrightarrow> slot_bytes (en_vectors e) (unat off) = slot_bytes s (unat off)"
      using o(2) [OF r] s by blast+
    have d: "eng_dur L e" using e(1) by (simp add: eng_inv_def)
    note f = dur_inv_facts [OF eng_dur_E [OF d], unfolded e(2)]
    have "vs_stored (en_vectors e) off = V off" if "R off \<noteq> None" for off
      using vs_stored_slot [OF f(1), of off] f(7) [OF that] e(5) [OF that] v [OF s that] by simp
    then have "cell e off = cell_of R V off" for off
      by (cases "R off") (simp_all add: cell_of_engine e(2) cell_of_def)
    then show ?thesis using e by blast
  qed
qed

text \<open>Attempts to open that fail leave files that hold the same.\<close>

inductive failed_opens :: "engine_lib \<Rightarrow> store_config \<Rightarrow> disk \<Rightarrow> disk \<Rightarrow> bool" for L c D where
  no_attempt: "failed_opens L c D D"
| attempt: "failed_opens L c D D1 \<Longrightarrow> engine_open L c oenv renv D1 = (Inl er, D2) \<Longrightarrow> open_allowed renv (Inl er) \<Longrightarrow> failed_opens L c D D2"

lemma holds_failed: "failed_opens L c D D' \<Longrightarrow> disk_holds L c D R V \<Longrightarrow> disk_holds L c D' R V"
  by (induction rule: failed_opens.induct) (auto intro: holds_open(1))

text \<open>The files of a running engine, with vectors that may have been written for records that are not logged.\<close>

lemma disk_of_holds:
  assumes "st_disk_inv L c (disk_of ms vs w) R" "unique_ids R" "vs_wf (crc32 (el_wal L)) vs" "vs_dim vs = cfg_dimension (st_segments c)"
    and "\<And>off. R off \<noteq> None \<Longrightarrow> unat off < vs_count vs"
  shows "disk_holds L c (disk_of ms vs w) R (vs_stored vs)"
  unfolding disk_holds_def
proof (intro conjI allI impI)
  fix s off assume s: "vs_open (crc32 (el_wal L)) (dk_vec (disk_of ms vs w)) (cfg_dimension (st_segments c)) (st_initial_capacity c) = Inr s" and r: "R off \<noteq> None"
  then have "slot_bytes s (unat off) = slot_bytes vs (unat off)" using vs_open_slots [of _ vs] assms(4) by (simp add: disk_of_def)
  then show "map_option bytes_vec (slot_bytes s (unat off)) = vs_stored vs off" using vs_stored_slot [OF assms(3), of off] assms(5) [OF r] by simp
qed (fact assms(1,2))+

lemma unique_ids_inv: "eng_idx L e \<Longrightarrow> unique_ids (rec_view (en_meta e))"
  unfolding unique_ids_view eng_idx_def by (metis ids_for_unique)

lemma kill_disk:
  assumes "eng_inv L lost e" "vs_dim (en_vectors e) = cfg_dimension (st_segments c)"
  shows "st_disk_inv L c (engine_disk e) (rec_view (en_meta e))" "unique_ids (rec_view (en_meta e))"
  using dur_inv_disk [OF eng_dur_E, of L e "st_initial_capacity c"] unique_ids_inv assms by (auto simp: eng_inv_def engine_disk_def)

lemma kill_holds:
  assumes "eng_inv L lost e" "vs_dim (en_vectors e) = cfg_dimension (st_segments c)"
  shows "disk_holds L c (engine_disk e) (rec_view (en_meta e)) (vs_stored (en_vectors e))"
proof -
  have "eng_dur L e" using assms(1) by (simp add: eng_inv_def)
  note f = dur_inv_facts [OF eng_dur_E [OF this]]
  show ?thesis unfolding engine_disk_def
    by (rule disk_of_holds [OF kill_disk(1) [OF assms, unfolded engine_disk_def] kill_disk(2) [OF assms] f(1) assms(2)]) (use f(7) in blast)
qed

text \<open>A kill while a write appends to the log: the vectors are written, and the log ends after \<open>n\<close> bytes.\<close>

definition killed_in_append :: "engine_lib \<Rightarrow> write_env \<Rightarrow> (point_offset \<times> mem_record) list \<Rightarrow> wal_op list \<Rightarrow> nat \<Rightarrow> engine \<Rightarrow> disk option" where
  "killed_in_append L env rs ops n e =
     (case put_vectors (crc32 (el_wal L)) (we_grow env) 0 rs (en_vectors e) of
        (Inl _, vs) \<Rightarrow> None
      | (Inr _, vs) \<Rightarrow>
          (case append_batch (el_wal L) (we_append env) ops (en_wal e) of
             (Inl _, w) \<Rightarrow> None
           | (Inr _, w) \<Rightarrow>
               if n < length (w_file (en_wal e)) then None else Some (disk_of (en_meta e) vs (w\<lparr>w_file := take n (w_file w)\<rparr>))))"

lemma killed_disk:
  assumes inv: "eng_inv L lost e" "vs_dim (en_vectors e) = cfg_dimension (st_segments c)" and num: "numbered (en_meta e) ms rs"
    and ops: "ops_for L rs ops \<or> (\<exists>off. ops = [Delete off] \<and> rec_view (en_meta e) off \<noteq> None)"
    and kill: "killed_in_append L env rs ops n e = Some D"
  obtains k vs w where "D = disk_of (en_meta e) vs w" "st_disk_inv L c D (spec_log 0 (rec_view (en_meta e)) (take k ops))"
    "vs_wf (crc32 (el_wal L)) vs" "vs_dim vs = cfg_dimension (st_segments c)" "vs_frame (crc32 (el_wal L)) (fst ` set rs) (en_vectors e) vs"
    "\<And>off x. (off, x) \<in> set rs \<Longrightarrow> vs_stored vs off = Some (r_embedding x) \<and> unat off < vs_count vs"
proof -
  have d: "eng_dur L e" using inv(1) by (simp add: eng_inv_def)
  note du = eng_dur_E [OF d]
  note f = dur_inv_facts [OF du]
  obtain vs where v: "put_vectors (crc32 (el_wal L)) (we_grow env) 0 rs (en_vectors e) = (Inr (), vs)"
    using kill by (auto simp: killed_in_append_def split: prod.splits sum.splits)
  obtain w where w: "append_batch (el_wal L) (we_append env) ops (en_wal e) = (Inr (), w)"
    using kill v by (auto simp: killed_in_append_def split: prod.splits sum.splits)
  have n: "length (w_file (en_wal e)) \<le> n" "D = disk_of (en_meta e) vs (w\<lparr>w_file := take n (w_file w)\<rparr>)"
    using kill v w by (auto simp: killed_in_append_def split: if_splits)
  have ne: "off \<noteq> - 1 \<and> \<not> off < ms_next_offset (en_meta e)" if "off \<in> fst ` set rs" for off
  proof -
    note th = that
    obtain x where "(off, x) \<in> set rs" using th by force
    then have "off < ms_next_offset ms" "ms_next_offset (en_meta e) \<le> off" using num unfolding numbered_def by blast+
    then show ?thesis using less_not_max by auto
  qed
  note fr = put_vectors_frame [OF v f(1,2)]
  have fr1: "vs_frame (crc32 (el_wal L)) (fst ` set rs) (en_vectors e) vs" using fr(1) ne by blast
  have wf: "vs_wf (crc32 (el_wal L)) vs" "vs_dim vs = cfg_dimension (st_segments c)" using fr1 inv(2) by (simp_all add: vs_frame_def)
  have st: "slot_bytes vs (unat off) = Some (vec_bytes (r_embedding x)) \<and> unat off < vs_count vs" if "(off, x) \<in> set rs" for off x
    using fr(2) [OF _ refl _ that] ne num unfolding numbered_def by blast
  have d1: "dur_inv (el_wal L) (el_codec L) (en_meta e) vs (en_wal e) (rec_view (en_meta e))"
    by (rule dur_inv_frame [OF du fr1]) (use ne in blast)
  have nw: "new_ops (crc32 (el_wal L)) (en_meta e) vs (rec_view (en_meta e)) (ms_next_offset ms) (ms_next_seq ms) ops"
    using ops
  proof
    assume "ops_for L rs ops"
    then show ?thesis by (rule commit_new_ops [OF _ num st])
  qed (auto simp: new_ops_def)
  obtain k where k: "disk_inv (el_wal L) (el_codec L) (vs_dim vs) (st_initial_capacity c) D (spec_log 0 (rec_view (en_meta e)) (take k ops))"
    using dur_inv_torn [OF d1 nw w n(1), of "st_initial_capacity c"] n(2) by blast
  have "vs_stored vs off = Some (r_embedding x) \<and> unat off < vs_count vs" if "(off, x) \<in> set rs" for off x
    using st [OF that] vs_stored_slot [OF wf(1), of off] by simp
  then show thesis using that n(2) k wf fr1 by metis
qed

text \<open>The batches that writes commit.\<close>

definition insert_batch_of :: "engine_lib \<Rightarrow> write_env \<Rightarrow> prepared_record list \<Rightarrow> engine \<Rightarrow> (point_offset \<times> mem_record) list" where
  "insert_batch_of L env ps e = fst (allocate_records (we_now env) ps (en_meta e))"

lemma unique_ids_add:
  assumes "unique_ids R" "distinct (map (r_id \<circ> snd) rs)"
    and "\<And>off x. (off, x) \<in> set rs \<Longrightarrow> R' off = Some (core_meta (meta_of_record x))" "\<And>off. off \<notin> fst ` set rs \<Longrightarrow> R' off = R off"
    and "\<And>off x o' m. (off, x) \<in> set rs \<Longrightarrow> R o' = Some m \<Longrightarrow> m_id m \<noteq> r_id x"
  shows "unique_ids R'"
  unfolding unique_ids_def
proof (intro allI impI)
  fix a b m n assume m: "R' a = Some m" and n: "R' b = Some n" and i: "m_id m = m_id n"
  have idm: "m_id (core_meta (meta_of_record x)) = r_id x" for x by (simp add: meta_of_record_def)
  have r: "(\<exists>x. (o', x) \<in> set rs \<and> m_id m' = r_id x) \<or> R o' = Some m'" if "R' o' = Some m'" for o' m'
  proof (cases "o' \<in> fst ` set rs")
    case True
    then obtain x where "(o', x) \<in> set rs" by force
    then show ?thesis using assms(3) idm that by force
  qed (use assms(4) that in simp)
  show "a = b"
  proof (cases "R a = Some m \<or> R b = Some n")
    case True
    then have "R a = Some m \<and> R b = Some n" using r [OF m] r [OF n] assms(5) i by metis
    then show ?thesis using assms(1) i unfolding unique_ids_def by blast
  next
    case False
    then obtain x y where "(a, x) \<in> set rs" "(b, y) \<in> set rs" "r_id x = r_id y" using r [OF m] r [OF n] i by auto
    moreover have "inj_on (r_id \<circ> snd) (set rs)" using assms(2) by (simp add: distinct_map)
    ultimately have "(a, x) = (b, y)" using inj_onD [of "r_id \<circ> snd" "set rs" "(a, x)" "(b, y)"] by simp
    then show ?thesis by simp
  qed
qed

lemma no_records: "rec_view (en_meta e) = Map.empty \<Longrightarrow> stored e = Map.empty"
  by (auto simp: stored_def cell_def fun_eq_iff split: option.splits bind_splits)

lemma killed_insert:
  assumes inv: "eng_inv L lost e" "vs_dim (en_vectors e) = cfg_dimension (st_segments c)" and rm: "room (en_meta e) (length ps)"
    and ps: "distinct (map pr_id ps)" "\<And>p. p \<in> set ps \<Longrightarrow> \<not> contains_id (pr_id p) e"
    and rs: "insert_batch_of L env ps e = rs" and kill: "killed_in_append L env rs (map (insert_op L) rs) n e = Some D"
  shows "\<exists>R V k. disk_holds L c D R V \<and> (R = Map.empty \<longrightarrow> stored e = Map.empty) \<and> (\<forall>e'. eng_inv L {} e' \<longrightarrow> cell e' = cell_of R V \<longrightarrow>
     stored e' = stored e ++ map_of (take k (map (\<lambda>(off, x). (r_id x, entry_of x)) rs)))"
proof -
  have d: "eng_dur L e" "eng_idx L e" using inv(1) by (simp_all add: eng_inv_def)
  note f = dur_inv_facts [OF eng_dur_E [OF d(1)]]
  obtain ms where al: "allocate_records (we_now env) ps (en_meta e) = (rs, ms)" using rs by (metis insert_batch_of_def prod.collapse)
  note a = allocate_ok [OF al rm, of "el_codec L"]
  have num: "numbered (en_meta e) ms rs" and ms: "ms_records ms = ms_records (en_meta e)" using a by blast+
  have mp: "map (r_id \<circ> snd) rs = map pr_id ps" using a by (simp add: comp_def) (metis (no_types, lifting) map_map comp_def fst_conv list.map_cong0)
  obtain k vs w where D: "D = disk_of (en_meta e) vs w" "st_disk_inv L c D (spec_log 0 (rec_view (en_meta e)) (take k (map (insert_op L) rs)))"
    "vs_wf (crc32 (el_wal L)) vs" "vs_dim vs = cfg_dimension (st_segments c)" "vs_frame (crc32 (el_wal L)) (fst ` set rs) (en_vectors e) vs"
    and st: "\<And>off x. (off, x) \<in> set rs \<Longrightarrow> vs_stored vs off = Some (r_embedding x) \<and> unat off < vs_count vs"
    by (rule killed_disk [OF inv num disjI1 [OF ops_for_inserts] kill], rule that)
  let ?rs = "take k rs" and ?Q = "rec_view (en_meta e)"
  have sub: "set ?rs \<subseteq> set rs" by (rule set_take_subset)
  have dist: "distinct (map fst ?rs)" using num by (simp add: numbered_def take_map [symmetric])
  have dk: "distinct (map (r_id \<circ> snd) ?rs)" using ps(1) unfolding mp [symmetric] by (simp add: take_map [symmetric])
  have new: "fmlookup (en_id_index e) (r_id x) = None" if "(off, x) \<in> set ?rs" for off x
  proof -
    have "r_id x \<in> set (map (r_id \<circ> snd) rs)" using that sub by force
    then show ?thesis unfolding mp using ps(2) by (auto simp: contains_id_def fmdom_notD)
  qed
  let ?R = "spec_log 0 ?Q (map (insert_op L) ?rs)"
  have R: "?R off = (case map_of (rev ?rs) off of Some x \<Rightarrow> Some (core_meta (meta_of_record x)) | None \<Rightarrow> ?Q off)" for off
  proof -
    have "rec_view (put_batch ?rs (en_meta e)) = ?R" by (rule put_batch_spec) (use numbered_pos [OF num f(6)] sub in blast)
    then show ?thesis using put_batch_view [of ?rs "en_meta e" off] by simp
  qed
  have fresh: "?Q off = None" if "off \<in> fst ` set ?rs" for off
  proof -
    note th = that
    obtain x where "(off, x) \<in> set rs" using th sub by force
    then have "ms_next_offset (en_meta e) \<le> off" using num unfolding numbered_def by blast
    then show ?thesis using f(7) [of off] by (cases "?Q off") auto
  qed
  have Rin: "?R off = Some (core_meta (meta_of_record x))" if "(off, x) \<in> set ?rs" for off x
    using R [of off] map_of_rev_distinct [OF dist, of off x] that by simp
  have Rout: "?R off = ?Q off" if "off \<notin> fst ` set ?rs" for off
  proof -
    have "map_of (rev ?rs) off = None" using that by (simp add: map_of_eq_None_iff)
    then show ?thesis using R [of off] by simp
  qed
  have noid: "m_id m \<noteq> r_id x" if "(off, x) \<in> set ?rs" "?Q o' = Some m" for off x o' m
    using new [OF that(1)] id_of_live [OF d(2) that(2)] by auto
  have uniq: "unique_ids ?R"
    by (rule unique_ids_add [OF unique_ids_inv [OF d(2)] dk Rin Rout noid])
  have disk: "st_disk_inv L c (disk_of (en_meta e) vs w) ?R" using D(1,2) by (simp add: take_map)
  have live: "unat off < vs_count vs" if "?R off \<noteq> None" for off
  proof (cases "off \<in> fst ` set ?rs")
    case True
    then show ?thesis using st sub by force
  next
    case False
    then have "unat off < vs_count (en_vectors e)" using f(7) [of off] Rout that by simp
    then show ?thesis using D(5) by (simp add: vs_frame_def)
  qed
  have holds: "disk_holds L c D ?R (vs_stored vs)" unfolding D(1) by (rule disk_of_holds [OF disk uniq D(3,4) live])
  have "stored e' = stored e ++ map_of (take k (map (\<lambda>(off, x). (r_id x, entry_of x)) rs))"
    if e': "eng_inv L {} e'" and ce: "cell e' = cell_of ?R (vs_stored vs)" for e'
  proof -
    note o = ce [THEN fun_cong, unfolded cell_of_def]
    have d': "eng_dur L e'" "eng_idx L e'" using e' by (simp_all add: eng_inv_def)
    have "stored e' = stored e ++ map_of (map (\<lambda>(off, x). (r_id x, entry_of x)) ?rs)"
    proof (rule stored_add [OF d d' dk])
      show "cell e off = None \<and> cell e' off = Some (entry_of x)" if "(off, x) \<in> set ?rs" for off x
      proof -
        have "off \<in> fst ` set ?rs" "(off, x) \<in> set rs" using that sub by force+
        then show ?thesis using fresh st Rin [OF that] o [of off] by (simp add: cell_def entry_of_def)
      qed
      show "cell e' off = cell e off" if "off \<notin> fst ` set ?rs" for off
      proof (cases "?Q off")
        case (Some m)
        then have "off < ms_next_offset (en_meta e)" "unat off < vs_count (en_vectors e)" using f(7) [of off] by simp_all
        moreover have "off \<notin> fst ` set rs"
        proof
          assume "off \<in> fst ` set rs"
          then obtain x where "(off, x) \<in> set rs" by force
          then have "ms_next_offset (en_meta e) \<le> off" using num unfolding numbered_def by blast
          then show False using \<open>off < ms_next_offset (en_meta e)\<close> by simp
        qed
        ultimately have "vs_stored vs off = vs_stored (en_vectors e) off" using stored_frame [OF f(1) D(5)] by blast
        then show ?thesis using o [of off] Rout [OF that] by (simp add: cell_def split: option.split)
      qed (use o [of off] Rout [OF that] in \<open>simp add: cell_def\<close>)
      show "fmlookup (en_id_index e) (r_id x) = None" if "(off, x) \<in> set ?rs" for off x by (rule new [OF that])
    qed
    then show ?thesis by (simp add: take_map)
  qed
  moreover have "stored e = Map.empty" if "?R = Map.empty"
  proof (rule no_records)
    show "?Q = Map.empty" using that fresh Rout by (metis ext)
  qed
  ultimately show ?thesis using holds by blast
qed

text \<open>Files that hold an engine's records with one of them gone, and perhaps one new.\<close>

lemma take_one: "take k [x] = [] \<or> take k [x] = [x]"
  by (cases k) simp_all

lemma unique_ids_drop: "unique_ids R \<Longrightarrow> unique_ids (R(off := None))"
  by (auto simp: unique_ids_def)

lemma frame_cell:
  assumes "eng_dur L e" "vs_frame (crc32 (el_wal L)) A (en_vectors e) vs" "off \<notin> A"
  shows "(case rec_view (en_meta e) off of None \<Rightarrow> None | Some m \<Rightarrow> map_option (Pair m) (vs_stored vs off)) = cell e off"
  using cell_frame [of L e A "e\<lparr>en_vectors := vs\<rparr>" off] assms by (cases "rec_view (en_meta e) off") (simp_all add: cell_def)

lemma holds_same:
  assumes inv: "eng_inv L lost e" "eng_inv L {} e'" and vs: "vs_frame (crc32 (el_wal L)) A (en_vectors e) vs"
    and A: "\<And>off. off \<in> A \<Longrightarrow> \<not> off < ms_next_offset (en_meta e)" and ce: "cell e' = cell_of (rec_view (en_meta e)) (vs_stored vs)"
  shows "stored e' = stored e"
proof -
  have d: "eng_dur L e" "eng_idx L e" "eng_dur L e'" "eng_idx L e'" using inv by (simp_all add: eng_inv_def)
  note f = dur_inv_facts [OF eng_dur_E [OF d(1)]]
  have "cell e' off = cell e off" for off
  proof (cases "off \<in> A")
    case True
    then have "rec_view (en_meta e) off = None" using A f(7) [of off] by blast
    then show ?thesis by (simp add: ce cell_of_def cell_def)
  qed (use frame_cell [OF d(1) vs] in \<open>simp add: ce cell_of_def\<close>)
  then show ?thesis by (rule stored_same [OF d])
qed

lemma live_frame:
  assumes "eng_dur L e" "vs_frame (crc32 (el_wal L)) A (en_vectors e) vs" "rec_view (en_meta e) off \<noteq> None"
  shows "unat off < vs_count vs"
  using dur_inv_facts(7) [OF eng_dur_E [OF assms(1)] assms(3)] assms(2) by (simp add: vs_frame_def)

lemma killed_update:
  assumes inv: "eng_inv L lost e" "vs_dim (en_vectors e) = cfg_dimension (st_segments c)" and rm: "room (en_meta e) 1"
    and p: "pr_id p = i" and old: "fmlookup (en_id_index e) i = Some old"
    and rs: "insert_batch_of L env [p] e = rs" and kill: "killed_in_append L env rs (map (\<lambda>(off, r). replace_op L old off r) rs) n e = Some D"
  shows "\<exists>R V. disk_holds L c D R V \<and> R \<noteq> Map.empty \<and> (\<forall>e'. eng_inv L {} e' \<longrightarrow> cell e' = cell_of R V \<longrightarrow>
     stored e' = stored e \<or> stored e' = (stored e)(i \<mapsto> new_entry env p e))"
proof -
  let ?off = "ms_next_offset (en_meta e)" and ?x = "into_record (we_now env 0) p (ms_next_seq (en_meta e))" and ?Q = "rec_view (en_meta e)"
  have d: "eng_dur L e" "eng_idx L e" using inv(1) by (simp_all add: eng_inv_def)
  note f = dur_inv_facts [OF eng_dur_E [OF d(1)]]
  obtain ms where al: "allocate_records (we_now env) [p] (en_meta e) = (rs, ms)" using rs by (metis insert_batch_of_def prod.collapse)
  have rs1: "rs = [(?off, ?x)]" using al unfolding allocate_single by simp
  have num: "numbered (en_meta e) ms rs" using allocate_ok [OF al] rm by simp
  have idx: "r_id ?x = i" using p by (simp add: into_record_def)
  have pos: "0 < r_insert_seq ?x" by (rule numbered_pos [OF num f(6), of ?off]) (simp add: rs1)
  have ops: "ops_for L rs (map (\<lambda>(off, r). replace_op L old off r) rs)" by (auto simp: rs1 ops_for_def replace_op_def)
  obtain k vs w where D: "D = disk_of (en_meta e) vs w" "st_disk_inv L c D (spec_log 0 ?Q (take k (map (\<lambda>(off, r). replace_op L old off r) rs)))"
    "vs_wf (crc32 (el_wal L)) vs" "vs_dim vs = cfg_dimension (st_segments c)" "vs_frame (crc32 (el_wal L)) (fst ` set rs) (en_vectors e) vs"
    and st: "\<And>off x. (off, x) \<in> set rs \<Longrightarrow> vs_stored vs off = Some (r_embedding x) \<and> unat off < vs_count vs"
    by (rule killed_disk [OF inv num disjI1 [OF ops] kill], rule that)
  let ?R = "?Q(old := None, ?off \<mapsto> core_meta (meta_of_record ?x))"
  have "spec_log 0 ?Q (take k (map (\<lambda>(off, r). replace_op L old off r) rs)) = ?Q \<or> spec_log 0 ?Q (take k (map (\<lambda>(off, r). replace_op L old off r) rs)) = ?R"
    using pos take_one [of k "replace_op L old ?off ?x"] by (auto simp: rs1 replace_op_def)
  then consider (same) "st_disk_inv L c (disk_of (en_meta e) vs w) ?Q" | (new) "st_disk_inv L c (disk_of (en_meta e) vs w) ?R" using D(1,2) by auto
  note cs = this
  have lt: "old < ?off" using live_small(3) [OF d(1) ids_live [OF d(2) old]] .
  have none: "?Q ?off = None" using f(7) [of ?off] by (cases "?Q ?off") auto
  have uR: "unique_ids ?R"
  proof (rule unique_ids_add [of "?Q(old := None)" rs])
    show "unique_ids (?Q(old := None))" by (rule unique_ids_drop [OF unique_ids_inv [OF d(2)]])
    show "m_id m \<noteq> r_id x" if "(off, x) \<in> set rs" "(?Q(old := None)) o' = Some m" for off x o' m
      using that id_of_live [OF d(2), of o' m] old idx by (auto simp: rs1 split: if_splits)
  qed (use rs1 in auto)
  show ?thesis
  proof (cases rule: cs)
    case same
    have "disk_holds L c D ?Q (vs_stored vs)" unfolding D(1)
      by (rule disk_of_holds [OF same unique_ids_inv [OF d(2)] D(3,4)]) (rule live_frame [OF d(1) D(5)])
    moreover have "stored e' = stored e" if "eng_inv L {} e'" "cell e' = cell_of ?Q (vs_stored vs)" for e'
      by (rule holds_same [OF inv(1) that(1) D(5) _ that(2)]) (simp add: rs1)
    moreover have "?Q \<noteq> Map.empty" using ids_live [OF d(2) old] by (auto simp: rec_view_def fun_eq_iff)
    ultimately show ?thesis by blast
  next
    case new
    have live: "unat off < vs_count vs" if "?R off \<noteq> None" for off
      using that live_frame [OF d(1) D(5), of off] st [of ?off ?x] rs1 by (auto split: if_splits)
    have "disk_holds L c D ?R (vs_stored vs)" unfolding D(1) by (rule disk_of_holds [OF new uR D(3,4) live])
    moreover have "stored e' = (stored e)(i \<mapsto> new_entry env p e)" if e': "eng_inv L {} e'" and ce: "cell e' = cell_of ?R (vs_stored vs)" for e'
      unfolding new_entry_def
    proof (rule stored_replace [OF d _ _ old])
      show "eng_dur L e'" "eng_idx L e'" using e' by (simp_all add: eng_inv_def)
      show "cell e' o' = cell e o'" if "o' \<noteq> old" "o' \<noteq> ?off" for o'
        using frame_cell [OF d(1) D(5), of o'] that by (simp add: rs1 ce cell_of_def)
      show "cell e' old = None" "cell e' ?off = Some (entry_of ?x)" "cell e ?off = None" "?off \<noteq> old"
        using lt none st [of ?off ?x] rs1 by (auto simp: ce cell_of_def cell_def entry_of_def)
    qed (rule idx)
    moreover have "?R \<noteq> Map.empty" by (metis fun_upd_same option.distinct(1))
    ultimately show ?thesis by blast
  qed
qed

lemma killed_delete:
  assumes inv: "eng_inv L lost e" "vs_dim (en_vectors e) = cfg_dimension (st_segments c)" and old: "fmlookup (en_id_index e) i = Some old"
    and kill: "killed_in_append L env [] [Delete old] n e = Some D"
  shows "\<exists>R V. disk_holds L c D R V \<and> (R = Map.empty \<longrightarrow> dom (stored e) = {i}) \<and> (\<forall>e'. eng_inv L {} e' \<longrightarrow> cell e' = cell_of R V \<longrightarrow>
     stored e' = stored e \<or> stored e' = (stored e)(i := None))"
proof -
  let ?Q = "rec_view (en_meta e)"
  have d: "eng_dur L e" "eng_idx L e" using inv(1) by (simp_all add: eng_inv_def)
  note f = dur_inv_facts [OF eng_dur_E [OF d(1)]]
  have num: "numbered (en_meta e) (en_meta e) []" by (simp add: numbered_def)
  have live: "?Q old \<noteq> None" using ids_live [OF d(2) old] by (simp add: rec_view_def)
  obtain k vs w where D: "D = disk_of (en_meta e) vs w" "st_disk_inv L c D (spec_log 0 ?Q (take k [Delete old]))"
    "vs_wf (crc32 (el_wal L)) vs" "vs_dim vs = cfg_dimension (st_segments c)" "vs_frame (crc32 (el_wal L)) {} (en_vectors e) vs"
  proof (rule killed_disk [OF inv num _ kill])
    show "ops_for L [] [Delete old] \<or> (\<exists>off. [Delete old] = [Delete off] \<and> ?Q off \<noteq> None)" using live by blast
  qed (rule that, simp_all)
  have "spec_log 0 ?Q (take k [Delete old]) = ?Q \<or> spec_log 0 ?Q (take k [Delete old]) = ?Q(old := None)"
    using take_one [of k "Delete old"] by auto
  then consider (same) "st_disk_inv L c (disk_of (en_meta e) vs w) ?Q" | (new) "st_disk_inv L c (disk_of (en_meta e) vs w) (?Q(old := None))" using D(1,2) by auto
  note cs = this
  have uR: "unique_ids (?Q(old := None))" by (rule unique_ids_drop [OF unique_ids_inv [OF d(2)]])
  show ?thesis
  proof (cases rule: cs)
    case same
    have "disk_holds L c D ?Q (vs_stored vs)" unfolding D(1)
      by (rule disk_of_holds [OF same unique_ids_inv [OF d(2)] D(3,4)]) (rule live_frame [OF d(1) D(5)])
    moreover have "stored e' = stored e" if "eng_inv L {} e'" "cell e' = cell_of ?Q (vs_stored vs)" for e'
      by (rule holds_same [OF inv(1) that(1) D(5) _ that(2)]) simp
    moreover have "?Q \<noteq> Map.empty" using live by (auto simp: fun_eq_iff)
    ultimately show ?thesis by blast
  next
    case new
    have lv: "unat off < vs_count vs" if "(?Q(old := None)) off \<noteq> None" for off
      using that live_frame [OF d(1) D(5), of off] by (auto split: if_splits)
    have "disk_holds L c D (?Q(old := None)) (vs_stored vs)" unfolding D(1) by (rule disk_of_holds [OF new uR D(3,4) lv])
    moreover have "stored e' = (stored e)(i := None)" if e': "eng_inv L {} e'" and ce: "cell e' = cell_of (?Q(old := None)) (vs_stored vs)" for e'
    proof (rule stored_delete [OF d _ _ old])
      show "eng_dur L e'" "eng_idx L e'" using e' by (simp_all add: eng_inv_def)
      show "cell e' o' = cell e o'" if "o' \<noteq> old" for o' using frame_cell [OF d(1) D(5), of o'] that by (simp add: ce cell_of_def)
      show "cell e' old = None" by (simp add: ce cell_of_def)
    qed
    moreover have "dom (stored e) = {i}" if none: "?Q(old := None) = Map.empty"
    proof -
      have only: "rec_view (en_meta e) off = None" if "off \<noteq> old" for off using fun_cong [OF none, of off] that by simp
      have at: "\<exists>m v. cell e old = Some (m, v) \<and> m_id m = j" if j: "stored e j = Some x" for j x
      proof -
        obtain m v where x: "x = (m, v)" by fastforce
        obtain off where off: "cell e off = Some (m, v)" "m_id m = j" using j unfolding x stored_iff [OF d] by blast
        then have "off = old" using only [of off] by (auto simp: cell_def split: option.splits)
        then show ?thesis using off by blast
      qed
      obtain x where "stored e i = Some x" using cell_live [OF d(1)] live old by (auto simp: stored_def)
      moreover have "j = i" if "stored e j = Some y" for j y using at [OF that] at [OF \<open>stored e i = Some x\<close>] by auto
      ultimately show ?thesis by (intro equalityI subsetI) blast+
    qed
    ultimately show ?thesis by blast
  qed
qed

section \<open>The system over time\<close>

datatype system = Running "point_offset set" engine | Stopped disk

definition new_disk :: disk where
  "new_disk = \<lparr>dk_db = empty_db, dk_vec = None, dk_wal = []\<rparr>"

definition lib_ok :: "engine_lib \<Rightarrow> bool" where
  "lib_ok L \<longleftrightarrow> bincode_ok (el_wal L) \<and> codec_ok (el_codec L)"

text \<open>A dimension the file format can hold and a capacity that fits the address space.\<close>

definition store_fits :: "engine_lib \<Rightarrow> store_config \<Rightarrow> bool" where
  "store_fits L c \<longleftrightarrow> cfg_dimension (st_segments c) < 2 ^ 32 \<and>
     (\<exists>s. new_with_capacity (crc32 (el_wal L)) (cfg_dimension (st_segments c)) (st_initial_capacity c) = Inr s)"

definition write_allowed :: "write_env \<Rightarrow> engine \<Rightarrow> nat \<Rightarrow> bool" where
  "write_allowed env e n \<longleftrightarrow> room (en_meta e) n \<and> (\<not> en_sync_writes e \<or> we_fsync_ok env)"

text \<open>The states of the system. Between the calls the background optimizer seals and merges
  segments, and searches commit pending documents of the text index. A process may be killed between
  any two operations, while it writes vectors for records that are not logged yet, and at any byte
  of an append to the log; a kill inside a flush or an open is a kill after one whose next file
  operation failed. \<open>Running lost e\<close> records in \<open>lost\<close> the offsets of writes that reported an error.

  The steps are whole calls, one at a time. Not among them are: going on after a flush left a part
  of the header of the log (later entries would follow that part), a write whose log entry was
  written but, with \<open>sync_writes\<close>, not synced (\<open>write_allowed\<close>), a payload that passes the syntax
  check and does not parse (\<open>payload_agrees\<close>), a failing cut after a failed append, a kill while the
  vector file is created, and \<open>trigger_consolidation\<close>, which compacts Warm segments outside the jobs
  of the optimizer.\<close>

inductive reach :: "engine_lib \<Rightarrow> store_config \<Rightarrow> system \<Rightarrow> bool" for L c where
  reach_new: "reach L c (Stopped new_disk)"
| reach_open: "reach L c (Stopped D) \<Longrightarrow> engine_open L c oenv renv D = (Inr e, D') \<Longrightarrow> open_allowed renv (Inr e) \<Longrightarrow>
    reach L c (Running {} e)"
| reach_open_fails: "reach L c (Stopped D) \<Longrightarrow> engine_open L c oenv renv D = (Inl er, D') \<Longrightarrow> open_allowed renv (Inl er) \<Longrightarrow>
    reach L c (Stopped D')"
| reach_insert: "reach L c (Running lost e) \<Longrightarrow> insert_with_payload_role L env inp e = (r, e') \<Longrightarrow> write_allowed env e 1 \<Longrightarrow>
    payload_agrees L inp \<Longrightarrow> reach L c (Running (lost_after r lost e e') e')"
| reach_batch: "reach L c (Running lost e) \<Longrightarrow> insert_batch_with_payload_role L env b e = (r', e') \<Longrightarrow> write_allowed env e (length (bi_ids b)) \<Longrightarrow>
    (\<And>i. i < length (bi_ids b) \<Longrightarrow> payload_agrees L (batch_item b i)) \<Longrightarrow> reach L c (Running (lost_after r' lost e e') e')"
| reach_update: "reach L c (Running lost e) \<Longrightarrow> update_with_payload_role L env inp e = (r, e') \<Longrightarrow> write_allowed env e 1 \<Longrightarrow>
    payload_agrees L inp \<Longrightarrow> reach L c (Running (lost_after r lost e e') e')"
| reach_delete: "reach L c (Running lost e) \<Longrightarrow> delete_where L env i matches e = (r, e') \<Longrightarrow> write_allowed env e 0 \<Longrightarrow> reach L c (Running lost e')"
| reach_flush: "reach L c (Running lost e) \<Longrightarrow> engine_flush L fenv e = (u, e') \<Longrightarrow> \<not> torn_clear (fe_clear fenv) \<Longrightarrow> reach L c (Running lost e')"
| reach_seal_job: "reach L c (Running lost e) \<Longrightarrow> process_one_seal senv (en_vectors e) (en_budget e) (en_segments e) = (fin, b', h') \<Longrightarrow>
    reach L c (Running lost (e\<lparr>en_budget := b', en_segments := h'\<rparr>))"
| reach_merge_job: "reach L c (Running lost e) \<Longrightarrow> process_one_merge menv (en_vectors e) (en_budget e) pend (en_segments e) = (fin, b', pend', h') \<Longrightarrow>
    reach L c (Running lost (e\<lparr>en_budget := b', en_segments := h'\<rparr>))"
| reach_kill_flush: "reach L c (Running lost e) \<Longrightarrow> engine_flush L fenv e = (u, e') \<Longrightarrow> reach L c (Stopped (engine_disk e'))"
| reach_bump: "reach L c (Running lost e) \<Longrightarrow> reach L c (Running lost (bump_access_by_id now i e))"
| reach_text_commit: "reach L c (Running lost e) \<Longrightarrow> ti_commit_if_pending out (en_text_index e) = (u, t) \<Longrightarrow>
    reach L c (Running lost (e\<lparr>en_text_index := t\<rparr>))"
| reach_reinforce: "reach L c (Running lost e) \<Longrightarrow> reach L c (Running lost (reinforce_graph_ids now is e))"
| reach_kill: "reach L c (Running lost e) \<Longrightarrow> reach L c (Stopped (engine_disk e))"
| reach_kill_vectors: "reach L c (Running lost e) \<Longrightarrow> vs_frame (crc32 (el_wal L)) {off. ms_next_offset (en_meta e) \<le> off} (en_vectors e) vs \<Longrightarrow>
    reach L c (Stopped (disk_of (en_meta e) vs (en_wal e)))"
| reach_kill_insert: "reach L c (Running lost e) \<Longrightarrow> room (en_meta e) (length ps) \<Longrightarrow> distinct (map pr_id ps) \<Longrightarrow>
    (\<And>p. p \<in> set ps \<Longrightarrow> \<not> contains_id (pr_id p) e) \<Longrightarrow> insert_batch_of L env ps e = rs \<Longrightarrow>
    killed_in_append L env rs (map (insert_op L) rs) n e = Some D \<Longrightarrow> reach L c (Stopped D)"
| reach_kill_update: "reach L c (Running lost e) \<Longrightarrow> room (en_meta e) 1 \<Longrightarrow> fmlookup (en_id_index e) (pr_id p) = Some old \<Longrightarrow>
    insert_batch_of L env [p] e = rs \<Longrightarrow> killed_in_append L env rs (map (\<lambda>(off, r). replace_op L old off r) rs) n e = Some D \<Longrightarrow>
    reach L c (Stopped D)"
| reach_kill_delete: "reach L c (Running lost e) \<Longrightarrow> fmlookup (en_id_index e) i = Some old \<Longrightarrow>
    killed_in_append L env [] [Delete old] n e = Some D \<Longrightarrow> reach L c (Stopped D)"

fun sys_inv :: "engine_lib \<Rightarrow> store_config \<Rightarrow> system \<Rightarrow> bool" where
  "sys_inv L c (Running lost e) \<longleftrightarrow> eng_inv L lost e \<and> vs_dim (en_vectors e) = cfg_dimension (st_segments c)"
| "sys_inv L c (Stopped D) \<longleftrightarrow> (\<exists>R V. disk_holds L c D R V)"

lemma new_hcount:
  assumes "new_with_capacity crc d n = Inr s"
  shows "hcount s = 0"
proof -
  have "vs_file s = write_at 0 (bytes_of_header (make_header crc d 0)) (set_len (HEADER_SIZE + max n 1024 * d * 4) [])"
    using assms by (auto simp: new_with_capacity_def result_iff Let_def bind_eq_Some_conv split: if_splits)
  then have "file_header s = make_header crc d 0" by (simp add: file_header_def take_write_at_0 length_bytes_of_header header_roundtrip)
  then show ?thesis by (simp add: hcount_def make_header_fields)
qed

lemma new_log: "wal_open [] = Inr demo_wal" "wal_ops L demo_wal = []" "w_version demo_wal = WAL_VERSION"
    "take WAL_HEADER_SIZE (w_file demo_wal) = header_bytes WAL_VERSION" "wal_clean L demo_wal"
  using wal_clear_clean [of L demo_wal] by (simp_all add: wal_open_def demo_wal_def wal_clear_def WAL_HEADER_SIZE_def header_bytes_parts)

lemma new_snapshot: "codec_ok C \<Longrightarrow> snap_ok C demo_ms 0" "rec_view demo_ms = Map.empty" "la_of demo_ms = 0"
  by (simp_all add: snap_ok_def ms_inv_def synced_def demo_ms_def empty_db_def rec_view_def fun_eq_iff la_of_def last_applied_seq_def load_meta_def)

lemma new_disk_holds:
  assumes "lib_ok L" "store_fits L c"
  shows "disk_holds L c new_disk Map.empty Map.empty"
proof -
  let ?crc = "crc32 (el_wal L)" and ?d = "cfg_dimension (st_segments c)"
  obtain s where s: "new_with_capacity ?crc ?d (st_initial_capacity c) = Inr s" and d: "?d < 2 ^ 32" using assms(2) by (auto simp: store_fits_def)
  note v = vs_new_ok [OF s d] new_hcount [OF s]
  have "log_ok ?crc demo_ms s (wal_ops (el_wal L) demo_wal) Map.empty"
    by (simp add: log_ok_def new_log new_snapshot)
  then have "disk_inv (el_wal L) (el_codec L) ?d (st_initial_capacity c) new_disk Map.empty"
    unfolding disk_inv_def using assms(1) v s new_log new_snapshot(1) demo_ms_open [of "el_codec L" "[]"]
    by (auto simp: new_disk_def vs_open_def lib_ok_def)
  then show ?thesis by (simp add: disk_holds_def unique_ids_def)
qed

lemma other_fields_inv:
  "eng_inv L lost (bump_access_by_id now i e) = eng_inv L lost e" "eng_inv L lost (reinforce_graph_ids now is e) = eng_inv L lost e"
  "en_vectors (bump_access_by_id now i e) = en_vectors e" "en_vectors (reinforce_graph_ids now is e) = en_vectors e"
  "eng_inv L lost (e\<lparr>en_text_index := t\<rparr>) = eng_inv L lost e"
  by (simp_all add: eng_inv_def eng_dur_def eng_idx_def eng_seg_def bump_access_by_id_def bump_access_def reinforce_graph_ids_def split: option.split)

lemma segments_inv:
  "eng_inv L lost e \<Longrightarrow> holder_inv h \<and> listed h = listed (en_segments e) \<Longrightarrow> eng_inv L lost (e\<lparr>en_budget := b, en_segments := h\<rparr>)"
  by (simp add: eng_inv_def eng_dur_def eng_idx_def eng_seg_def)

lemma jobs_inv:
  assumes "eng_inv L lost e"
  shows "process_one_seal senv (en_vectors e) (en_budget e) (en_segments e) = (r, b, h) \<Longrightarrow> eng_inv L lost (e\<lparr>en_budget := b, en_segments := h\<rparr>)"
    "process_one_merge menv (en_vectors e) (en_budget e) pend (en_segments e) = (r, b, pend', h) \<Longrightarrow> eng_inv L lost (e\<lparr>en_budget := b, en_segments := h\<rparr>)"
proof -
  have i: "holder_inv (en_segments e)" "all_stored (en_vectors e) (listed (en_segments e)) \<or> \<not> vs_mapped (en_vectors e)"
    using assms all_stored_listed by (auto simp: eng_inv_def eng_seg_def)
  show "process_one_seal senv (en_vectors e) (en_budget e) (en_segments e) = (r, b, h) \<Longrightarrow> eng_inv L lost (e\<lparr>en_budget := b, en_segments := h\<rparr>)"
    using segments_inv [OF assms] process_one_seal_ok [OF i(1)] process_one_seal_unmapped [OF i(1)] i(2) by blast
  show "process_one_merge menv (en_vectors e) (en_budget e) pend (en_segments e) = (r, b, pend', h) \<Longrightarrow> eng_inv L lost (e\<lparr>en_budget := b, en_segments := h\<rparr>)"
    using segments_inv [OF assms] process_one_merge_ok [OF i] by blast
qed

lemma kill_vectors_holds:
  assumes inv: "eng_inv L lost e" "vs_dim (en_vectors e) = cfg_dimension (st_segments c)"
    and fr: "vs_frame (crc32 (el_wal L)) {off. ms_next_offset (en_meta e) \<le> off} (en_vectors e) vs"
  shows "disk_holds L c (disk_of (en_meta e) vs (en_wal e)) (rec_view (en_meta e)) (vs_stored vs)"
proof -
  have d: "eng_dur L e" "eng_idx L e" using inv(1) by (simp_all add: eng_inv_def)
  have "dur_inv (el_wal L) (el_codec L) (en_meta e) vs (en_wal e) (rec_view (en_meta e))"
    by (rule dur_inv_frame [OF eng_dur_E [OF d(1)] fr]) auto
  from dur_inv_disk [OF this] have "st_disk_inv L c (disk_of (en_meta e) vs (en_wal e)) (rec_view (en_meta e))"
    using fr inv(2) by (simp add: vs_frame_def)
  then show ?thesis
    by (rule disk_of_holds [OF _ unique_ids_inv [OF d(2)]]) (use fr inv(2) live_frame [OF d(1) fr] in \<open>auto simp: vs_frame_def\<close>)
qed

lemma flush_torn:
  assumes "fe_clear fenv = HeaderTorn n" "engine_flush L fenv e = (r, e')"
  shows "\<exists>r' w. engine_flush L (fenv\<lparr>fe_clear := ClearSyncFails\<rparr>) e = (r', e'\<lparr>en_wal := w\<rparr>) \<and> torn_header (engine_disk (e'\<lparr>en_wal := w\<rparr>)) (engine_disk e')"
proof -
  let ?f = "fenv\<lparr>fe_clear := ClearSyncFails\<rparr>"
  have same: "e'\<lparr>en_wal := en_wal e'\<rparr> = e'" "torn_header D D" for e' :: engine and D by (simp_all add: torn_header_def)
  have rest: "\<exists>r' w. flush_rest L ?f x = (r', y\<lparr>en_wal := w\<rparr>) \<and> torn_header (engine_disk (y\<lparr>en_wal := w\<rparr>)) (engine_disk y) \<and> (r' = q \<or> (\<exists>er. q = Inl er) \<and> (\<exists>er. r' = Inl er))"
    if run: "flush_rest L fenv x = (q, y)" for x y q
  proof (cases "\<exists>z. flush_rest L fenv x = (Inl Io, z\<lparr>en_wal := (en_wal z)\<lparr>w_file := take n (header_bytes WAL_VERSION), w_pos := min n WAL_HEADER_SIZE\<rparr>\<rparr>) \<and>
      flush_rest L ?f x = (Inl Io, z\<lparr>en_wal := (wal_clear (en_wal z))\<lparr>w_version := w_version (en_wal z)\<rparr>\<rparr>)")
    case True
    then obtain z where z: "y = z\<lparr>en_wal := (en_wal z)\<lparr>w_file := take n (header_bytes WAL_VERSION), w_pos := min n WAL_HEADER_SIZE\<rparr>\<rparr>" "q = Inl Io"
      "flush_rest L ?f x = (Inl Io, z\<lparr>en_wal := (wal_clear (en_wal z))\<lparr>w_version := w_version (en_wal z)\<rparr>\<rparr>)" using run by auto
    then show ?thesis by (intro exI [of _ "Inl Io"] exI [of _ "(wal_clear (en_wal z))\<lparr>w_version := w_version (en_wal z)\<rparr>"])
      (auto simp: torn_header_def engine_disk_def disk_of_def wal_clear_def)
  next
    case False
    then have "flush_rest L ?f x = (q, y)" using run assms(1) by (auto simp: flush_rest_def clear_log_def split: prod.splits sum.splits)
    then show ?thesis using same by metis
  qed
  have "flush_build ?f e = flush_build fenv e" by (simp add: flush_build_def)
  then obtain se e1 where b: "flush_build fenv e = (se, e1)" "flush_build ?f e = (se, e1)" by (metis surj_pair)
  have "flush_snapshot L ?f e1 = flush_snapshot L fenv e1" by (simp add: flush_snapshot_def Let_def cong: sum.case_cong prod.case_cong if_cong)
  then obtain rs e2 where s: "flush_snapshot L fenv e1 = (rs, e2)" "flush_snapshot L ?f e1 = (rs, e2)" by (metis surj_pair)
  show ?thesis
  proof (cases rs)
    case (Inl er)
    then have "engine_flush L ?f e = (r, e'\<lparr>en_wal := en_wal e'\<rparr>)" using assms(2) b s same by (auto simp: engine_flush_def)
    then show ?thesis using same by metis
  next
    case (Inr u)
    obtain q y where q: "flush_rest L fenv e2 = (q, y)" by fastforce
    from rest [OF q] obtain r' w where w: "flush_rest L ?f e2 = (r', y\<lparr>en_wal := w\<rparr>)" "torn_header (engine_disk (y\<lparr>en_wal := w\<rparr>)) (engine_disk y)" by blast
    have "e' = y" using assms(2) b s q Inr by (auto simp: engine_flush_def split: sum.splits option.splits)
    then show ?thesis using b s w Inr by (auto simp: engine_flush_def split: sum.split option.split)
  qed
qed

lemma kill_flush_holds:
  assumes inv: "eng_inv L lost e" "vs_dim (en_vectors e) = cfg_dimension (st_segments c)" and run: "engine_flush L fenv e = (u, e')"
  shows "\<exists>R V. disk_holds L c (engine_disk e') R V"
proof -
  have holds: "\<exists>R V. disk_holds L c (engine_disk y) R V" if "engine_flush L env e = (r, y)" "\<not> torn_clear (fe_clear env)" for env r y
    using kill_holds [OF flush_inv [OF inv(1) that]] flush_effect(2) [OF inv(1) that] inv(2) by auto
  show ?thesis
  proof (cases "torn_clear (fe_clear fenv)")
    case True
    then obtain n where "fe_clear fenv = HeaderTorn n" by (auto simp: torn_clear_def)
    from flush_torn [OF this run] show ?thesis using holds [of "fenv\<lparr>fe_clear := ClearSyncFails\<rparr>"] torn_holds by (fastforce simp: torn_clear_def)
  qed (rule holds [OF run])
qed

lemma reach_inv:
  assumes "reach L c x" "lib_ok L" "store_fits L c"
  shows "sys_inv L c x"
  using assms(1)
proof (induction rule: reach.induct)
  case reach_new
  then show ?case using new_disk_holds [OF assms(2,3)] by auto
next
  case (reach_open D oenv renv e D')
  then show ?case using holds_open(2) by fastforce
next
  case (reach_open_fails D oenv renv er D')
  then show ?case using holds_open(1) by fastforce
next
  case (reach_insert lost e env inp r e')
  then show ?case using insert_inv [of L lost e env inp r e'] insert_effect(2) [of L lost e env inp r e'] by (simp add: write_allowed_def)
next
  case (reach_batch lost e env b r' e')
  then show ?case using batch_inv [of L lost e env b r' e'] batch_effect(2) [of L lost e env b r' e'] by (simp add: write_allowed_def)
next
  case (reach_update lost e env inp r e')
  then show ?case using update_inv [of L lost e env inp r e'] update_effect(2) [of L lost e env inp r e'] by (simp add: write_allowed_def)
next
  case (reach_delete lost e env i matches r e')
  then show ?case using delete_inv [of L lost e env i matches r e'] delete_effect(2) [of L lost e env i matches r e'] by (simp add: write_allowed_def)
next
  case (reach_flush lost e fenv u e')
  then show ?case using flush_inv [of L lost e fenv u e'] flush_effect(2) [of L lost e fenv u e'] by simp
next
  case (reach_kill_flush lost e fenv u e')
  then show ?case using kill_flush_holds [of L lost e c fenv u e'] by auto
next
  case (reach_seal_job lost e senv d b' h')
  then show ?case using jobs_inv(1) [of L lost e senv d b' h'] by simp
next
  case (reach_merge_job lost e menv pend d b' pend' h')
  then show ?case using jobs_inv(2) [of L lost e menv pend d b' pend' h'] by simp
next
  case (reach_kill lost e)
  then show ?case using kill_holds by fastforce
next
  case (reach_kill_vectors lost e vs)
  then show ?case using kill_vectors_holds [of L lost e c vs] by auto
next
  case (reach_kill_insert lost e ps env rs n D)
  then show ?case using killed_insert [of L lost e c ps env rs n D] by auto
next
  case (reach_kill_update lost e p old env rs n D)
  then show ?case using killed_update [of L lost e c p "pr_id p" old env rs n D] by auto
next
  case (reach_kill_delete lost e i old env n D)
  then show ?case using killed_delete [of L lost e c i old env n D] by auto
qed (simp_all add: other_fields_inv)

end
