(* ===== verification/Engine_Guarantees.thy ===== *)
theory Engine_Guarantees
  imports Engine_System "HOL-Library.Countable"
begin

text \<open>
  What the storage engine guarantees to its callers, over every history of the system: durability
  and crash atomicity of the writes, the effect of each write on the stored records, and the
  exactness of the indexes that searches and reads use.
\<close>

section \<open>Facts about reachable engines\<close>

lemma running_inv:
  assumes "lib_ok L" "store_fits L c" "reach L c (Running lost e)"
  shows "eng_inv L lost e" "vs_dim (en_vectors e) = cfg_dimension (st_segments c)" "eng_dur L e" "eng_idx L e" "eng_seg lost e"
  using reach_inv [OF assms(3,1,2)] by (simp_all add: eng_inv_def)

lemma find_stored:
  assumes "eng_dur L e" "vs_mapped (en_vectors e)"
  shows "map_option entry_of (find_record_by_id i e) = stored e i"
proof -
  have v: "vs_stored (en_vectors e) off = vs_get (en_vectors e) off" for off using assms(2) by (simp add: vs_stored_def vs_get_def Let_def)
  have "map_option entry_of (get_record e off) = cell e off" for off
    by (cases "ms_get (en_meta e) off")
      (auto simp: get_record_def cell_def rec_view_def ms_get_def v entry_of_def option.map_comp comp_def)
  then show ?thesis by (cases "fmlookup (en_id_index e) i") (simp_all add: find_record_by_id_def stored_def)
qed

lemma contains_stored:
  assumes "eng_dur L e" "eng_idx L e"
  shows "contains_id i e \<longleftrightarrow> stored e i \<noteq> None"
proof
  assume "contains_id i e"
  then obtain off where off: "fmlookup (en_id_index e) i = Some off" by (auto simp: contains_id_def fmlookup_dom_iff)
  then obtain m where "rec_view (en_meta e) off = Some m" using ids_live [OF assms(2)] by (force simp: rec_view_def)
  then show "stored e i \<noteq> None" using cell_live [OF assms(1)] off by (auto simp: stored_def)
next
  assume "stored e i \<noteq> None"
  then show "contains_id i e" by (auto simp: stored_def contains_id_def bind_eq_Some_conv fmlookup_dom_iff)
qed

text \<open>An insert into a slot that exists, with no operation failing, succeeds.\<close>

lemma insert_succeeds:
  assumes inv: "eng_inv L lost e" and rm: "room (en_meta e) 1" and p: "prepare_in L e inp = Inr p" and new: "\<not> contains_id (wi_id inp) e"
    and pay: "payload_agrees L inp"
    and vs: "vs_mapped (en_vectors e)" "unat (ms_next_offset (en_meta e)) < vs_slots (en_vectors e)" "vs_dim (en_vectors e) = en_dim e"
    and env: "\<not> en_sync_writes e" "we_text env = None"
    and log: "append_batch (el_wal L) (we_append env) [insert_op L (ms_next_offset (en_meta e), into_record (we_now env 0) p (ms_next_seq (en_meta e)))] (en_wal e) = (Inr (), w)"
  shows "fst (insert_with_payload_role L env inp e) = Inr True"
proof -
  let ?off = "ms_next_offset (en_meta e)" and ?x = "into_record (we_now env 0) p (ms_next_seq (en_meta e))"
  let ?ms = "(en_meta e)\<lparr>ms_next_offset := ?off + 1, ms_next_seq := ms_next_seq (en_meta e) + 1\<rparr>"
  have d: "eng_dur L e" "eng_idx L e" "eng_seg lost e" using inv by (simp_all add: eng_inv_def)
  have ok: "vs_ok (crc32 (el_wal L)) (en_vectors e)" using dur_inv_facts(1) [OF eng_dur_E [OF d(1)]] vs(1) by (simp add: vs_ok_wf)
  have len: "length (pr_embedding p) = en_dim e"
    using p length_normalize by (auto simp: prepare_def result_iff core_result_def validate_dimension_def split: if_splits sum.splits)
  then have "length (r_embedding ?x) = vs_dim (en_vectors e)" using vs(3) by (simp add: into_record_def)
  from vs_put_in_range [OF ok vs(2) this] obtain vs' where
    put: "vs_put (crc32 (el_wal L)) (we_grow env 0) (en_vectors e) ?off (r_embedding ?x) = (Inr (), vs')" by blast
  let ?e = "e\<lparr>en_meta := ?ms, en_vectors := vs', en_wal := w\<rparr>"
  have pa: "parses (el_json L) (r_payload ?x)" using prepare_Inr(3) [OF p pay] by (simp add: into_record_def)
  have "fst (apply_batch L env [(?off, ?x)] ?e) = Inr ()"
  proof -
    obtain pi where pi: "pi_add (el_json L) ?off (r_payload ?x) (en_payload_index e) = (Inr (), pi)"
      using pi_add_parses [OF pa] by (metis prod.collapse)
    have hi: "holder_inv (en_segments e)" using d(3) by (simp add: eng_seg_def)
    then have "hs_dim (the_hot (en_segments e)) = length (r_embedding ?x)" using len by (simp add: holder_inv_def hot_mirror_def into_record_def)
    then obtain full h where "holder_insert ?off ?x (en_segments e) = (Inr full, h)"
      by (simp add: holder_insert_def hot_insert_def validate_dimension_def)
    then show ?thesis using pi env(2) by (simp add: apply_batch_def Let_def ti_add_batch_def)
  qed
  then obtain e' where ab: "apply_batch L env [(?off, ?x)] ?e = (Inr (), e')" by (metis prod.collapse)
  have nid: "wi_id inp |\<notin>| fmdom (en_id_index e)" using new by (simp add: contains_id_def)
  have c: "commit_path L env [(?off, ?x)] (map (insert_op L) [(?off, ?x)]) (\<lambda>e. e) ?ms e = (Inr (), e')"
    using put env(1) log ab by (simp add: commit_path_def sync_vectors_if_configured_def log_ops_def)
  have "insert_with_payload_role L env inp e = answer True (commit_path L env [(?off, ?x)] (map (insert_op L) [(?off, ?x)]) (\<lambda>e. e) ?ms e)"
    unfolding insert_as_commit allocate_single p using nid by simp
  then show ?thesis unfolding c by simp
qed

text \<open>Applying a batch keeps the configuration of the segments.\<close>

lemma apply_batch_config:
  assumes "apply_batch L env rs e = (r, e')" "holder_inv (en_segments e)"
  shows "sh_config (en_segments e') = sh_config (en_segments e)"
proof -
  have seg: "sh_config h' = sh_config h" if "apply_segments rs ns h = (q, h')" "holder_inv h" for rs ns h q h'
    using that
  proof (induction rs ns h rule: apply_segments.induct)
    case (2 off x rs ns h)
    obtain q1 h1 where i: "holder_insert off x h = (q1, h1)" by fastforce
    have "holder_inv h1" "sh_config h1 = sh_config h" using holder_insert_ok [OF _ _ i] 2(3) by (auto simp: holder_inv_def)
    then show ?case using 2 i by (cases q1) auto
  qed simp
  have sealed: "sh_config (seal_hot h) = sh_config h" if "holder_inv h" for h using seal_hot_ok that by (simp add: holder_inv_def)
  obtain q e2 where i: "apply_indexes L rs (e\<lparr>en_meta := put_batch rs (en_meta e)\<rparr>) = (q, e2)" by fastforce
  have e2: "en_segments e2 = en_segments e" using apply_indexes_frame [OF i] by auto
  obtain q3 h3 where s: "apply_segments rs False (en_segments e) = (q3, h3)" by fastforce
  have "sh_config h3 = sh_config (en_segments e)" "sh_config (seal_hot h3) = sh_config (en_segments e)"
    using seg [OF s assms(2)] sealed apply_segments_ok [OF assms(2) s] by simp_all
  then show ?thesis using assms(1) i e2 s by (auto simp: apply_batch_def Let_def split: sum.splits prod.splits if_splits)
qed

section \<open>An example store\<close>

text \<open>A store of dimension one on a new directory. Its codecs know the record that \<open>demo_input\<close>
  writes first and the one that updates it.\<close>

definition demo_input :: write_input where
  "demo_input = \<lparr>wi_id = ''a'', wi_text = ''tea'', wi_embedding = [f32_one], wi_importance = f32_one, wi_concepts = [],
     wi_payload = None, wi_scope = Some ''s'', wi_source_role = None\<rparr>"

definition demo_batch :: batch_input where
  "demo_batch = \<lparr>bi_ids = [''a''], bi_texts = [''tea''], bi_embeddings = [[f32_one]], bi_importances = [f32_one], bi_concepts = [[]],
     bi_payloads = [], bi_scopes = [Some ''s''], bi_source_roles = []\<rparr>"

lemma demo_batch_item: "map (batch_item demo_batch) [0..<length (bi_ids demo_batch)] = [demo_input]" "i < length (bi_ids demo_batch) \<Longrightarrow> batch_item demo_batch i = demo_input"
  by (simp_all add: demo_batch_def batch_item_def demo_input_def get_flat_def)

definition demo_vector :: "f32 list" where
  "demo_vector = (case normalize [f32_one] of Inr v \<Rightarrow> v | Inl er \<Rightarrow> [])"

definition demo_prepared :: prepared_record where
  "demo_prepared = \<lparr>pr_id = ''a'', pr_text = ''tea'', pr_embedding = demo_vector, pr_importance = f32_one, pr_concepts = [],
     pr_payload = None, pr_scope = Some ''s'', pr_source_role = None\<rparr>"

definition demo_record :: mem_record where
  "demo_record = into_record 7 demo_prepared 1"

definition demo_insert_op :: wal_op where
  "demo_insert_op = Insert 0 1 (meta_of_record demo_record) (Some 4)"

definition demo_replace_op :: wal_op where
  "demo_replace_op = Replace 0 1 2 (meta_of_record (into_record 7 demo_prepared 2)) 4"

definition demo_oplog :: wal_lib where
  "demo_oplog = demo_lib\<lparr>
     ser_op := (\<lambda>op. if op = demo_insert_op then Some [3] else if op = demo_replace_op then Some [4] else ser_op demo_lib op),
     de_op := (\<lambda>bs. if bs = [3] then Some demo_insert_op else if bs = [4] then Some demo_replace_op else de_op demo_lib bs)\<rparr>"

text \<open>A codec that encodes every record and every ring: the number of a value, in unary.\<close>

type_synonym meta_fields = "string \<times> string \<times> f32 \<times> string list \<times> u64 \<times> u64 \<times> u64 \<times> u64 \<times> nat \<times> string option \<times> string option \<times> string option"

definition meta_key :: "meta_record \<Rightarrow> meta_fields" where
  "meta_key m = (m_id m, m_text m, m_importance m, m_concepts m, m_created_at m, m_insert_seq m, m_access_count m, m_last_accessed m,
     case m_tier m of Hot \<Rightarrow> 0 | Warm \<Rightarrow> 1 | Cold \<Rightarrow> 2, m_payload m, m_scope m, m_source_role m)"

definition meta_of_key :: "meta_fields \<Rightarrow> meta_record" where
  "meta_of_key = (\<lambda>(i, x, im, cs, ca, sq, ac, la, t, p, s, r). \<lparr>m_id = i, m_text = x, m_importance = im, m_concepts = cs, m_created_at = ca,
     m_insert_seq = sq, m_access_count = ac, m_last_accessed = la, m_tier = (if t = 0 then Hot else if t = 1 then Warm else Cold),
     m_payload = p, m_scope = s, m_source_role = r\<rparr>)"

lemma meta_key_inv [simp]: "meta_of_key (meta_key m) = m"
  by (cases m; cases "m_tier m") (simp_all add: meta_key_def meta_of_key_def)

definition unary :: "'a::countable \<Rightarrow> bytes" where
  "unary x = replicate (to_nat x) 0"

definition demo_metas :: meta_codec where
  "demo_metas = \<lparr>ser_meta = (\<lambda>m. Some (unary (meta_key m))), de_meta = (\<lambda>bs. Some (meta_of_key (from_nat (length bs)))),
     ser_ring = (\<lambda>r. Some (unary r)), de_ring = (\<lambda>bs. Some (from_nat (length bs)))\<rparr>"

lemma demo_metas_ok: "codec_ok demo_metas" "encodes_all demo_metas"
  by (auto simp: codec_ok_def encodes_all_def demo_metas_def unary_def)

definition demo_engine_lib :: engine_lib where
  "demo_engine_lib = \<lparr>el_wal = demo_oplog, el_codec = demo_metas, el_json = demo_json, el_ignored_any = (\<lambda>s. s \<noteq> []),
     el_merge_concepts = (\<lambda>cs text v. cs), el_lower = (\<lambda>s. s), el_words = (\<lambda>s. [s]), el_snap = demo_snap_codec, el_graph_json = (\<lambda>bs. None)\<rparr>"

definition demo_spreading :: spreading_config where
  "demo_spreading = \<lparr>sc_semantic_alpha = f32_one, sc_lexical_alpha = f32_one, sc_decay = f32_one, sc_iterations = 1,
     sc_seed_hops_from = 1, sc_expansion_max_candidates = 1, sc_concept_expansion = False\<rparr>"

definition demo_store :: store_config where
  "demo_store = \<lparr>st_segments = demo_cfg, st_initial_capacity = 0, st_warm_quantizer = Scalar 8, st_cold_quantizer = Sign,
     st_sync_writes = False, st_actr_history = 4, st_max_builds = 1, st_max_build_memory = None, st_spreading = demo_spreading\<rparr>"

definition demo_open :: open_env where
  "demo_open = \<lparr>oe_db_ok = True, oe_truncate = TruncateOk, oe_vsync_ok = True, oe_txn = TxnOk, oe_fsync_ok = True, oe_clear = ClearOk\<rparr>"

definition demo_rebuild :: rebuild_env where
  "demo_rebuild = \<lparr>re_order = (\<lambda>rs. rs), re_stale_order = (\<lambda>is. is), re_text_open = Created, re_text_old = [], re_text_refused = (\<lambda>i. False),
     re_text_commit = CommitOk, re_ccs = (\<lambda>s. None), re_sealed = NoDir, re_warm = NoDir, re_cold = NoDir, re_names = (\<lambda>tier. None)\<rparr>"

definition demo_write :: write_env where
  "demo_write = \<lparr>we_now = (\<lambda>i. 7), we_grow = (\<lambda>i. GrowOk), we_vsync_ok = True, we_append = WriteOk, we_fsync_ok = True, we_text = None\<rparr>"

abbreviation demo_count :: "bytes \<Rightarrow> u32" where
  "demo_count \<equiv> crc32 (el_wal demo_engine_lib)"

lemma demo_lib_good: "lib_ok demo_engine_lib"
proof -
  have "bincode_ok demo_oplog"
    using demo_lib_ok by (auto simp: bincode_ok_def demo_oplog_def) (auto simp: demo_lib_def demo_insert_op_def demo_replace_op_def split: wal_op.splits)
  then show ?thesis using demo_metas_ok by (simp add: lib_ok_def demo_engine_lib_def)
qed

lemma demo_fits: "store_fits demo_engine_lib demo_store"
  by (simp add: store_fits_def demo_store_def demo_cfg_def new_with_capacity_def Let_def checked_mul_def checked_add_def usize_max_def HEADER_SIZE_def)

lemma demo_allowed: "open_allowed demo_rebuild r"
  by (simp add: open_allowed_def demo_rebuild_def orders_ok_def segs_stored_def loaded_offsets_def loaded_from_def)

lemma demo_good: "good_rebuild demo_rebuild" "check_quantizers demo_store = Inr ()"
  by (simp_all add: good_rebuild_def demo_rebuild_def check_quantizers_def demo_store_def)

lemma demo_opens: "nothing_fails demo_engine_lib demo_store demo_open demo_rebuild"
  using demo_good demo_metas_ok(2) by (simp add: nothing_fails_def good_open_def demo_open_def demo_engine_lib_def)

text \<open>Opening a directory that has no files.\<close>

lemma open_new:
  assumes "lib_ok L" "store_fits L c" "oe_db_ok oenv" "good_rebuild renv" "check_quantizers c = Inr ()"
  shows "\<exists>e s rep. new_with_capacity (crc32 (el_wal L)) (cfg_dimension (st_segments c)) (st_initial_capacity c) = Inr s \<and>
     engine_open L c oenv renv new_disk = (Inr e, disk_of demo_ms s demo_wal) \<and> rebuild_engine L c renv (demo_ms, s, demo_wal, rep) = Inr e"
proof -
  let ?crc = "crc32 (el_wal L)" and ?d = "cfg_dimension (st_segments c)"
  obtain s where s: "new_with_capacity ?crc ?d (st_initial_capacity c) = Inr s" and d: "?d < 2 ^ 32" using assms(2) by (auto simp: store_fits_def)
  note v = vs_new_ok [OF s d]
  let ?p = "replay_log (el_wal L) demo_ms s demo_wal"
  have cl: "discarded_bytes (snd (read_all (el_wal L) (w_file demo_wal) (wal_iter_new demo_wal))) = 0"
  proof -
    have c: "wal_clean (el_wal L) demo_wal" by (rule new_log)
    then have "WAL_HEADER_SIZE \<le> length (w_file demo_wal)" by (simp add: wal_clean_def)
    from wal_read_end [OF this, of "el_wal L"] show ?thesis using c by (simp add: discarded_bytes_def wal_valid_end_def wal_clean_def)
  qed
  have p: "rp_meta ?p = demo_ms" "rp_vectors ?p = s" "\<not> rp_replayed ?p" by (simp_all add: replay_log_def new_log)
  have "finish_open (el_wal L) (el_codec L) oenv (is_fresh demo_ms) (vs_count s) ?p demo_wal = (Inr (demo_ms, s, demo_wal, rp_report ?p), disk_of demo_ms s demo_wal)"
    using p v(2) by (simp add: finish_open_def needs_upgrade_def new_log Let_def check_vectors_def max_live_offset_def demo_ms_def)
  then have "open_durable (el_wal L) (el_codec L) [] ?d (st_initial_capacity c) oenv new_disk = (Inr (demo_ms, s, demo_wal, rp_report ?p), disk_of demo_ms s demo_wal)"
    using assms(3) demo_ms_open [of "el_codec L" "[]"] s new_log(1) cl by (simp add: open_durable_def new_disk_def vs_open_def Let_def)
  moreover obtain e where "rebuild_engine L c renv (demo_ms, s, demo_wal, rp_report ?p) = Inr e"
    using rebuild_succeeds [OF assms(4)] v(1,3) vs_ok_wf by blast
  ultimately show ?thesis using s assms(5) by (auto simp: engine_open_def)
qed

lemma demo_normalize: "normalize [f32_one] = Inr demo_vector" "length demo_vector = 1"
proof -
  have "list_all f32_is_finite [f32_one]" "\<not> list_all is_zero32 [f32_one]"
    by (simp_all add: f32_is_finite_def finite_pat_def mag_of_def f32_one_def is_zero32_def)
  with normalize_finite_cases obtain w where w: "normalize [f32_one] = Inr w" by blast
  then show "normalize [f32_one] = Inr demo_vector" by (simp add: demo_vector_def)
  then show "length demo_vector = 1" using length_normalize by fastforce
qed

lemma demo_prepare:
  assumes "en_dim e = 1"
  shows "prepare_in demo_engine_lib e demo_input = Inr demo_prepared"
proof -
  have f: "f32_is_finite f32_one" by (simp add: f32_is_finite_def finite_pat_def mag_of_def f32_one_def)
  show ?thesis using assms demo_normalize f by (simp add: prepare_def demo_input_def demo_prepared_def validate_dimension_def core_result_def demo_engine_lib_def)
qed

text \<open>The store just opened, and after its first insert.\<close>

lemma demo_states:
  obtains e where "reach demo_engine_lib demo_store (Running {} e)" "stored e = Map.empty" "en_meta e = demo_ms" "\<not> en_sync_writes e"
    "fst (insert_with_payload_role demo_engine_lib demo_write demo_input e) = Inr True" "prepare_in demo_engine_lib e demo_input = Inr demo_prepared"
    "vs_ok demo_count (en_vectors e)" "1024 \<le> vs_slots (en_vectors e)" "en_dim e = 1"
proof -
  let ?L = demo_engine_lib and ?c = demo_store
  have db: "oe_db_ok demo_open" by (simp add: demo_open_def)
  obtain e s rep where s: "new_with_capacity (crc32 (el_wal ?L)) (cfg_dimension (st_segments ?c)) (st_initial_capacity ?c) = Inr s"
    and op: "engine_open ?L ?c demo_open demo_rebuild new_disk = (Inr e, disk_of demo_ms s demo_wal)"
    and rb: "rebuild_engine ?L ?c demo_rebuild (demo_ms, s, demo_wal, rep) = Inr e"
    using open_new [OF demo_lib_good demo_fits db demo_good] by blast
  have r: "reach ?L ?c (Running {} e)" by (rule reach_open [OF reach_new op demo_allowed])
  note inv = running_inv [OF demo_lib_good demo_fits r]
  have empty: "meta_records demo_rebuild demo_ms = []" by (simp add: meta_records_def demo_rebuild_def table_items_def demo_ms_def)
  have rv: "records_vec s [] = []" "collect_ids [] = fmempty" by (simp_all add: records_vec_def collect_ids_def)
  have e: "en_meta e = demo_ms" "en_vectors e = s" "en_wal e = demo_wal" "en_sync_writes e = st_sync_writes ?c" "en_id_index e = fmempty"
      "sh_config (en_segments e) = st_segments ?c"
    by (rule rebuild_form [OF rb], use load_segments_ok(2) in \<open>simp add: empty rv\<close>)+
  have dim: "en_dim e = 1" using e(6) by (simp add: demo_cfg_def demo_store_def)
  have ns: "\<not> en_sync_writes e" using e(4) by (simp add: demo_store_def)
  have v: "vs_ok (crc32 (el_wal ?L)) s" "vs_dim s = 1" "1024 \<le> vs_slots s"
    using vs_new_ok [OF s] by (simp_all add: demo_store_def demo_cfg_def)
  have crc: "vector_crc (crc32 (el_wal ?L)) demo_vector = 4" by (simp add: demo_normalize vector_crc_def demo_engine_lib_def demo_oplog_def demo_lib_def)
  have io: "insert_op ?L (0, into_record 7 demo_prepared 1) = demo_insert_op"
    using crc by (simp add: insert_op_def demo_insert_op_def demo_record_def into_record_def demo_prepared_def)
  have "\<exists>w. append_batch (el_wal ?L) WriteOk [demo_insert_op] demo_wal = (Inr (), w)"
    by (simp add: append_batch_def needs_upgrade_def new_log write_op_to_buffer_def demo_engine_lib_def demo_oplog_def Let_def)
  then obtain w where w: "append_batch (el_wal ?L) (we_append demo_write) [insert_op ?L (ms_next_offset (en_meta e), into_record (we_now demo_write 0) demo_prepared (ms_next_seq (en_meta e)))] (en_wal e) = (Inr (), w)"
    using e io by (auto simp: demo_write_def demo_ms_def)
  have "fst (insert_with_payload_role ?L demo_write demo_input e) = Inr True"
    by (rule insert_succeeds [OF inv(1) _ demo_prepare [OF dim] _ _ _ _ _ _ _ w])
      (use e v dim ns in \<open>simp_all add: room_def demo_ms_def contains_id_def payload_agrees_def demo_input_def vs_ok_def demo_write_def\<close>)
  moreover have "stored e = Map.empty" using e by (simp add: stored_def fun_eq_iff)
  ultimately show thesis using that [OF r _ e(1) ns _ demo_prepare [OF dim]] v e(2) dim by simp
qed

lemma demo_inserted:
  obtains e where "reach demo_engine_lib demo_store (Running {} e)" "stored e = [''a'' \<mapsto> entry_of demo_record]"
    "ms_next_offset (en_meta e) = 1" "ms_next_seq (en_meta e) = 2" "vs_ok demo_count (en_vectors e)" "1024 \<le> vs_slots (en_vectors e)"
    "fmlookup (en_id_index e) ''a'' = Some 0" "prepare_in demo_engine_lib e demo_input = Inr demo_prepared"
proof -
  obtain e0 where e0: "reach demo_engine_lib demo_store (Running {} e0)" "stored e0 = Map.empty" "en_meta e0 = demo_ms" "\<not> en_sync_writes e0"
      "fst (insert_with_payload_role demo_engine_lib demo_write demo_input e0) = Inr True"
      "prepare_in demo_engine_lib e0 demo_input = Inr demo_prepared" "vs_ok demo_count (en_vectors e0)" "1024 \<le> vs_slots (en_vectors e0)" "en_dim e0 = 1" by (rule demo_states)
  obtain e where run: "insert_with_payload_role demo_engine_lib demo_write demo_input e0 = (Inr True, e)" using e0(5) by (metis prod.collapse)
  have al: "write_allowed demo_write e0 1" "payload_agrees demo_engine_lib demo_input"
    by (simp_all add: write_allowed_def room_def e0(3,4) demo_ms_def payload_agrees_def demo_input_def)
  have r: "reach demo_engine_lib demo_store (Running {} e)"
    using reach_insert [OF e0(1) run al] by (simp add: lost_after_def)
  note inv = running_inv [OF demo_lib_good demo_fits e0(1)]
  have w: "room (en_meta e0) 1" "\<not> en_sync_writes e0 \<or> we_fsync_ok demo_write" using al(1) by (simp_all add: write_allowed_def)
  have "stored e = (stored e0)(wi_id demo_input \<mapsto> new_entry demo_write demo_prepared e0)"
    using insert_effect(1) [OF inv(1) run w al(2)] e0(6) by auto
  moreover have "new_entry demo_write demo_prepared e0 = entry_of demo_record" "wi_id demo_input = ''a''"
    by (simp_all add: new_entry_def demo_write_def e0(3) demo_ms_def demo_record_def demo_input_def)
  ultimately have st: "stored e = [''a'' \<mapsto> entry_of demo_record]" using e0(2) by simp
  obtain ms where al1: "allocate_records (we_now demo_write) [demo_prepared] (en_meta e0) = ([(0, into_record 7 demo_prepared 1)], ms)"
      and ms: "ms_next_offset ms = 1" "ms_next_seq ms = 2"
    unfolding allocate_single by (simp add: e0(3) demo_ms_def demo_write_def)
  have "\<exists>q. (\<exists>er. q = Inl er) = (\<exists>er. (Inr True :: bool result) = Inl er) \<and> commit_path demo_engine_lib demo_write [(0, into_record 7 demo_prepared 1)] (map (insert_op demo_engine_lib) [(0, into_record 7 demo_prepared 1)]) (\<lambda>e. e) ms e0 = (q, e)"
  proof -
    have "wi_id demo_input |\<notin>| fmdom (en_id_index e0)" using contains_stored [OF inv(3,4), of "''a''"] e0(2) by (simp add: contains_id_def demo_input_def)
    then have "answer True (commit_path demo_engine_lib demo_write [(0, into_record 7 demo_prepared 1)] (map (insert_op demo_engine_lib) [(0, into_record 7 demo_prepared 1)]) (\<lambda>e. e) ms e0) = (Inr True, e)"
      using run unfolding insert_as_commit e0(6) al1 sum.case prod.case by simp
    then show ?thesis by (rule answerE) (metis Inl_Inr_False old.sum.exhaust old.unit.exhaust)
  qed
  then obtain q where q: "\<And>er. q \<noteq> Inl er"
    and c: "commit_path demo_engine_lib demo_write [(0, into_record 7 demo_prepared 1)] (map (insert_op demo_engine_lib) [(0, into_record 7 demo_prepared 1)]) (\<lambda>e. e) ms e0 = (q, e)"
    by auto
  have "room (en_meta e0) (length [demo_prepared])" using w by simp
  note a = allocate_ok [OF al1 this, of "el_codec demo_engine_lib"]
  have "en_meta e = put_batch [(0, into_record 7 demo_prepared 1)] ms"
    using commit_effect(2) [OF inv(3) _ _ c w(2) refl] a q by auto
  moreover have "vs_ok demo_count (en_vectors e) \<and> 1024 \<le> vs_slots (en_vectors e) \<and> en_dim e = en_dim e0"
  proof -
    obtain rv vs where v: "put_vectors demo_count (we_grow demo_write) 0 [(0, into_record 7 demo_prepared 1)] (en_vectors e0) = (rv, vs)" by fastforce
    have pos: "w_pos (en_wal e0) = length (w_file (en_wal e0))" by (rule dur_inv_facts(3) [OF eng_dur_E [OF inv(3)]])
    show ?thesis
    proof (cases rule: commit_cases [OF c pos w(2) v])
      case (2 wl)
      have "en_vectors e = vs" using apply_batch_frame(1) [OF 2(3)] by simp
      moreover have "vs_put demo_count (we_grow demo_write 0) (en_vectors e0) 0 (r_embedding (into_record 7 demo_prepared 1)) = (Inr (), vs)"
        using v 2(1) by (auto split: prod.splits sum.splits)
      moreover note vs_put_ok(1) [OF e0(7) this]
      moreover have "vs_slots (en_vectors e0) \<le> vs_slots (en_vectors e)" using commit_effect(1) [OF inv(3) _ _ c w(2) refl] a by (simp add: vs_frame_def)
      moreover have "holder_inv (en_segments e0)" using inv(5) by (simp add: eng_seg_def)
      then have "en_dim e = en_dim e0" using apply_batch_config [OF 2(3)] by simp
      ultimately show ?thesis using e0(8) by simp
    qed (use q in auto)
  qed
  moreover have "fmlookup (en_id_index e) ''a'' = Some 0"
  proof -
    note inv' = running_inv [OF demo_lib_good demo_fits r]
    have "stored e ''a'' \<noteq> None" by (simp add: st)
    then obtain off where off: "fmlookup (en_id_index e) ''a'' = Some off" by (cases "fmlookup (en_id_index e) ''a''") (simp_all add: stored_def)
    then have "rec_view (en_meta e) off \<noteq> None" using ids_live [OF inv'(4)] by (simp add: rec_view_def)
    then have "off < ms_next_offset (en_meta e)" using dur_inv_facts(7) [OF eng_dur_E [OF inv'(3)]] by blast
    then have "off < 1" using calculation ms by simp
    then show ?thesis using off by (simp add: word_less_nat_alt unsigned_eq_0_iff)
  qed
  ultimately show thesis using that [OF r st] ms e0(9) demo_prepare by simp
qed

text \<open>A kill during the log append of a write whose vectors fit and whose entry can be encoded.\<close>

lemma demo_killed:
  assumes "vs_ok demo_count (en_vectors e)" "1024 \<le> vs_slots (en_vectors e)" "w_version (en_wal e) = WAL_VERSION"
    and "\<And>off x. (off, x) \<in> set rs \<Longrightarrow> rs = [(off, x)] \<and> unat off < 1024 \<and> length (r_embedding x) = vs_dim (en_vectors e)"
    and "ser_op demo_oplog op = Some p" "length p < 2 ^ 32"
  shows "\<exists>D. killed_in_append demo_engine_lib demo_write rs [op] (length (w_file (en_wal e))) e = Some D"
proof -
  obtain vs where v: "put_vectors demo_count (we_grow demo_write) 0 rs (en_vectors e) = (Inr (), vs)"
  proof (cases rs)
    case (Cons y ys)
    obtain off x where y: "y = (off, x)" by fastforce
    have "rs = [(off, x)]" "unat off < vs_slots (en_vectors e)" "length (r_embedding x) = vs_dim (en_vectors e)" using assms(2) assms(4) [of off x] Cons y by auto
    then show thesis using that vs_put_in_range [OF assms(1), of off "r_embedding x" "we_grow demo_write 0"] by auto
  qed (use that in simp)
  have "\<exists>w. append_batch (el_wal demo_engine_lib) (we_append demo_write) [op] (en_wal e) = (Inr (), w)"
    using assms(3,5,6) by (simp add: append_batch_def needs_upgrade_def write_op_to_buffer_def demo_engine_lib_def demo_write_def Let_def)
  then show ?thesis using v by (auto simp: killed_in_append_def)
qed

lemma running_log:
  assumes "eng_dur L e"
  shows "w_version (en_wal e) = WAL_VERSION"
  using dur_inv_E [OF eng_dur_E [OF assms]] by (metis run_ok_def wal_clean_def)

lemma demo_write_allowed:
  "unat (ms_next_offset (en_meta e)) \<le> 1 \<Longrightarrow> unat (ms_next_seq (en_meta e)) \<le> 2 \<Longrightarrow> n \<le> 1 \<Longrightarrow> write_allowed demo_write e n"
  by (simp add: write_allowed_def room_def demo_write_def)

lemma demo_payload: "payload_agrees demo_engine_lib demo_input"
  by (simp add: payload_agrees_def demo_input_def)

lemma demo_record_op:
  "insert_op demo_engine_lib (0, into_record 7 demo_prepared 1) = demo_insert_op"
  "replace_op demo_engine_lib 0 1 (into_record 7 demo_prepared 2) = demo_replace_op"
  "length (r_embedding (into_record 7 demo_prepared sq)) = 1"
  by (simp_all add: insert_op_def replace_op_def demo_insert_op_def demo_replace_op_def demo_record_def into_record_def demo_prepared_def
      demo_normalize vector_crc_def demo_engine_lib_def demo_oplog_def demo_lib_def)

lemma demo_fresh_batch:
  assumes "en_meta e = demo_ms" "\<not> contains_id ''a'' e"
  shows "filter (\<lambda>p. \<not> contains_id (pr_id p) e) [demo_prepared] = [demo_prepared]"
    "insert_batch_of demo_engine_lib demo_write [demo_prepared] e = [(0, demo_record)]"
    "batch_entries demo_write [demo_prepared] e = [(''a'', entry_of demo_record)]"
proof -
  show fresh: "filter (\<lambda>p. \<not> contains_id (pr_id p) e) [demo_prepared] = [demo_prepared]" using assms(2) by (simp add: demo_prepared_def)
  show rs: "insert_batch_of demo_engine_lib demo_write [demo_prepared] e = [(0, demo_record)]"
    unfolding insert_batch_of_def allocate_single by (simp add: assms(1) demo_ms_def demo_write_def demo_record_def)
  show "batch_entries demo_write [demo_prepared] e = [(''a'', entry_of demo_record)]"
    using rs unfolding batch_entries_def fresh insert_batch_of_def by (simp add: demo_record_def into_record_def demo_prepared_def)
qed

section \<open>Durability\<close>

text \<open>An open in which no operation fails refuses the files only when they hold no record.\<close>

lemma open_fails:
  assumes "disk_holds L c D R V" "engine_open L c oenv renv D = (r, D')" "r = Inl er" "nothing_fails L c oenv renv"
  shows "R = Map.empty \<and> er = no_records_error"
  using engine_open_succeeds [of L c D R oenv renv] assms by (auto simp: disk_holds_def)

text \<open>C1. The engine recovers what it stored: take any history of opens, inserts, batches, updates,
  deletes, flushes and kills of the step relation, with the file operations it lets fail failing
  anywhere. Kill the engine, let any number of attempts to open the files fail, and open them. If
  the open succeeds, every id has the record it had, up to the access statistics and the tier,
  which are rebuilt, and the same vector, for reads by id too. If the open fails although no file
  operation fails and the codec encodes every record, then the store had no records and the error
  is that the vector file counts vectors without records.\<close>

theorem engine_recovers:
  assumes "lib_ok L" "store_fits L c" "reach L c (Running lost e)" "failed_opens L c (engine_disk e) D"
    and "engine_open L c oenv renv D = (r, D')" "open_allowed renv r"
  shows "case r of
      Inr e' \<Rightarrow> \<forall>i. stored e' i = stored e i \<and> map_option entry_of (find_record_by_id i e') = stored e i
    | Inl er \<Rightarrow> nothing_fails L c oenv renv \<longrightarrow> stored e = Map.empty \<and> er = no_records_error"
proof -
  note inv = running_inv [OF assms(1,2,3)]
  have holds: "disk_holds L c D (rec_view (en_meta e)) (vs_stored (en_vectors e))"
    by (rule holds_failed [OF assms(4) kill_holds [OF inv(1,2)]])
  show ?thesis
  proof (cases r)
    case (Inl er)
    then show ?thesis using open_fails [OF holds assms(5)] no_records by auto
  next
    case (Inr e')
    have o: "eng_inv L {} e'" "vs_mapped (en_vectors e')" "cell e' = cell e"
      using holds_open(2) [OF holds assms(5,6) Inr] by (simp_all add: cell_of_engine)
    then have d: "eng_dur L e'" "eng_idx L e'" by (simp_all add: eng_inv_def)
    have "stored e' = stored e" by (rule stored_same [OF inv(3,4) d]) (simp add: o(3))
    then show ?thesis using find_stored [OF d(1) o(2)] Inr by simp
  qed
qed

theorem engine_recovers_witness:
  "\<exists>e e' D'. reach demo_engine_lib demo_store (Running {} e) \<and> engine_open demo_engine_lib demo_store demo_open demo_rebuild (engine_disk e) = (Inr e', D') \<and>
     stored e' ''a'' = Some (entry_of demo_record)"
proof -
  obtain e where e: "reach demo_engine_lib demo_store (Running {} e)" "stored e = [''a'' \<mapsto> entry_of demo_record]" by (rule demo_inserted)
  obtain r D' where o: "engine_open demo_engine_lib demo_store demo_open demo_rebuild (engine_disk e) = (r, D')" by fastforce
  note rec = engine_recovers [OF demo_lib_good demo_fits e(1) no_attempt o demo_allowed]
  show ?thesis
  proof (cases r)
    case (Inl er)
    then have "stored e = Map.empty" using rec demo_opens by simp
    then show ?thesis using fun_cong [OF e(2), of "''a''"] by simp
  next
    case (Inr e')
    then show ?thesis using rec e o by auto
  qed
qed

text \<open>C3. A killed insert leaves no trace or is whole: kill the engine while it appends the log
  entries of an insert or of a batch, at any byte, and open the files again. The store holds what
  it held, with some first records of the batch in addition (for one record: all of it or
  nothing), each with its vector. The open fails without a failing operation only when the store
  had no records before the write: the vector file, grown for the batch, then counts vectors and
  no log entry may account for them.\<close>

theorem batch_crash_prefix:
  assumes "lib_ok L" "store_fits L c" "reach L c (Running lost e)" "prepare_batch_in L e b = Inr ps"
    and "insert_batch_of L env (filter (\<lambda>p. \<not> contains_id (pr_id p) e) ps) e = rs" "room (en_meta e) (length ps)"
    and "killed_in_append L env rs (map (insert_op L) rs) n e = Some D" "failed_opens L c D D1"
    and "engine_open L c oenv renv D1 = (r, D2)" "open_allowed renv r"
  shows "case r of Inr e' \<Rightarrow> \<exists>k. stored e' = stored e ++ map_of (take k (batch_entries env ps e))
    | Inl er \<Rightarrow> nothing_fails L c oenv renv \<longrightarrow> stored e = Map.empty \<and> er = no_records_error"
proof -
  let ?fresh = "filter (\<lambda>p. \<not> contains_id (pr_id p) e) ps"
  note inv = running_inv [OF assms(1,2,3)]
  have ps: "distinct (map pr_id ?fresh)" "\<And>p. p \<in> set ?fresh \<Longrightarrow> \<not> contains_id (pr_id p) e"
    using prepare_all_props [OF assms(4)] by (auto intro: distinct_map_filter)
  have "length ?fresh \<le> length ps" by simp
  then have "room (en_meta e) (length ?fresh)" using assms(6) unfolding room_def by linarith
  from killed_insert [OF inv(1,2) this ps assms(5,7)] obtain R V k where h: "disk_holds L c D R V" and none: "R = Map.empty \<longrightarrow> stored e = Map.empty"
    and st: "\<And>e'. eng_inv L {} e' \<Longrightarrow> cell e' = cell_of R V \<Longrightarrow> stored e' = stored e ++ map_of (take k (map (\<lambda>(off, x). (r_id x, entry_of x)) rs))" by blast
  have "map (\<lambda>(off, x). (r_id x, entry_of x)) rs = batch_entries env ps e" using assms(5) by (simp add: batch_entries_def insert_batch_of_def)
  moreover have "eng_inv L {} e' \<and> cell e' = cell_of R V" if "r = Inr e'" for e'
    using holds_open(2) [OF holds_failed [OF assms(8) h] assms(9,10) that] by blast
  ultimately show ?thesis using st none open_fails [OF holds_failed [OF assms(8) h] assms(9)] by (cases r) auto
qed

theorem batch_crash_prefix_witness:
  "\<exists>e D r D2. reach demo_engine_lib demo_store (Running {} e) \<and>
     killed_in_append demo_engine_lib demo_write [(0, demo_record)] [demo_insert_op] (length (w_file (en_wal e))) e = Some D \<and>
     engine_open demo_engine_lib demo_store demo_open demo_rebuild D = (r, D2) \<and>
     (case r of Inr e' \<Rightarrow> \<exists>k. stored e' = map_of (take k [(''a'', entry_of demo_record)]) | Inl er \<Rightarrow> er = no_records_error)"
proof -
  obtain e where e: "reach demo_engine_lib demo_store (Running {} e)" "stored e = Map.empty" "en_meta e = demo_ms"
      "prepare_in demo_engine_lib e demo_input = Inr demo_prepared" "vs_ok demo_count (en_vectors e)" "1024 \<le> vs_slots (en_vectors e)"
    by (rule demo_states)
  note inv = running_inv [OF demo_lib_good demo_fits e(1)]
  have b: "prepare_batch_in demo_engine_lib e demo_batch = Inr [demo_prepared]" using e(4) by (simp add: demo_batch_item)
  have new: "\<not> contains_id ''a'' e" using contains_stored [OF inv(3,4), of "''a''"] e(2) by simp
  note fresh = demo_fresh_batch(1) [OF e(3) new] and rs = demo_fresh_batch(2) [OF e(3) new] and en = demo_fresh_batch(3) [OF e(3) new]
  have op: "map (insert_op demo_engine_lib) [(0, demo_record)] = [demo_insert_op]" by (simp add: demo_record_def demo_record_op)
  obtain D where D: "killed_in_append demo_engine_lib demo_write [(0, demo_record)] [demo_insert_op] (length (w_file (en_wal e))) e = Some D"
    using demo_killed [OF e(5,6) running_log [OF inv(3)], of "[(0, demo_record)]" demo_insert_op "[3]"] inv(2)
    by (auto simp: demo_record_def demo_record_op demo_oplog_def demo_store_def demo_cfg_def)
  obtain r D2 where o: "engine_open demo_engine_lib demo_store demo_open demo_rebuild D = (r, D2)" by fastforce
  have rm: "room (en_meta e) (length [demo_prepared])" by (simp add: e(3) room_def demo_ms_def)
  have "case r of Inr e' \<Rightarrow> \<exists>k. stored e' = stored e ++ map_of (take k (batch_entries demo_write [demo_prepared] e))
      | Inl er \<Rightarrow> nothing_fails demo_engine_lib demo_store demo_open demo_rebuild \<longrightarrow> stored e = Map.empty \<and> er = no_records_error"
    by (rule batch_crash_prefix [OF demo_lib_good demo_fits e(1) b _ rm D [folded op] no_attempt o demo_allowed]) (simp only: fresh rs)
  then have "case r of Inr e' \<Rightarrow> \<exists>k. stored e' = map_of (take k [(''a'', entry_of demo_record)]) | Inl er \<Rightarrow> er = no_records_error"
    unfolding en e(2) using demo_opens by (cases r) simp_all
  then show ?thesis using e(1) D o by blast
qed

text \<open>C2. A killed update never loses the record: kill the engine while it appends the log entry of
  an update, at any byte, and open the files again. The id has its old record or the new one, and
  every other record is as it was; when no file operation fails the open succeeds.\<close>

theorem update_crash_atomic:
  assumes "lib_ok L" "store_fits L c" "reach L c (Running lost e)" "prepare_in L e inp = Inr p"
    and "fmlookup (en_id_index e) (wi_id inp) = Some old" "room (en_meta e) 1" "insert_batch_of L env [p] e = rs"
    and "killed_in_append L env rs (map (\<lambda>(off, r). replace_op L old off r) rs) n e = Some D" "failed_opens L c D D1"
    and "engine_open L c oenv renv D1 = (r, D2)" "open_allowed renv r"
  shows "case r of Inr e' \<Rightarrow> stored e' = stored e \<or> stored e' = (stored e)(wi_id inp \<mapsto> new_entry env p e)
    | Inl er \<Rightarrow> \<not> nothing_fails L c oenv renv"
proof -
  note inv = running_inv [OF assms(1,2,3)]
  obtain R V where h: "disk_holds L c D R V" and some: "R \<noteq> Map.empty"
    and st: "\<And>e'. eng_inv L {} e' \<Longrightarrow> cell e' = cell_of R V \<Longrightarrow> stored e' = stored e \<or> stored e' = (stored e)(wi_id inp \<mapsto> new_entry env p e)"
    using killed_update [OF inv(1,2) assms(6) prepare_Inr(1) [OF assms(4)] assms(5,7,8)] by blast
  note h1 = holds_failed [OF assms(9) h]
  show ?thesis using st some holds_open(2) [OF h1 assms(10,11)] open_fails [OF h1 assms(10)] by (cases r) auto
qed

theorem update_crash_atomic_witness:
  "\<exists>e D e' D2. reach demo_engine_lib demo_store (Running {} e) \<and>
     killed_in_append demo_engine_lib demo_write [(1, into_record 7 demo_prepared 2)] [demo_replace_op] (length (w_file (en_wal e))) e = Some D \<and>
     engine_open demo_engine_lib demo_store demo_open demo_rebuild D = (Inr e', D2) \<and>
     (stored e' = [''a'' \<mapsto> entry_of demo_record] \<or> stored e' = [''a'' \<mapsto> entry_of (into_record 7 demo_prepared 2)])"
proof -
  obtain e where e: "reach demo_engine_lib demo_store (Running {} e)" "stored e = [''a'' \<mapsto> entry_of demo_record]" "ms_next_offset (en_meta e) = 1"
      "ms_next_seq (en_meta e) = 2" "vs_ok demo_count (en_vectors e)" "1024 \<le> vs_slots (en_vectors e)" "fmlookup (en_id_index e) ''a'' = Some 0"
      "prepare_in demo_engine_lib e demo_input = Inr demo_prepared"
    by (rule demo_inserted)
  note inv = running_inv [OF demo_lib_good demo_fits e(1)]
  let ?rs = "[(1, into_record 7 demo_prepared 2)]"
  have i: "wi_id demo_input = ''a''" by (simp add: demo_input_def)
  have rs: "insert_batch_of demo_engine_lib demo_write [demo_prepared] e = ?rs"
    unfolding insert_batch_of_def allocate_single by (simp add: e(3,4) demo_write_def)
  have op: "map (\<lambda>(off, r). replace_op demo_engine_lib 0 off r) ?rs = [demo_replace_op]" by (simp add: demo_record_op)
  obtain D where D: "killed_in_append demo_engine_lib demo_write ?rs [demo_replace_op] (length (w_file (en_wal e))) e = Some D"
    using demo_killed [OF e(5,6) running_log [OF inv(3)], of ?rs demo_replace_op "[4]"] inv(2)
    by (auto simp: demo_record_op demo_oplog_def demo_store_def demo_cfg_def demo_insert_op_def demo_replace_op_def)
  obtain r D2 where o: "engine_open demo_engine_lib demo_store demo_open demo_rebuild D = (r, D2)" by fastforce
  have rm: "room (en_meta e) 1" by (simp add: room_def e(3,4))
  have en: "new_entry demo_write demo_prepared e = entry_of (into_record 7 demo_prepared 2)" by (simp add: new_entry_def demo_write_def e(4))
  note D' = D [folded op] and old = e(7) [folded i]
  have "case r of Inr e' \<Rightarrow> stored e' = stored e \<or> stored e' = (stored e)(wi_id demo_input \<mapsto> new_entry demo_write demo_prepared e)
      | Inl er \<Rightarrow> \<not> nothing_fails demo_engine_lib demo_store demo_open demo_rebuild"
    by (rule update_crash_atomic [OF demo_lib_good demo_fits e(1,8) old rm rs D' no_attempt o demo_allowed])
  then obtain e' where "r = Inr e'" "stored e' = [''a'' \<mapsto> entry_of demo_record] \<or> stored e' = [''a'' \<mapsto> entry_of (into_record 7 demo_prepared 2)]"
    unfolding en e(2) i using demo_opens by (cases r) simp_all
  then show ?thesis using e(1) D o by blast
qed

text \<open>C8. A killed delete is whole or absent: kill the engine while it appends the log entry of a
  delete, at any byte, and open the files again. The record is there as it was or gone, and every
  other record is as it was; when no file operation fails the open succeeds, at least if the
  store has another record.\<close>

theorem delete_crash_atomic:
  assumes "lib_ok L" "store_fits L c" "reach L c (Running lost e)" "fmlookup (en_id_index e) i = Some old"
    and "killed_in_append L env [] [Delete old] n e = Some D" "failed_opens L c D D1"
    and "engine_open L c oenv renv D1 = (r, D2)" "open_allowed renv r"
  shows "case r of Inr e' \<Rightarrow> stored e' = stored e \<or> stored e' = (stored e)(i := None)
    | Inl er \<Rightarrow> nothing_fails L c oenv renv \<longrightarrow> dom (stored e) = {i} \<and> er = no_records_error"
proof -
  note inv = running_inv [OF assms(1,2,3)]
  obtain R V where h: "disk_holds L c D R V" and none: "R = Map.empty \<longrightarrow> dom (stored e) = {i}"
    and st: "\<And>e'. eng_inv L {} e' \<Longrightarrow> cell e' = cell_of R V \<Longrightarrow> stored e' = stored e \<or> stored e' = (stored e)(i := None)"
    using killed_delete [OF inv(1,2) assms(4,5)] by blast
  note h1 = holds_failed [OF assms(6) h]
  show ?thesis using st none holds_open(2) [OF h1 assms(7,8)] open_fails [OF h1 assms(7)] by (cases r) auto
qed

theorem delete_crash_atomic_witness:
  "\<exists>e D r D2. reach demo_engine_lib demo_store (Running {} e) \<and>
     killed_in_append demo_engine_lib demo_write [] [Delete 0] (length (w_file (en_wal e))) e = Some D \<and>
     engine_open demo_engine_lib demo_store demo_open demo_rebuild D = (r, D2) \<and>
     (case r of Inr e' \<Rightarrow> stored e' = [''a'' \<mapsto> entry_of demo_record] \<or> stored e' = Map.empty | Inl er \<Rightarrow> er = no_records_error)"
proof -
  obtain e where e: "reach demo_engine_lib demo_store (Running {} e)" "stored e = [''a'' \<mapsto> entry_of demo_record]"
      "vs_ok demo_count (en_vectors e)" "1024 \<le> vs_slots (en_vectors e)" "fmlookup (en_id_index e) ''a'' = Some 0"
    by (rule demo_inserted)
  note inv = running_inv [OF demo_lib_good demo_fits e(1)]
  obtain D where D: "killed_in_append demo_engine_lib demo_write [] [Delete 0] (length (w_file (en_wal e))) e = Some D"
    using demo_killed [OF e(3,4) running_log [OF inv(3)], of "[]" "Delete 0" "1 # u64_to_le_bytes 0"]
    by (auto simp: demo_oplog_def demo_insert_op_def demo_replace_op_def demo_lib_def)
  obtain r D2 where o: "engine_open demo_engine_lib demo_store demo_open demo_rebuild D = (r, D2)" by fastforce
  have "case r of Inr e' \<Rightarrow> stored e' = stored e \<or> stored e' = (stored e)(''a'' := None)
      | Inl er \<Rightarrow> nothing_fails demo_engine_lib demo_store demo_open demo_rebuild \<longrightarrow> dom (stored e) = {''a''} \<and> er = no_records_error"
    by (rule delete_crash_atomic [OF demo_lib_good demo_fits e(1,5) D no_attempt o demo_allowed])
  then have "case r of Inr e' \<Rightarrow> stored e' = [''a'' \<mapsto> entry_of demo_record] \<or> stored e' = Map.empty | Inl er \<Rightarrow> er = no_records_error"
    unfolding e(2) using demo_opens by (cases r) simp_all
  then show ?thesis using e(1) D o by blast
qed

section \<open>Writes\<close>

text \<open>C4. An insert is exact: on success the id was new and now has the prepared record, with its
  normalized vector, and no other record changed. On an error the store is unchanged or has
  exactly that record in addition, the latter when applying the write failed after it was logged.
  An id that exists is refused as a duplicate with the engine unchanged.\<close>

theorem engine_insert_exact:
  assumes "lib_ok L" "store_fits L c" "reach L c (Running lost e)" "insert_with_payload_role L env inp e = (r, e')"
    and "write_allowed env e 1" "payload_agrees L inp"
  shows "(case r of
      Inr b \<Rightarrow> b \<and> stored e (wi_id inp) = None \<and> (\<exists>p. prepare_in L e inp = Inr p \<and> stored e' = (stored e)(wi_id inp \<mapsto> new_entry env p e))
    | Inl er \<Rightarrow> stored e' = stored e \<or> (\<exists>p. prepare_in L e inp = Inr p \<and> stored e (wi_id inp) = None \<and> stored e' = (stored e)(wi_id inp \<mapsto> new_entry env p e))) \<and>
    (stored e (wi_id inp) \<noteq> None \<longrightarrow> (\<exists>p. prepare_in L e inp = Inr p) \<longrightarrow> r = Inl (DuplicateId (wi_id inp)) \<and> e' = e)"
proof -
  note inv = running_inv [OF assms(1,2,3)] and con = contains_stored [OF running_inv(3,4) [OF assms(1,2,3)], of "wi_id inp"]
  have w: "room (en_meta e) 1" "\<not> en_sync_writes e \<or> we_fsync_ok env" using assms(5) by (simp_all add: write_allowed_def)
  have "r = Inl (DuplicateId (wi_id inp)) \<and> e' = e" if "stored e (wi_id inp) \<noteq> None" "prepare_in L e inp = Inr p" for p
    using that con assms(4) unfolding insert_as_commit contains_id_def by simp
  moreover have "case r of
      Inr b \<Rightarrow> b \<and> stored e (wi_id inp) = None \<and> (\<exists>p. prepare_in L e inp = Inr p \<and> stored e' = (stored e)(wi_id inp \<mapsto> new_entry env p e))
    | Inl er \<Rightarrow> stored e' = stored e \<or> (\<exists>p. prepare_in L e inp = Inr p \<and> stored e (wi_id inp) = None \<and> stored e' = (stored e)(wi_id inp \<mapsto> new_entry env p e))"
    using insert_effect(1) [OF inv(1) assms(4) w assms(6)] con by (cases r) auto
  ultimately show ?thesis by blast
qed

theorem engine_insert_exact_witness:
  "\<exists>e e' p. reach demo_engine_lib demo_store (Running {} e) \<and> insert_with_payload_role demo_engine_lib demo_write demo_input e = (Inr True, e') \<and>
     stored e' = [''a'' \<mapsto> new_entry demo_write p e]"
proof -
  obtain e where e: "reach demo_engine_lib demo_store (Running {} e)" "stored e = Map.empty" "en_meta e = demo_ms"
      "fst (insert_with_payload_role demo_engine_lib demo_write demo_input e) = Inr True"
    by (rule demo_states)
  obtain e' where run: "insert_with_payload_role demo_engine_lib demo_write demo_input e = (Inr True, e')" using e(4) by (metis prod.collapse)
  have "write_allowed demo_write e 1" by (rule demo_write_allowed) (simp_all add: e(3) demo_ms_def)
  from engine_insert_exact [OF demo_lib_good demo_fits e(1) run this demo_payload]
  obtain p where "stored e' = (stored e)(wi_id demo_input \<mapsto> new_entry demo_write p e)" by auto
  then show ?thesis using e(1,2) run by (auto simp: demo_input_def)
qed

text \<open>C7. A batch is all or nothing, when every payload that passes the syntax check of the
  validation also parses, the counters have room and, with \<open>sync_writes\<close>, the sync of the log
  succeeds: when it returns a count, that many records were new, exactly these were added under
  their ids and no other record changed; when it fails, the store is unchanged or has all of
  them.\<close>

theorem engine_batch_exact:
  assumes "lib_ok L" "store_fits L c" "reach L c (Running lost e)" "insert_batch_with_payload_role L env b e = (r, e')"
    and "write_allowed env e (length (bi_ids b))" "\<And>i. i < length (bi_ids b) \<Longrightarrow> payload_agrees L (batch_item b i)"
  shows "case r of
      Inr n \<Rightarrow> \<exists>ps. prepare_batch_in L e b = Inr ps \<and> n = length (batch_entries env ps e) \<and> stored e' = stored e ++ map_of (batch_entries env ps e)
    | Inl er \<Rightarrow> stored e' = stored e \<or> (\<exists>ps. prepare_batch_in L e b = Inr ps \<and> stored e' = stored e ++ map_of (batch_entries env ps e))"
proof -
  note inv = running_inv [OF assms(1,2,3)]
  have w: "room (en_meta e) (length (bi_ids b))" "\<not> en_sync_writes e \<or> we_fsync_ok env" using assms(5) by (simp_all add: write_allowed_def)
  show ?thesis using batch_effect(1) [OF inv(1) assms(4) w assms(6)] by (cases r) auto
qed

theorem engine_batch_exact_witness:
  "\<exists>e r e'. reach demo_engine_lib demo_store (Running {} e) \<and> insert_batch_with_payload_role demo_engine_lib demo_write demo_batch e = (r, e') \<and>
     (case r of Inr n \<Rightarrow> n = 1 \<and> stored e' = [''a'' \<mapsto> entry_of demo_record] | Inl er \<Rightarrow> stored e' = Map.empty \<or> stored e' = [''a'' \<mapsto> entry_of demo_record])"
proof -
  obtain e where e: "reach demo_engine_lib demo_store (Running {} e)" "stored e = Map.empty" "en_meta e = demo_ms"
      "prepare_in demo_engine_lib e demo_input = Inr demo_prepared"
    by (rule demo_states)
  note inv = running_inv [OF demo_lib_good demo_fits e(1)]
  obtain r e' where run: "insert_batch_with_payload_role demo_engine_lib demo_write demo_batch e = (r, e')" by fastforce
  have b: "prepare_batch_in demo_engine_lib e demo_batch = Inr [demo_prepared]" using e(4) by (simp add: demo_batch_item)
  have al: "write_allowed demo_write e (length (bi_ids demo_batch))" by (rule demo_write_allowed) (simp_all add: e(3) demo_ms_def demo_batch_def)
  have pay: "\<And>i. i < length (bi_ids demo_batch) \<Longrightarrow> payload_agrees demo_engine_lib (batch_item demo_batch i)"
    using demo_payload demo_batch_item(2) by simp
  have "\<not> contains_id ''a'' e" using contains_stored [OF inv(3,4), of "''a''"] e(2) by simp
  note en = demo_fresh_batch(3) [OF e(3) this]
  show ?thesis using engine_batch_exact [OF demo_lib_good demo_fits e(1) run al pay] e(1,2) run en b by (cases r) auto
qed

text \<open>C5. An update replaces one record: it answers \<open>false\<close> exactly when the id has no record, with
  nothing changed; on success the id has the new record and no other record changed; on an error
  the id has its old record or the new one.\<close>

theorem engine_update_exact:
  assumes "lib_ok L" "store_fits L c" "reach L c (Running lost e)" "update_with_payload_role L env inp e = (r, e')"
    and "write_allowed env e 1" "payload_agrees L inp"
  shows "case r of
      Inr b \<Rightarrow> b = (stored e (wi_id inp) \<noteq> None) \<and>
        (if b then \<exists>p. prepare_in L e inp = Inr p \<and> stored e' = (stored e)(wi_id inp \<mapsto> new_entry env p e) else stored e' = stored e)
    | Inl er \<Rightarrow> stored e' = stored e \<or> (\<exists>p. prepare_in L e inp = Inr p \<and> stored e' = (stored e)(wi_id inp \<mapsto> new_entry env p e))"
proof -
  note inv = running_inv [OF assms(1,2,3)] and con = contains_stored [OF running_inv(3,4) [OF assms(1,2,3)], of "wi_id inp"]
  have w: "room (en_meta e) 1" "\<not> en_sync_writes e \<or> we_fsync_ok env" using assms(5) by (simp_all add: write_allowed_def)
  show ?thesis using update_effect(1) [OF inv(1) assms(4) w assms(6)] con by (cases r) auto
qed

theorem engine_update_exact_witness:
  "\<exists>e r e'. reach demo_engine_lib demo_store (Running {} e) \<and> update_with_payload_role demo_engine_lib demo_write demo_input e = (r, e') \<and>
     (case r of Inr b \<Rightarrow> b \<and> stored e' ''a'' = Some (entry_of (into_record 7 demo_prepared 2)) | Inl er \<Rightarrow> stored e' ''a'' \<noteq> None)"
proof -
  obtain e where e: "reach demo_engine_lib demo_store (Running {} e)" "stored e = [''a'' \<mapsto> entry_of demo_record]"
      "ms_next_offset (en_meta e) = 1" "ms_next_seq (en_meta e) = 2" "prepare_in demo_engine_lib e demo_input = Inr demo_prepared"
    by (rule demo_inserted)
  obtain r e' where run: "update_with_payload_role demo_engine_lib demo_write demo_input e = (r, e')" by fastforce
  have i: "wi_id demo_input = ''a''" by (simp add: demo_input_def)
  have "write_allowed demo_write e 1" by (rule demo_write_allowed) (simp_all add: e(3,4))
  from engine_update_exact [OF demo_lib_good demo_fits e(1) run this demo_payload]
  have "case r of Inr b \<Rightarrow> b \<and> stored e' ''a'' = Some (entry_of (into_record 7 demo_prepared 2)) | Inl er \<Rightarrow> stored e' ''a'' \<noteq> None"
    by (cases r) (auto simp: i e new_entry_def demo_write_def split: if_splits)
  then show ?thesis using e(1) run by blast
qed

text \<open>C6. A delete removes one record: \<open>delete_by_id\<close> answers whether the id had a record, and
  afterwards it has none while every other record is as it was; when the log cannot be written it
  fails and changes nothing.\<close>

theorem engine_delete_exact:
  assumes "lib_ok L" "store_fits L c" "reach L c (Running lost e)" "delete_by_id L env i e = (r, e')" "write_allowed env e 0"
  shows "case r of
      Inr b \<Rightarrow> b = (stored e i \<noteq> None) \<and> stored e' = (stored e)(i := None) \<and> find_record_by_id i e' = None
    | Inl er \<Rightarrow> stored e' = stored e"
proof -
  note inv = running_inv [OF assms(1,2,3)] and con = contains_stored [OF running_inv(3,4) [OF assms(1,2,3)], of i]
  have w: "\<not> en_sync_writes e \<or> we_fsync_ok env" using assms(5) by (simp add: write_allowed_def)
  note run = assms(4) [unfolded delete_by_id_def]
  have d': "eng_dur L e'" "eng_idx L e'" using delete_inv [OF inv(1) run w] by (simp_all add: eng_inv_def)
  note eff = delete_effect(1) [OF inv(1) run w]
  show ?thesis
  proof (cases r)
    case (Inr b)
    have "b = (stored e i \<noteq> None) \<and> stored e' = (stored e)(i := None)"
      using eff con Inr by (auto simp: contains_id_def fmlookup_dom_iff fun_eq_iff)
    moreover then have "\<not> contains_id i e'" using contains_stored [OF d', of i] by simp
    ultimately show ?thesis using Inr by (simp add: find_record_by_id_def contains_id_def fmdom_notD)
  qed (use eff in auto)
qed

theorem engine_delete_exact_witness:
  "\<exists>e r e'. reach demo_engine_lib demo_store (Running {} e) \<and> delete_by_id demo_engine_lib demo_write ''a'' e = (r, e') \<and>
     (case r of Inr b \<Rightarrow> b \<and> stored e' = Map.empty \<and> find_record_by_id ''a'' e' = None | Inl er \<Rightarrow> stored e' = [''a'' \<mapsto> entry_of demo_record])"
proof -
  obtain e where e: "reach demo_engine_lib demo_store (Running {} e)" "stored e = [''a'' \<mapsto> entry_of demo_record]"
      "ms_next_offset (en_meta e) = 1" "ms_next_seq (en_meta e) = 2"
    by (rule demo_inserted)
  obtain r e' where run: "delete_by_id demo_engine_lib demo_write ''a'' e = (r, e')" by fastforce
  have "write_allowed demo_write e 0" by (rule demo_write_allowed) (simp_all add: e(3,4))
  from engine_delete_exact [OF demo_lib_good demo_fits e(1) run this]
  have "case r of Inr b \<Rightarrow> b \<and> stored e' = Map.empty \<and> find_record_by_id ''a'' e' = None | Inl er \<Rightarrow> stored e' = [''a'' \<mapsto> entry_of demo_record]"
    by (cases r) (auto simp: e(2))
  then show ?thesis using e(1) run by blast
qed

section \<open>Reads and indexes\<close>

text \<open>C14. Every entry is well formed: an id that the engine contains has a record with that id and
  a vector of the configured dimension, and reads by id return exactly that record while the
  vector file is mapped.\<close>

theorem engine_entries_typed:
  assumes "lib_ok L" "store_fits L c" "reach L c (Running lost e)"
  shows "(contains_id i e \<longleftrightarrow> (\<exists>m v. stored e i = Some (m, v) \<and> m_id m = i \<and> length v = cfg_dimension (st_segments c))) \<and>
    (vs_mapped (en_vectors e) \<longrightarrow> map_option entry_of (find_record_by_id i e) = stored e i)"
proof -
  note inv = running_inv [OF assms]
  have "m_id m = i \<and> length v = cfg_dimension (st_segments c)" if s: "stored e i = Some (m, v)" for m v
  proof -
    obtain off where off: "cell e off = Some (m, v)" "m_id m = i" using stored_iff [OF inv(3,4)] s by blast
    then have "vs_stored (en_vectors e) off = Some v" by (auto simp: cell_def split: option.splits)
    moreover have "vs_wf (crc32 (el_wal L)) (en_vectors e)" by (rule dur_inv_facts(1) [OF eng_dur_E [OF inv(3)]])
    moreover have "unat off < vs_count (en_vectors e)"
      using dur_inv_facts(7) [OF eng_dur_E [OF inv(3)], of off] off(1) by (auto simp: cell_def split: option.splits)
    ultimately have "length v = vs_dim (en_vectors e)"
      using vs_get_live [of "crc32 (el_wal L)" "(en_vectors e)\<lparr>vs_mapped := True\<rparr>" off] by (auto simp: vs_stored_def vs_wf_def)
    then show ?thesis using off(2) inv(2) by simp
  qed
  then have "contains_id i e \<longleftrightarrow> (\<exists>m v. stored e i = Some (m, v) \<and> m_id m = i \<and> length v = cfg_dimension (st_segments c))"
    using contains_stored [OF inv(3,4), of i] by (metis option.exhaust prod.exhaust option.distinct(1))
  then show ?thesis using find_stored [OF inv(3)] by blast
qed

theorem engine_entries_typed_witness:
  "\<exists>e m v. reach demo_engine_lib demo_store (Running {} e) \<and> contains_id ''a'' e \<and> stored e ''a'' = Some (m, v) \<and> m_id m = ''a'' \<and> length v = 1"
proof -
  obtain e where e: "reach demo_engine_lib demo_store (Running {} e)" "fmlookup (en_id_index e) ''a'' = Some 0"
    by (rule demo_inserted)
  have c: "contains_id ''a'' e" using e(2) by (simp add: contains_id_def fmdomI)
  then show ?thesis using engine_entries_typed [OF demo_lib_good demo_fits e(1), of "''a''"] e(1) by (auto simp: demo_store_def demo_cfg_def)
qed

text \<open>C12. Filters see exactly the live records, as long as fewer than \<open>2 ^ 32\<close> offsets were handed
  out: whenever a payload filter evaluates, the result is exactly the live records whose payload
  satisfies it (an \<open>And\<close> without sub-filters is satisfied by no record), and it does evaluate when
  none of its ranges is inverted; the scope index gives exactly the live records that a scope may
  see, and \<open>scope_ids\<close> exactly the ids of the records of the scope.\<close>

theorem engine_filters_exact:
  assumes "lib_ok L" "store_fits L c" "reach L c (Running lost e)" "unat (ms_next_offset (en_meta e)) \<le> 2 ^ 32"
  shows "(case query_inner (el_json L) (en_payload_index e) flt of
        Inr ks \<Rightarrow> \<forall>k. k |\<in>| ks \<longleftrightarrow> (\<exists>m. ms_get (en_meta e) (ucast k) = Some m \<and> filter_matches (el_json L) flt (m_payload m))
      | Inl er \<Rightarrow> \<not> ranges_ok flt) \<and>
    (\<forall>k. k |\<in>| si_query (Some n) (en_scope_index e) \<longleftrightarrow>
       (\<exists>m. ms_get (en_meta e) (ucast k) = Some m \<and> (m_scope m = None \<or> m_scope m = Some n))) \<and>
    set (scope_ids n e) = {m_id m |m off. ms_get (en_meta e) off = Some m \<and> m_scope m = Some n}"
proof -
  note inv = running_inv [OF assms(1,2,3)]
  have k: "keys_for (el_json L) (en_records e) (en_payload_index e) (en_scope_index e)"
    using inv(4) assms(4) by (simp add: eng_idx_def small_def)
  then have pr: "pi_rep (el_json L) (\<lambda>k. map_option m_payload (en_records e (ucast k))) (en_payload_index e)"
    and sr: "si_rep (\<lambda>k. map_option m_scope (en_records e (ucast k))) (en_scope_index e)" by (simp_all add: keys_for_def)
  have "case query_inner (el_json L) (en_payload_index e) flt of
        Inr ks \<Rightarrow> \<forall>k. k |\<in>| ks \<longleftrightarrow> (\<exists>m. ms_get (en_meta e) (ucast k) = Some m \<and> filter_matches (el_json L) flt (m_payload m))
      | Inl er \<Rightarrow> \<not> ranges_ok flt"
  proof (cases "query_inner (el_json L) (en_payload_index e) flt")
    case (Inl er)
    then show ?thesis using query_total(1) [of flt "el_json L" "en_payload_index e"] by auto
  next
    case (Inr ks)
    then show ?thesis using query_exact(1) [OF pr Inr] by (auto simp: filter_holds_def ms_get_def)
  qed
  moreover have "k |\<in>| si_query (Some n) (en_scope_index e) \<longleftrightarrow>
       (\<exists>m. ms_get (en_meta e) (ucast k) = Some m \<and> (m_scope m = None \<or> m_scope m = Some n))" for k
    using sr by (auto simp: si_query_exact si_rep_def ms_get_def)
  moreover have "set (scope_ids n e) = {m_id m |m off. ms_get (en_meta e) off = Some m \<and> m_scope m = Some n}"
  proof -
    have ex: "k |\<in>| si_exact n (en_scope_index e) \<longleftrightarrow> (\<exists>m. ms_get (en_meta e) (ucast k) = Some m \<and> m_scope m = Some n)" for k
      using sr by (auto simp: si_rep_def ms_get_def)
    have key: "ucast (bm_offset off) = off" if "ms_get (en_meta e) off = Some m" for off m
      using live_small(1) [OF inv(3), of off] that assms(4) key_ucast [of off "bm_offset off"] by (auto simp: ms_get_def small_def)
    have "set (scope_ids n e) = {m_id m |m k. k |\<in>| si_exact n (en_scope_index e) \<and> ms_get (en_meta e) (ucast k) = Some m}"
      by (force simp: scope_ids_def set_map_filter)
    also have "\<dots> = {m_id m |m off. ms_get (en_meta e) off = Some m \<and> m_scope m = Some n}"
      unfolding ex using key by (auto simp: set_eq_iff) metis+
    finally show ?thesis .
  qed
  ultimately show ?thesis by blast
qed

theorem engine_filters_exact_witness:
  "\<exists>e ks. reach demo_engine_lib demo_store (Running {} e) \<and> query_inner demo_json (en_payload_index e) (FNot (FEq ''n'' (JNumber (PosInt 65)))) = Inr ks \<and>
     set (scope_ids ''s'' e) = {m_id m |m off. ms_get (en_meta e) off = Some m \<and> m_scope m = Some ''s''}"
proof -
  obtain e where e: "reach demo_engine_lib demo_store (Running {} e)" "ms_next_offset (en_meta e) = 1"
    by (rule demo_inserted)
  have "unat (ms_next_offset (en_meta e)) \<le> 2 ^ 32" by (simp add: e(2))
  from engine_filters_exact [OF demo_lib_good demo_fits e(1) this, of "FNot (FEq ''n'' (JNumber (PosInt 65)))" "''s''"]
  show ?thesis using e(1) by (auto simp: demo_engine_lib_def split: sum.splits)
qed

text \<open>C13. What is stored is searched, when one operation runs at a time: in every state of the step
  relation, in which \<open>trigger_consolidation\<close> is not a step and no two threads publish at once, every
  live record is in a segment of the published snapshot, unless its
  own write reported an error, and its vector is in the vector file; after an open there are no
  exceptions.\<close>

theorem engine_live_visible:
  assumes "lib_ok L" "store_fits L c" "reach L c (Running lost e)" "fmlookup (en_id_index e) i = Some off" "off \<notin> lost"
  shows "off \<in> visible (en_segments e) \<and> vs_stored (en_vectors e) off \<noteq> None"
proof -
  note inv = running_inv [OF assms(1,2,3)]
  have live: "en_records e off \<noteq> None" by (rule ids_live [OF inv(4) assms(4)])
  then have "off \<in> listed (en_segments e)" using inv(5) assms(5) by (auto simp: eng_seg_def)
  moreover have "holder_ok (en_segments e)" using inv(5) by (simp add: eng_seg_def holder_inv_def)
  moreover have "\<exists>v. vs_stored (en_vectors e) off = Some v"
    by (rule vs_stored_live [OF dur_inv_facts(1) [OF eng_dur_E [OF inv(3)]] live_small(2) [OF inv(3) live]])
  ultimately show ?thesis using visible_listed by auto
qed

theorem engine_live_visible_witness:
  "\<exists>e. reach demo_engine_lib demo_store (Running {} e) \<and> 0 \<in> visible (en_segments e) \<and> vs_stored (en_vectors e) 0 \<noteq> None"
proof -
  obtain e where e: "reach demo_engine_lib demo_store (Running {} e)" "fmlookup (en_id_index e) ''a'' = Some 0"
    by (rule demo_inserted)
  then show ?thesis using engine_live_visible [OF demo_lib_good demo_fits e] by auto
qed

end
