(* ===== verification/Engine_Search.thy ===== *)
theory Engine_Search
  imports Engine_Guarantees Query_Selection
begin

text \<open>
  The read path of the storage engine, \<open>turbomemory_storage/src/engine/search.rs\<close>: filters and scopes,
  the exact scan, the search over the published segments with its widening retry, the exclusion of
  superseded memories, and the fusion step of the cognitive search. A query runs as one step: the
  engine does not change between its reads. Arguments stand for the similarity kernels, the order in
  which a heap pops equal elements, the search of a built segment (an HNSW index over quantized
  vectors), Tantivy, the scores a GPU returns, and the graph expansion of the cognitive search; the
  theorems hold for all of them. \<open>None\<close> is a search that does not return.
\<close>

section \<open>Parameters\<close>

record query_lib =
  ql_dot_and_norms :: "f32 list \<Rightarrow> f32 list \<Rightarrow> f32 \<times> f32 \<times> f32"
  ql_batch :: "f32 list \<Rightarrow> f32 list list \<Rightarrow> f32 list"
  ql_pick :: "kway_item list \<Rightarrow> nat"
  ql_built :: "string \<Rightarrow> point_offset list \<Rightarrow> seg_search"
  ql_tantivy :: tantivy_lib
  ql_gpu :: "(f32 list \<Rightarrow> f32 list option) option"
  ql_expand :: "activation \<Rightarrow> string \<Rightarrow> (string \<times> f32) list \<Rightarrow> nat \<Rightarrow> (string \<Rightarrow> bool) option \<Rightarrow> (string \<times> f32) list option"

record query_config =
  qc_exclude_superseded :: bool
  qc_gpu_exact_min_records :: nat
  qc_search_list_size :: nat
  qc_cognitive_alpha :: f32
  qc_recency_weight :: f32

definition EXACT_FALLBACK_THRESHOLD :: nat where
  "EXACT_FALLBACK_THRESHOLD = 4096"

definition f32_minus_one :: f32 where
  "f32_minus_one = 0xBF800000"

definition f32_sub :: "f32 \<Rightarrow> f32 \<Rightarrow> f32" where
  "f32_sub a b = word_of_nat (pat_sub fmt32 (unat a) (unat b))"

definition cosine_similarity :: "(f32 list \<Rightarrow> f32 list \<Rightarrow> f32 \<times> f32 \<times> f32) \<Rightarrow> f32 list \<Rightarrow> f32 list \<Rightarrow> f32" where
  "cosine_similarity dot_and_norms a b =
     (let (d, na, nb) = dot_and_norms a b; denom = f32_sqrt (f32_mul na nb) in
      if f32_eq denom f32_zero then f32_zero else f32_clamp (f32_div d denom) f32_minus_one f32_one)"

definition unit_length :: "f32 list \<Rightarrow> f32 list" where
  "unit_length q =
     (let norm = f32_sqrt (f32_sum (map (\<lambda>x. f32_mul x x) q)) in
      if f32_is_normal norm then map (\<lambda>x. f32_div x norm) q else replicate (length q) f32_zero)"

section \<open>Filters and scopes\<close>

fun evaluate_filter_recursive :: "tantivy_lib \<Rightarrow> json_lib \<Rightarrow> text_index \<Rightarrow> payload_index \<Rightarrow> pfilter \<Rightarrow> u32 fset result"
  and evaluate_and :: "tantivy_lib \<Rightarrow> json_lib \<Rightarrow> text_index \<Rightarrow> payload_index \<Rightarrow> pfilter list \<Rightarrow> u32 fset \<Rightarrow> u32 fset result"
  and evaluate_or :: "tantivy_lib \<Rightarrow> json_lib \<Rightarrow> text_index \<Rightarrow> payload_index \<Rightarrow> pfilter list \<Rightarrow> u32 fset \<Rightarrow> u32 fset result" where
  "evaluate_filter_recursive T J t x (FullText f q) = ti_search T q t"
| "evaluate_filter_recursive T J t x (FEq f v) = query_inner J x (FEq f v)"
| "evaluate_filter_recursive T J t x (FRange f l h) = query_inner J x (FRange f l h)"
| "evaluate_filter_recursive T J t x (FAnd []) = Inr {||}"
| "evaluate_filter_recursive T J t x (FAnd (p # ps)) = rbind (evaluate_filter_recursive T J t x p) (evaluate_and T J t x ps)"
| "evaluate_filter_recursive T J t x (FOr ps) = evaluate_or T J t x ps {||}"
| "evaluate_filter_recursive T J t x (FNot p) =
     rbind (evaluate_filter_recursive T J t x p) (\<lambda>positives. Inr (pi_all_offsets x |-| positives))"
| "evaluate_and T J t x [] acc = Inr acc"
| "evaluate_and T J t x (p # ps) acc =
     (if acc = {||} then Inr acc
      else rbind (evaluate_filter_recursive T J t x p) (\<lambda>r. evaluate_and T J t x ps (acc |\<inter>| r)))"
| "evaluate_or T J t x [] acc = Inr acc"
| "evaluate_or T J t x (p # ps) acc =
     rbind (evaluate_filter_recursive T J t x p) (\<lambda>r. evaluate_or T J t x ps (acc |\<union>| r))"

text \<open>\<open>out\<close> is the outcome of the commit that makes pending documents visible.\<close>

definition evaluate_filter :: "tantivy_lib \<Rightarrow> json_lib \<Rightarrow> commit_outcome \<Rightarrow> pfilter \<Rightarrow> engine \<Rightarrow> u32 fset result \<times> engine" where
  "evaluate_filter T J out flt e =
     (if uses_full_text flt
      then case ti_commit_if_pending out (en_text_index e) of
          (Inl er, t) \<Rightarrow> (Inl er, e\<lparr>en_text_index := t\<rparr>)
        | (Inr _, t) \<Rightarrow> (evaluate_filter_recursive T J t (en_payload_index e) flt, e\<lparr>en_text_index := t\<rparr>)
      else (evaluate_filter_recursive T J (en_text_index e) (en_payload_index e) flt, e))"

definition allowed_offsets :: "tantivy_lib \<Rightarrow> json_lib \<Rightarrow> commit_outcome \<Rightarrow> pfilter option \<Rightarrow> string option \<Rightarrow> engine
    \<Rightarrow> u32 fset option result \<times> engine" where
  "allowed_offsets T J out flt scope e =
     (case (case flt of
          None \<Rightarrow> (Inr None, e)
        | Some f \<Rightarrow> (case evaluate_filter T J out f e of (r, e1) \<Rightarrow> (rbind r (\<lambda>bm. Inr (Some bm)), e1))) of
        (Inl er, e1) \<Rightarrow> (Inl er, e1)
      | (Inr allowed, e1) \<Rightarrow>
          (Inr (case scope of
             None \<Rightarrow> allowed
           | Some s \<Rightarrow>
               (let scope_bitmap = si_query (Some s) (en_scope_index e1)
                in Some (case allowed of Some existing \<Rightarrow> existing |\<inter>| scope_bitmap | None \<Rightarrow> scope_bitmap))), e1))"

definition superseded_exclusion_set :: "query_config \<Rightarrow> engine \<Rightarrow> string fset option" where
  "superseded_exclusion_set C e =
     (if \<not> qc_exclude_superseded C then None
      else let s = superseded_ids (sa_graph (en_graph e)) in if s = {||} then None else Some s)"

section \<open>Exact search\<close>

definition exact_candidates :: "query_lib \<Rightarrow> f32 list \<Rightarrow> u32 fset option \<Rightarrow> engine \<Rightarrow> (point_offset \<times> f32) list" where
  "exact_candidates Q q allowed e =
     (let present = pi_all_offsets (en_payload_index e);
          offs = (case allowed of
              Some bm \<Rightarrow> List.filter (\<lambda>o'. o' |\<in>| present) (sorted_list_of_fset bm)
            | None \<Rightarrow> sorted_list_of_fset present)
      in List.map_filter (\<lambda>o'. map_option (\<lambda>v. (ucast o', cosine_similarity (ql_dot_and_norms Q) q v))
           (vs_get (en_vectors e) (ucast o'))) offs)"

definition top_of_scores :: "f32 list \<Rightarrow> u32 fset option \<Rightarrow> nat \<Rightarrow> engine \<Rightarrow> (point_offset \<times> f32) list" where
  "top_of_scores scores allowed want e =
     (let is_live = (\<lambda>off. bm_offset off |\<in>| pi_all_offsets (en_payload_index e)) in
      case allowed of
        Some bm \<Rightarrow>
          top_of (List.map_filter (\<lambda>o'. if unat o' < length scores
                then Some (ucast o', f32_clamp (scores ! unat o') f32_minus_one f32_one) else None) (sorted_list_of_fset bm))
            want is_live
      | None \<Rightarrow>
          top_of (map (\<lambda>(i, s). (word_of_nat i, f32_clamp s f32_minus_one f32_one)) (enumerate 0 scores)) want is_live)"

text \<open>Every result counts as an access; \<open>clock\<close> is what each read of the clock returns.\<close>

definition bump_all :: "(nat \<Rightarrow> u64) \<Rightarrow> point_offset list \<Rightarrow> engine \<Rightarrow> engine" where
  "bump_all clock offs e = fold (\<lambda>(i, off). bump_access (clock i) off) (enumerate 0 offs) e"

definition with_access :: "(nat \<Rightarrow> u64) \<Rightarrow> (point_offset \<times> string \<times> f32) list \<Rightarrow> engine \<Rightarrow> (string \<times> f32) list result \<times> engine" where
  "with_access clock rs e = (Inr (map snd rs), bump_all clock (map fst rs) e)"

definition finish_exact :: "(nat \<Rightarrow> u64) \<Rightarrow> (nat \<Rightarrow> (point_offset \<times> f32) list) \<Rightarrow> nat \<Rightarrow> string fset option \<Rightarrow> engine
    \<Rightarrow> ((string \<times> f32) list result \<times> engine) option" where
  "finish_exact clock head_of top_k exclusion e =
     map_option (\<lambda>rs. with_access clock rs e)
       (finish_loop head_of (ms_id_of (en_meta e)) exclusion top_k (first_fetch exclusion top_k))"

section \<open>Search over the segments\<close>

fun seg_search_of :: "query_lib \<Rightarrow> segment \<Rightarrow> seg_search" where
  "seg_search_of Q (PlainSeg h) = hot_search (ql_batch Q) h"
| "seg_search_of Q (BuiltSeg offs p) = ql_built Q p offs"

definition engine_snapshot :: "query_lib \<Rightarrow> query_config \<Rightarrow> engine \<Rightarrow> snapshot" where
  "engine_snapshot Q C e =
     \<lparr>ss_search_list_size = qc_search_list_size C,
      ss_segments = map (\<lambda>a. (seg_search_of Q (seg_at (en_segments e) a), length (offsets_at (en_segments e) a)))
        (sh_snapshot (en_segments e))\<rparr>"

definition live_points :: "mstore \<Rightarrow> string fset option \<Rightarrow> scored_point list \<Rightarrow> (point_offset \<times> string \<times> f32) list" where
  "live_points ms exclusion scored =
     List.map_filter (\<lambda>c. case ms_get ms (sp_offset c) of
        None \<Rightarrow> None
      | Some m \<Rightarrow> if excluded exclusion (m_id m) then None else Some (sp_offset c, m_id m, sp_score c)) scored"

partial_function (option) live_loop :: "(nat \<Rightarrow> scored_point list result) \<Rightarrow> mstore \<Rightarrow> string fset option \<Rightarrow> nat \<Rightarrow> nat
    \<Rightarrow> scored_point list \<Rightarrow> nat \<Rightarrow> (point_offset \<times> string \<times> f32) list result option" where
  "live_loop search ms exclusion top_k points scored fetch =
     (let found = live_points ms exclusion scored in
      if top_k \<le> length found \<or> length scored < fetch \<or> points \<le> fetch then Some (Inr (take top_k found))
      else let fetch1 = min (sat_mul fetch 2) points in
        case search fetch1 of
          Inl er \<Rightarrow> Some (Inl er)
        | Inr scored1 \<Rightarrow> live_loop search ms exclusion top_k points scored1 fetch1)"

text \<open>The number of points is a sum of \<open>usize\<close> values, which wraps.\<close>

definition live_top_k :: "query_lib \<Rightarrow> (nat \<Rightarrow> u64) \<Rightarrow> snapshot \<Rightarrow> scored_point list \<Rightarrow> nat \<Rightarrow> f32 list \<Rightarrow> nat \<Rightarrow> nat option
    \<Rightarrow> u32 fset option \<Rightarrow> string fset option \<Rightarrow> engine \<Rightarrow> ((string \<times> f32) list result \<times> engine) option" where
  "live_top_k Q clock s scored fetch q top_k ef allowed exclusion e =
     map_option (\<lambda>r. case r of Inl er \<Rightarrow> (Inl er, e) | Inr rs \<Rightarrow> with_access clock rs e)
       (live_loop (\<lambda>n. ss_search (ql_batch Q) (ql_pick Q) s q n ef (en_vectors e) allowed) (en_meta e) exclusion top_k
          (ss_point_count s mod 2 ^ 64) scored fetch)"

definition ann_top_k_excluding :: "query_lib \<Rightarrow> query_config \<Rightarrow> (nat \<Rightarrow> u64) \<Rightarrow> f32 list \<Rightarrow> nat \<Rightarrow> nat option \<Rightarrow> u32 fset option
    \<Rightarrow> string fset option \<Rightarrow> engine \<Rightarrow> ((string \<times> f32) list result \<times> engine) option" where
  "ann_top_k_excluding Q C clock q top_k0 ef allowed exclusion e =
     (let records = unat (engine_record_count e); top_k = min top_k0 records in
      if top_k = 0 then Some (Inr [], e)
      else let gpu_scores = (if qc_gpu_exact_min_records C \<le> records
             then Option.bind (ql_gpu Q) (\<lambda>scores. scores (unit_length q)) else None) in
        case gpu_scores of
          Some scores \<Rightarrow> finish_exact clock (\<lambda>want. top_of_scores scores allowed want e) top_k exclusion e
        | None \<Rightarrow>
            if records \<le> EXACT_FALLBACK_THRESHOLD
            then finish_exact clock (\<lambda>want. top_of (exact_candidates Q q allowed e) want (\<lambda>_. True)) top_k exclusion e
            else let s = engine_snapshot Q C e; fetch = first_fetch exclusion top_k in
              case ss_search (ql_batch Q) (ql_pick Q) s q fetch ef (en_vectors e) allowed of
                Inl er \<Rightarrow> Some (Inl er, e)
              | Inr scored \<Rightarrow> live_top_k Q clock s scored fetch q top_k ef allowed exclusion e)"

definition ann_top_k :: "query_lib \<Rightarrow> query_config \<Rightarrow> (nat \<Rightarrow> u64) \<Rightarrow> f32 list \<Rightarrow> nat \<Rightarrow> nat option \<Rightarrow> u32 fset option \<Rightarrow> engine
    \<Rightarrow> ((string \<times> f32) list result \<times> engine) option" where
  "ann_top_k Q C clock q top_k ef allowed e =
     ann_top_k_excluding Q C clock q top_k ef allowed (superseded_exclusion_set C e) e"

definition search_ann_candidates_filtered_with_ef :: "engine_lib \<Rightarrow> query_lib \<Rightarrow> query_config \<Rightarrow> (nat \<Rightarrow> u64) \<Rightarrow> commit_outcome
    \<Rightarrow> f32 list \<Rightarrow> nat \<Rightarrow> pfilter option \<Rightarrow> nat option \<Rightarrow> string option \<Rightarrow> engine \<Rightarrow> ((string \<times> f32) list result \<times> engine) option" where
  "search_ann_candidates_filtered_with_ef L Q C clock out q top_k flt ef scope e =
     (case validate_query q (en_dim e) of
        Inl er \<Rightarrow> Some (Inl (Core er), e)
      | Inr _ \<Rightarrow>
          (case allowed_offsets (ql_tantivy Q) (el_json L) out flt scope e of
             (Inl er, e1) \<Rightarrow> Some (Inl er, e1)
           | (Inr allowed, e1) \<Rightarrow> ann_top_k Q C clock q top_k ef allowed e1))"

definition search_ann_any_belief_state :: "engine_lib \<Rightarrow> query_lib \<Rightarrow> query_config \<Rightarrow> (nat \<Rightarrow> u64) \<Rightarrow> commit_outcome
    \<Rightarrow> f32 list \<Rightarrow> nat \<Rightarrow> string option \<Rightarrow> engine \<Rightarrow> ((string \<times> f32) list result \<times> engine) option" where
  "search_ann_any_belief_state L Q C clock out q top_k scope e =
     (case validate_query q (en_dim e) of
        Inl er \<Rightarrow> Some (Inl (Core er), e)
      | Inr _ \<Rightarrow>
          (case allowed_offsets (ql_tantivy Q) (el_json L) out None scope e of
             (Inl er, e1) \<Rightarrow> Some (Inl er, e1)
           | (Inr allowed, e1) \<Rightarrow> ann_top_k_excluding Q C clock q top_k None allowed None e1))"

section \<open>Cognitive search\<close>

definition max_seq_of :: "(string \<times> f32) list \<Rightarrow> engine \<Rightarrow> u64" where
  "max_seq_of results e =
     (case List.map_filter (\<lambda>(i, _). map_option m_insert_seq (find_meta_by_id i e)) results of
        [] \<Rightarrow> 1
      | s # ss \<Rightarrow> fold max ss s)"

definition f32_of_u64 :: "u64 \<Rightarrow> f32" where
  "f32_of_u64 x = f32_of_nat (unat x)"

definition fused_score :: "query_lib \<Rightarrow> query_config \<Rightarrow> f32 list \<Rightarrow> u64 \<Rightarrow> engine \<Rightarrow> string \<Rightarrow> f32 \<Rightarrow> point_offset \<Rightarrow> mem_record \<Rightarrow> f32" where
  "fused_score Q C q max_seq e i act off r =
     (let alpha = f32_clamp (qc_cognitive_alpha C) f32_zero f32_one;
          weight = f32_clamp (qc_recency_weight C) f32_zero (f32_of_nat 2);
          cos = cosine_similarity (ql_dot_and_norms Q) q (r_embedding r);
          graph_boost = f32_mul (f32_sub f32_one alpha) (f32_div act (f32_add f32_one act));
          base_fused = f32_add cos graph_boost;
          recency_boost =
            (if f32_lt f32_zero weight \<and> 0 < max_seq
             then let sq = (case find_meta_by_id i e of None \<Rightarrow> 0 | Some m \<Rightarrow> m_insert_seq m)
                  in f32_add f32_one (f32_mul weight (f32_div (f32_of_u64 sq) (f32_of_u64 max_seq)))
             else f32_one)
      in f32_mul (f32_mul base_fused recency_boost) (demotion_factor (en_meta e) off))"

definition fused_cmp :: "string \<times> f32 \<Rightarrow> string \<times> f32 \<Rightarrow> ordering" where
  "fused_cmp a b =
     (case cmp_score_desc (snd a) (snd b) of
        Equal \<Rightarrow> if fst a < fst b then Less else if fst a = fst b then Equal else Greater
      | c \<Rightarrow> c)"

definition hydrate_and_fuse :: "query_lib \<Rightarrow> query_config \<Rightarrow> (string \<times> f32) list \<Rightarrow> f32 list \<Rightarrow> nat \<Rightarrow> string fset option
    \<Rightarrow> u32 fset option \<Rightarrow> engine \<Rightarrow> (string \<times> f32) list" where
  "hydrate_and_fuse Q C results q top_k exclusion allowed e =
     (if results = [] then []
      else let weight = f32_clamp (qc_recency_weight C) f32_zero (f32_of_nat 2);
               max_seq = (if f32_lt f32_zero weight then max_seq_of results e else 1);
               hydrated = List.map_filter (\<lambda>(i, act).
                 case fmlookup (en_id_index e) i of
                   None \<Rightarrow> None
                 | Some off \<Rightarrow>
                     if \<not> allowed_by allowed off then None
                     else map_option (\<lambda>r. (i, fused_score Q C q max_seq e i act off r)) (get_record e off)) results;
               kept = (case exclusion of None \<Rightarrow> hydrated | Some s \<Rightarrow> List.filter (\<lambda>(i, _). i |\<notin>| s) hydrated)
           in take top_k (sort_by fused_cmp kept))"

text \<open>The candidate pool asked of the graph.\<close>

definition graph_pool :: "nat \<Rightarrow> string fset option \<Rightarrow> nat" where
  "graph_pool top_k exclusion =
     (let k = max (sat_mul top_k 3) (sat_add top_k 5)
      in if exclusion \<noteq> None then max k (sat_add (sat_mul top_k 2) 5) else k)"

text \<open>From the seeds on: expansion over the graph, fusion, rehearsal of the results.\<close>

definition expand_and_fuse :: "query_lib \<Rightarrow> query_config \<Rightarrow> (nat \<Rightarrow> u64) \<Rightarrow> u64 \<Rightarrow> string \<Rightarrow> f32 list \<Rightarrow> nat \<Rightarrow> u32 fset option
    \<Rightarrow> (string \<times> f32) list \<Rightarrow> engine \<Rightarrow> (string \<times> f32) list option \<times> engine" where
  "expand_and_fuse Q C clock now query_text q top_k allowed seeds e =
     (let exclusion = superseded_exclusion_set C e;
          in_scope = map_option (\<lambda>bm i. case fmlookup (en_id_index e) i of
            None \<Rightarrow> False | Some off \<Rightarrow> bm_offset off |\<in>| bm) allowed in
      case ql_expand Q (en_graph e) query_text seeds (graph_pool top_k exclusion) in_scope of
        None \<Rightarrow> (None, e)
      | Some results \<Rightarrow>
          (let hydrated = hydrate_and_fuse Q C results q top_k exclusion allowed e in
           if hydrated = [] then (None, e)
           else let e1 = fold (\<lambda>(n, i). bump_access_by_id (clock n) i) (enumerate 0 (map fst hydrated)) e
                in (Some hydrated, reinforce_graph_ids now (map fst hydrated) e1)))"

text \<open>\<open>clock\<close> and \<open>hits_clock\<close> are the readings for the seeds and for the results.\<close>

definition cognitive_search :: "engine_lib \<Rightarrow> query_lib \<Rightarrow> query_config \<Rightarrow> (nat \<Rightarrow> u64) \<Rightarrow> (nat \<Rightarrow> u64) \<Rightarrow> u64 \<Rightarrow> commit_outcome \<Rightarrow> string
    \<Rightarrow> f32 list \<Rightarrow> nat \<Rightarrow> pfilter option \<Rightarrow> nat option \<Rightarrow> string option \<Rightarrow> engine \<Rightarrow> ((string \<times> f32) list option result \<times> engine) option" where
  "cognitive_search L Q C clock hits_clock now out query_text q top_k0 flt ef scope e =
     (case validate_query q (en_dim e) of
        Inl er \<Rightarrow> Some (Inl (Core er), e)
      | Inr _ \<Rightarrow>
          (let top_k = min top_k0 (unat (engine_record_count e)) in
           case allowed_offsets (ql_tantivy Q) (el_json L) out flt scope e of
             (Inl er, e1) \<Rightarrow> Some (Inl er, e1)
           | (Inr allowed, e1) \<Rightarrow>
               (case ann_top_k Q C clock q (max top_k 10) ef allowed e1 of
                  None \<Rightarrow> None
                | Some (Inl er, e2) \<Rightarrow> Some (Inl er, e2)
                | Some (Inr seeds, e2) \<Rightarrow>
                    (case expand_and_fuse Q C hits_clock now query_text q top_k allowed seeds e2 of
                       (hits, e3) \<Rightarrow> Some (Inr hits, e3)))))"

section \<open>What a filter and a scope let through\<close>

text \<open>Without full text the engine's evaluation is the one of the payload index.\<close>

lemma evaluate_filter_payload:
  "\<not> uses_full_text p \<Longrightarrow> evaluate_filter_recursive T J t x p = query_inner J x p"
  "\<not> list_ex uses_full_text ps \<Longrightarrow> evaluate_and T J t x ps acc = query_and J x ps acc"
  "\<not> list_ex uses_full_text ps \<Longrightarrow> evaluate_or T J t x ps acc = query_or J x ps acc"
  by (induction T J t x p and T J t x ps acc and T J t x ps acc rule: evaluate_filter_recursive_evaluate_and_evaluate_or.induct)
    (auto simp: list_ex_iff intro!: arg_cong2 [where f = rbind])

definition scope_lets :: "string option \<Rightarrow> meta_record \<Rightarrow> bool" where
  "scope_lets scope m \<longleftrightarrow> (case scope of None \<Rightarrow> True | Some n \<Rightarrow> m_scope m = None \<or> m_scope m = Some n)"

text \<open>What a filter means for the record at one key: a condition on its payload at the leaves, a hit of
  the text query on the documents the text index shows, and the connectives. As in the payload index,
  an \<open>And\<close> without sub-filters accepts nothing.\<close>

definition text_hit :: "tantivy_lib \<Rightarrow> text_index \<Rightarrow> string \<Rightarrow> u32 \<Rightarrow> bool" where
  "text_hit T t q k \<longleftrightarrow> (\<exists>run hits. tl_query T q = Some run \<and> run (visible_docs t) = Some hits \<and> (\<exists>(off, tx) \<in> set hits. k = bm_offset off))"

fun matches_at :: "tantivy_lib \<Rightarrow> json_lib \<Rightarrow> text_index \<Rightarrow> pfilter \<Rightarrow> u32 \<Rightarrow> string option \<Rightarrow> bool" where
  "matches_at T J t (FullText f q) k p = text_hit T t q k"
| "matches_at T J t (FEq f v) k p = filter_matches J (FEq f v) p"
| "matches_at T J t (FRange f l h) k p = filter_matches J (FRange f l h) p"
| "matches_at T J t (FAnd ps) k p = (ps \<noteq> [] \<and> list_all (\<lambda>q. matches_at T J t q k p) ps)"
| "matches_at T J t (FOr ps) k p = list_ex (\<lambda>q. matches_at T J t q k p) ps"
| "matches_at T J t (FNot q) k p = (\<not> matches_at T J t q k p)"

definition filter_lets :: "tantivy_lib \<Rightarrow> json_lib \<Rightarrow> text_index \<Rightarrow> pfilter option \<Rightarrow> point_offset \<Rightarrow> meta_record \<Rightarrow> bool" where
  "filter_lets T J t flt off m \<longleftrightarrow> (case flt of None \<Rightarrow> True | Some f \<Rightarrow> matches_at T J t f (bm_offset off) (m_payload m))"

text \<open>The text index a filter is evaluated on: pending documents are committed first.\<close>

abbreviation committed_text :: "commit_outcome \<Rightarrow> engine \<Rightarrow> text_index" where
  "committed_text out e \<equiv> snd (ti_commit_if_pending out (en_text_index e))"

lemma ti_search_hit:
  assumes "ti_search T q t = Inr ks"
  shows "k |\<in>| ks \<longleftrightarrow> text_hit T t q k"
proof -
  have "k |\<in>| fold (\<lambda>(off, _) bm. finsert (bm_offset off) bm) hits bm \<longleftrightarrow> k |\<in>| bm \<or> (\<exists>(off, tx) \<in> set hits. k = bm_offset off)"
    for hits :: "doc list" and bm :: "u32 fset"
    by (induction hits arbitrary: bm) auto
  then show ?thesis using assms by (auto simp: ti_search_def text_hit_def split: option.splits)
qed

text \<open>Evaluating a filter is exact for it, at every live key.\<close>

lemma evaluate_exact:
  "pi_rep J pays x \<Longrightarrow> pays k = Some p \<Longrightarrow> evaluate_filter_recursive T J t x f = Inr R1 \<Longrightarrow> k |\<in>| R1 \<longleftrightarrow> matches_at T J t f k p"
  "pi_rep J pays x \<Longrightarrow> pays k = Some p \<Longrightarrow> evaluate_and T J t x ps acc = Inr R2 \<Longrightarrow>
     k |\<in>| R2 \<longleftrightarrow> k |\<in>| acc \<and> list_all (\<lambda>q. matches_at T J t q k p) ps"
  "pi_rep J pays x \<Longrightarrow> pays k = Some p \<Longrightarrow> evaluate_or T J t x qs acc' = Inr R3 \<Longrightarrow>
     k |\<in>| R3 \<longleftrightarrow> k |\<in>| acc' \<or> list_ex (\<lambda>q. matches_at T J t q k p) qs"
proof (induction T J t x f and T J t x ps acc and T J t x qs acc' arbitrary: R1 and R2 and R3
    rule: evaluate_filter_recursive_evaluate_and_evaluate_or.induct)
  case (1 T J t x f q)
  then show ?case by (simp add: ti_search_hit)
next
  case (2 T J t x f v)
  then show ?case using query_exact(1) [OF 2(1), of "FEq f v" R1 k] by (simp add: filter_holds_def)
next
  case (3 T J t x f l h)
  then show ?case using query_exact(1) [OF 3(1), of "FRange f l h" R1 k] by (simp add: filter_holds_def)
next
  case (7 T J t x f)
  then show ?case by (auto simp: result_iff pi_rep_def)
next
  case (9 T J t x f fs acc)
  then show ?case by (cases "acc = {||}") (auto simp: result_iff)
qed (auto simp: result_iff)

lemma key_of_live:
  assumes "eng_dur L e" "small (en_meta e)" "ms_get (en_meta e) off = Some m"
  shows "ucast (bm_offset off) = off"
  using live_small(1) [OF assms(1), of off] assms(2,3) key_ucast [of off "bm_offset off"] by (auto simp: ms_get_def)

lemma scope_query_exact:
  assumes "eng_dur L e" "eng_idx L e" "small (en_meta e)" "ms_get (en_meta e) off = Some m"
  shows "bm_offset off |\<in>| si_query (Some n) (en_scope_index e) \<longleftrightarrow> scope_lets (Some n) m"
proof -
  have "si_rep (\<lambda>k. map_option m_scope (en_records e (ucast k))) (en_scope_index e)"
    using assms(2,3) by (simp add: eng_idx_def keys_for_def)
  then show ?thesis using assms(4) key_of_live [OF assms(1,3,4)]
    by (auto simp: si_query_exact si_rep_def ms_get_def scope_lets_def)
qed

lemma evaluate_committed:
  assumes "evaluate_filter T J out f e = (Inr ks, e1)"
  shows "evaluate_filter_recursive T J (committed_text out e) (en_payload_index e) f = Inr ks"
  using assms evaluate_filter_payload(1) [of f T J]
  by (auto simp: evaluate_filter_def split: if_splits prod.splits sum.splits)

lemma filter_query_exact:
  assumes "eng_dur L e" "eng_idx L e" "small (en_meta e)" "ms_get (en_meta e) off = Some m"
    and "evaluate_filter T (el_json L) out f e = (Inr ks, e1)"
  shows "bm_offset off |\<in>| ks \<longleftrightarrow> matches_at T (el_json L) (committed_text out e) f (bm_offset off) (m_payload m)"
proof -
  have "pi_rep (el_json L) (\<lambda>k. map_option m_payload (en_records e (ucast k))) (en_payload_index e)"
    using assms(2,3) by (simp add: eng_idx_def keys_for_def)
  from evaluate_exact(1) [OF this _ evaluate_committed [OF assms(5)]] show ?thesis
    using assms(4) key_of_live [OF assms(1,3,4)] by (simp add: ms_get_def)
qed

lemma evaluate_filter_engine:
  assumes "evaluate_filter T J out f e = (r, e1)"
  shows "e1 = e \<or> (\<exists>u t. ti_commit_if_pending out (en_text_index e) = (u, t) \<and> e1 = e\<lparr>en_text_index := t\<rparr>)"
  using assms by (auto simp: evaluate_filter_def split: if_splits prod.splits sum.splits)

lemma allowed_engine:
  assumes "allowed_offsets T J out flt scope e = (r, e1)"
  shows "e1 = e \<or> (\<exists>u t. ti_commit_if_pending out (en_text_index e) = (u, t) \<and> e1 = e\<lparr>en_text_index := t\<rparr>)"
  using assms evaluate_filter_engine [of T J out _ e]
  by (auto simp: allowed_offsets_def split: option.splits prod.splits sum.splits)

lemma allowed_cases:
  assumes "allowed_offsets T J out flt scope e = (Inr allowed, e1)"
  obtains (free) "flt = None" "allowed = map_option (\<lambda>s. si_query (Some s) (en_scope_index e)) scope"
    | (filtered) f ks where "flt = Some f" "evaluate_filter T J out f e = (Inr ks, e1)"
        "allowed = Some (case scope of None \<Rightarrow> ks | Some s \<Rightarrow> ks |\<inter>| si_query (Some s) (en_scope_index e))"
proof (cases flt)
  case None
  then show ?thesis using assms free by (cases scope) (auto simp: allowed_offsets_def)
next
  case (Some f)
  obtain r e2 where r: "evaluate_filter T J out f e = (r, e2)" by fastforce
  then obtain ks where ks: "r = Inr ks" "e2 = e1"
    using assms Some by (cases r) (auto simp: allowed_offsets_def)
  have "en_scope_index e1 = en_scope_index e" using evaluate_filter_engine [OF r] ks by auto
  then show ?thesis using assms r ks Some by (intro filtered [of f ks]) (auto simp: allowed_offsets_def split: option.splits)
qed

text \<open>What the bitmap lets through.\<close>

lemma allowed_exact:
  assumes "eng_dur L e" "eng_idx L e" "small (en_meta e)" "ms_get (en_meta e) off = Some m"
    and "allowed_offsets T (el_json L) out flt scope e = (Inr allowed, e1)"
  shows "allowed_by allowed off \<longleftrightarrow> scope_lets scope m \<and> filter_lets T (el_json L) (committed_text out e) flt off m"
  using assms(5)
proof (cases rule: allowed_cases)
  case free
  then show ?thesis using scope_query_exact [OF assms(1-4)]
    by (cases scope) (auto simp: allowed_by_def filter_lets_def scope_lets_def bm_offset_def)
next
  case (filtered f ks)
  then show ?thesis using scope_query_exact [OF assms(1-4)] filter_query_exact [OF assms(1-4) filtered(2)]
    by (cases scope) (auto simp: allowed_by_def filter_lets_def scope_lets_def bm_offset_def)
qed

text \<open>Only the evaluation of the filter can fail, and a filter without full text only for a range.\<close>

lemma allowed_fails:
  assumes "allowed_offsets T J out flt scope e = (Inl er, e1)"
  obtains f where "flt = Some f" "fst (evaluate_filter T J out f e) = Inl er" "uses_full_text f \<or> \<not> ranges_ok f"
proof (cases flt)
  case None
  then show ?thesis using assms by (simp add: allowed_offsets_def)
next
  case (Some f)
  obtain q e2 where q: "evaluate_filter T J out f e = (q, e2)" by fastforce
  then have r: "fst (evaluate_filter T J out f e) = Inl er" using assms Some by (cases q) (simp_all add: allowed_offsets_def)
  have "uses_full_text f \<or> \<not> ranges_ok f"
  proof (rule ccontr)
    assume n: "\<not> (uses_full_text f \<or> \<not> ranges_ok f)"
    then obtain ks where "query_inner J (en_payload_index e) f = Inr ks" using query_total(1) by blast
    then show False using r n evaluate_filter_payload(1) by (simp add: evaluate_filter_def)
  qed
  then show ?thesis using that Some r by blast
qed

section \<open>Every search path is sound\<close>

text \<open>Results with their offsets: live records under their ids, not excluded, let through by the
  bitmap, no offset twice, best scores first, at most \<open>k\<close>.\<close>

abbreviation best_first_hits :: "(string \<times> f32) list \<Rightarrow> bool" where
  "best_first_hits hits \<equiv> sorted (map (\<lambda>h. score_rank (snd h)) hits)"

definition sound_hits :: "engine \<Rightarrow> string fset option \<Rightarrow> u32 fset option \<Rightarrow> nat \<Rightarrow> (point_offset \<times> string \<times> f32) list \<Rightarrow> bool" where
  "sound_hits e exclusion allowed k rs \<longleftrightarrow> length rs \<le> k \<and> distinct (map fst rs) \<and> best_first_hits (map snd rs) \<and>
     (\<forall>(off, i, s) \<in> set rs. (\<exists>m. ms_get (en_meta e) off = Some m \<and> m_id m = i) \<and> \<not> excluded exclusion i \<and> allowed_by allowed off)"

lemma sound_hits_take: "sound_hits e exclusion allowed n rs \<Longrightarrow> sound_hits e exclusion allowed k (take k rs)"
  by (auto simp: sound_hits_def distinct_take sorted_wrt_take take_map [symmetric] dest: in_set_takeD)

lemma survivors_offsets: "distinct (map fst cs) \<Longrightarrow> distinct (map fst (survivors id_of exclusion cs))"
proof (induction cs)
  case (Cons c cs)
  have "set (map fst (survivors id_of exclusion cs)) \<subseteq> set (map fst cs)" by (force simp: survivors_iff)
  then show ?case using Cons by (cases c) (auto split: option.split)
qed simp

abbreviation best_first_scores :: "(point_offset \<times> f32) list \<Rightarrow> bool" where
  "best_first_scores cs \<equiv> sorted (map (\<lambda>c. score_rank (snd c)) cs)"

lemma survivors_best_first: "best_first_scores cs \<Longrightarrow> best_first_hits (map snd (survivors id_of exclusion cs))"
proof (induction cs)
  case (Cons c cs)
  have "\<forall>h \<in> set (survivors id_of exclusion cs). score_rank (snd c) \<le> score_rank (snd (snd h))" using Cons.prems by (fastforce simp: survivors_iff)
  then show ?case using Cons by (cases c) (auto split: option.split)
qed simp

lemma top_of_best_first: "best_first_scores (top_of cs want admit)"
proof -
  have "sorted (map ckey (sort_key ckey kept))" for kept by simp
  then have "sorted_wrt (\<lambda>a b. ckey a \<le> ckey b) (sort_key ckey kept)" for kept by (simp only: sorted_map)
  then have "sorted_wrt (\<lambda>a b. score_rank (snd a) \<le> score_rank (snd b)) (sort_key ckey kept)" for kept
    by (rule sorted_wrt_mono_rel [rotated]) (auto simp: split_def)
  then show ?thesis by (simp add: top_of_def best_first_key sorted_map sorted_wrt_take)
qed

lemma survivors_sound:
  assumes "distinct (map fst cs)" "best_first_scores cs" "\<And>off s. (off, s) \<in> set cs \<Longrightarrow> allowed_by allowed off"
  shows "sound_hits e exclusion allowed k (take k (survivors (ms_id_of (en_meta e)) exclusion cs))"
  by (rule sound_hits_take [where n = "length (survivors (ms_id_of (en_meta e)) exclusion cs)"])
    (use survivors_offsets [OF assms(1)] survivors_best_first [OF assms(2)] assms(3) in \<open>auto simp: sound_hits_def survivors_iff ms_id_of_def ms_get_def\<close>)

text \<open>A search that returns, with sound results; the only change is the access counters of the results.\<close>

definition sound_run :: "(nat \<Rightarrow> u64) \<Rightarrow> string fset option \<Rightarrow> u32 fset option \<Rightarrow> nat \<Rightarrow> engine
    \<Rightarrow> ((string \<times> f32) list result \<times> engine) option \<Rightarrow> bool" where
  "sound_run clock exclusion allowed k e run \<longleftrightarrow> (\<exists>er. run = Some (Inl er, e)) \<or>
     (\<exists>rs. sound_hits e exclusion allowed k rs \<and> run = Some (with_access clock rs e))"

lemma finish_exact_sound:
  assumes "\<And>w. length (head_of w) \<le> n" "n < usize_max" "0 < k" "k \<le> usize_max"
    and "\<And>w. distinct (map fst (head_of w))" "\<And>w. best_first_scores (head_of w)" "\<And>w off s. (off, s) \<in> set (head_of w) \<Longrightarrow> allowed_by allowed off"
  shows "sound_run clock exclusion allowed k e (finish_exact clock head_of k exclusion e)"
proof -
  note ends = finish_loop_ends [of head_of n k "first_fetch exclusion k" "ms_id_of (en_meta e)" exclusion,
      OF assms(1-3) first_fetch_bounds(1) [OF assms(3)] first_fetch_bounds(2) [OF assms(4)]]
  then obtain w where "finish_loop head_of (ms_id_of (en_meta e)) exclusion k (first_fetch exclusion k) =
      Some (take k (survivors (ms_id_of (en_meta e)) exclusion (head_of w)))" by metis
  moreover have "sound_hits e exclusion allowed k (take k (survivors (ms_id_of (en_meta e)) exclusion (head_of w)))"
    by (rule survivors_sound [OF assms(5,6)]) (rule assms(7))
  ultimately show ?thesis by (auto simp: sound_run_def finish_exact_def)
qed

lemma ucast_up_inj: "inj (ucast :: u32 \<Rightarrow> point_offset)"
  by (rule inj_on_inverseI [of _ bm_offset]) simp

lemma map_filter_offsets:
  assumes "\<And>x y. g x = Some y \<Longrightarrow> fst y = (ucast (x :: u32) :: point_offset)" "distinct xs"
  shows "distinct (map fst (List.map_filter g xs))" "(off, s) \<in> set (List.map_filter g xs) \<Longrightarrow> \<exists>x \<in> set xs. off = ucast x"
proof -
  show "distinct (map fst (List.map_filter g xs))"
    using assms(2)
  proof (induction xs)
    case (Cons x xs)
    have "fst ` set (List.map_filter g xs) \<subseteq> ucast ` set xs" using assms(1) by (force simp: set_map_filter)
    moreover have "ucast x \<notin> (ucast ` set xs :: point_offset set)" using Cons.prems by (simp add: inj_image_mem_iff [OF ucast_up_inj])
    ultimately have "ucast x \<notin> fst ` set (List.map_filter g xs)" by blast
    then show ?case using Cons assms(1) [of x] by (auto simp: List.map_filter_simps split: option.split)
  qed (simp add: List.map_filter_simps)
  show "(off, s) \<in> set (List.map_filter g xs) \<Longrightarrow> \<exists>x \<in> set xs. off = ucast x"
    using assms(1) by (force simp: set_map_filter)
qed

lemma allowed_by_key: "allowed_by (Some bm) off \<longleftrightarrow> bm_offset off |\<in>| bm"
  by (simp add: allowed_by_def bm_offset_def)

lemma distinct_sorted_fset [simp]: "distinct (sorted_list_of_fset (A :: 'a :: linorder fset))"
  by (simp add: sorted_list_of_fset.rep_eq)

lemma map_filter_length: "length (List.map_filter g xs) \<le> length xs"
  by (simp add: List.map_filter_def length_filter_le)

lemma fset_u32_length: "length (sorted_list_of_fset (bm :: u32 fset)) \<le> 2 ^ 32"
proof -
  have "length (sorted_list_of_fset bm) = card (fset bm)" by (simp add: sorted_list_of_fset.rep_eq)
  also have "\<dots> \<le> card (UNIV :: u32 set)" by (rule card_mono) auto
  also have "\<dots> = 2 ^ 32" by (simp add: card_word)
  finally show ?thesis .
qed

lemma exact_candidates_length: "length (exact_candidates Q q allowed e) \<le> 2 ^ 32"
  unfolding exact_candidates_def Let_def
  by (rule order_trans [OF map_filter_length], cases allowed; simp only: option.simps)
    (rule fset_u32_length order_trans [OF length_filter_le fset_u32_length])+

lemma exact_candidates_facts:
  "distinct (map fst (exact_candidates Q q allowed e))"
  "(off, s) \<in> set (exact_candidates Q q allowed e) \<Longrightarrow> allowed_by allowed off"
proof -
  let ?g = "\<lambda>o' :: u32. map_option (\<lambda>v. (ucast o' :: point_offset, cosine_similarity (ql_dot_and_norms Q) q v)) (vs_get (en_vectors e) (ucast o'))"
  have g: "\<And>x y. ?g x = Some y \<Longrightarrow> fst y = ucast x" by auto
  show "distinct (map fst (exact_candidates Q q allowed e))"
    unfolding exact_candidates_def Let_def by (rule map_filter_offsets(1) [OF g]) (auto split: option.split)
  assume a: "(off, s) \<in> set (exact_candidates Q q allowed e)"
  show "allowed_by allowed off"
  proof (cases allowed)
    case (Some bm)
    then have "\<exists>x \<in> set (List.filter (\<lambda>o'. o' |\<in>| pi_all_offsets (en_payload_index e)) (sorted_list_of_fset bm)). off = ucast x"
      using a by (intro map_filter_offsets(2) [OF g]) (auto simp: exact_candidates_def Let_def)
    then show ?thesis using Some by (auto simp: allowed_by_key)
  qed (simp add: allowed_by_def)
qed

lemma top_of_scores_best_first: "best_first_scores (top_of_scores scores allowed want e)"
  by (cases allowed) (simp_all add: top_of_scores_def Let_def top_of_best_first)

lemma top_of_scores_facts:
  assumes "length scores < 2 ^ 64"
  shows "distinct (map fst (top_of_scores scores allowed want e))" "length (top_of_scores scores allowed want e) \<le> 2 ^ 32 + length scores"
    "(off, s) \<in> set (top_of_scores scores allowed want e) \<Longrightarrow> allowed_by allowed off"
proof -
  let ?live = "\<lambda>off. bm_offset off |\<in>| pi_all_offsets (en_payload_index e)"
  have "distinct (map fst (top_of_scores scores allowed want e)) \<and> length (top_of_scores scores allowed want e) \<le> 2 ^ 32 + length scores \<and>
    ((off, s) \<in> set (top_of_scores scores allowed want e) \<longrightarrow> allowed_by allowed off)"
  proof (cases allowed)
    case None
    let ?cs = "map (\<lambda>(i, s). (word_of_nat i :: point_offset, f32_clamp s f32_minus_one f32_one)) (enumerate 0 scores)"
    have "map fst ?cs = map word_of_nat (map fst (enumerate 0 scores))" by (simp add: split_def comp_def del: map_fst_enumerate)
    then have "map fst ?cs = map word_of_nat [0..<length scores]" by (simp only: map_fst_enumerate add_0)
    moreover have "inj_on (word_of_nat :: nat \<Rightarrow> point_offset) {..<length scores}"
      by (rule inj_on_inverseI [of _ unat]) (use assms in \<open>simp add: unat_of_nat\<close>)
    ultimately have "distinct (map fst ?cs)" by (simp add: distinct_map atLeast0LessThan)
    then show ?thesis using None top_of_facts [of ?cs want ?live]
      by (auto simp: top_of_scores_def Let_def allowed_by_def)
  next
    case (Some bm)
    let ?g = "\<lambda>o' :: u32. if unat o' < length scores then Some (ucast o' :: point_offset, f32_clamp (scores ! unat o') f32_minus_one f32_one) else None"
    let ?cs = "List.map_filter ?g (sorted_list_of_fset bm)"
    have g: "\<And>x y. ?g x = Some y \<Longrightarrow> fst y = ucast x" by (auto split: if_splits)
    have f: "distinct (map fst ?cs)" by (rule map_filter_offsets(1)) (rule g, simp_all)
    have "allowed_by allowed off" if "(off, s) \<in> set (top_of ?cs want ?live)"
    proof -
      have "(off, s) \<in> set ?cs" using subsetD [OF top_of_facts(1) that] by simp
      then have "\<exists>x \<in> set (sorted_list_of_fset bm). off = ucast x" by (rule map_filter_offsets(2) [rotated 2]) (rule g, simp_all)
      then show ?thesis using Some by (auto simp: allowed_by_key)
    qed
    moreover have "length ?cs \<le> 2 ^ 32" by (rule order_trans [OF map_filter_length fset_u32_length])
    ultimately show ?thesis using Some f top_of_facts [of ?cs want ?live]
      by (auto simp: top_of_scores_def Let_def)
  qed
  then show "distinct (map fst (top_of_scores scores allowed want e))" "length (top_of_scores scores allowed want e) \<le> 2 ^ 32 + length scores"
    "(off, s) \<in> set (top_of_scores scores allowed want e) \<Longrightarrow> allowed_by allowed off" by blast+
qed

text \<open>Offsets of built segments are only asked of the search of their files: it returns its own
  offsets, best first, and heeds the bitmap.\<close>

definition built_ok :: "query_lib \<Rightarrow> engine \<Rightarrow> bool" where
  "built_ok Q e \<longleftrightarrow> (\<forall>offs p. BuiltSeg offs p \<in> insert (BuiltSeg [] []) (set (sh_store (en_segments e))) \<longrightarrow>
     segment_safe (ql_built Q p offs) (set offs))"

text \<open>The kernel scores every vector it is given, a heap pops a greatest element, built segments keep to
  their offsets, and a vector of scores fits the address space.\<close>

definition search_ok :: "query_lib \<Rightarrow> engine \<Rightarrow> bool" where
  "search_ok Q e \<longleftrightarrow> kernel_ok (ql_batch Q) \<and> pick_ok item_cmp (ql_pick Q) \<and> built_ok Q e \<and>
     (\<forall>g u scores. ql_gpu Q = Some g \<longrightarrow> g u = Some scores \<longrightarrow> length scores < 2 ^ 63)"

lemma snapshot_safe:
  assumes "search_ok Q e"
  shows "list_all2 (\<lambda>(search, n) owned. segment_safe search owned) (ss_segments (engine_snapshot Q C e))
    (map (\<lambda>a. set (offsets_at (en_segments e) a)) (sh_snapshot (en_segments e)))"
proof -
  have "segment_safe (seg_search_of Q (seg_at (en_segments e) a)) (set (offsets_at (en_segments e) a))" for a
  proof (cases "seg_at (en_segments e) a")
    case (PlainSeg h)
    then show ?thesis using assms hot_segment_safe by (simp add: search_ok_def)
  next
    case (BuiltSeg offs p)
    then have "BuiltSeg offs p \<in> insert (BuiltSeg [] []) (set (sh_store (en_segments e)))"
      unfolding seg_at_def by (auto split: if_splits dest: nth_mem)
    then show ?thesis using assms BuiltSeg by (auto simp: search_ok_def built_ok_def)
  qed
  then show ?thesis by (simp add: engine_snapshot_def list_all2_map1 list_all2_map2 list_all2_same)
qed

lemma live_points_iff:
  "(off, i, s) \<in> set (live_points ms exclusion ps) \<longleftrightarrow>
    (\<exists>p \<in> set ps. \<exists>m. off = sp_offset p \<and> s = sp_score p \<and> ms_get ms off = Some m \<and> m_id m = i \<and> \<not> excluded exclusion i)"
  by (fastforce simp: live_points_def set_map_filter split: option.splits if_splits)

lemma live_points_offsets: "distinct (map sp_offset ps) \<Longrightarrow> distinct (map fst (live_points ms exclusion ps))"
proof (induction ps)
  case (Cons p ps)
  have "fst ` set (live_points ms exclusion ps) \<subseteq> sp_offset ` set ps" by (force simp: live_points_iff)
  then have "sp_offset p \<notin> fst ` set (live_points ms exclusion ps)" using Cons.prems by auto
  then show ?case using Cons by (auto simp: live_points_def List.map_filter_simps split: option.split)
qed (simp add: live_points_def List.map_filter_simps)

lemma live_points_best_first: "best_first ps \<Longrightarrow> best_first_hits (map snd (live_points ms exclusion ps))"
proof (induction ps)
  case (Cons p ps)
  have "\<forall>h \<in> set (live_points ms exclusion ps). score_rank (sp_score p) \<le> score_rank (snd (snd h))"
    using Cons.prems by (force simp: live_points_iff rank_def)
  then show ?case using Cons by (auto simp: live_points_def List.map_filter_simps split: option.split)
qed (simp add: live_points_def List.map_filter_simps)

lemma live_points_sound:
  assumes "distinct (map sp_offset ps)" "best_first ps" "\<forall>p \<in> set ps. allowed_by allowed (sp_offset p)"
  shows "sound_hits e exclusion allowed k (take k (live_points (en_meta e) exclusion ps))"
  by (rule sound_hits_take [where n = "length (live_points (en_meta e) exclusion ps)"])
    (use live_points_offsets [OF assms(1)] live_points_best_first [OF assms(2)] assms(3) in \<open>auto simp: sound_hits_def live_points_iff\<close>)

text \<open>The widening retry ends: every round asks for more, up to the number of points.\<close>

lemma live_loop_ends:
  assumes "points \<le> usize_max"
  shows "0 < fetch \<Longrightarrow> (\<exists>er. live_loop search ms exclusion k points scored fetch = Some (Inl er)) \<or>
    (\<exists>ps. (ps = scored \<or> (\<exists>n. search n = Inr ps)) \<and> live_loop search ms exclusion k points scored fetch = Some (Inr (take k (live_points ms exclusion ps))))"
proof (induction "points - fetch" arbitrary: fetch scored rule: less_induct)
  case less
  show ?case
  proof (cases "k \<le> length (live_points ms exclusion scored) \<or> length scored < fetch \<or> points \<le> fetch")
    case True
    then have "live_loop search ms exclusion k points scored fetch = Some (Inr (take k (live_points ms exclusion scored)))"
      by (subst live_loop.simps) (simp add: Let_def)
    then show ?thesis by blast
  next
    case False
    let ?f = "min (sat_mul fetch 2) points"
    have f: "fetch < ?f" using False less.prems assms by (auto simp: sat_mul_def)
    have step: "live_loop search ms exclusion k points scored fetch =
        (case search ?f of Inl er \<Rightarrow> Some (Inl er) | Inr ps \<Rightarrow> live_loop search ms exclusion k points ps ?f)"
      using False by (subst live_loop.simps) (simp add: Let_def)
    show ?thesis
    proof (cases "search ?f")
      case (Inr ps)
      have "points - ?f < points - fetch" using f by (intro diff_less_mono2) auto
      from less.hyps [OF this, of ps] f show ?thesis using step Inr by auto
    qed (use step in auto)
  qed
qed

lemma live_top_k_sound:
  assumes "search_ok Q e" "0 < fetch"
    and "ss_search (ql_batch Q) (ql_pick Q) (engine_snapshot Q C e) q fetch ef (en_vectors e) allowed = Inr scored"
  shows "sound_run clock exclusion allowed k e (live_top_k Q clock (engine_snapshot Q C e) scored fetch q k ef allowed exclusion e)"
proof -
  let ?s = "engine_snapshot Q C e"
  let ?search = "\<lambda>n. ss_search (ql_batch Q) (ql_pick Q) ?s q n ef (en_vectors e) allowed"
  have ok: "kernel_ok (ql_batch Q)" "pick_ok item_cmp (ql_pick Q)" "ss_point_count ?s mod 2 ^ 64 \<le> usize_max"
    using assms(1) by (simp_all add: search_ok_def usize_max_def)
  have hits: "sound_hits e exclusion allowed k (take k (live_points (en_meta e) exclusion ps))" if "?search n = Inr ps" for n ps
    using ss_search_safe [OF ok(1,2) snapshot_safe [OF assms(1)] that] by (intro live_points_sound) auto
  from live_loop_ends [OF ok(3) assms(2), of ?search "en_meta e" exclusion k scored]
  show ?thesis
  proof (elim disjE exE conjE)
    fix er assume "live_loop ?search (en_meta e) exclusion k (ss_point_count ?s mod 2 ^ 64) scored fetch = Some (Inl er)"
    then show ?thesis by (simp add: sound_run_def live_top_k_def)
  next
    fix ps assume r: "live_loop ?search (en_meta e) exclusion k (ss_point_count ?s mod 2 ^ 64) scored fetch = Some (Inr (take k (live_points (en_meta e) exclusion ps)))"
      and "ps = scored"
    then show ?thesis using hits assms(3) by (auto simp: sound_run_def live_top_k_def)
  next
    fix ps n assume r: "live_loop ?search (en_meta e) exclusion k (ss_point_count ?s mod 2 ^ 64) scored fetch = Some (Inr (take k (live_points (en_meta e) exclusion ps)))"
      and "?search n = Inr ps"
    then show ?thesis using hits by (auto simp: sound_run_def live_top_k_def)
  qed
qed

lemma ann_sound:
  assumes "search_ok Q e"
  shows "sound_run clock exclusion allowed k e (ann_top_k_excluding Q C clock q k ef allowed exclusion e)"
proof -
  let ?n = "unat (engine_record_count e)"
  let ?k = "min k ?n"
  have kb: "?k \<le> usize_max" using unat_u64_bound [of "engine_record_count e"] by (simp add: usize_max_def)
  have mono: "sound_run clock exclusion allowed ?k e run \<Longrightarrow> sound_run clock exclusion allowed k e run" for run
    by (auto simp: sound_run_def sound_hits_def)
  show ?thesis
  proof (cases "?k = 0")
    case True
    then show ?thesis by (auto simp: ann_top_k_excluding_def sound_run_def sound_hits_def with_access_def bump_all_def Let_def)
  next
    case pos: False
    let ?gpu = "if qc_gpu_exact_min_records C \<le> ?n then Option.bind (ql_gpu Q) (\<lambda>scores. scores (unit_length q)) else None"
    show ?thesis
    proof (cases ?gpu)
      case (Some scores)
      then have len: "length scores < 2 ^ 63" using assms by (auto simp: search_ok_def split: if_splits bind_splits)
      then have "length scores < 2 ^ 64" by simp
      note f = top_of_scores_facts [OF this]
      have "sound_run clock exclusion allowed ?k e (finish_exact clock (\<lambda>want. top_of_scores scores allowed want e) ?k exclusion e)"
        by (rule finish_exact_sound [where n = "2 ^ 32 + length scores"])
          (use f len kb pos top_of_scores_best_first in \<open>auto simp: usize_max_def\<close>)
      from mono [OF this] show ?thesis by (simp only: ann_top_k_excluding_def Let_def if_not_P [OF pos] Some option.simps)
    next
      case cpu: None
      show ?thesis
      proof (cases "?n \<le> EXACT_FALLBACK_THRESHOLD")
        case True
        let ?cs = "exact_candidates Q q allowed e"
        note f = exact_candidates_facts [where Q = Q and q = q and allowed = allowed and e = e]
        have "sound_run clock exclusion allowed ?k e (finish_exact clock (\<lambda>want. top_of ?cs want (\<lambda>_. True)) ?k exclusion e)"
        proof (rule finish_exact_sound [where n = "length ?cs"])
          show "length ?cs < usize_max" using exact_candidates_length [of Q q allowed e] by (simp add: usize_max_def)
          fix w off s assume "(off, s) \<in> set (top_of ?cs w (\<lambda>_. True))"
          then have "(off, s) \<in> set ?cs" using subsetD [OF top_of_facts(1)] by blast
          then show "allowed_by allowed off" by (rule f(2))
        qed (use top_of_facts(2,3) top_of_best_first f(1) kb pos in auto)
        from mono [OF this] show ?thesis
          by (simp only: ann_top_k_excluding_def Let_def if_not_P [OF pos] cpu option.simps if_P [OF True])
      next
        case False
        let ?f = "first_fetch exclusion ?k"
        show ?thesis
        proof (cases "ss_search (ql_batch Q) (ql_pick Q) (engine_snapshot Q C e) q ?f ef (en_vectors e) allowed")
          case (Inl er)
          then show ?thesis
            by (simp only: ann_top_k_excluding_def Let_def if_not_P [OF pos] cpu option.simps if_not_P [OF False] sum.case) (simp add: sound_run_def)
        next
          case (Inr scored)
          have "0 < ?f" by (rule first_fetch_bounds(1)) (use pos in simp)
          from mono [OF live_top_k_sound [OF assms this Inr, where k = ?k]] show ?thesis
            by (simp only: ann_top_k_excluding_def Let_def if_not_P [OF pos] cpu option.simps if_not_P [OF False] Inr sum.case)
        qed
      qed
    qed
  qed
qed

section \<open>Searches and the rest of the engine\<close>

lemma bump_access_by_live:
  assumes "eng_idx L e" "ms_get (en_meta e) off = Some m"
  shows "bump_access now off e = bump_access_by_id now (m_id m) e"
proof -
  have "fmlookup (en_id_index e) (m_id m) = Some off" using assms by (simp add: eng_idx_def ids_for_def ms_get_def)
  then show ?thesis by (simp add: bump_access_by_id_def)
qed

lemma cell_fields: "cell (e\<lparr>en_counters := x\<rparr>) = cell e" "cell (e\<lparr>en_text_index := t\<rparr>) = cell e" "cell (e\<lparr>en_graph := g\<rparr>) = cell e"
  by (simp_all add: cell_def fun_eq_iff split: option.split)

lemma bump_frame [simp]:
  "en_meta (bump_access now off e) = en_meta e" "en_id_index (bump_access now off e) = en_id_index e" "en_vectors (bump_access now off e) = en_vectors e"
  "en_graph (bump_access now off e) = en_graph e" "stored (bump_access now off e) = stored e"
  by (auto simp: bump_access_def stored_def cell_fields fun_eq_iff)

lemma bump_fold:
  "en_meta (fold (\<lambda>(n, off). bump_access (clock n) off) ps e) = en_meta e"
  "en_id_index (fold (\<lambda>(n, off). bump_access (clock n) off) ps e) = en_id_index e"
  "en_graph (fold (\<lambda>(n, off). bump_access (clock n) off) ps e) = en_graph e"
  "stored (fold (\<lambda>(n, off). bump_access (clock n) off) ps e) = stored e"
  by (induction ps arbitrary: e) auto

lemma bump_all_frame [simp]:
  "en_meta (bump_all clock offs e) = en_meta e" "en_id_index (bump_all clock offs e) = en_id_index e"
  "en_graph (bump_all clock offs e) = en_graph e" "stored (bump_all clock offs e) = stored e"
  by (simp_all add: bump_all_def bump_fold)

lemma reach_bump_fold:
  assumes "lib_ok L" "store_fits L c"
  shows "reach L c (Running lost e) \<Longrightarrow> \<forall>(n, off) \<in> set ps. ms_get (en_meta e) off \<noteq> None \<Longrightarrow>
    reach L c (Running lost (fold (\<lambda>(n, off). bump_access (clock n) off) ps e))"
proof (induction ps arbitrary: e)
  case (Cons p ps)
  obtain n off m where p: "p = (n, off)" "ms_get (en_meta e) off = Some m" using Cons.prems(2) by (cases p) auto
  have "bump_access (clock n) off e = bump_access_by_id (clock n) (m_id m) e"
    by (rule bump_access_by_live [OF running_inv(4) [OF assms Cons.prems(1)] p(2)])
  then have "reach L c (Running lost (bump_access (clock n) off e))" using reach_bump [OF Cons.prems(1)] by simp
  from Cons.IH [OF this] show ?case using Cons.prems(2) p by (auto simp: bump_access_def)
qed simp

lemma reach_bump_all:
  assumes "lib_ok L" "store_fits L c" "reach L c (Running lost e)" "\<forall>off \<in> set offs. ms_get (en_meta e) off \<noteq> None"
  shows "reach L c (Running lost (bump_all clock offs e))"
  unfolding bump_all_def
  by (rule reach_bump_fold [OF assms(1-3)]) (use assms(4) in \<open>auto simp: in_set_enumerate_eq\<close>)

lemma live_stored:
  assumes "eng_dur L e" "eng_idx L e" "ms_get (en_meta e) off = Some m"
  obtains v where "stored e (m_id m) = Some (core_meta m, v)"
proof -
  have r: "rec_view (en_meta e) off = Some (core_meta m)" using assms(3) by (simp add: rec_view_def ms_get_def)
  then obtain v where v: "cell e off = Some (core_meta m, v)" using cell_live [OF assms(1)] by blast
  have "m_id (core_meta m) = m_id m" by (simp add: core_meta_def)
  then have "stored e (m_id m) = Some (core_meta m, v)" using stored_iff [OF assms(1,2), of "m_id m" "core_meta m" v] v by blast
  then show thesis by (rule that)
qed

text \<open>What a caller may rely on for one hit: its record is stored under its id, visible to the scope,
  accepted by the filter (evaluated on the text index \<open>t\<close>), and not superseded when superseded
  memories are excluded.\<close>

definition valid_hit :: "engine_lib \<Rightarrow> tantivy_lib \<Rightarrow> query_config \<Rightarrow> pfilter option \<Rightarrow> string option \<Rightarrow> text_index \<Rightarrow> engine \<Rightarrow> string \<Rightarrow> bool" where
  "valid_hit L T C flt scope t e i \<longleftrightarrow>
     (\<exists>off m v. fmlookup (en_id_index e) i = Some off \<and> stored e i = Some (m, v) \<and> scope_lets scope m \<and> filter_lets T (el_json L) t flt off m) \<and>
     (qc_exclude_superseded C \<longrightarrow> i |\<notin>| superseded_ids (sa_graph (en_graph e)))"

lemma excluded_superseded: "\<not> excluded (superseded_exclusion_set C e) i \<longleftrightarrow> (qc_exclude_superseded C \<longrightarrow> i |\<notin>| superseded_ids (sa_graph (en_graph e)))"
  by (simp add: excluded_def superseded_exclusion_set_def Let_def)

lemma live_valid:
  assumes "eng_dur L e" "eng_idx L e" "small (en_meta e)" "allowed_offsets T (el_json L) out flt scope e = (Inr allowed, e1)"
    and "ms_get (en_meta e) off = Some m" "allowed_by allowed off" "\<not> excluded (superseded_exclusion_set C e) (m_id m)"
  shows "valid_hit L T C flt scope (committed_text out e) e (m_id m)"
proof -
  obtain v where "stored e (m_id m) = Some (core_meta m, v)" by (rule live_stored [OF assms(1,2,5)])
  moreover have "scope_lets scope (core_meta m)" "filter_lets T (el_json L) (committed_text out e) flt off (core_meta m)"
    using allowed_exact [OF assms(1-3,5,4)] assms(6) by (auto simp: scope_lets_def filter_lets_def core_meta_def split: option.splits)
  moreover have "fmlookup (en_id_index e) (m_id m) = Some off" using assms(2,5) by (simp add: eng_idx_def ids_for_def ms_get_def)
  ultimately show ?thesis using assms(7) unfolding valid_hit_def excluded_superseded by blast
qed

lemma sound_hits_ids:
  assumes "eng_idx L e" "sound_hits e exclusion allowed k rs"
  shows "distinct (map fst (map snd rs))"
proof -
  have key: "fmlookup (en_id_index e) i = Some off" if "(off, i, s) \<in> set rs" for off i s
    using assms that by (fastforce simp: sound_hits_def eng_idx_def ids_for_def ms_get_def)
  have d: "distinct (map fst rs)" using assms(2) by (simp add: sound_hits_def)
  have "map (fmlookup (en_id_index e)) (map fst (map snd rs)) = map Some (map fst rs)" using key by auto
  moreover have "distinct (map Some (map fst rs))" using d by (simp add: distinct_map comp_inj_on)
  ultimately have "distinct (map (fmlookup (en_id_index e)) (map fst (map snd rs)))" by (simp only:)
  then show ?thesis by (simp only: distinct_map)
qed

text \<open>The state in which a search runs after its filter was evaluated.\<close>

lemma allowed_frame:
  assumes "allowed_offsets T J out flt scope e = (r, e1)" "reach L c (Running lost e)"
  shows "reach L c (Running lost e1)" "en_meta e1 = en_meta e" "stored e1 = stored e" "en_graph e1 = en_graph e" "en_segments e1 = en_segments e"
    "en_vectors e1 = en_vectors e" "en_id_index e1 = en_id_index e" "en_payload_index e1 = en_payload_index e"
  using allowed_engine [OF assms(1)] assms(2) reach_text_commit [OF assms(2)]
  by (auto simp: stored_def cell_fields fun_eq_iff)

lemma search_ok_frame: "en_segments e1 = en_segments e \<Longrightarrow> search_ok Q e1 = search_ok Q e"
  by (simp add: search_ok_def built_ok_def)

lemma superseded_frame: "en_graph e1 = en_graph e \<Longrightarrow> superseded_exclusion_set C e1 = superseded_exclusion_set C e"
  by (simp add: superseded_exclusion_set_def)

text \<open>A search within a filter and a scope: it returns, keeps the engine reachable and its contents, and
  every result is what its caller asked for.\<close>

lemma ann_valid:
  assumes "lib_ok L" "store_fits L c" "reach L c (Running lost e)" "small (en_meta e)" "search_ok Q e"
    and al: "allowed_offsets T (el_json L) out flt scope e = (Inr allowed, e1)"
  obtains (fails) er where "ann_top_k Q C clock q k ef allowed e1 = Some (Inl er, e1)"
    | (hits) hs e2 where "ann_top_k Q C clock q k ef allowed e1 = Some (Inr hs, e2)" "reach L c (Running lost e2)" "stored e2 = stored e"
        "en_meta e2 = en_meta e" "en_id_index e2 = en_id_index e" "en_graph e2 = en_graph e" "length hs \<le> k" "distinct (map fst hs)"
        "best_first_hits hs" "\<forall>(i, s) \<in> set hs. valid_hit L T C flt scope (committed_text out e) e i"
proof -
  note inv = running_inv [OF assms(1-3)]
  note fr = allowed_frame [OF al assms(3)]
  note inv1 = running_inv [OF assms(1,2) fr(1)]
  have "search_ok Q e1" using assms(5) search_ok_frame [OF fr(5)] by simp
  from ann_sound [OF this, where C = C and clock = clock and exclusion = "superseded_exclusion_set C e1" and allowed = allowed and k = k and q = q and ef = ef]
  consider er where "ann_top_k Q C clock q k ef allowed e1 = Some (Inl er, e1)"
    | rs where "sound_hits e1 (superseded_exclusion_set C e1) allowed k rs" "ann_top_k Q C clock q k ef allowed e1 = Some (with_access clock rs e1)"
    unfolding sound_run_def ann_top_k_def by blast
  then show thesis
  proof cases
    case 1
    then show ?thesis by (rule fails)
  next
    case (2 rs)
    note h = 2(1) [unfolded sound_hits_def]
    have "valid_hit L T C flt scope (committed_text out e) e i" if hit: "(off, i, s) \<in> set rs" for off i s
    proof -
      obtain m where m: "ms_get (en_meta e) off = Some m" "m_id m = i" "\<not> excluded (superseded_exclusion_set C e) i" "allowed_by allowed off"
        using h hit fr(2) superseded_frame [OF fr(4)] by fastforce
      then show ?thesis using live_valid [OF inv(3,4) assms(4) al m(1,4)] by simp
    qed
    moreover have "\<forall>off \<in> set (map fst rs). ms_get (en_meta e1) off \<noteq> None" using h by fastforce
    note r = reach_bump_all [OF assms(1,2) fr(1) this, of clock]
    ultimately show ?thesis
      using 2(2) h r fr sound_hits_ids [OF inv1(4) 2(1)] by (intro hits [of "map snd rs" "bump_all clock (map fst rs) e1"]) (auto simp: with_access_def)
  qed
qed

section \<open>The fusion step\<close>

lemma fused_key: "sort_by fused_cmp hs = sort_key (\<lambda>(i, s). (score_rank s, i)) hs"
proof (rule sort_by_key)
  fix a b :: "string \<times> f32"
  show "fused_cmp a b = Greater \<longleftrightarrow> (case b of (i, s) \<Rightarrow> (score_rank s, i)) < (case a of (i, s) \<Rightarrow> (score_rank s, i))"
    by (cases a; cases b) (auto simp: fused_cmp_def cmp_score_desc_rank cmp_int_def split: if_splits)
qed

lemma hydrate_sound:
  "length (hydrate_and_fuse Q C results q k exclusion allowed e) \<le> k"
  "best_first_hits (hydrate_and_fuse Q C results q k exclusion allowed e)"
  "distinct (map fst results) \<Longrightarrow> distinct (map fst (hydrate_and_fuse Q C results q k exclusion allowed e))"
  "(i, s) \<in> set (hydrate_and_fuse Q C results q k exclusion allowed e) \<Longrightarrow>
     \<exists>off m. fmlookup (en_id_index e) i = Some off \<and> ms_get (en_meta e) off = Some m \<and> allowed_by allowed off \<and> \<not> excluded exclusion i"
proof -
  define max_seq where "max_seq = (if f32_lt f32_zero (f32_clamp (qc_recency_weight C) f32_zero (f32_of_nat 2)) then max_seq_of results e else 1)"
  define g where "g = (\<lambda>(i, act). case fmlookup (en_id_index e) i of None \<Rightarrow> None
      | Some off \<Rightarrow> if \<not> allowed_by allowed off then None else map_option (\<lambda>r. (i, fused_score Q C q max_seq e i act off r)) (get_record e off))"
  define kept where "kept = List.filter (\<lambda>(i, _). \<not> excluded exclusion i) (List.map_filter g results)"
  have eq: "hydrate_and_fuse Q C results q k exclusion allowed e = take k (sort_key (\<lambda>(i, s). (score_rank s, i)) kept)"
    unfolding hydrate_and_fuse_def Let_def fused_key kept_def g_def max_seq_def
    by (cases "results = []"; cases exclusion) (simp_all add: excluded_def List.map_filter_simps)
  show "length (hydrate_and_fuse Q C results q k exclusion allowed e) \<le> k" by (simp add: eq)
  have "sorted (map (\<lambda>(i, s). (score_rank s, i)) (sort_key (\<lambda>(i, s). (score_rank s, i)) kept))" by simp
  then have "sorted_wrt (\<lambda>a b. score_rank (snd a) \<le> score_rank (snd b)) (sort_key (\<lambda>(i, s). (score_rank s, i)) kept)"
    unfolding sorted_map by (rule sorted_wrt_mono_rel [rotated]) (auto simp: split_def)
  then show "best_first_hits (hydrate_and_fuse Q C results q k exclusion allowed e)" by (simp add: eq sorted_map sorted_wrt_take)
  have g: "fst y = fst x" if "g x = Some y" for x y using that by (auto simp: g_def split: prod.splits option.splits if_splits)
  have ids: "map fst (List.map_filter g rs) = map fst (List.filter (\<lambda>x. g x \<noteq> None) rs)" for rs
    using g by (induction rs) (auto simp: List.map_filter_simps split: option.split)
  show "distinct (map fst (hydrate_and_fuse Q C results q k exclusion allowed e))" if "distinct (map fst results)"
  proof -
    have "distinct (map fst (List.map_filter g results))" unfolding ids by (rule distinct_map_filter [OF that])
    then have "distinct (map fst kept)" unfolding kept_def by (rule distinct_map_filter)
    moreover have "mset (map fst (sort_key (\<lambda>(i, s). (score_rank s, i)) kept)) = mset (map fst kept)" by simp
    ultimately have "distinct (map fst (sort_key (\<lambda>(i, s). (score_rank s, i)) kept))" using mset_eq_imp_distinct_iff by blast
    then show ?thesis by (simp add: eq take_map [symmetric] distinct_take)
  qed
  assume "(i, s) \<in> set (hydrate_and_fuse Q C results q k exclusion allowed e)"
  then have "(i, s) \<in> set kept" using in_set_takeD by (fastforce simp: eq)
  then show "\<exists>off m. fmlookup (en_id_index e) i = Some off \<and> ms_get (en_meta e) off = Some m \<and> allowed_by allowed off \<and> \<not> excluded exclusion i"
    by (auto simp: kept_def set_map_filter g_def get_record_def split: option.splits if_splits)
qed

lemma hydrate_valid:
  assumes "eng_dur L e" "eng_idx L e" "small (en_meta e)" "allowed_offsets T (el_json L) out flt scope e = (Inr allowed, e1)"
    and "en_meta e2 = en_meta e" "en_id_index e2 = en_id_index e" "en_graph e2 = en_graph e"
    and hit: "(i, s) \<in> set (hydrate_and_fuse Q C results q k (superseded_exclusion_set C e2) allowed e2)"
  shows "valid_hit L T C flt scope (committed_text out e) e i"
proof -
  obtain off m where m: "fmlookup (en_id_index e) i = Some off" "ms_get (en_meta e) off = Some m" "allowed_by allowed off"
      "\<not> excluded (superseded_exclusion_set C e) i"
    using hydrate_sound(4) [OF hit] assms(5,6) superseded_frame [OF assms(7)] by auto
  have "m_id m = i" using assms(2) m(1,2) by (auto simp: eng_idx_def ids_for_def ms_get_def)
  then show ?thesis using live_valid [OF assms(1-4) m(2,3)] m(4) by simp
qed

lemma bump_ids_fold:
  "reach L c (Running lost e) \<Longrightarrow> reach L c (Running lost (fold (\<lambda>(n, i). bump_access_by_id (clock n) i) ps e))"
  "stored (fold (\<lambda>(n, i). bump_access_by_id (clock n) i) ps e) = stored e"
proof (induction ps arbitrary: e)
  case (Cons p ps)
  case 1
  obtain n i where p: "p = (n, i)" by fastforce
  show ?case using Cons(1) [OF reach_bump [OF 1, of "clock n" i]] p by simp
next
  case (Cons p ps)
  case 2
  show ?case using Cons(2) by (cases p) (simp add: bump_access_by_id_def split: option.split)
qed simp_all

lemma stored_reinforce: "stored (reinforce_graph_ids now is e) = stored e"
  by (simp add: stored_def reinforce_graph_ids_def cell_fields fun_eq_iff)

lemma expand_and_fuse_sound:
  assumes "eng_dur L e" "eng_idx L e" "small (en_meta e)" "allowed_offsets T (el_json L) out flt scope e = (Inr allowed, e1)"
    and e2: "en_meta e2 = en_meta e" "en_id_index e2 = en_id_index e" "en_graph e2 = en_graph e"
    and run: "expand_and_fuse Q C clock now query_text q k allowed seeds e2 = (r, e3)"
  shows "reach L c (Running lost e2) \<Longrightarrow> reach L c (Running lost e3)" "stored e3 = stored e2"
    "r = Some hits \<Longrightarrow> hits \<noteq> [] \<and> length hits \<le> k \<and> best_first_hits hits \<and> (\<forall>(i, s) \<in> set hits. valid_hit L T C flt scope (committed_text out e) e i)"
    "r = Some hits \<Longrightarrow> (\<And>a t seeds n allow rs. ql_expand Q a t seeds n allow = Some rs \<Longrightarrow> distinct (map fst rs)) \<Longrightarrow> distinct (map fst hits)"
proof -
  let ?ex = "superseded_exclusion_set C e2"
  let ?in_scope = "map_option (\<lambda>bm i. case fmlookup (en_id_index e2) i of None \<Rightarrow> False | Some off \<Rightarrow> bm_offset off |\<in>| bm) allowed"
  have cases: "r = None \<and> e3 = e2 \<or> (\<exists>results. ql_expand Q (en_graph e2) query_text seeds (graph_pool k ?ex) ?in_scope = Some results \<and>
      hydrate_and_fuse Q C results q k ?ex allowed e2 \<noteq> [] \<and> r = Some (hydrate_and_fuse Q C results q k ?ex allowed e2) \<and>
      e3 = reinforce_graph_ids now (map fst (hydrate_and_fuse Q C results q k ?ex allowed e2))
        (fold (\<lambda>(n, i). bump_access_by_id (clock n) i) (enumerate 0 (map fst (hydrate_and_fuse Q C results q k ?ex allowed e2))) e2))"
    using run unfolding expand_and_fuse_def Let_def by (auto split: option.splits if_splits)
  show "reach L c (Running lost e2) \<Longrightarrow> reach L c (Running lost e3)" using cases by (auto intro: reach_reinforce bump_ids_fold(1))
  show "stored e3 = stored e2" using cases by (auto simp: stored_reinforce bump_ids_fold(2))
  show "r = Some hits \<Longrightarrow> hits \<noteq> [] \<and> length hits \<le> k \<and> best_first_hits hits \<and> (\<forall>(i, s) \<in> set hits. valid_hit L T C flt scope (committed_text out e) e i)"
    using cases hydrate_sound(1,2) hydrate_valid [OF assms(1-4) e2] by auto
  show "distinct (map fst hits)" if "r = Some hits" "\<And>a t seeds n allow rs. ql_expand Q a t seeds n allow = Some rs \<Longrightarrow> distinct (map fst rs)"
    using cases hydrate_sound(3) that by auto
qed

section \<open>The exact scan is exact\<close>

definition score_at :: "query_lib \<Rightarrow> f32 list \<Rightarrow> engine \<Rightarrow> point_offset \<Rightarrow> f32" where
  "score_at Q q e off = (case vs_get (en_vectors e) off of None \<Rightarrow> f32_zero | Some v \<Rightarrow> cosine_similarity (ql_dot_and_norms Q) q v)"

lemma sorted_ucast: "sorted ks \<Longrightarrow> sorted (map (ucast :: u32 \<Rightarrow> point_offset) ks)"
proof (induction ks)
  case (Cons k ks)
  have "unat (ucast x :: point_offset) = unat x" for x :: u32
    using unat_u32_bound [of x] by (simp add: unsigned_ucast_eq take_bit_nat_eq_self)
  then show ?case using Cons by (auto simp: word_le_nat_alt)
qed simp

lemma map_filter_all: "(\<And>x. x \<in> set xs \<Longrightarrow> h x = Some (f x)) \<Longrightarrow> List.map_filter h xs = map f xs"
  by (induction xs) (simp_all add: List.map_filter_simps)

lemma exact_candidates_eq:
  assumes "eng_dur L e" "eng_idx L e" "small (en_meta e)" "vs_mapped (en_vectors e)"
  shows "exact_candidates Q q allowed e =
    map (\<lambda>off. (off, score_at Q q e off)) (sorted_list_of_set {off. ms_get (en_meta e) off \<noteq> None \<and> allowed_by allowed off})"
proof -
  let ?live = "pi_all_offsets (en_payload_index e)"
  let ?ks = "case allowed of Some bm \<Rightarrow> List.filter (\<lambda>o'. o' |\<in>| ?live) (sorted_list_of_fset bm) | None \<Rightarrow> sorted_list_of_fset ?live"
  let ?S = "{off. ms_get (en_meta e) off \<noteq> None \<and> allowed_by allowed off}"
  have live: "k |\<in>| ?live \<longleftrightarrow> ms_get (en_meta e) (ucast k) \<noteq> None" for k
    using assms(2,3) by (simp add: eng_idx_def keys_for_def pi_rep_def ms_get_def)
  have ks: "set ?ks = {k. ms_get (en_meta e) (ucast k) \<noteq> None \<and> allowed_by allowed (ucast k)}"
    using live by (cases allowed) (auto simp: allowed_by_key sorted_list_of_fset.rep_eq, simp_all add: allowed_by_def)
  have "sorted ?ks" "distinct ?ks" by (cases allowed; simp add: sorted_list_of_fset.rep_eq sorted_wrt_filter)+
  then have "sorted (map ucast ?ks :: point_offset list)" "distinct (map ucast ?ks :: point_offset list)"
    using sorted_ucast by (simp_all add: distinct_map inj_on_subset [OF ucast_up_inj])
  moreover have "set (map ucast ?ks) = ?S"
  proof -
    have "off \<in> ucast ` set ?ks" if "off \<in> ?S" for off
    proof -
      have "ucast (bm_offset off) = off" using key_of_live [OF assms(1,3)] that by auto
      then show ?thesis using that unfolding ks by (intro image_eqI [of _ _ "bm_offset off"]) auto
    qed
    then show ?thesis using ks by auto
  qed
  ultimately have "sorted_list_of_set ?S = map ucast ?ks" using sorted_list_of_set.idem_if_sorted_distinct [of "map ucast ?ks :: point_offset list"] by simp
  moreover have "exact_candidates Q q allowed e = map (\<lambda>off. (off, score_at Q q e off)) (map ucast ?ks)"
  proof -
    have "\<exists>v. vs_get (en_vectors e) (ucast k) = Some v" if "k \<in> set ?ks" for k
      using vs_get_live [OF dur_inv_facts(1) [OF eng_dur_E [OF assms(1)]] assms(4) live_small(2) [OF assms(1), of "ucast k"]] that
      unfolding ks by (auto simp: ms_get_def)
    then have g: "map_option (\<lambda>v. (ucast k, cosine_similarity (ql_dot_and_norms Q) q v)) (vs_get (en_vectors e) (ucast k)) = Some (ucast k, score_at Q q e (ucast k))"
      if "k \<in> set ?ks" for k using that by (auto simp: score_at_def split: option.split)
    have "List.map_filter (\<lambda>k. map_option (\<lambda>v. (ucast k, cosine_similarity (ql_dot_and_norms Q) q v)) (vs_get (en_vectors e) (ucast k))) ?ks =
        map (\<lambda>k. (ucast k, score_at Q q e (ucast k))) ?ks"
      by (rule map_filter_all) (rule g)
    then show ?thesis unfolding exact_candidates_def Let_def by (simp add: comp_def)
  qed
  ultimately show ?thesis by simp
qed

lemma insort_map: "insort_key f (g x) (map g xs) = map g (insort_key (\<lambda>x. f (g x)) x xs)"
  by (induction xs) auto

lemma sort_map: "sort_key f (map g xs) = map g (sort_key (\<lambda>x. f (g x)) xs)"
  by (induction xs) (simp_all add: insort_map)

lemma survivors_live:
  assumes "\<And>c. c \<in> set cs \<Longrightarrow> \<exists>m. ms_get (en_meta e) (fst c) = Some m"
  shows "survivors (ms_id_of (en_meta e)) exclusion cs =
    map (\<lambda>(off, s). (off, m_id (the (ms_get (en_meta e) off)), s)) (List.filter (\<lambda>(off, s). \<not> excluded exclusion (m_id (the (ms_get (en_meta e) off)))) cs)"
  using assms by (induction cs) (fastforce simp: ms_id_of_def ms_get_def)+

text \<open>The reference: all records that match, ranked by score, the older one first on a tie.\<close>

definition matching :: "engine_lib \<Rightarrow> query_lib \<Rightarrow> query_config \<Rightarrow> f32 list \<Rightarrow> pfilter option \<Rightarrow> string option \<Rightarrow> text_index \<Rightarrow> engine \<Rightarrow> point_offset set" where
  "matching L Q C q flt scope t e = {off. \<exists>m. ms_get (en_meta e) off = Some m \<and> scope_lets scope m \<and> filter_lets (ql_tantivy Q) (el_json L) t flt off m \<and>
     (qc_exclude_superseded C \<longrightarrow> m_id m |\<notin>| superseded_ids (sa_graph (en_graph e))) \<and> f32_lt f32_neg_infinity (score_at Q q e off)}"

definition ranked_hits :: "engine_lib \<Rightarrow> query_lib \<Rightarrow> query_config \<Rightarrow> f32 list \<Rightarrow> pfilter option \<Rightarrow> string option \<Rightarrow> text_index \<Rightarrow> engine \<Rightarrow> (string \<times> f32) list" where
  "ranked_hits L Q C q flt scope t e =
     map (\<lambda>off. (m_id (the (ms_get (en_meta e) off)), score_at Q q e off))
       (sort_key (\<lambda>off. (score_rank (score_at Q q e off), off)) (sorted_list_of_set (matching L Q C q flt scope t e)))"

lemma record_count:
  assumes "eng_dur L e" "small (en_meta e)"
  shows "unat (engine_record_count e) = fcard (fmdom (ms_records (en_meta e)))" "unat (engine_record_count e) \<le> unat (ms_next_offset (en_meta e))"
proof -
  let ?ids = "fmdom (ms_records (en_meta e))"
  have "unat ` fset ?ids \<subseteq> {..<unat (ms_next_offset (en_meta e))}"
    using live_small(3) [OF assms(1)] by (auto simp: fmlookup_dom_iff word_less_nat_alt)
  then have "card (fset ?ids) \<le> card {..<unat (ms_next_offset (en_meta e))}"
    by (intro card_inj_on_le [of unat]) (simp_all add: inj_on_def word_unat_eq_iff)
  then have le: "fcard ?ids \<le> unat (ms_next_offset (en_meta e))" by (simp add: fcard.rep_eq)
  then have "fcard ?ids < 2 ^ 64" using assms(2) by (simp add: small_def)
  moreover have "engine_record_count e = word_of_nat (fcard ?ids)"
    using dur_inv_facts(4) [OF eng_dur_E [OF assms(1)]] by (simp add: ms_inv_def engine_record_count_def)
  ultimately show eq: "unat (engine_record_count e) = fcard ?ids" by (simp add: unat_of_nat)
  show "unat (engine_record_count e) \<le> unat (ms_next_offset (en_meta e))" using le eq by simp
qed

lemma matching_count:
  assumes "eng_dur L e" "small (en_meta e)"
  shows "card (matching L Q C q flt scope t e) \<le> unat (engine_record_count e)"
proof -
  have "matching L Q C q flt scope t e \<subseteq> fset (fmdom (ms_records (en_meta e)))" by (auto simp: matching_def ms_get_def fmlookup_dom_iff)
  then have "card (matching L Q C q flt scope t e) \<le> fcard (fmdom (ms_records (en_meta e)))" unfolding fcard.rep_eq by (intro card_mono) auto
  then show ?thesis using record_count(1) [OF assms] by simp
qed

lemma filter_sorted_set: "List.filter P (sorted_list_of_set S) = sorted_list_of_set {x \<in> S. P x}" if "finite S"
proof -
  have "sorted_list_of_set (set (List.filter P (sorted_list_of_set S))) = List.filter P (sorted_list_of_set S)"
    by (rule sorted_list_of_set.idem_if_sorted_distinct) (simp_all add: sorted_wrt_filter)
  then show ?thesis unfolding set_filter set_sorted_list_of_set [OF that] by (rule sym)
qed

lemma exact_ranking:
  assumes "eng_dur L e" "eng_idx L e" "small (en_meta e)" "vs_mapped (en_vectors e)"
    and "allowed_offsets (ql_tantivy Q) (el_json L) out flt scope e = (Inr allowed, e1)"
  shows "map snd (survivors (ms_id_of (en_meta e)) (superseded_exclusion_set C e)
      (sort_key ckey (List.filter (good (\<lambda>_. True)) (exact_candidates Q q allowed e)))) = ranked_hits L Q C q flt scope (committed_text out e) e"
proof -
  let ?S = "{off. ms_get (en_meta e) off \<noteq> None \<and> allowed_by allowed off}" and ?ex = "superseded_exclusion_set C e"
  let ?id = "\<lambda>off. m_id (the (ms_get (en_meta e) off))" and ?g = "\<lambda>off. (off, score_at Q q e off)"
  let ?M = "matching L Q C q flt scope (committed_text out e) e"
  have fin: "finite ?S" by simp
  have M: "{off \<in> {off \<in> ?S. f32_lt f32_neg_infinity (score_at Q q e off)}. \<not> excluded ?ex (?id off)} = ?M"
    using allowed_exact [OF assms(1-3) _ assms(5)] by (auto simp: matching_def excluded_superseded)
  have "List.filter (\<lambda>(off, s). \<not> excluded ?ex (?id off)) (sort_key ckey (List.filter (good (\<lambda>_. True)) (exact_candidates Q q allowed e)))
      = sort_key ckey (List.filter (\<lambda>(off, s). \<not> excluded ?ex (?id off)) (List.filter (good (\<lambda>_. True)) (map ?g (sorted_list_of_set ?S))))"
    unfolding exact_candidates_eq [OF assms(1-4)] by (rule filter_sort)
  also have "List.filter (\<lambda>(off, s). \<not> excluded ?ex (?id off)) (List.filter (good (\<lambda>_. True)) (map ?g offs)) =
      map ?g (List.filter (\<lambda>off. \<not> excluded ?ex (?id off)) (List.filter (\<lambda>off. f32_lt f32_neg_infinity (score_at Q q e off)) offs))" for offs
    by (induction offs) auto
  also have "List.filter (\<lambda>off. \<not> excluded ?ex (?id off)) (List.filter (\<lambda>off. f32_lt f32_neg_infinity (score_at Q q e off)) (sorted_list_of_set ?S)) = sorted_list_of_set ?M"
    by (subst filter_sorted_set [OF fin], subst filter_sorted_set) (simp_all only: M finite)
  also have "sort_key ckey (map ?g (sorted_list_of_set ?M)) = map ?g (sort_key (\<lambda>off. (score_rank (score_at Q q e off), off)) (sorted_list_of_set ?M))"
    by (simp add: sort_map)
  finally have rank: "List.filter (\<lambda>(off, s). \<not> excluded ?ex (?id off)) (sort_key ckey (List.filter (good (\<lambda>_. True)) (exact_candidates Q q allowed e)))
      = map ?g (sort_key (\<lambda>off. (score_rank (score_at Q q e off), off)) (sorted_list_of_set ?M))" .
  have "survivors (ms_id_of (en_meta e)) ?ex (sort_key ckey (List.filter (good (\<lambda>_. True)) (exact_candidates Q q allowed e))) =
      map (\<lambda>(off, s). (off, ?id off, s)) (map ?g (sort_key (\<lambda>off. (score_rank (score_at Q q e off), off)) (sorted_list_of_set ?M)))"
    unfolding rank [symmetric]
    by (rule survivors_live) (auto simp: exact_candidates_eq [OF assms(1-4)])
  then show ?thesis by (simp add: ranked_hits_def comp_def)
qed

text \<open>The exact scan gives the first \<open>k\<close> of the reference ranking.\<close>

lemma scan_exact:
  assumes "eng_dur L e" "eng_idx L e" "small (en_meta e)" "vs_mapped (en_vectors e)"
    and "unat (engine_record_count e) \<le> EXACT_FALLBACK_THRESHOLD" "ql_gpu Q = None \<or> unat (engine_record_count e) < qc_gpu_exact_min_records C"
    and "\<And>off. ms_get (en_meta e) off \<noteq> None \<Longrightarrow> score_at Q q e off \<noteq> neg_zero"
    and al: "allowed_offsets (ql_tantivy Q) (el_json L) out flt scope e = (Inr allowed, e1)"
    and fr: "en_meta e1 = en_meta e" "en_vectors e1 = en_vectors e" "en_payload_index e1 = en_payload_index e" "en_graph e1 = en_graph e"
  shows "\<exists>e'. ann_top_k Q C clock q k ef allowed e1 = Some (Inr (take k (ranked_hits L Q C q flt scope (committed_text out e) e)), e')"
proof -
  let ?n = "unat (engine_record_count e)" and ?cs = "exact_candidates Q q allowed e" and ?ex = "superseded_exclusion_set C e"
  let ?k = "min k ?n" and ?r = "sort_key ckey (List.filter (good (\<lambda>_. True)) ?cs)" and ?hits = "ranked_hits L Q C q flt scope (committed_text out e) e"
  have "length ?hits \<le> ?n" using matching_count [OF assms(1,3), of Q C q flt scope "committed_text out e"] by (simp add: ranked_hits_def)
  then have cut: "take ?k ?hits = take k ?hits" by (cases "k \<le> ?n") auto
  have same: "engine_record_count e1 = engine_record_count e" "exact_candidates Q q allowed e1 = ?cs" "superseded_exclusion_set C e1 = ?ex"
    by (simp_all add: engine_record_count_def exact_candidates_def fr superseded_frame [OF fr(4)])
  have run: "ann_top_k Q C clock q k ef allowed e1 = ann_top_k_excluding Q C clock q k ef allowed ?ex e1" by (simp add: ann_top_k_def same)
  show ?thesis
  proof (cases "?k = 0")
    case True
    then show ?thesis using cut unfolding run ann_top_k_excluding_def Let_def same by simp
  next
    case pos: False
    have cs: "?cs = map (\<lambda>off. (off, score_at Q q e off)) (sorted_list_of_set {off. ms_get (en_meta e) off \<noteq> None \<and> allowed_by allowed off})"
      by (rule exact_candidates_eq [OF assms(1-4)])
    have head: "top_of ?cs w (\<lambda>_. True) = take w ?r" if "w \<le> usize_max" for w
      by (rule top_of_exact [OF _ _ that]) (use assms(7) in \<open>auto simp: cs comp_def\<close>)
    have "?n < 2 ^ 64" by (rule unat_u64_bound)
    then have kb: "0 < ?k" "?k \<le> usize_max" using pos by (auto simp: usize_max_def)
    have "finish_loop (\<lambda>w. top_of ?cs w (\<lambda>_. True)) (ms_id_of (en_meta e)) ?ex ?k (first_fetch ?ex ?k) = Some (take ?k (survivors (ms_id_of (en_meta e)) ?ex ?r))"
      by (rule finish_loop_eq [where n = "2 ^ 32"])
        (use head kb first_fetch_bounds exact_candidates_length [of Q q allowed e] order_trans [OF top_of_facts(2)] in \<open>auto simp: usize_max_def\<close>)
    then have "finish_exact clock (\<lambda>w. top_of ?cs w (\<lambda>_. True)) ?k ?ex e1 = Some (with_access clock (take ?k (survivors (ms_id_of (en_meta e)) ?ex ?r)) e1)"
      by (simp only: finish_exact_def option.map fr)
    moreover have "ann_top_k_excluding Q C clock q k ef allowed ?ex e1 = finish_exact clock (\<lambda>w. top_of ?cs w (\<lambda>_. True)) ?k ?ex e1"
      using assms(5,6) pos unfolding ann_top_k_excluding_def Let_def same by auto
    moreover have "map snd (take ?k (survivors (ms_id_of (en_meta e)) ?ex ?r)) = take k ?hits"
      using exact_ranking [OF assms(1-4) al] cut by (simp add: take_map [symmetric])
    ultimately show ?thesis unfolding run by (simp add: with_access_def)
  qed
qed

section \<open>An example\<close>

definition demo_query :: query_lib where
  "demo_query = \<lparr>ql_dot_and_norms = (\<lambda>_ _. (f32_zero, f32_zero, f32_zero)), ql_batch = demo_kernel, ql_pick = first_max item_key,
     ql_built = (\<lambda>_ _ _ _ _ _. Inr []), ql_tantivy = demo_tantivy, ql_gpu = None, ql_expand = (\<lambda>_ _ seeds _ _. Some seeds)\<rparr>"

definition demo_query_config :: query_config where
  "demo_query_config = \<lparr>qc_exclude_superseded = False, qc_gpu_exact_min_records = 0, qc_search_list_size = 4, qc_cognitive_alpha = f32_one, qc_recency_weight = f32_zero\<rparr>"

lemma demo_search_ok: "search_ok demo_query e"
  using demo_picks(1) by (simp add: search_ok_def built_ok_def demo_query_def kernel_ok_def demo_kernel_def segment_safe_def)

lemma demo_score: "score_at demo_query q e off = f32_zero"
proof -
  have "f32_eq (f32_sqrt (f32_mul f32_zero f32_zero)) f32_zero"
    by (simp add: f32_eq_def f32_sqrt_def f32_mul_def pat_sqrt_def pat_mul_def f32_is_nan_def nan_pat_def finite_pat_def mag_of_def neg_of_def inf_mag_def
        float_val_def round_mag_def with_sign_def f32_zero_def fmt32_def Let_def)
  then show ?thesis by (simp add: score_at_def cosine_similarity_def demo_query_def split: option.split)
qed

lemma demo_ranked:
  assumes "reach demo_engine_lib demo_store (Running {} e)" "stored e = [''a'' \<mapsto> entry_of demo_record]" "fmlookup (en_id_index e) ''a'' = Some 0"
  shows "ranked_hits demo_engine_lib demo_query demo_query_config q None None t e = [(''a'', f32_zero)]"
proof -
  note inv = running_inv [OF demo_lib_good demo_fits assms(1)]
  have ids: "fmlookup (en_id_index e) i = Some off \<longleftrightarrow> (\<exists>m. ms_get (en_meta e) off = Some m \<and> m_id m = i)" for i off
    using inv(4) by (simp add: eng_idx_def ids_for_def ms_get_def)
  then obtain m where m: "ms_get (en_meta e) 0 = Some m" "m_id m = ''a''" using assms(3) by blast
  have "off = 0" if at: "ms_get (en_meta e) off = Some m'" for off m'
  proof -
    obtain v where "stored e (m_id m') = Some (core_meta m', v)" by (rule live_stored [OF inv(3,4) at])
    then have "m_id m' = ''a''" using assms(2) by (simp split: if_splits)
    then show ?thesis using ids [of "''a''" off] at assms(3) by auto
  qed
  moreover have "f32_lt f32_neg_infinity f32_zero"
    by (simp add: f32_lt_def f32_neg_infinity_def f32_zero_def f32_is_nan_def nan_pat_def num_key_def neg_of_def mag_of_def inf_mag_def sign_pos_def fmt32_def)
  ultimately have "matching demo_engine_lib demo_query demo_query_config q None None t e = {0}"
    using m by (auto simp: matching_def scope_lets_def filter_lets_def demo_query_config_def demo_score)
  then show ?thesis using m by (simp add: ranked_hits_def demo_score)
qed

section \<open>What searches guarantee\<close>

text \<open>C10. Every search is sound: on any reachable engine that handed out at most \<open>2 ^ 32\<close> offsets,
  with kernels, heaps and built segments as \<open>search_ok\<close> asks, a vector search returns, whichever
  path answers it (the exact scan, the segments with their widening retry, the scores of a GPU).
  When it returns results and not an error, they are at most \<open>top_k\<close>, best first and without
  repetition; each is a stored record that the scope may see and the filter accepts, full-text
  conditions included; and if superseded memories are excluded by the configuration, which they are
  not by default, none is superseded. The search changes nothing that is stored.\<close>

theorem engine_search_sound:
  assumes "lib_ok L" "store_fits L c" "reach L c (Running lost e)" "unat (ms_next_offset (en_meta e)) \<le> 2 ^ 32" "search_ok Q e"
  shows "\<exists>r e'. search_ann_candidates_filtered_with_ef L Q C clock out q k flt ef scope e = Some (r, e') \<and>
    reach L c (Running lost e') \<and> stored e' = stored e \<and>
    (\<forall>hits. r = Inr hits \<longrightarrow> length hits \<le> k \<and> distinct (map fst hits) \<and> best_first_hits hits \<and>
       (\<forall>(i, s) \<in> set hits. valid_hit L (ql_tantivy Q) C flt scope (committed_text out e) e i))"
proof (cases "validate_query q (en_dim e)")
  case (Inl er)
  then show ?thesis using assms(3) by (simp add: search_ann_candidates_filtered_with_ef_def)
next
  case v: (Inr u)
  obtain r1 e1 where al: "allowed_offsets (ql_tantivy Q) (el_json L) out flt scope e = (r1, e1)" by fastforce
  note fr = allowed_frame [OF al assms(3)]
  show ?thesis
  proof (cases r1)
    case (Inl er)
    then show ?thesis using v al fr by (simp add: search_ann_candidates_filtered_with_ef_def)
  next
    case (Inr allowed)
    have run: "search_ann_candidates_filtered_with_ef L Q C clock out q k flt ef scope e = ann_top_k Q C clock q k ef allowed e1"
      using v al Inr by (simp add: search_ann_candidates_filtered_with_ef_def)
    have small: "small (en_meta e)" using assms(4) by (simp add: small_def)
    show ?thesis
    proof (rule ann_valid [OF assms(1-3) small assms(5) al [unfolded Inr], where C = C and clock = clock and q = q and k = k and ef = ef])
      fix er assume "ann_top_k Q C clock q k ef allowed e1 = Some (Inl er, e1)"
      then show ?thesis using run fr by auto
    next
      fix hs e2 assume "ann_top_k Q C clock q k ef allowed e1 = Some (Inr hs, e2)" "reach L c (Running lost e2)" "stored e2 = stored e"
        "length hs \<le> k" "distinct (map fst hs)" "best_first_hits hs" "\<forall>(i, s) \<in> set hs. valid_hit L (ql_tantivy Q) C flt scope (committed_text out e) e i"
      then show ?thesis unfolding run by blast
    qed
  qed
qed

theorem engine_search_sound_witness:
  "\<exists>e r e'. reach demo_engine_lib demo_store (Running {} e) \<and>
     search_ann_candidates_filtered_with_ef demo_engine_lib demo_query demo_query_config (\<lambda>_. 9) CommitOk [f32_one] 3 (Some (FullText ''t'' ''x'')) None (Some ''s'') e = Some (r, e') \<and>
     stored e' = [''a'' \<mapsto> entry_of demo_record] \<and> (\<forall>hits. r = Inr hits \<longrightarrow> length hits \<le> 3 \<and> set (map fst hits) \<subseteq> {''a''})"
proof -
  obtain e where e: "reach demo_engine_lib demo_store (Running {} e)" "stored e = [''a'' \<mapsto> entry_of demo_record]" "ms_next_offset (en_meta e) = 1"
    by (rule demo_inserted)
  have "unat (ms_next_offset (en_meta e)) \<le> 2 ^ 32" by (simp add: e(3))
  from engine_search_sound [OF demo_lib_good demo_fits e(1) this demo_search_ok, where C = demo_query_config and clock = "\<lambda>_. 9" and out = CommitOk and q = "[f32_one]" and k = 3
      and flt = "Some (FullText ''t'' ''x'')" and ef = None and scope = "Some ''s''"]
  obtain r e' where r: "search_ann_candidates_filtered_with_ef demo_engine_lib demo_query demo_query_config (\<lambda>_. 9) CommitOk [f32_one] 3 (Some (FullText ''t'' ''x'')) None (Some ''s'') e = Some (r, e')"
      "stored e' = stored e" "\<And>hits. r = Inr hits \<Longrightarrow> length hits \<le> 3 \<and> (\<forall>(i, s) \<in> set hits. valid_hit demo_engine_lib (ql_tantivy demo_query) demo_query_config (Some (FullText ''t'' ''x'')) (Some ''s'') (committed_text CommitOk e) e i)"
    by blast
  have "i = ''a''" if "valid_hit demo_engine_lib T demo_query_config flt scope t e i" for i T flt scope t
    using that e(2) by (auto simp: valid_hit_def split: if_splits)
  then have "length hits \<le> 3 \<and> set (map fst hits) \<subseteq> {''a''}" if "r = Inr hits" for hits using r(3) [OF that] by fastforce
  then show ?thesis using e(1,2) r(1,2) by auto
qed

text \<open>C11. The cognitive search stays in bounds, whatever the expansion over the shared graph and the
  lexical index proposes: under the conditions of the vector search it returns, and its results,
  if it has any and no error, are at most \<open>top_k\<close>, best first, stored records that the scope may
  see and the filter accepts, full-text conditions included, and, if the configuration excludes
  superseded memories (by default it does not), not superseded; an expansion that names no id twice
  gives results without repetition. An empty result is reported as none. Nothing that is stored
  changes.\<close>

theorem cognitive_search_sound:
  assumes "lib_ok L" "store_fits L c" "reach L c (Running lost e)" "unat (ms_next_offset (en_meta e)) \<le> 2 ^ 32" "search_ok Q e"
  shows "\<exists>r e'. cognitive_search L Q C clock hits_clock now out query_text q k flt ef scope e = Some (r, e') \<and>
    reach L c (Running lost e') \<and> stored e' = stored e \<and>
    (\<forall>hits. r = Inr (Some hits) \<longrightarrow> hits \<noteq> [] \<and> length hits \<le> k \<and> best_first_hits hits \<and>
       (\<forall>(i, s) \<in> set hits. valid_hit L (ql_tantivy Q) C flt scope (committed_text out e) e i) \<and>
       ((\<forall>a t seeds n allow rs. ql_expand Q a t seeds n allow = Some rs \<longrightarrow> distinct (map fst rs)) \<longrightarrow> distinct (map fst hits)))"
proof (cases "validate_query q (en_dim e)")
  case (Inl er)
  then show ?thesis using assms(3) by (simp add: cognitive_search_def)
next
  case v: (Inr u)
  obtain r1 e1 where al: "allowed_offsets (ql_tantivy Q) (el_json L) out flt scope e = (r1, e1)" by fastforce
  note fr = allowed_frame [OF al assms(3)]
  let ?k = "min k (unat (engine_record_count e))"
  have small: "small (en_meta e)" using assms(4) by (simp add: small_def)
  note inv = running_inv [OF assms(1-3)]
  show ?thesis
  proof (cases r1)
    case (Inl er)
    then show ?thesis using v al fr by (simp add: cognitive_search_def Let_def)
  next
    case (Inr allowed)
    show ?thesis
    proof (rule ann_valid [OF assms(1-3) small assms(5) al [unfolded Inr], where C = C and clock = clock and q = q and k = "max ?k 10" and ef = ef])
      fix er assume "ann_top_k Q C clock q (max ?k 10) ef allowed e1 = Some (Inl er, e1)"
      then show ?thesis using v al fr Inr by (simp add: cognitive_search_def Let_def)
    next
      fix seeds e2 assume ann: "ann_top_k Q C clock q (max ?k 10) ef allowed e1 = Some (Inr seeds, e2)"
        and e2: "reach L c (Running lost e2)" "stored e2 = stored e" "en_meta e2 = en_meta e" "en_id_index e2 = en_id_index e" "en_graph e2 = en_graph e"
      obtain hits e3 where run: "expand_and_fuse Q C hits_clock now query_text q ?k allowed seeds e2 = (hits, e3)" by fastforce
      then have eq: "cognitive_search L Q C clock hits_clock now out query_text q k flt ef scope e = Some (Inr hits, e3)"
        using v al Inr ann by (simp add: cognitive_search_def Let_def)
      note f = expand_and_fuse_sound [OF inv(3,4) small al [unfolded Inr] e2(3-5) run]
      show ?thesis unfolding eq using f(1) [OF e2(1)] f(2) e2(2) f(3,4) by (cases hits) force+
    qed
  qed
qed

theorem cognitive_search_sound_witness:
  "\<exists>e r e'. reach demo_engine_lib demo_store (Running {} e) \<and>
     cognitive_search demo_engine_lib demo_query demo_query_config (\<lambda>_. 9) (\<lambda>_. 9) 9 CommitOk ''x'' [f32_one] 3 None None (Some ''s'') e = Some (r, e') \<and>
     stored e' = [''a'' \<mapsto> entry_of demo_record] \<and> (\<forall>hits. r = Inr (Some hits) \<longrightarrow> hits \<noteq> [] \<and> length hits \<le> 3 \<and> set (map fst hits) \<subseteq> {''a''})"
proof -
  obtain e where e: "reach demo_engine_lib demo_store (Running {} e)" "stored e = [''a'' \<mapsto> entry_of demo_record]" "ms_next_offset (en_meta e) = 1"
    by (rule demo_inserted)
  have "unat (ms_next_offset (en_meta e)) \<le> 2 ^ 32" by (simp add: e(3))
  from cognitive_search_sound [OF demo_lib_good demo_fits e(1) this demo_search_ok, where C = demo_query_config and clock = "\<lambda>_. 9" and hits_clock = "\<lambda>_. 9" and now = 9
      and out = CommitOk and query_text = "''x''" and q = "[f32_one]" and k = 3 and flt = None and ef = None and scope = "Some ''s''"]
  obtain r e' where r: "cognitive_search demo_engine_lib demo_query demo_query_config (\<lambda>_. 9) (\<lambda>_. 9) 9 CommitOk ''x'' [f32_one] 3 None None (Some ''s'') e = Some (r, e')"
      "stored e' = stored e" "\<And>hits. r = Inr (Some hits) \<Longrightarrow> hits \<noteq> [] \<and> length hits \<le> 3 \<and> (\<forall>(i, s) \<in> set hits. valid_hit demo_engine_lib (ql_tantivy demo_query) demo_query_config None (Some ''s'') (committed_text CommitOk e) e i)"
    by blast
  have "i = ''a''" if "valid_hit demo_engine_lib T demo_query_config flt scope t e i" for i T flt scope t
    using that e(2) by (auto simp: valid_hit_def split: if_splits)
  then have "hits \<noteq> [] \<and> length hits \<le> 3 \<and> set (map fst hits) \<subseteq> {''a''}" if "r = Inr (Some hits)" for hits using r(3) [OF that] by fastforce
  then show ?thesis using e(1,2) r(1,2) by auto
qed

text \<open>C9. Small stores are searched exactly: with at most 4096 records, at most \<open>2 ^ 32\<close> offsets handed
  out, a mapped vector file, no scores from a GPU, a valid query and no live record with the score
  \<open>-0.0\<close>, the search returns the first \<open>top_k\<close> of all matching records, ranked by cosine similarity,
  the older record first on a tie, or the error of evaluating the filter, which is then one with
  full text or with an inverted range. Records match when the scope sees them, the filter accepts
  them (full text on the documents committed before), they are not superseded (when the
  configuration excludes those) and their score is not NaN. On scores of \<open>-0.0\<close> the property fails:
  \<open>top_of\<close> does not tell them from \<open>0.0\<close> while the ranking does.\<close>

theorem engine_exact_search:
  assumes "lib_ok L" "store_fits L c" "reach L c (Running lost e)" "unat (ms_next_offset (en_meta e)) \<le> 2 ^ 32" "vs_mapped (en_vectors e)"
    and "unat (engine_record_count e) \<le> EXACT_FALLBACK_THRESHOLD" "ql_gpu Q = None \<or> unat (engine_record_count e) < qc_gpu_exact_min_records C"
    and "validate_query q (en_dim e) = Inr ()" "\<And>off. ms_get (en_meta e) off \<noteq> None \<Longrightarrow> score_at Q q e off \<noteq> neg_zero"
  shows "\<exists>r e'. search_ann_candidates_filtered_with_ef L Q C clock out q k flt ef scope e = Some (r, e') \<and>
    (case r of
       Inr hits \<Rightarrow> hits = take k (ranked_hits L Q C q flt scope (committed_text out e) e)
     | Inl er \<Rightarrow> \<exists>f. flt = Some f \<and> fst (evaluate_filter (ql_tantivy Q) (el_json L) out f e) = Inl er \<and> (uses_full_text f \<or> \<not> ranges_ok f))"
proof -
  note inv = running_inv [OF assms(1-3)]
  have small: "small (en_meta e)" using assms(4) by (simp add: small_def)
  obtain r1 e1 where al: "allowed_offsets (ql_tantivy Q) (el_json L) out flt scope e = (r1, e1)" by fastforce
  note fr = allowed_frame [OF al assms(3)]
  show ?thesis
  proof (cases r1)
    case (Inl er)
    then have "search_ann_candidates_filtered_with_ef L Q C clock out q k flt ef scope e = Some (Inl er, e1)"
      using assms(8) al by (simp add: search_ann_candidates_filtered_with_ef_def)
    moreover have "\<exists>f. flt = Some f \<and> fst (evaluate_filter (ql_tantivy Q) (el_json L) out f e) = Inl er \<and> (uses_full_text f \<or> \<not> ranges_ok f)"
      using allowed_fails [OF al [unfolded Inl]] by metis
    ultimately show ?thesis by simp
  next
    case (Inr allowed)
    have "search_ann_candidates_filtered_with_ef L Q C clock out q k flt ef scope e = ann_top_k Q C clock q k ef allowed e1"
      using assms(8) al Inr by (simp add: search_ann_candidates_filtered_with_ef_def)
    moreover obtain e' where "ann_top_k Q C clock q k ef allowed e1 = Some (Inr (take k (ranked_hits L Q C q flt scope (committed_text out e) e)), e')"
      using scan_exact [OF inv(3,4) small assms(5-7,9) al [unfolded Inr] fr(2,6,8,4)] by blast
    ultimately show ?thesis by simp
  qed
qed

theorem engine_exact_search_witness:
  "\<exists>e e'. reach demo_engine_lib demo_store (Running {} e) \<and>
     search_ann_candidates_filtered_with_ef demo_engine_lib demo_query demo_query_config (\<lambda>_. 9) CommitOk (replicate (en_dim e) f32_one) 3 None None None e = Some (Inr [(''a'', f32_zero)], e')"
proof -
  obtain e where e: "reach demo_engine_lib demo_store (Running {} e)" "stored e = [''a'' \<mapsto> entry_of demo_record]" "ms_next_offset (en_meta e) = 1"
      "fmlookup (en_id_index e) ''a'' = Some 0" "vs_ok demo_count (en_vectors e)"
    by (rule demo_inserted)
  let ?q = "replicate (en_dim e) f32_one"
  have n: "unat (ms_next_offset (en_meta e)) \<le> 2 ^ 32" by (simp add: e(3))
  have "unat (engine_record_count e) \<le> 1"
    using record_count(2) [OF running_inv(3) [OF demo_lib_good demo_fits e(1)]] n e(3) by (simp add: small_def)
  then have c: "unat (engine_record_count e) \<le> EXACT_FALLBACK_THRESHOLD" by (simp add: EXACT_FALLBACK_THRESHOLD_def)
  have "f32_is_finite f32_one" by (simp add: f32_is_finite_def finite_pat_def mag_of_def f32_one_def)
  then have v: "validate_query ?q (en_dim e) = Inr ()" by (simp add: validate_query_def validate_dimension_def validate_finite_def list_all_iff)
  have m: "vs_mapped (en_vectors e)" using e(5) by (simp add: vs_ok_wf)
  have g: "ql_gpu demo_query = None \<or> unat (engine_record_count e) < qc_gpu_exact_min_records demo_query_config" by (simp add: demo_query_def)
  have z: "score_at demo_query ?q e off \<noteq> neg_zero" for off by (simp add: demo_score neg_zero_def f32_zero_def)
  from engine_exact_search [OF demo_lib_good demo_fits e(1) n m c g v z, where clock = "\<lambda>_. 9" and out = CommitOk and k = 3 and flt = None and ef = None and scope = None]
  obtain r e' where "search_ann_candidates_filtered_with_ef demo_engine_lib demo_query demo_query_config (\<lambda>_. 9) CommitOk ?q 3 None None None e = Some (r, e')"
      "case r of Inr hits \<Rightarrow> hits = take 3 (ranked_hits demo_engine_lib demo_query demo_query_config ?q None None (committed_text CommitOk e) e) | Inl er \<Rightarrow> False"
    by (auto cong: sum.case_cong)
  then have "search_ann_candidates_filtered_with_ef demo_engine_lib demo_query demo_query_config (\<lambda>_. 9) CommitOk ?q 3 None None None e =
      Some (Inr (take 3 (ranked_hits demo_engine_lib demo_query demo_query_config ?q None None (committed_text CommitOk e) e)), e')" by (cases r) simp_all
  then show ?thesis unfolding demo_ranked [OF e(1,2,4)] using e(1) by auto
qed

end
