(* ===== verification/Spec2Isabelle.thy ===== *)
theory Spec2Isabelle
  imports Wal Vector_Store Metadata_Store Scope_Index Payload_Index Segment_Search Query_Selection Access_Counters Visited_Pool Graph_Belief Graph_Snapshot Optimizer Engine_Guarantees Engine_Search
begin

text \<open>
  TurboSuperMemory is a memory store for language-model agents, written in Rust. A record (text,
  embedding, concepts, optional JSON payload and scope) is written to a memory-mapped vector file
  and a write-ahead log, applied to in-memory indexes, and snapshotted to a \<open>redb\<close> database by a
  flush; searches combine tiered vector segments with filters and a concept graph. The theories
  model the storage crate (\<open>src/crates/turbomemory_storage/src\<close>), the graph crate
  (\<open>src/crates/turbomemory_graph/src\<close>) and the vector validation of the core crate.

  \<^bold>\<open>Theories and sources.\<close>
  \<^item> \<open>TSM_Prelude\<close>: machine words, byte strings, files, decimal counters, the error types
    (\<open>lib.rs\<close> of the core and storage crates) and the result type of fallible operations.
  \<^item> \<open>Floats\<close> (\<open>turbomemory_core/src/lib.rs\<close>): \<open>f32\<close> and \<open>f64\<close> as bit patterns with correctly
    rounded arithmetic, vector validation, normalization and the score comparator.
  \<^item> \<open>Records\<close> (\<open>record.rs\<close>, \<open>config.rs\<close>): records, metadata records, tiers.
  \<^item> \<open>Wal\<close> (\<open>wal.rs\<close>): the log file, its frames, the reading iterator, truncation, clearing.
  \<^item> \<open>Vector_Store\<close> (\<open>vector_store.rs\<close>): the vector file with its header, growth with failures,
    recovery of a slot by its checksum.
  \<^item> \<open>Metadata_Store\<close> (\<open>metadata_store.rs\<close>): the write-back cache with dirty sets and its database.
  \<^item> \<open>Offset_Index\<close>, \<open>Scope_Index\<close> (\<open>scope_index.rs\<close>), \<open>Payload_Index\<close> (\<open>payload_index.rs\<close>): the
    bitmap indexes and filter queries.
  \<^item> \<open>Segment_Search\<close> (\<open>segments/mod.rs\<close>, \<open>segments/hot.rs\<close>, the search part of
    \<open>segment_holder.rs\<close>): heap selection, candidate merging, Hot search, search over a snapshot.
  \<^item> \<open>Query_Selection\<close> (\<open>engine/search.rs\<close>): the bounded selection of an exact scan and the widening
    loop that fills its results.
  \<^item> \<open>Segment_Holder\<close> (the rest of \<open>segment_holder.rs\<close>): the segment lists behind pointers, sealing,
    compaction, promotion, publication of snapshots.
  \<^item> \<open>Optimizer\<close> (\<open>optimizer.rs\<close>): the build budget, sealing and merging jobs, draining, and the
    interleaving of several threads at the level of their critical sections.
  \<^item> \<open>Access_Counters\<close> (\<open>access_counters.rs\<close>), \<open>Visited_Pool\<close> (\<open>visited_pool.rs\<close>).
  \<^item> \<open>Lexical_Index\<close> (\<open>bm25.rs\<close>, the vocabulary of \<open>extract.rs\<close>), \<open>Memory_Graph\<close> and
    \<open>Graph_Belief\<close> (\<open>graph.rs\<close>): the concept graph, its mutation and views, supersession chains.
  \<^item> \<open>Graph_Snapshot\<close> (\<open>graph.rs\<close>): the binary form of the graph and its order of edges.
  \<^item> \<open>Text_Index\<close> (\<open>text_index.rs\<close>): the wrapper around Tantivy, with the counter of pending changes.
  \<^item> \<open>Activation\<close> (\<open>activation.rs\<close>): the graph together with its lexical index.
  \<^item> \<open>Engine_Durability\<close> (\<open>engine/mod.rs\<close>, first half of \<open>open\<close>): replay, repair of the log, the
    corruption checks, and the invariant that ties memory, vector file, database and log.
  \<^item> \<open>Storage_Engine\<close> (\<open>engine/write.rs\<close>, \<open>update_worker.rs\<close>, reads and \<open>flush\<close> of \<open>engine/mod.rs\<close>):
    the engine's state and operations.
  \<^item> \<open>Engine_Invariants\<close>, \<open>Engine_Indexes\<close>: the operations keep the durable invariant, the exact
    indexes, and every live record in a segment.
  \<^item> \<open>Engine_Open\<close> (\<open>engine/mod.rs\<close>): \<open>open\<close> in full, with indexes, graph and segments rebuilt.
  \<^item> \<open>Engine_System\<close>, \<open>Engine_Guarantees\<close>: the engine over time, and what it guarantees to callers.
  \<^item> \<open>Engine_Search\<close> (\<open>engine/search.rs\<close>): filters and scopes of a query, exact and segment search,
    exclusion of superseded memories, the fusion step of the cognitive search.

  \<^bold>\<open>How the parts interact.\<close> \<open>insert_with_payload_role\<close> validates a record (\<open>prepare\<close>), allocates an
  offset and a sequence number (\<open>Metadata_Store\<close>), writes the vector (\<open>Vector_Store\<close>), appends a log
  entry with the vector's checksum (\<open>Wal\<close>), and applies the record to metadata, id, payload, scope
  and text index, graph and Hot segment (\<open>apply_batch\<close>). Batches, updates (one \<open>Replace\<close> entry) and
  deletes follow the same order. \<open>engine_flush\<close> builds queued segments, drains the access counters,
  snapshots vectors, text index and metadata, and then drops the log. \<open>engine_open\<close> loads the
  snapshot, replays what the log has beyond it, and rebuilds everything else. A search evaluates its
  filter and scope to a bitmap, scans the vectors (a small store, or scores from a GPU) or searches
  the published segments, drops deleted and superseded records while it asks for more, and bumps the
  access counters of its results; the cognitive search expands these over the graph and ranks again.

  \<^bold>\<open>State and failures.\<close> Each structure is a record and each operation a function that returns the new
  state and a result. The file operations that can fail are outcome arguments (\<open>write_outcome\<close>,
  \<open>grow_outcome\<close>, \<open>txn_outcome\<close>, \<open>truncate_outcome\<close>, \<open>clear_outcome\<close>, and the environments \<open>write_env\<close>,
  \<open>flush_env\<close>, \<open>open_env\<close>, \<open>rebuild_env\<close>), so the theorems hold for every pattern of these failures. Three
  kinds of failure are left out: the cut and the seek after a failed append to the log, whose errors
  the code ignores, always take effect; creating the vector file is one step that succeeds or leaves
  no file; and the directories of half-built segments, which failed builds remove, are not part of
  the state. A write holds the write lock
  and the flush barrier for its whole body, so writes and flushes are single steps; threads inside
  the segment holder are interleaved at their critical sections (\<open>Optimizer.cstep\<close>). Words have the
  width they have in Rust and wrap; floats are bit patterns.

  \<^bold>\<open>What the engine theorems show.\<close> \<open>stored e\<close> is the content of an engine: a map from ids to records
  with vectors; access statistics and tiers, which an open rebuilds, are left out of the comparison.
  \<open>Engine_System.reach\<close> contains every state that opens, inserts, batches, updates, deletes, flushes,
  sealing and merging jobs, searches and kills lead to, one call at a time, with the failures above
  anywhere. It excludes four kinds of history: an engine that goes on after clearing the log left a
  torn header, a write whose log entry was written but, with \<open>sync_writes\<close>, not synced, a payload that
  passes the syntax check of the validation and does not parse, and \<open>trigger_consolidation\<close>. A kill is a kill of the process: bytes given to the operating system stay. It may come
  between operations, while vectors are written, at any byte of an append, and inside a flush or an
  open, but not while the vector file is created. For all these states \<open>engine_recovers\<close> shows that a
  later open has the same contents, and that an open in which nothing fails succeeds unless it finds
  vectors and no record (a store killed in its first large batch, see \<open>check_vectors\<close>); the
  \<open>crash\<close> theorems that a write cut off by a kill happened as a whole or not at all (a batch: a
  prefix of its records), the \<open>exact\<close> theorems what each operation does to the contents on each
  branch, \<open>engine_filters_exact\<close> that filters and scopes see exactly the live records,
  \<open>engine_live_visible\<close> that searches reach them when one call runs at a time (\<open>stale_publish_hides\<close>
  shows what two threads can do), and \<open>engine_entries_typed\<close> that ids, records and
  dimensions agree. \<open>engine_exact_search\<close> shows that a small store is searched exactly,
  \<open>engine_search_sound\<close> and \<open>cognitive_search_sound\<close> that every search, on whichever path, returns
  only stored records within its filter (payload conditions and full text, \<open>matches_at\<close>) and scope,
  and no superseded ones if the configuration excludes them. Below the engine, each component has its own contract: the log reads back what
  was acknowledged, also after a tear; a vector acknowledged before a kill is recovered by its
  checksum; the database loads to the cache at the last acknowledged flush; filters, merges and
  searches equal their specifications; jobs lose no record under any interleaving; supersession
  chains end; graph snapshots load back.

  \<^bold>\<open>Interfaces.\<close> Locales state what a client relies on and are interpreted on the definitions that
  provide it: \<open>durable_log\<close> (the log), \<open>slot_store\<close> (the vector file), \<open>snapshot_store\<close> (the metadata
  store with its database), \<open>offset_index\<close> (the scope and the payload index), \<open>vector_segment\<close> (the
  Hot segment, as the search over a snapshot sees it) and \<open>hops\<close> (walking the supersession edges
  forwards and backwards).

  \<^bold>\<open>Parameters and hypotheses.\<close> Code outside the repository is an argument: \<open>bincode\<close> and CRC-32
  (\<open>wal_lib\<close>, \<open>meta_codec\<close>, \<open>snap_codec\<close>), JSON (\<open>json_lib\<close>), Tantivy (\<open>tantivy_lib\<close>), the concept
  extractor, lower-casing and word splitting (\<open>engine_lib\<close>). So are, in \<open>query_lib\<close>, the scoring
  kernels, the search of a built segment, the GPU and the expansion over the graph: the theorems
  hold whatever these return, except that \<open>hot_search_exact\<close> asks the kernel to score each vector by
  itself. The hypotheses are
  \<open>lib_ok\<close> (decoding inverts encoding), \<open>store_fits\<close> (the configured size fits the file format and
  the address space), \<open>write_allowed\<close> (counters below \<open>2 ^ 64\<close>; a sync of the log does not fail after
  the append), \<open>payload_agrees\<close> (a payload that is accepted also parses), \<open>open_allowed\<close> (hash
  containers are iterated in some order; loaded segments hold offsets of the store), \<open>search_ok\<close> (the
  search of a built segment returns its own offsets, best first, within the bitmap), \<open>nothing_fails\<close> (no operation of an open fails and the codec encodes every
  record), and fewer
  than \<open>2 ^ 32\<close> offsets where the code stores offsets in 32-bit bitmaps. Witnesses show that they can
  hold together, on a store that is opened, written and reopened (\<open>demo_store\<close>).

  \<^bold>\<open>Loops.\<close> All functions are total: loops over lists are structural, the chains of the belief graph
  and the draining loops have measures, and alias resolution remembers the names it has seen, as the
  code does. The loops of a search that ask again for more candidates are partial functions, and shown
  to end. No fuel is used.

  \<^bold>\<open>Not modelled.\<close> The spreading activation that expands a cognitive search, batched search, eviction, deduplication, belief detection
  and consolidation above the segment level: floating-point scores with transcendental functions,
  hash-map order and user callbacks, over the stores and views modelled here. Quantizers, SIMD
  kernels, the HNSW index and GPU code: numerical or third-party code. Power loss between
  unsynced files, the HTTP, gRPC and Python front ends, and text extraction.
\<close>

end
